(* ===== verification/Prelude.thy ===== *)
theory Prelude
  imports Main "HOL-Library.Word" "HOL-Library.Monad_Syntax"
begin

text \<open>The shared vocabulary of the development.

  C's fixed-width integers are words, so arithmetic on them wraps exactly as in the kernel. A physical
  memory is a function from byte addresses to bytes; 32-bit fields of structures that live in it are
  read and written little-endian by \<open>load32\<close> and \<open>store32\<close>, which makes aliasing between structures
  visible. Fallible or possibly diverging code is in the option monad: \<open>None\<close> stands for undefined
  behaviour (an array access out of bounds) or for a loop that never ends, never for an error code
  the C function returns.\<close>

unbundle bit_operations_syntax

type_synonym u8 = "8 word"
type_synonym u16 = "16 word"
type_synonym u32 = "32 word"
type_synonym u64 = "64 word"
type_synonym mem = "nat \<Rightarrow> u8"

named_theorems mem_simps \<open>reads of a raw memory after writes elsewhere\<close>

section \<open>Little-endian words in a byte memory\<close>

definition le32 :: "u8 \<Rightarrow> u8 \<Rightarrow> u8 \<Rightarrow> u8 \<Rightarrow> u32" where
  "le32 b0 b1 b2 b3 = ucast b0 OR push_bit 8 (ucast b1)
     OR push_bit 16 (ucast b2) OR push_bit 24 (ucast b3)"

definition load32 :: "mem \<Rightarrow> nat \<Rightarrow> u32" where
  "load32 m a = le32 (m a) (m (a + 1)) (m (a + 2)) (m (a + 3))"

definition store32 :: "mem \<Rightarrow> nat \<Rightarrow> u32 \<Rightarrow> mem" where
  "store32 m a v = m(a := ucast v, a + 1 := ucast (drop_bit 8 v),
     a + 2 := ucast (drop_bit 16 v), a + 3 := ucast (drop_bit 24 v))"

lemma bit_le32:
  "bit (le32 b0 b1 b2 b3) n \<longleftrightarrow>
     (if n < 8 then bit b0 n else if n < 16 then bit b1 (n - 8)
      else if n < 24 then bit b2 (n - 16) else if n < 32 then bit b3 (n - 24) else False)"
proof -
  consider "n < 8" | "8 \<le> n" "n < 16" | "16 \<le> n" "n < 24" | "24 \<le> n" "n < 32" | "32 \<le> n"
    by linarith
  then show ?thesis
    by cases (auto simp: le32_def bit_simps dest: bit_imp_le_length)
qed

lemma le32_bytes [simp]:
  "le32 (ucast v) (ucast (drop_bit 8 v)) (ucast (drop_bit 16 v)) (ucast (drop_bit 24 v)) = v"
  by (rule bit_word_eqI) (auto simp: bit_le32 bit_simps)

lemma le32_byte0 [simp]: "ucast (le32 b0 b1 b2 b3) = b0"
  by (rule bit_word_eqI) (auto simp: bit_le32 bit_simps)

lemma le32_byte1 [simp]: "ucast (drop_bit 8 (le32 b0 b1 b2 b3)) = b1"
  by (rule bit_word_eqI) (auto simp: bit_le32 bit_simps)

lemma le32_byte2 [simp]: "ucast (drop_bit 16 (le32 b0 b1 b2 b3)) = b2"
  by (rule bit_word_eqI) (auto simp: bit_le32 bit_simps)

lemma le32_byte3 [simp]: "ucast (drop_bit 24 (le32 b0 b1 b2 b3)) = b3"
  by (rule bit_word_eqI) (auto simp: bit_le32 bit_simps)

lemma load32_store32_same [simp]: "load32 (store32 m a v) a = v"
  by (simp add: load32_def store32_def)

lemma load32_store32_other [mem_simps]:
  "a + 4 \<le> b \<or> b + 4 \<le> a \<Longrightarrow> load32 (store32 m a v) b = load32 m b"
  unfolding load32_def store32_def by auto

section \<open>Masks and bounds of words\<close>

lemma and_exp_eq_0_iff: "((w :: 'a::len word) AND 2 ^ n = 0) \<longleftrightarrow> \<not> bit w n"
  by (simp add: bit_iff_and_push_bit_not_eq_0)

lemma and_not_mask_eq: "(x :: 'a::len word) AND NOT (mask n) = push_bit n (drop_bit n x)"
  by (rule bit_word_eqI) (auto simp: bit_simps)

lemma unat_and_not_mask: "unat ((x :: 'a::len word) AND NOT (mask n)) = unat x div 2 ^ n * 2 ^ n"
proof -
  have "unat x div 2 ^ n * 2 ^ n < 2 ^ LENGTH('a)"
    by (rule le_less_trans [OF _ unsigned_less [of x]]) simp
  then show ?thesis
    unfolding and_not_mask_eq unsigned_push_bit_eq unsigned_drop_bit_eq
    by (simp add: take_bit_eq_mod drop_bit_eq_div push_bit_eq_mult)
qed

lemma unat_u32_less [simp]: "unat (x :: u32) < 4294967296"
  using unsigned_less [of x, where ?'a = nat] by simp

lemma no_wrap: "a \<le> a + b \<longleftrightarrow> unat a + unat b < 2 ^ 32" for a :: u32
proof -
  define v n where "v = unat a" and "n = unat b"
  have "n < 4294967296" using unsigned_less [of b, where ?'a = nat] by (simp add: n_def)
  moreover have "unat (a + b) = (if v + n < 4294967296 then v + n else v + n - 4294967296)"
    using unat_plus_if' [of a b] by (simp add: v_def n_def)
  ultimately show ?thesis unfolding word_le_nat_alt v_def [symmetric] n_def [symmetric] by auto
qed

lemma unat_u32_pos: "(x :: u32) \<noteq> 0 \<longleftrightarrow> 0 < unat x"
  by (simp add: unat_gt_0)

section \<open>I/O ports\<close>

text \<open>The hardware behind the I/O ports is a parameter: a record of the port instructions of
  \<open>src/include/myos/io.h\<close> and of the drivers, over the state of that hardware. Reading a port may change
  the hardware.\<close>

record 'h ports =
  inb :: "u16 \<Rightarrow> 'h \<Rightarrow> u8 \<times> 'h"
  outb :: "u16 \<Rightarrow> u8 \<Rightarrow> 'h \<Rightarrow> 'h"
  inw :: "u16 \<Rightarrow> 'h \<Rightarrow> u16 \<times> 'h"
  outw :: "u16 \<Rightarrow> u16 \<Rightarrow> 'h \<Rightarrow> 'h"

end
