(* ===== verification/Pmm.thy ===== *)
theory Pmm
  imports Prelude
begin

text \<open>The physical page allocator, \<open>src/kernel/mm/pmm.c\<close>: a bitmap with one bit per 4 KiB page below
  the 128 MiB identity limit, filled from the BIOS E820 map and searched first-fit. The file's static
  variables are the record \<open>pmm\<close>; page numbers are natural numbers since every loop over them is
  bounded by 32-bit bounds divided by the page size, while addresses and counts stay 32-bit words.
  The C end symbol \<open>_kernel_end\<close> and the E820 table are arguments of \<open>pmm_initialize\<close>.\<close>

section \<open>Model\<close>

abbreviation (input) PMM_PAGE_SIZE :: u32 where "PMM_PAGE_SIZE \<equiv> 4096"
abbreviation (input) PAGING_IDENTITY_LIMIT :: u32 where "PAGING_IDENTITY_LIMIT \<equiv> 0x08000000"
abbreviation (input) PMM_MANAGED_LIMIT :: u32 where "PMM_MANAGED_LIMIT \<equiv> PAGING_IDENTITY_LIMIT"
abbreviation (input) PMM_MAX_PAGES :: nat where "PMM_MAX_PAGES \<equiv> 32768"
abbreviation (input) E820_MEMORY_USABLE :: u32 where "E820_MEMORY_USABLE \<equiv> 1"
abbreviation (input) E820_MAX_ENTRIES :: nat where "E820_MAX_ENTRIES \<equiv> 32"

record e820_entry =
  base :: u64
  elength :: u64
  etype :: u32
  acpi :: u32

record pmm =
  page_bitmap :: "u32 list"
  managed_start :: u32
  managed_end :: u32
  total_pages_count :: u32
  used_pages_count :: u32
  e820_entry_count :: u32

definition align_up :: "u32 \<Rightarrow> u32 \<Rightarrow> u32" where
  "align_up value alignment = (value + alignment - 1) AND NOT (alignment - 1)"

definition bitmap_set :: "nat \<Rightarrow> pmm \<Rightarrow> pmm option" where
  "bitmap_set page_index st =
     (let i = page_index div 32 in
      if i < length (page_bitmap st)
      then Some (st\<lparr>page_bitmap := (page_bitmap st)[i := page_bitmap st ! i OR push_bit (page_index mod 32) 1]\<rparr>)
      else None)"

definition bitmap_clear :: "nat \<Rightarrow> pmm \<Rightarrow> pmm option" where
  "bitmap_clear page_index st =
     (let i = page_index div 32 in
      if i < length (page_bitmap st)
      then Some (st\<lparr>page_bitmap := (page_bitmap st)[i := page_bitmap st ! i AND NOT (push_bit (page_index mod 32) 1)]\<rparr>)
      else None)"

definition bitmap_test :: "nat \<Rightarrow> pmm \<Rightarrow> bool option" where
  "bitmap_test page_index st =
     (let i = page_index div 32 in
      if i < length (page_bitmap st)
      then Some ((page_bitmap st ! i) AND push_bit (page_index mod 32) 1 \<noteq> 0)
      else None)"

fun mark_pages :: "nat \<Rightarrow> nat \<Rightarrow> pmm \<Rightarrow> pmm option" where
  "mark_pages page 0 st = Some st"
| "mark_pages page (Suc n) st =
     do { used \<leftarrow> bitmap_test page st;
          st' \<leftarrow> (if used
                 then map_option (\<lambda>s. s\<lparr>total_pages_count := total_pages_count s + 1\<rparr>) (bitmap_clear page st)
                 else Some st);
          mark_pages (Suc page) n st' }"

definition mark_usable_region :: "u32 \<Rightarrow> u32 \<Rightarrow> pmm \<Rightarrow> pmm option" where
  "mark_usable_region start0 end0 st =
     (let start1 = align_up start0 PMM_PAGE_SIZE;
          end1 = end0 AND NOT (PMM_PAGE_SIZE - 1);
          start2 = (if start1 < managed_start st then managed_start st else start1);
          end2 = (if end1 > PMM_MANAGED_LIMIT then PMM_MANAGED_LIMIT else end1)
      in if end2 \<le> start2 then Some st
         else let st1 = (if end2 > managed_end st then st\<lparr>managed_end := end2\<rparr> else st);
                  first_page = unat (start2 div PMM_PAGE_SIZE);
                  last_page = unat (end2 div PMM_PAGE_SIZE)
              in mark_pages first_page (last_page - first_page) st1)"

fun mark_entries :: "e820_entry list \<Rightarrow> nat \<Rightarrow> nat \<Rightarrow> pmm \<Rightarrow> pmm option" where
  "mark_entries entries i 0 st = Some st"
| "mark_entries entries i (Suc n) st =
     (if i < length entries then
        let e = entries ! i in
        if etype e \<noteq> E820_MEMORY_USABLE \<or> elength e = 0 then mark_entries entries (Suc i) n st
        else if base e \<ge> ucast PMM_MANAGED_LIMIT then mark_entries entries (Suc i) n st
        else let end64 = base e + elength e;
                 start = ucast (base e) :: u32;
                 end = (if end64 > ucast PMM_MANAGED_LIMIT then PMM_MANAGED_LIMIT else ucast end64)
             in do { st' \<leftarrow> mark_usable_region start end st; mark_entries entries (Suc i) n st' }
      else None)"

definition pmm_initialize :: "u32 \<Rightarrow> e820_entry list \<Rightarrow> u32 \<Rightarrow> pmm option" where
  "pmm_initialize kernel_end entries entry_count =
     (let start = align_up kernel_end PMM_PAGE_SIZE;
          st0 = \<lparr>page_bitmap = replicate (PMM_MAX_PAGES div 32) 0xFFFFFFFF,
                 managed_start = start, managed_end = start,
                 total_pages_count = 0, used_pages_count = 0, e820_entry_count = entry_count\<rparr>
      in do { st \<leftarrow> mark_entries entries 0 (min (unat entry_count) E820_MAX_ENTRIES) st0;
              if total_pages_count st = 0
              then mark_usable_region (managed_start st) 0x00400000 st
              else Some st })"

definition pmm_e820_entries :: "pmm \<Rightarrow> u32" where
  "pmm_e820_entries st = e820_entry_count st"

function free_run :: "nat \<Rightarrow> nat \<Rightarrow> nat \<Rightarrow> nat \<Rightarrow> pmm \<Rightarrow> nat option" where
  "free_run page last_page count run st =
     (if page + run < last_page
      then do { used \<leftarrow> bitmap_test (page + run) st;
                if \<not> used \<and> run < count then free_run page last_page count (run + 1) st else Some run }
      else Some run)"
  by pat_completeness auto
termination
  by (relation "measure (\<lambda>(page, last_page, count, run, st). count - run)") auto

fun set_pages :: "nat \<Rightarrow> nat \<Rightarrow> pmm \<Rightarrow> pmm option" where
  "set_pages page 0 st = Some st"
| "set_pages page (Suc n) st = do { st' \<leftarrow> bitmap_set page st; set_pages (Suc page) n st' }"

function alloc_scan :: "nat \<Rightarrow> nat \<Rightarrow> u32 \<Rightarrow> pmm \<Rightarrow> (u32 \<times> pmm) option" where
  "alloc_scan page last_page count st =
     (if page < last_page
      then do { run \<leftarrow> free_run page last_page (unat count) 0 st;
                if run = unat count
                then do { st' \<leftarrow> set_pages page (unat count) st;
                          Some (of_nat page * PMM_PAGE_SIZE,
                                st'\<lparr>used_pages_count := used_pages_count st' + count\<rparr>) }
                else alloc_scan ((if run > 0 then page + run else page) + 1) last_page count st }
      else Some (0, st))"
  by pat_completeness auto
termination
  by (relation "measure (\<lambda>(page, last_page, count, st). last_page - page)") auto

definition pmm_alloc_pages :: "u32 \<Rightarrow> pmm \<Rightarrow> (u32 \<times> pmm) option" where
  "pmm_alloc_pages count st =
     (let first_page = unat (managed_start st div PMM_PAGE_SIZE);
          last_page = unat (managed_end st div PMM_PAGE_SIZE)
      in if count = 0 \<or> count > total_pages_count st then Some (0, st)
         else alloc_scan first_page last_page count st)"

definition pmm_alloc_page :: "pmm \<Rightarrow> (u32 \<times> pmm) option" where
  "pmm_alloc_page st = pmm_alloc_pages 1 st"

fun free_block :: "nat \<Rightarrow> nat \<Rightarrow> pmm \<Rightarrow> pmm option" where
  "free_block page 0 st = Some st"
| "free_block page (Suc n) st =
     do { used \<leftarrow> bitmap_test page st;
          st' \<leftarrow> (if used
                 then map_option (\<lambda>s. s\<lparr>used_pages_count := used_pages_count s - 1\<rparr>) (bitmap_clear page st)
                 else Some st);
          free_block (Suc page) n st' }"

definition pmm_free_pages_block :: "u32 \<Rightarrow> u32 \<Rightarrow> pmm \<Rightarrow> pmm option" where
  "pmm_free_pages_block address count st =
     (if count = 0 \<or> address < managed_start st \<or> address \<ge> managed_end st \<or> address mod PMM_PAGE_SIZE \<noteq> 0
      then Some st
      else if address + count * PMM_PAGE_SIZE > managed_end st then Some st
      else free_block (unat (address div PMM_PAGE_SIZE)) (unat count) st)"

definition pmm_free_page :: "u32 \<Rightarrow> pmm \<Rightarrow> pmm option" where
  "pmm_free_page page st = pmm_free_pages_block page 1 st"

definition pmm_total_pages :: "pmm \<Rightarrow> u32" where
  "pmm_total_pages st = total_pages_count st"

definition pmm_used_pages :: "pmm \<Rightarrow> u32" where
  "pmm_used_pages st = used_pages_count st"

definition pmm_free_pages :: "pmm \<Rightarrow> u32" where
  "pmm_free_pages st = total_pages_count st - used_pages_count st"

definition pmm_managed_start :: "pmm \<Rightarrow> u32" where
  "pmm_managed_start st = managed_start st"

definition pmm_managed_end :: "pmm \<Rightarrow> u32" where
  "pmm_managed_end st = managed_end st"

section \<open>The bitmap as a set of pages\<close>

definition bm_used :: "u32 list \<Rightarrow> nat \<Rightarrow> bool" where
  "bm_used bm p \<longleftrightarrow> bit (bm ! (p div 32)) (p mod 32)"

lemma word_index_less: "p < 32 * length (page_bitmap st) \<Longrightarrow> p div 32 < length (page_bitmap st)"
  by (simp add: less_mult_imp_div_less mult.commute)

lemma bitmap_test_ok:
  "p < 32 * length (page_bitmap st) \<Longrightarrow> bitmap_test p st = Some (bm_used (page_bitmap st) p)"
  by (simp add: bitmap_test_def bm_used_def and_exp_eq_0_iff Let_def word_index_less)

lemma div_mod_eq_iff: "(q::nat) div 32 = p div 32 \<Longrightarrow> q mod 32 = p mod 32 \<longleftrightarrow> q = p"
  by (metis div_mult_mod_eq)

lemma bitmap_clear_ok:
  assumes "p < 32 * length (page_bitmap st)"
  obtains bm where "bitmap_clear p st = Some (st\<lparr>page_bitmap := bm\<rparr>)"
    "length bm = length (page_bitmap st)"
    "\<And>q. bm_used bm q \<longleftrightarrow> bm_used (page_bitmap st) q \<and> q \<noteq> p"
proof (rule that)
  note i = word_index_less [OF assms]
  let ?bm = "(page_bitmap st)[p div 32 := page_bitmap st ! (p div 32) AND NOT (push_bit (p mod 32) 1)]"
  show "bitmap_clear p st = Some (st\<lparr>page_bitmap := ?bm\<rparr>)"
    using i by (simp add: bitmap_clear_def Let_def)
  show "length ?bm = length (page_bitmap st)" by simp
  show "bm_used ?bm q \<longleftrightarrow> bm_used (page_bitmap st) q \<and> q \<noteq> p" for q
    using i by (auto simp: bm_used_def nth_list_update bit_simps div_mod_eq_iff)
qed

lemma bitmap_set_ok:
  assumes "p < 32 * length (page_bitmap st)"
  obtains bm where "bitmap_set p st = Some (st\<lparr>page_bitmap := bm\<rparr>)"
    "length bm = length (page_bitmap st)"
    "\<And>q. bm_used bm q \<longleftrightarrow> bm_used (page_bitmap st) q \<or> q = p"
proof (rule that)
  note i = word_index_less [OF assms]
  let ?bm = "(page_bitmap st)[p div 32 := page_bitmap st ! (p div 32) OR push_bit (p mod 32) 1]"
  show "bitmap_set p st = Some (st\<lparr>page_bitmap := ?bm\<rparr>)"
    using i by (simp add: bitmap_set_def Let_def)
  show "length ?bm = length (page_bitmap st)" by simp
  show "bm_used ?bm q \<longleftrightarrow> bm_used (page_bitmap st) q \<or> q = p" for q
    using i by (auto simp: bm_used_def nth_list_update bit_simps div_mod_eq_iff)
qed

section \<open>The loops\<close>

lemma mark_pages_ok:
  assumes "page + n \<le> 32 * length (page_bitmap st)"
  shows "\<exists>bm. mark_pages page n st = Some (st\<lparr>page_bitmap := bm, total_pages_count :=
             total_pages_count st + of_nat (card {p \<in> {page..<page + n}. bm_used (page_bitmap st) p})\<rparr>)
    \<and> length bm = length (page_bitmap st)
    \<and> (\<forall>q. bm_used bm q \<longleftrightarrow> bm_used (page_bitmap st) q \<and> q \<notin> {page..<page + n})"
  using assms
proof (induction n arbitrary: page st)
  case 0
  show ?case by (intro exI [of _ "page_bitmap st"]) simp
next
  case (Suc n)
  let ?U = "\<lambda>st. bm_used (page_bitmap st)"
  let ?S = "{p \<in> {page..<page + Suc n}. ?U st p}" and ?S' = "{p \<in> {Suc page..<Suc page + n}. ?U st p}"
  have t: "bitmap_test page st = Some (?U st page)"
    using Suc.prems by (intro bitmap_test_ok) simp
  show ?case
  proof (cases "?U st page")
    case True
    obtain bm where bm: "bitmap_clear page st = Some (st\<lparr>page_bitmap := bm\<rparr>)"
      "length bm = length (page_bitmap st)" "\<And>q. bm_used bm q \<longleftrightarrow> ?U st q \<and> q \<noteq> page"
      using Suc.prems by (auto intro: bitmap_clear_ok [of page st])
    let ?st = "st\<lparr>page_bitmap := bm, total_pages_count := total_pages_count st + 1\<rparr>"
    have S: "?S = insert page {p \<in> {Suc page..<Suc page + n}. bm_used bm p}"
      using True by (auto simp: bm(3) le_eq_less_or_eq)
    have C: "of_nat (card ?S) = (1 :: u32) + of_nat (card {p \<in> {Suc page..<Suc page + n}. bm_used bm p})"
      unfolding S by simp
    obtain bm' where IH: "mark_pages (Suc page) n ?st = Some (?st\<lparr>page_bitmap := bm', total_pages_count :=
        total_pages_count ?st + of_nat (card {p \<in> {Suc page..<Suc page + n}. bm_used bm p})\<rparr>)"
      "length bm' = length bm" "\<And>q. bm_used bm' q \<longleftrightarrow> bm_used bm q \<and> q \<notin> {Suc page..<Suc page + n}"
      using Suc.IH [of "Suc page" ?st] Suc.prems bm(2) by auto
    show ?thesis
    proof (intro exI [of _ bm'] conjI allI)
      show "mark_pages page (Suc n) st = Some (st\<lparr>page_bitmap := bm', total_pages_count :=
          total_pages_count st + of_nat (card ?S)\<rparr>)"
        unfolding C using IH(1) by (simp add: t True bm(1) add.assoc)
      show "bm_used bm' q \<longleftrightarrow> ?U st q \<and> q \<notin> {page..<page + Suc n}" for q
        unfolding IH(3) bm(3) atLeastLessThan_iff by auto
    qed (simp add: IH bm)
  next
    case False
    then have S: "?S = ?S'" by (auto simp: Suc_le_eq le_less)
    obtain bm' where IH: "mark_pages (Suc page) n st = Some (st\<lparr>page_bitmap := bm', total_pages_count :=
        total_pages_count st + of_nat (card ?S')\<rparr>)"
      "length bm' = length (page_bitmap st)" "\<And>q. bm_used bm' q \<longleftrightarrow> ?U st q \<and> q \<notin> {Suc page..<Suc page + n}"
      using Suc.IH [of "Suc page" st] Suc.prems by auto
    show ?thesis
    proof (intro exI [of _ bm'] conjI allI)
      show "mark_pages page (Suc n) st = Some (st\<lparr>page_bitmap := bm', total_pages_count :=
          total_pages_count st + of_nat (card ?S)\<rparr>)"
        unfolding S using IH(1) by (simp add: t False)
      show "bm_used bm' q \<longleftrightarrow> ?U st q \<and> q \<notin> {page..<page + Suc n}" for q
        unfolding IH(3) atLeastLessThan_iff using False not_less_eq_eq le_antisym by auto
    qed (rule IH)
  qed
qed

lemma free_block_ok:
  assumes "page + n \<le> 32 * length (page_bitmap st)"
  shows "\<exists>bm. free_block page n st = Some (st\<lparr>page_bitmap := bm, used_pages_count :=
             used_pages_count st - of_nat (card {p \<in> {page..<page + n}. bm_used (page_bitmap st) p})\<rparr>)
    \<and> length bm = length (page_bitmap st)
    \<and> (\<forall>q. bm_used bm q \<longleftrightarrow> bm_used (page_bitmap st) q \<and> q \<notin> {page..<page + n})"
  using assms
proof (induction n arbitrary: page st)
  case 0
  show ?case by (intro exI [of _ "page_bitmap st"]) simp
next
  case (Suc n)
  let ?U = "\<lambda>st. bm_used (page_bitmap st)"
  let ?S = "{p \<in> {page..<page + Suc n}. ?U st p}" and ?S' = "{p \<in> {Suc page..<Suc page + n}. ?U st p}"
  have t: "bitmap_test page st = Some (?U st page)"
    using Suc.prems by (intro bitmap_test_ok) simp
  show ?case
  proof (cases "?U st page")
    case True
    obtain bm where bm: "bitmap_clear page st = Some (st\<lparr>page_bitmap := bm\<rparr>)"
      "length bm = length (page_bitmap st)" "\<And>q. bm_used bm q \<longleftrightarrow> ?U st q \<and> q \<noteq> page"
      using Suc.prems by (auto intro: bitmap_clear_ok [of page st])
    let ?st = "st\<lparr>page_bitmap := bm, used_pages_count := used_pages_count st - 1\<rparr>"
    have S: "?S = insert page {p \<in> {Suc page..<Suc page + n}. bm_used bm p}"
      using True by (auto simp: bm(3) le_eq_less_or_eq)
    have C: "of_nat (card ?S) = (1 :: u32) + of_nat (card {p \<in> {Suc page..<Suc page + n}. bm_used bm p})"
      unfolding S by simp
    obtain bm' where IH: "free_block (Suc page) n ?st = Some (?st\<lparr>page_bitmap := bm', used_pages_count :=
        used_pages_count ?st - of_nat (card {p \<in> {Suc page..<Suc page + n}. bm_used bm p})\<rparr>)"
      "length bm' = length bm" "\<And>q. bm_used bm' q \<longleftrightarrow> bm_used bm q \<and> q \<notin> {Suc page..<Suc page + n}"
      using Suc.IH [of "Suc page" ?st] Suc.prems bm(2) by auto
    show ?thesis
    proof (intro exI [of _ bm'] conjI allI)
      show "free_block page (Suc n) st = Some (st\<lparr>page_bitmap := bm', used_pages_count :=
          used_pages_count st - of_nat (card ?S)\<rparr>)"
        unfolding C using IH(1) by (simp add: t True bm(1) diff_diff_eq)
      show "bm_used bm' q \<longleftrightarrow> ?U st q \<and> q \<notin> {page..<page + Suc n}" for q
        unfolding IH(3) bm(3) atLeastLessThan_iff by auto
    qed (simp add: IH bm)
  next
    case False
    then have S: "?S = ?S'" by (auto simp: Suc_le_eq le_less)
    obtain bm' where IH: "free_block (Suc page) n st = Some (st\<lparr>page_bitmap := bm', used_pages_count :=
        used_pages_count st - of_nat (card ?S')\<rparr>)"
      "length bm' = length (page_bitmap st)" "\<And>q. bm_used bm' q \<longleftrightarrow> ?U st q \<and> q \<notin> {Suc page..<Suc page + n}"
      using Suc.IH [of "Suc page" st] Suc.prems by auto
    show ?thesis
    proof (intro exI [of _ bm'] conjI allI)
      show "free_block page (Suc n) st = Some (st\<lparr>page_bitmap := bm', used_pages_count :=
          used_pages_count st - of_nat (card ?S)\<rparr>)"
        unfolding S using IH(1) by (simp add: t False)
      show "bm_used bm' q \<longleftrightarrow> ?U st q \<and> q \<notin> {page..<page + Suc n}" for q
        unfolding IH(3) atLeastLessThan_iff using False not_less_eq_eq le_antisym by auto
    qed (rule IH)
  qed
qed

lemma set_pages_ok:
  assumes "page + n \<le> 32 * length (page_bitmap st)"
  shows "\<exists>bm. set_pages page n st = Some (st\<lparr>page_bitmap := bm\<rparr>)
    \<and> length bm = length (page_bitmap st)
    \<and> (\<forall>q. bm_used bm q \<longleftrightarrow> bm_used (page_bitmap st) q \<or> q \<in> {page..<page + n})"
  using assms
proof (induction n arbitrary: page st)
  case 0
  show ?case by (intro exI [of _ "page_bitmap st"]) simp
next
  case (Suc n)
  obtain bm where bm: "bitmap_set page st = Some (st\<lparr>page_bitmap := bm\<rparr>)"
    "length bm = length (page_bitmap st)" "\<And>q. bm_used bm q \<longleftrightarrow> bm_used (page_bitmap st) q \<or> q = page"
    using Suc.prems by (auto intro: bitmap_set_ok [of page st])
  obtain bm' where IH: "set_pages (Suc page) n (st\<lparr>page_bitmap := bm\<rparr>) = Some (st\<lparr>page_bitmap := bm'\<rparr>)"
    "length bm' = length bm" "\<And>q. bm_used bm' q \<longleftrightarrow> bm_used bm q \<or> q \<in> {Suc page..<Suc page + n}"
    using Suc.IH [of "Suc page" "st\<lparr>page_bitmap := bm\<rparr>"] Suc.prems bm(2) by auto
  show ?case
    by (intro exI [of _ bm'] conjI allI) (auto simp: bm IH)
qed

declare free_run.simps [simp del] alloc_scan.simps [simp del]

lemma free_run_ok:
  assumes "lst \<le> 32 * length (page_bitmap st)" and "run \<le> count" and "page + run \<le> lst"
    and "\<forall>i<run. \<not> bm_used (page_bitmap st) (page + i)"
  shows "\<exists>r. free_run page lst count run st = Some r \<and> r \<le> count \<and> page + r \<le> lst
    \<and> (\<forall>i<r. \<not> bm_used (page_bitmap st) (page + i))
    \<and> (r = count \<or> page + r = lst \<or> bm_used (page_bitmap st) (page + r))"
  using assms
proof (induction page lst count run st rule: free_run.induct)
  case (1 page lst count run st)
  show ?case
  proof (cases "page + run < lst")
    case True
    then have t: "bitmap_test (page + run) st = Some (bm_used (page_bitmap st) (page + run))"
      using "1.prems" by (intro bitmap_test_ok) simp
    show ?thesis
    proof (cases "\<not> bm_used (page_bitmap st) (page + run) \<and> run < count")
      case step: True
      have "\<forall>i<run + 1. \<not> bm_used (page_bitmap st) (page + i)"
        using "1.prems"(4) step by (auto simp: less_Suc_eq)
      from "1.IH" [OF True t step "1.prems"(1)] this step True show ?thesis
        by (subst free_run.simps) (simp add: t)
    next
      case False
      then show ?thesis using "1.prems" True
        by (subst free_run.simps) (auto simp: t)
    qed
  next
    case False
    then show ?thesis using "1.prems" by (subst free_run.simps) auto
  qed
qed

definition run_free :: "u32 list \<Rightarrow> nat \<Rightarrow> nat \<Rightarrow> bool" where
  "run_free bm q n \<longleftrightarrow> (\<forall>i<n. \<not> bm_used bm (q + i))"

lemma alloc_scan_ok:
  assumes "lst \<le> 32 * length (page_bitmap st)" and "count \<noteq> 0"
  shows "(\<exists>q bm. page \<le> q \<and> q + unat count \<le> lst \<and> run_free (page_bitmap st) q (unat count)
      \<and> (\<forall>q'. page \<le> q' \<and> q' < q \<longrightarrow> \<not> run_free (page_bitmap st) q' (unat count))
      \<and> alloc_scan page lst count st = Some (of_nat q * PMM_PAGE_SIZE,
            st\<lparr>page_bitmap := bm, used_pages_count := used_pages_count st + count\<rparr>)
      \<and> length bm = length (page_bitmap st)
      \<and> (\<forall>p. bm_used bm p \<longleftrightarrow> bm_used (page_bitmap st) p \<or> p \<in> {q..<q + unat count}))
    \<or> (alloc_scan page lst count st = Some (0, st)
      \<and> (\<forall>q. page \<le> q \<and> q + unat count \<le> lst \<longrightarrow> \<not> run_free (page_bitmap st) q (unat count)))"
  using assms
proof (induction page lst count st rule: alloc_scan.induct)
  case (1 page lst count st)
  let ?bm = "page_bitmap st" and ?n = "unat count"
  have n: "0 < ?n" using "1.prems"(2) by (simp add: unat_gt_0)
  show ?case
  proof (cases "page < lst")
    case False
    then show ?thesis using n by (intro disjI2) (auto simp: alloc_scan.simps [of page])
  next
    case True
    obtain r where r: "free_run page lst ?n 0 st = Some r" "r \<le> ?n" "page + r \<le> lst"
      "\<forall>i<r. \<not> bm_used ?bm (page + i)" "r = ?n \<or> page + r = lst \<or> bm_used ?bm (page + r)"
      using free_run_ok [of lst st 0 ?n page] "1.prems"(1) True by auto
    show ?thesis
    proof (cases "r = ?n")
      case found: True
      obtain bm where bm: "set_pages page ?n st = Some (st\<lparr>page_bitmap := bm\<rparr>)"
        "length bm = length ?bm" "\<forall>q. bm_used bm q \<longleftrightarrow> bm_used ?bm q \<or> q \<in> {page..<page + ?n}"
        using set_pages_ok [of page ?n st] r(3) found "1.prems"(1) by auto
      have "run_free ?bm page ?n" using r(4) found by (simp add: run_free_def)
      then show ?thesis using True found r bm
        by (intro disjI1 exI [of _ page] exI [of _ bm]) (simp add: alloc_scan.simps [of page], meson leD)
    next
      case next_page: False
      have skip: "\<not> run_free ?bm q ?n" if "page \<le> q" "q \<le> page + r" "q + ?n \<le> lst" for q
      proof -
        from next_page r(2) that have "page + r < lst" by linarith
        with r(5) next_page have "bm_used ?bm (q + (page + r - q))" using that by simp
        moreover have "page + r - q < ?n" using that next_page r(2) by linarith
        ultimately show ?thesis by (auto simp: run_free_def)
      qed
      let ?page = "(if r > 0 then page + r else page) + 1"
      have step: "alloc_scan page lst count st = alloc_scan ?page lst count st"
        using True r(1) next_page by (subst alloc_scan.simps) simp
      have gt: "?page = Suc (page + r)" by simp
      have low: "\<not> run_free ?bm q' ?n" if "page \<le> q'" "q' < q" "q + ?n \<le> lst"
        and "\<forall>q'. ?page \<le> q' \<and> q' < q \<longrightarrow> \<not> run_free ?bm q' ?n" for q q'
        using that skip [of q'] by (cases "q' \<le> page + r") (auto simp: gt)
      show ?thesis
        using "1.IH" [OF True r(1) next_page "1.prems"]
      proof (elim disjE exE conjE)
        fix q bm
        assume q: "?page \<le> q" "q + ?n \<le> lst" "run_free ?bm q ?n"
          "\<forall>q'. ?page \<le> q' \<and> q' < q \<longrightarrow> \<not> run_free ?bm q' ?n"
          and res: "alloc_scan ?page lst count st = Some (of_nat q * PMM_PAGE_SIZE,
            st\<lparr>page_bitmap := bm, used_pages_count := used_pages_count st + count\<rparr>)"
            "length bm = length ?bm"
            "\<forall>p. bm_used bm p \<longleftrightarrow> bm_used ?bm p \<or> p \<in> {q..<q + ?n}"
        have "page \<le> q" using q(1) unfolding gt by simp
        then show ?thesis using q res low [OF _ _ q(2,4)] unfolding step
          by (intro disjI1 exI [of _ q] exI [of _ bm] conjI) auto
      next
        assume "alloc_scan ?page lst count st = Some (0, st)"
          and "\<forall>q. ?page \<le> q \<and> q + ?n \<le> lst \<longrightarrow> \<not> run_free ?bm q ?n"
        then show ?thesis unfolding step gt using skip by (metis not_less_eq_eq)
      qed
    qed
  qed
qed

section \<open>Invariant and allocation\<close>

text \<open>\<open>U\<close> is the set of pages the boot map declared usable; \<open>avail st\<close> the pages whose bit is clear.\<close>

definition avail :: "pmm \<Rightarrow> nat set" where
  "avail st = {p. p < PMM_MAX_PAGES \<and> \<not> bm_used (page_bitmap st) p}"

definition pages_of :: "u32 \<Rightarrow> u32 \<Rightarrow> nat set" where
  "pages_of a n = {unat a div 4096..<unat a div 4096 + unat n}"

definition managed_pages :: "pmm \<Rightarrow> nat set" where
  "managed_pages st = {unat (managed_start st) div 4096..<unat (managed_end st) div 4096}"

definition pmm_inv :: "nat set \<Rightarrow> pmm \<Rightarrow> bool" where
  "pmm_inv U st \<longleftrightarrow> length (page_bitmap st) = PMM_MAX_PAGES div 32
     \<and> 0 < unat (managed_start st) \<and> 4096 dvd unat (managed_start st) \<and> 4096 dvd unat (managed_end st)
     \<and> managed_start st \<le> managed_end st
     \<and> (managed_end st = managed_start st \<or> managed_end st \<le> PMM_MANAGED_LIMIT)
     \<and> avail st \<subseteq> U \<and> U \<subseteq> managed_pages st
     \<and> unat (total_pages_count st) = card U
     \<and> unat (used_pages_count st) = card (U - avail st)"

lemma unat_div_4096 [simp]: "unat ((x :: u32) div 4096) = unat x div 4096"
  by (simp add: unat_div)

lemma pmm_inv_bounds:
  assumes "pmm_inv U st"
  shows "length (page_bitmap st) = 1024" and "finite U" and "U \<subseteq> {..<PMM_MAX_PAGES}"
    and "0 \<notin> managed_pages st" and "managed_pages st \<subseteq> {..<PMM_MAX_PAGES}"
proof -
  have e: "unat (managed_end st) div 4096 \<le> PMM_MAX_PAGES"
    if "managed_end st \<noteq> managed_start st"
  proof -
    have "unat (managed_end st) \<le> unat PMM_MANAGED_LIMIT"
      using assms that by (simp add: pmm_inv_def word_le_nat_alt)
    then show ?thesis by (simp add: div_le_mono [of _ "4096 * PMM_MAX_PAGES", simplified])
  qed
  then show mp: "managed_pages st \<subseteq> {..<PMM_MAX_PAGES}"
    by (cases "managed_end st = managed_start st") (auto simp: managed_pages_def)
  show "length (page_bitmap st) = 1024" using assms by (simp add: pmm_inv_def)
  have U: "U \<subseteq> managed_pages st" using assms by (simp add: pmm_inv_def)
  with mp show "U \<subseteq> {..<PMM_MAX_PAGES}" by blast
  then show "finite U" by (rule finite_subset) simp
  have "4096 dvd unat (managed_start st)" "0 < unat (managed_start st)"
    using assms by (auto simp: pmm_inv_def)
  then have "0 < unat (managed_start st) div 4096" by (simp add: dvd_imp_le div_greater_zero_iff)
  then show "0 \<notin> managed_pages st" by (simp add: managed_pages_def)
qed

lemma unat_page_address:
  assumes "q < PMM_MAX_PAGES"
  shows "unat (of_nat q * 4096 :: u32) = q * 4096"
  using assms by (simp add: unat_word_ariths unat_of_nat)

lemma run_free_iff:
  assumes "q + m \<le> PMM_MAX_PAGES"
  shows "run_free (page_bitmap st) q m \<longleftrightarrow> {q..<q + m} \<subseteq> avail st"
proof
  assume r: "run_free (page_bitmap st) q m"
  show "{q..<q + m} \<subseteq> avail st"
  proof
    fix p assume "p \<in> {q..<q + m}"
    then have "p = q + (p - q)" "p - q < m" "p < PMM_MAX_PAGES" using assms by auto
    with r show "p \<in> avail st" unfolding run_free_def avail_def by (metis (mono_tags, lifting) mem_Collect_eq)
  qed
next
  assume s: "{q..<q + m} \<subseteq> avail st"
  show "run_free (page_bitmap st) q m"
    unfolding run_free_def
  proof (intro allI impI)
    fix i assume "i < m"
    then have "q + i \<in> avail st" using s by (intro subsetD [OF s]) simp
    then show "\<not> bm_used (page_bitmap st) (q + i)" by (simp add: avail_def)
  qed
qed

lemma avail_run_bounds:
  assumes "pmm_inv U st" and "{q..<q + m} \<subseteq> avail st" and "0 < m"
  shows "unat (managed_start st) div 4096 \<le> q" and "q + m \<le> unat (managed_end st) div 4096"
    and "m \<le> unat (total_pages_count st)" and "managed_end st \<noteq> managed_start st"
proof -
  have U: "{q..<q + m} \<subseteq> U" "U \<subseteq> managed_pages st" "unat (total_pages_count st) = card U"
    using assms by (auto simp: pmm_inv_def)
  moreover have "q \<in> {q..<q + m}" "q + m - 1 \<in> {q..<q + m}" using assms(3) by auto
  ultimately have "q \<in> managed_pages st" "q + m - 1 \<in> managed_pages st" by blast+
  then show "unat (managed_start st) div 4096 \<le> q" and "q + m \<le> unat (managed_end st) div 4096"
    and "managed_end st \<noteq> managed_start st"
    by (auto simp: managed_pages_def)
  show "m \<le> unat (total_pages_count st)"
    using card_mono [OF pmm_inv_bounds(2) [OF assms(1)] U(1)] U(3) by simp
qed

lemma last_page_bound:
  assumes "pmm_inv U st" and "0 < unat (total_pages_count st)"
  shows "unat (managed_end st) div 4096 \<le> PMM_MAX_PAGES"
proof -
  have "U \<noteq> {}" using assms by (auto simp: pmm_inv_def)
  then have "managed_end st \<noteq> managed_start st" using assms(1) by (auto simp: pmm_inv_def managed_pages_def)
  then have "managed_end st \<le> PMM_MANAGED_LIMIT" using assms(1) by (simp add: pmm_inv_def)
  then have "unat (managed_end st) \<le> unat PMM_MANAGED_LIMIT" by (simp add: word_le_nat_alt)
  then have "unat (managed_end st) div 4096 \<le> unat PMM_MANAGED_LIMIT div 4096" by (rule div_le_mono)
  then show ?thesis by simp
qed

lemma avail_after_alloc:
  assumes bm: "\<And>p. bm_used bm p \<longleftrightarrow> bm_used (page_bitmap st) p \<or> p \<in> R"
  shows "avail (st\<lparr>page_bitmap := bm, used_pages_count := c\<rparr>) = avail st - R"
  by (rule set_eqI) (auto simp: avail_def bm)

lemma pmm_inv_after_alloc:
  assumes inv: "pmm_inv U st" and R: "{q..<q + unat n} \<subseteq> avail st" and "length bm = length (page_bitmap st)"
    and av: "avail (st\<lparr>page_bitmap := bm, used_pages_count := used_pages_count st + n\<rparr>) = avail st - {q..<q + unat n}"
  shows "pmm_inv U (st\<lparr>page_bitmap := bm, used_pages_count := used_pages_count st + n\<rparr>)" (is "pmm_inv U ?st")
proof -
  let ?R = "{q..<q + unat n}"
  have fin: "finite U" by (rule pmm_inv_bounds(2) [OF inv])
  have sub: "avail st \<subseteq> U" and tot: "unat (total_pages_count st) = card U"
    and used: "unat (used_pages_count st) = card (U - avail st)"
    using inv by (simp_all add: pmm_inv_def)
  have "U - avail ?st = (U - avail st) \<union> ?R" unfolding av using R sub by blast
  moreover have "(U - avail st) \<inter> ?R = {}" using R by blast
  ultimately have card: "card (U - avail ?st) = unat (used_pages_count st) + unat n"
    using fin used by (simp add: card_Un_disjoint)
  moreover have "card (U - avail ?st) \<le> card U" using fin by (intro card_mono) auto
  moreover have "card U < 2 ^ 32" using tot [symmetric] by simp
  ultimately have "unat (used_pages_count st + n) = card (U - avail ?st)"
    by (simp add: unat_word_ariths)
  moreover have "avail ?st \<subseteq> U" unfolding av using sub by blast
  ultimately show "pmm_inv U ?st"
    using inv assms(3) unfolding pmm_inv_def managed_pages_def by simp
qed

lemma pmm_alloc_pages_spec:
  assumes inv: "pmm_inv U st"
  shows "\<exists>a st'. pmm_alloc_pages n st = Some (a, st')
     \<and> (if a = 0 then st' = st \<and> (n = 0 \<or> (\<forall>q. \<not> {q..<q + unat n} \<subseteq> avail st))
        else 4096 dvd unat a \<and> n \<noteq> 0 \<and> pages_of a n \<subseteq> avail st
          \<and> avail st' = avail st - pages_of a n \<and> pmm_inv U st'
          \<and> used_pages_count st' = used_pages_count st + n
          \<and> (\<forall>q < unat a div 4096. \<not> {q..<q + unat n} \<subseteq> avail st))"
proof (cases "n = 0 \<or> n > total_pages_count st")
  case True
  have "n = 0" if "{q..<q + unat n} \<subseteq> avail st" for q
  proof (rule ccontr)
    assume "n \<noteq> 0"
    then have "unat n \<le> unat (total_pages_count st)"
      using avail_run_bounds(3) [OF inv that] by (simp add: unat_u32_pos)
    with True \<open>n \<noteq> 0\<close> show False by (simp add: word_less_nat_alt)
  qed
  then show ?thesis using True by (auto simp: pmm_alloc_pages_def)
next
  case False
  let ?f = "unat (managed_start st) div 4096" and ?l = "unat (managed_end st) div 4096"
  from False have n: "n \<noteq> 0" "0 < unat n" and alloc: "pmm_alloc_pages n st = alloc_scan ?f ?l n st"
    by (auto simp: pmm_alloc_pages_def unat_gt_0)
  have l: "?l \<le> PMM_MAX_PAGES"
    by (rule last_page_bound [OF inv]) (use False n(2) in \<open>simp add: word_less_nat_alt\<close>)
  then have "?l \<le> 32 * length (page_bitmap st)" using pmm_inv_bounds(1) [OF inv] by simp
  from alloc_scan_ok [OF this n(1), of ?f] show ?thesis
  proof (elim disjE exE conjE)
    fix q bm
    assume q: "?f \<le> q" "q + unat n \<le> ?l" "run_free (page_bitmap st) q (unat n)"
      and low: "\<forall>q'. ?f \<le> q' \<and> q' < q \<longrightarrow> \<not> run_free (page_bitmap st) q' (unat n)"
      and res: "alloc_scan ?f ?l n st = Some (of_nat q * PMM_PAGE_SIZE,
            st\<lparr>page_bitmap := bm, used_pages_count := used_pages_count st + n\<rparr>)"
      and bm: "length bm = length (page_bitmap st)"
        "\<forall>p. bm_used bm p \<longleftrightarrow> bm_used (page_bitmap st) p \<or> p \<in> {q..<q + unat n}"
    note av = avail_after_alloc [OF spec [OF bm(2)], of "used_pages_count st + n"]
    have sub: "{q..<q + unat n} \<subseteq> avail st" using q l by (simp add: run_free_iff)
    have qM: "q < PMM_MAX_PAGES" using q(2) n(2) l by simp
    have "q \<in> managed_pages st" using q n by (simp add: managed_pages_def)
    then have "q \<noteq> 0" using pmm_inv_bounds(4) [OF inv] by metis
    have ua: "unat (of_nat q * 4096 :: u32) = q * 4096" by (rule unat_page_address [OF qM])
    then have a0: "of_nat q * 4096 \<noteq> (0 :: u32)" using \<open>q \<noteq> 0\<close> by (metis mult_eq_0_iff unat_0 zero_neq_numeral)
    have least: "\<not> {q'..<q' + unat n} \<subseteq> avail st" if "q' < q" for q'
    proof
      assume r: "{q'..<q' + unat n} \<subseteq> avail st"
      note b = avail_run_bounds [OF inv r n(2)]
      from b(2) l have "run_free (page_bitmap st) q' (unat n)" using r by (simp add: run_free_iff)
      with low that b(1) show False by blast
    qed
    show ?thesis
      unfolding alloc res
      using a0 n(1) sub least pmm_inv_after_alloc [OF inv sub bm(1) av] av by (simp add: ua pages_of_def)
  next
    assume res: "alloc_scan ?f ?l n st = Some (0, st)"
      and none: "\<forall>q. ?f \<le> q \<and> q + unat n \<le> ?l \<longrightarrow> \<not> run_free (page_bitmap st) q (unat n)"
    have "\<not> {q..<q + unat n} \<subseteq> avail st" for q
    proof
      assume r: "{q..<q + unat n} \<subseteq> avail st"
      note b = avail_run_bounds [OF inv r n(2)]
      from b(2) l have "run_free (page_bitmap st) q (unat n)" using r by (simp add: run_free_iff)
      with none b(1,2) show False by blast
    qed
    then show ?thesis unfolding alloc res by simp
  qed
qed

section \<open>Freeing\<close>

lemma used_in_range:
  assumes "pmm_inv U st" and "R \<subseteq> U"
  shows "{p \<in> R. bm_used (page_bitmap st) p} = R \<inter> (U - avail st)"
  using assms pmm_inv_bounds(3) [OF assms(1)] by (auto simp: avail_def)

lemma free_guards:
  assumes inv: "pmm_inv U st" and a: "4096 dvd unat a" and R: "pages_of a n \<subseteq> U" and n: "n \<noteq> 0"
  shows "pmm_free_pages_block a n st = free_block (unat a div 4096) (unat n) st"
    and "unat a div 4096 + unat n \<le> PMM_MAX_PAGES"
proof -
  let ?q = "unat a div 4096" and ?f = "unat (managed_start st) div 4096" and ?l = "unat (managed_end st) div 4096"
  have n0: "0 < unat n" using n by (simp add: unat_u32_pos)
  then have mem: "?q \<in> pages_of a n" "?q + unat n - 1 \<in> pages_of a n" by (auto simp: pages_of_def)
  have sub: "pages_of a n \<subseteq> managed_pages st" "pages_of a n \<subseteq> {..<PMM_MAX_PAGES}"
    using R inv pmm_inv_bounds(3) [OF inv] unfolding pmm_inv_def by blast+
  have q: "?f \<le> ?q" "?q + unat n \<le> ?l" using subsetD [OF sub(1) mem(1)] subsetD [OF sub(1) mem(2)] n0
    unfolding managed_pages_def atLeastLessThan_iff by linarith+
  have "?q + unat n - 1 < PMM_MAX_PAGES" using subsetD [OF sub(2) mem(2)] by simp
  with n0 show le: "?q + unat n \<le> PMM_MAX_PAGES" by simp
  have d: "4096 dvd unat (managed_start st)" "4096 dvd unat (managed_end st)"
    using inv by (auto simp: pmm_inv_def)
  have s: "unat (managed_start st) \<le> unat a" using d(1) a q(1) by (metis dvd_div_mult_self mult_le_mono1)
  have e: "unat a + unat n * 4096 \<le> unat (managed_end st)"
  proof -
    have "(?q + unat n) * 4096 \<le> ?l * 4096" using q(2) by (rule mult_le_mono1)
    then show ?thesis using a d(2) by (simp add: add_mult_distrib)
  qed
  have "unat a + unat n * 4096 < 4294967296" using e unat_u32_less [of "managed_end st"] by linarith
  then have w: "unat (a + n * 4096) = unat a + unat n * 4096"
    by (simp add: unat_word_ariths)
  have m: "a mod 4096 = 0" using a by (simp add: word_unat_eq_iff unat_mod dvd_eq_mod_eq_0)
  have "a < managed_end st" using e n0 by (simp add: word_less_nat_alt)
  then show "pmm_free_pages_block a n st = free_block ?q (unat n) st"
    using n s e w m by (simp add: pmm_free_pages_block_def word_less_nat_alt word_le_nat_alt not_less)
qed

lemma pmm_free_pages_block_spec:
  assumes inv: "pmm_inv U st" and a: "4096 dvd unat a" and R: "pages_of a n \<subseteq> U"
  shows "\<exists>st'. pmm_free_pages_block a n st = Some st' \<and> avail st' = avail st \<union> pages_of a n
    \<and> pmm_inv U st' \<and> used_pages_count st' = used_pages_count st - of_nat (card (pages_of a n - avail st))"
proof (cases "n = 0")
  case True
  then show ?thesis using inv by (simp add: pmm_free_pages_block_def pages_of_def)
next
  case False
  note g = free_guards [OF inv a R False]
  let ?R = "pages_of a n"
  have fin: "finite U" "length (page_bitmap st) = 1024" and U: "U \<subseteq> {..<PMM_MAX_PAGES}"
    by (rule pmm_inv_bounds [OF inv])+
  obtain bm where bm: "free_block (unat a div 4096) (unat n) st = Some (st\<lparr>page_bitmap := bm,
      used_pages_count := used_pages_count st - of_nat (card {p \<in> ?R. bm_used (page_bitmap st) p})\<rparr>)"
    "length bm = length (page_bitmap st)" "\<And>q. bm_used bm q \<longleftrightarrow> bm_used (page_bitmap st) q \<and> q \<notin> ?R"
    using free_block_ok [of "unat a div 4096" "unat n" st] g(2) fin(2) unfolding pages_of_def by auto
  have c: "{p \<in> ?R. bm_used (page_bitmap st) p} = ?R \<inter> (U - avail st)" "?R \<inter> (U - avail st) = ?R - avail st"
    using used_in_range [OF inv R] R by auto
  let ?st = "st\<lparr>page_bitmap := bm, used_pages_count := used_pages_count st - of_nat (card (?R - avail st))\<rparr>"
  have av: "avail ?st = avail st \<union> ?R"
    using R U by (auto simp: avail_def bm(3))
  have sub: "avail st \<subseteq> U" and used: "unat (used_pages_count st) = card (U - avail st)"
    using inv by (simp_all add: pmm_inv_def)
  have "U - avail ?st = (U - avail st) - (?R - avail st)" unfolding av by blast
  moreover have "?R - avail st \<subseteq> U - avail st" using R by blast
  ultimately have card: "card (U - avail ?st) = card (U - avail st) - card (?R - avail st)"
    "card (?R - avail st) \<le> card (U - avail st)"
    using fin(1) by (simp_all add: card_Diff_subset finite_subset card_mono)
  then have "unat (used_pages_count st - of_nat (card (?R - avail st))) = card (U - avail ?st)"
    using used by (subst unat_sub) (simp_all add: word_le_nat_alt unat_of_nat le_less_trans [OF _ unat_u32_less [of "used_pages_count st"]])
  moreover have "avail ?st \<subseteq> U" unfolding av using sub R by blast
  ultimately have "pmm_inv U ?st"
    using inv bm(2) unfolding pmm_inv_def managed_pages_def by simp
  then show ?thesis using av by (simp add: g(1) bm(1) c)
qed

section \<open>Initialisation\<close>

lemma unat_align_down: "unat ((x :: u32) AND NOT (PMM_PAGE_SIZE - 1)) = unat x div 4096 * 4096"
proof -
  have m: "(PMM_PAGE_SIZE - 1 :: u32) = mask 12" by (simp add: mask_eq_exp_minus_1)
  show ?thesis unfolding m unat_and_not_mask by simp
qed

lemmas unat_align_down' [simp] = unat_align_down [simplified]

lemma unat_align_up:
  assumes "unat x + 4095 < 2 ^ 32"
  shows "unat (align_up x PMM_PAGE_SIZE) = (unat x + 4095) div 4096 * 4096"
proof -
  have "unat (x + PMM_PAGE_SIZE - 1) = unat x + 4095"
    using assms by (simp add: unat_word_ariths add_diff_eq [symmetric])
  then show ?thesis unfolding align_up_def unat_align_down by simp
qed

text \<open>The pages an interval of byte addresses covers completely.\<close>

definition whole_pages :: "nat \<Rightarrow> nat \<Rightarrow> nat set" where
  "whole_pages s e = {p. s \<le> p * 4096 \<and> p * 4096 + 4096 \<le> e}"

lemma whole_pages_range: "whole_pages s e = {(s + 4095) div 4096..<e div 4096}"
proof (rule set_eqI)
  fix p
  have "s \<le> p * 4096 \<longleftrightarrow> (s + 4095) div 4096 \<le> p" by linarith
  moreover have "p * 4096 + 4096 \<le> e \<longleftrightarrow> p < e div 4096" by linarith
  ultimately show "p \<in> whole_pages s e \<longleftrightarrow> p \<in> {(s + 4095) div 4096..<e div 4096}"
    by (simp add: whole_pages_def)
qed

lemma finite_avail [simp]: "finite (avail st)"
  by (rule finite_subset [of _ "{..<PMM_MAX_PAGES}"]) (auto simp: avail_def)

lemma mark_usable_region_ok:
  assumes inv: "pmm_inv (avail st) st" and s: "unat s + 4095 < 2 ^ 32"
  shows "\<exists>st'. mark_usable_region s e st = Some st' \<and> pmm_inv (avail st') st'
    \<and> managed_start st' = managed_start st \<and> e820_entry_count st' = e820_entry_count st
    \<and> avail st' = avail st \<union> whole_pages (max (unat s) (unat (managed_start st))) (min (unat e) (unat PMM_MANAGED_LIMIT))"
proof -
  let ?ms = "managed_start st"
  define s2 where "s2 = (if align_up s PMM_PAGE_SIZE < ?ms then ?ms else align_up s PMM_PAGE_SIZE)"
  define e2 where "e2 = (if (e AND NOT (PMM_PAGE_SIZE - 1)) > PMM_MANAGED_LIMIT then PMM_MANAGED_LIMIT
      else e AND NOT (PMM_PAGE_SIZE - 1))"
  obtain k where k: "unat ?ms = 4096 * k" using inv by (auto simp: pmm_inv_def)
  have us2: "unat s2 div 4096 = (max (unat s) (unat ?ms) + 4095) div 4096" and ds2: "4096 dvd unat s2"
    and ge: "unat ?ms \<le> unat s2"
    using k by (auto simp: s2_def word_less_nat_alt unat_align_up [OF s] max_def)
  have ue2: "unat e2 div 4096 = min (unat e) (unat PMM_MANAGED_LIMIT) div 4096" and de2: "4096 dvd unat e2"
    and le: "unat e2 \<le> unat PMM_MANAGED_LIMIT"
    by (auto simp: e2_def word_less_nat_alt unat_align_down min_def)
  let ?W = "whole_pages (max (unat s) (unat ?ms)) (min (unat e) (unat PMM_MANAGED_LIMIT))"
  have W: "?W = {unat s2 div 4096..<unat e2 div 4096}" unfolding whole_pages_range us2 ue2 ..
  have def: "mark_usable_region s e st = (if e2 \<le> s2 then Some st else
     mark_pages (unat s2 div 4096) (unat e2 div 4096 - unat s2 div 4096)
       (if e2 > managed_end st then st\<lparr>managed_end := e2\<rparr> else st))"
    unfolding mark_usable_region_def Let_def s2_def [symmetric] e2_def [symmetric] by simp
  show ?thesis
  proof (cases "e2 \<le> s2")
    case True
    then have "?W = {}" unfolding W by (auto simp: word_le_nat_alt dest: div_le_mono [of _ _ 4096])
    then show ?thesis using True inv by (simp add: def)
  next
    case False
    then have lt: "unat s2 < unat e2" by (simp add: word_le_nat_alt)
    let ?st1 = "if e2 > managed_end st then st\<lparr>managed_end := e2\<rparr> else st"
    let ?f = "unat s2 div 4096" and ?l = "unat e2 div 4096"
    have bm1: "page_bitmap ?st1 = page_bitmap st" "total_pages_count ?st1 = total_pages_count st" by auto
    have len: "length (page_bitmap st) = 1024" by (rule pmm_inv_bounds [OF inv])
    have fl: "?f \<le> ?l" using lt by (simp add: div_le_mono)
    have l: "?l \<le> PMM_MAX_PAGES" using div_le_mono [OF le, of 4096] by simp
    obtain bm where bm: "mark_pages ?f (?l - ?f) ?st1 = Some (?st1\<lparr>page_bitmap := bm, total_pages_count :=
        total_pages_count st + of_nat (card {p \<in> ?W. bm_used (page_bitmap st) p})\<rparr>)"
      "length bm = 1024" "\<And>q. bm_used bm q \<longleftrightarrow> bm_used (page_bitmap st) q \<and> q \<notin> ?W"
      using mark_pages_ok [of ?f "?l - ?f" ?st1] fl l len unfolding bm1 W by auto
    let ?st = "?st1\<lparr>page_bitmap := bm, total_pages_count :=
        total_pages_count st + of_nat (card {p \<in> ?W. bm_used (page_bitmap st) p})\<rparr>"
    have WM: "?W \<subseteq> {..<PMM_MAX_PAGES}" using l unfolding W by auto
    have av: "avail ?st = avail st \<union> ?W" using WM by (auto simp: avail_def bm(3))
    have "avail st \<union> ?W = avail st \<union> {p \<in> ?W. bm_used (page_bitmap st) p}"
      using WM by (auto simp: avail_def)
    moreover have "avail st \<inter> {p \<in> ?W. bm_used (page_bitmap st) p} = {}" by (auto simp: avail_def)
    ultimately have c: "card (avail ?st) = card (avail st) + card {p \<in> ?W. bm_used (page_bitmap st) p}"
      unfolding av using finite_avail finite_subset [OF WM] by (simp add: card_Un_disjoint)
    have "card (avail ?st) \<le> card {..<PMM_MAX_PAGES}" by (rule card_mono) (auto simp: avail_def)
    then have "unat (total_pages_count ?st) = card (avail ?st)"
      using c inv by (simp add: pmm_inv_def unat_word_ariths unat_of_nat)
    moreover have "unat (used_pages_count ?st) = 0" using inv by (simp add: pmm_inv_def)
    moreover have me: "managed_end ?st = max (managed_end st) e2" by (auto simp: max_def)
    have ms: "managed_start ?st = ?ms" by simp
    have "avail ?st \<subseteq> managed_pages ?st"
    proof -
      have "managed_pages st \<subseteq> managed_pages ?st" "?W \<subseteq> managed_pages ?st"
        unfolding managed_pages_def me ms W using ge
        by (auto simp: max_def word_less_nat_alt word_le_nat_alt dest: div_le_mono [of _ _ 4096])
      then show ?thesis unfolding av using inv by (auto simp: pmm_inv_def)
    qed
    moreover have "managed_start ?st \<le> managed_end ?st" "4096 dvd unat (managed_end ?st)"
      "managed_end ?st \<le> PMM_MANAGED_LIMIT"
      unfolding me ms using inv de2 ge lt le by (auto simp: pmm_inv_def max_def word_le_nat_alt)
    ultimately have "pmm_inv (avail ?st) ?st"
      using inv bm(2) unfolding pmm_inv_def by simp
    then show ?thesis using False bm(1) av by (auto simp: def)
  qed
qed

definition usable_pages :: "nat \<Rightarrow> e820_entry \<Rightarrow> nat set" where
  "usable_pages start e =
     (if etype e = E820_MEMORY_USABLE
      then whole_pages (max (unat (base e)) start) (min (unat (base e) + unat (elength e)) (unat PMM_MANAGED_LIMIT))
      else {})"

text \<open>One usable entry below the limit: the region the boot loop hands to the marker.\<close>

lemma entry_region:
  assumes "unat (base e) + unat (elength e) < 2 ^ 64" and "\<not> base e \<ge> ucast PMM_MANAGED_LIMIT"
  shows "unat (ucast (base e) :: u32) = unat (base e)" and "unat (base e) < unat PMM_MANAGED_LIMIT"
    and "min (unat (if base e + elength e > ucast PMM_MANAGED_LIMIT then PMM_MANAGED_LIMIT
                else ucast (base e + elength e) :: u32)) (unat PMM_MANAGED_LIMIT) =
         min (unat (base e) + unat (elength e)) (unat PMM_MANAGED_LIMIT)"
proof -
  have L: "unat (ucast PMM_MANAGED_LIMIT :: u64) = 134217728" by simp
  show b: "unat (base e) < unat PMM_MANAGED_LIMIT"
    using assms(2) by (simp add: word_le_nat_alt L)
  then show "unat (ucast (base e) :: u32) = unat (base e)"
    by (simp add: unsigned_ucast_eq take_bit_eq_mod)
  have s: "unat (base e + elength e) = unat (base e) + unat (elength e)"
    using assms(1) by (simp add: unat_word_ariths)
  show "min (unat (if base e + elength e > ucast PMM_MANAGED_LIMIT then PMM_MANAGED_LIMIT
                else ucast (base e + elength e) :: u32)) (unat PMM_MANAGED_LIMIT) =
         min (unat (base e) + unat (elength e)) (unat PMM_MANAGED_LIMIT)"
    using s by (auto simp: word_less_nat_alt unsigned_ucast_eq take_bit_eq_mod)
qed

lemma mark_entries_ok:
  assumes "pmm_inv (avail st) st" and "i + n \<le> length entries"
    and "\<forall>e \<in> set entries. unat (base e) + unat (elength e) < 2 ^ 64"
  shows "\<exists>st'. mark_entries entries i n st = Some st' \<and> pmm_inv (avail st') st'
    \<and> managed_start st' = managed_start st \<and> e820_entry_count st' = e820_entry_count st
    \<and> avail st' = avail st \<union> (\<Union>k \<in> {i..<i + n}. usable_pages (unat (managed_start st)) (entries ! k))"
  using assms(1,2)
proof (induction n arbitrary: i st)
  case 0
  then show ?case by simp
next
  case (Suc n)
  let ?e = "entries ! i" and ?ms = "unat (managed_start st)"
  have i: "i < length entries" using Suc.prems by simp
  have no: "unat (base ?e) + unat (elength ?e) < 2 ^ 64" using assms(3) i by simp
  have "{i..<i + Suc n} = insert i {Suc i..<Suc i + n}" by auto
  then have split: "(\<Union>k \<in> {i..<i + Suc n}. usable_pages ?ms (entries ! k)) =
      usable_pages ?ms ?e \<union> (\<Union>k \<in> {Suc i..<Suc i + n}. usable_pages ?ms (entries ! k))"
    by simp
  obtain st1 where st1: "mark_entries entries i (Suc n) st = mark_entries entries (Suc i) n st1"
    "pmm_inv (avail st1) st1" "managed_start st1 = managed_start st"
    "e820_entry_count st1 = e820_entry_count st" "avail st1 = avail st \<union> usable_pages ?ms ?e"
  proof (cases "etype ?e \<noteq> E820_MEMORY_USABLE \<or> elength ?e = 0 \<or> base ?e \<ge> ucast PMM_MANAGED_LIMIT")
    case True
    then have "usable_pages ?ms ?e = {}"
      by (auto simp: usable_pages_def whole_pages_def word_le_nat_alt)
    then show thesis using True i Suc.prems(1) by (intro that [of st]) (auto simp: Let_def)
  next
    case False
    then have lim: "\<not> base ?e \<ge> ucast PMM_MANAGED_LIMIT" by simp
    note r = entry_region [OF no lim]
    let ?s = "ucast (base ?e) :: u32"
    let ?t = "if base ?e + elength ?e > ucast PMM_MANAGED_LIMIT then PMM_MANAGED_LIMIT
                else ucast (base ?e + elength ?e) :: u32"
    have "unat ?s + 4095 < 2 ^ 32" using r(1,2) by simp
    from mark_usable_region_ok [OF Suc.prems(1) this, of ?t] obtain st1 where
      "mark_usable_region ?s ?t st = Some st1" "pmm_inv (avail st1) st1" "managed_start st1 = managed_start st"
      "e820_entry_count st1 = e820_entry_count st" "avail st1 = avail st \<union> usable_pages ?ms ?e"
      using False unfolding r(1,3) usable_pages_def by auto
    then show thesis using False i by (intro that [of st1]) (simp_all add: Let_def)
  qed
  show ?case
    using Suc.IH [OF st1(2), of "Suc i"] Suc.prems(2) unfolding split st1(1,3-5) by auto
qed

lemma pmm_initialize_spec:
  assumes k: "0 < unat kernel_end" "unat kernel_end + 4095 < 2 ^ 32"
    and n: "min (unat entry_count) E820_MAX_ENTRIES \<le> length entries"
    and w: "\<forall>e \<in> set entries. unat (base e) + unat (elength e) < 2 ^ 64"
  defines "ms \<equiv> (unat kernel_end + 4095) div 4096 * 4096"
  defines "F \<equiv> (\<Union>e \<in> set (take (min (unat entry_count) E820_MAX_ENTRIES) entries). usable_pages ms e)"
  shows "\<exists>st. pmm_initialize kernel_end entries entry_count = Some st
    \<and> unat (managed_start st) = ms \<and> pmm_inv (avail st) st
    \<and> avail st = (if F = {} then whole_pages ms 0x00400000 else F)"
proof -
  let ?n = "min (unat entry_count) E820_MAX_ENTRIES"
  define st0 where "st0 = \<lparr>page_bitmap = replicate (PMM_MAX_PAGES div 32) (0xFFFFFFFF :: u32),
     managed_start = align_up kernel_end PMM_PAGE_SIZE, managed_end = align_up kernel_end PMM_PAGE_SIZE,
     total_pages_count = 0, used_pages_count = 0, e820_entry_count = entry_count\<rparr>"
  have ms: "unat (managed_start st0) = ms" by (simp add: st0_def ms_def unat_align_up [OF k(2)])
  have av0: "avail st0 = {}"
  proof -
    have "bm_used (page_bitmap st0) p" if "p < PMM_MAX_PAGES" for p
    proof -
      have "p div 32 < 1024" using that by (simp add: less_mult_imp_div_less)
      moreover have "bit (0xFFFFFFFF :: u32) (p mod 32)"
      proof -
        have "(0xFFFFFFFF :: u32) = - 1" by simp
        then show ?thesis by (simp only: bit_minus_1_iff) simp
      qed
      ultimately show ?thesis by (simp add: bm_used_def st0_def)
    qed
    then show ?thesis by (auto simp: avail_def)
  qed
  have "pmm_inv (avail st0) st0"
    unfolding pmm_inv_def av0 using k(1) ms by (auto simp: st0_def ms_def)
  from mark_entries_ok [OF this, of 0 ?n entries] n w obtain st where
    st: "mark_entries entries 0 ?n st0 = Some st" "pmm_inv (avail st) st" "managed_start st = managed_start st0"
      "avail st = (\<Union>k \<in> {0..<?n}. usable_pages ms (entries ! k))"
    by (auto simp: av0 ms)
  have F: "avail st = F"
  proof -
    have "(\<lambda>k. entries ! k) ` {0..<?n} = set (take ?n entries)"
      using n by (simp add: nth_image)
    then show ?thesis unfolding st(4) F_def by (simp flip: image_image [of "usable_pages ms" "(!) entries"])
  qed
  have tot: "total_pages_count st = 0 \<longleftrightarrow> F = {}"
    using st(2) by (auto simp: pmm_inv_def F [symmetric] word_unat_eq_iff)
  have init: "pmm_initialize kernel_end entries entry_count =
      (if F = {} then mark_usable_region (managed_start st) 0x00400000 st else Some st)"
    using st(1) tot by (simp add: pmm_initialize_def Let_def st0_def)
  have al: "4096 dvd unat (managed_start st)" using st(2) by (simp add: pmm_inv_def)
  then have "unat (managed_start st) + 4095 < 2 ^ 32"
    using unat_u32_less [of "managed_start st"] by (elim dvdE) simp
  from mark_usable_region_ok [OF st(2) this, of "0x00400000"] show ?thesis
    using st(2,3) F ms by (cases "F = {}") (auto simp: init)
qed

section \<open>The allocator interface\<close>

text \<open>A sequence of allocations: sizes in, the addresses they got out.\<close>

fun alloc_seq :: "(u32 \<Rightarrow> 's \<Rightarrow> (u32 \<times> 's) option) \<Rightarrow> u32 list \<Rightarrow> 's \<Rightarrow> ((u32 \<times> u32) list \<times> 's) option" where
  "alloc_seq alloc [] s = Some ([], s)"
| "alloc_seq alloc (n # ns) s =
     do { (a, s1) \<leftarrow> alloc n s; (bs, s2) \<leftarrow> alloc_seq alloc ns s1; Some ((a, n) # bs, s2) }"

locale page_allocator =
  fixes alloc :: "u32 \<Rightarrow> 's \<Rightarrow> (u32 \<times> 's) option"
    and free :: "u32 \<Rightarrow> u32 \<Rightarrow> 's \<Rightarrow> 's option"
    and inv :: "nat set \<Rightarrow> 's \<Rightarrow> bool"
    and free_pages :: "'s \<Rightarrow> nat set"
  assumes alloc_returns: "inv U s \<Longrightarrow> \<exists>a s'. alloc n s = Some (a, s')"
    and alloc_null: "inv U s \<Longrightarrow> alloc n s = Some (0, s') \<Longrightarrow> s' = s"
    and alloc_inv: "inv U s \<Longrightarrow> alloc n s = Some (a, s') \<Longrightarrow> inv U s'"
    and alloc_fresh: "inv U s \<Longrightarrow> alloc n s = Some (a, s') \<Longrightarrow> a \<noteq> 0 \<Longrightarrow>
      4096 dvd unat a \<and> pages_of a n \<subseteq> free_pages s \<and> free_pages s' = free_pages s - pages_of a n"
    and free_pages_in: "inv U s \<Longrightarrow> free_pages s \<subseteq> U"
    and free_returns: "inv U s \<Longrightarrow> 4096 dvd unat a \<Longrightarrow> pages_of a n \<subseteq> U \<Longrightarrow>
      \<exists>s'. free a n s = Some s' \<and> inv U s' \<and> free_pages s' = free_pages s \<union> pages_of a n"
begin

lemma alloc_shrinks: "inv U s \<Longrightarrow> alloc n s = Some (a, s') \<Longrightarrow> free_pages s' \<subseteq> free_pages s"
  using alloc_null alloc_fresh by (cases "a = 0") fastforce+

lemma alloc_free_roundtrip:
  assumes "inv U s" and "alloc n s = Some (a, s')" and "a \<noteq> 0"
  shows "\<exists>s''. free a n s' = Some s'' \<and> inv U s'' \<and> free_pages s'' = free_pages s"
proof -
  have f: "4096 dvd unat a" "pages_of a n \<subseteq> free_pages s" "free_pages s' = free_pages s - pages_of a n"
    using alloc_fresh [OF assms] by auto
  then have "pages_of a n \<subseteq> U" using free_pages_in [OF assms(1)] by blast
  from free_returns [OF alloc_inv [OF assms(1,2)] f(1) this] f show ?thesis by auto
qed

lemma alloc_seq_disjoint:
  assumes "inv U s"
  shows "\<exists>bs s'. alloc_seq alloc ns s = Some (bs, s') \<and> inv U s' \<and> free_pages s' \<subseteq> free_pages s \<and> map snd bs = ns
    \<and> (\<forall>(a, n) \<in> set bs. a \<noteq> 0 \<longrightarrow> pages_of a n \<subseteq> free_pages s \<and> pages_of a n \<inter> free_pages s' = {})
    \<and> sorted_wrt (\<lambda>(a, n) (b, m). a \<noteq> 0 \<longrightarrow> b \<noteq> 0 \<longrightarrow> pages_of a n \<inter> pages_of b m = {}) bs"
  using assms
proof (induction ns arbitrary: s)
  case Nil
  then show ?case by simp
next
  case (Cons n ns)
  obtain a s1 where a: "alloc n s = Some (a, s1)" using alloc_returns [OF Cons.prems] by blast
  note i1 = alloc_inv [OF Cons.prems a] and sh = alloc_shrinks [OF Cons.prems a]
  obtain bs s2 where bs: "alloc_seq alloc ns s1 = Some (bs, s2)" "inv U s2" "free_pages s2 \<subseteq> free_pages s1"
      "map snd bs = ns"
    and own: "\<forall>(a, n) \<in> set bs. a \<noteq> 0 \<longrightarrow> pages_of a n \<subseteq> free_pages s1 \<and> pages_of a n \<inter> free_pages s2 = {}"
    and dis: "sorted_wrt (\<lambda>(a, n) (b, m). a \<noteq> 0 \<longrightarrow> b \<noteq> 0 \<longrightarrow> pages_of a n \<inter> pages_of b m = {}) bs"
    using Cons.IH [OF i1] by blast
  have mine: "pages_of a n \<subseteq> free_pages s \<and> pages_of a n \<inter> free_pages s1 = {}" if "a \<noteq> 0"
    using alloc_fresh [OF Cons.prems a that] by auto
  have rest: "pages_of b m \<subseteq> free_pages s \<and> pages_of b m \<inter> free_pages s2 = {}
      \<and> (a \<noteq> 0 \<longrightarrow> pages_of a n \<inter> pages_of b m = {})" if "(b, m) \<in> set bs" "b \<noteq> 0" for b m
    using own that sh mine by blast
  show ?case
  proof (intro exI [of _ "(a, n) # bs"] exI [of _ s2] conjI)
    show "\<forall>(b, m) \<in> set ((a, n) # bs). b \<noteq> 0 \<longrightarrow>
        pages_of b m \<subseteq> free_pages s \<and> pages_of b m \<inter> free_pages s2 = {}"
    proof (intro ballI, clarify)
      fix b m assume bm: "(b, m) \<in> set ((a, n) # bs)" and "b \<noteq> 0"
      show "pages_of b m \<subseteq> free_pages s \<and> pages_of b m \<inter> free_pages s2 = {}"
      proof (cases "(b, m) = (a, n)")
        case True
        then show ?thesis using mine \<open>b \<noteq> 0\<close> bs(3) by blast
      next
        case False
        then have "(b, m) \<in> set bs" using bm by auto
        then show ?thesis using rest \<open>b \<noteq> 0\<close> by blast
      qed
    qed
    show "sorted_wrt (\<lambda>(a, n) (b, m). a \<noteq> 0 \<longrightarrow> b \<noteq> 0 \<longrightarrow> pages_of a n \<inter> pages_of b m = {}) ((a, n) # bs)"
      using dis rest by (simp add: case_prod_beta)
  qed (use bs sh in \<open>simp_all add: a order_trans [OF bs(3) sh]\<close>)
qed

end

lemma pmm_alloc_cases:
  assumes "pmm_inv U st" and "pmm_alloc_pages n st = Some (a, st')"
  shows "if a = 0 then st' = st else 4096 dvd unat a \<and> pages_of a n \<subseteq> avail st
    \<and> avail st' = avail st - pages_of a n \<and> pmm_inv U st'"
  using pmm_alloc_pages_spec [OF assms(1), of n] assms(2) by (auto split: if_splits)

interpretation pmm: page_allocator pmm_alloc_pages pmm_free_pages_block pmm_inv avail
proof
  fix U st n
  assume inv: "pmm_inv U st"
  show "\<exists>a st'. pmm_alloc_pages n st = Some (a, st')" using pmm_alloc_pages_spec [OF inv] by blast
  show "avail st \<subseteq> U" using inv by (simp add: pmm_inv_def)
  fix a st'
  show "\<exists>st'. pmm_free_pages_block a n st = Some st' \<and> pmm_inv U st' \<and> avail st' = avail st \<union> pages_of a n"
    if "4096 dvd unat a" "pages_of a n \<subseteq> U"
    using pmm_free_pages_block_spec [OF inv that] by blast
  show "st' = st" if "pmm_alloc_pages n st = Some (0, st')"
    using pmm_alloc_cases [OF inv that] by simp
  show "pmm_inv U st'" if "pmm_alloc_pages n st = Some (a, st')"
    using pmm_alloc_cases [OF inv that] inv by (auto split: if_splits)
  show "4096 dvd unat a \<and> pages_of a n \<subseteq> avail st \<and> avail st' = avail st - pages_of a n"
    if "pmm_alloc_pages n st = Some (a, st')" "a \<noteq> 0"
    using pmm_alloc_cases [OF inv that(1)] that(2) by simp
qed

lemma pmm_free_ignored:
  assumes "n = 0 \<or> a < managed_start st \<or> a \<ge> managed_end st \<or> \<not> 4096 dvd unat a"
  shows "pmm_free_pages_block a n st = Some st"
proof -
  have "\<not> 4096 dvd unat a \<longleftrightarrow> a mod 4096 \<noteq> 0"
    by (simp add: word_unat_eq_iff unat_mod dvd_eq_mod_eq_0)
  then show ?thesis using assms by (auto simp: pmm_free_pages_block_def)
qed

lemma free_block_overruns:
  "length (page_bitmap st) = 1024 \<Longrightarrow> PMM_MAX_PAGES < page + n \<Longrightarrow> page \<le> PMM_MAX_PAGES \<Longrightarrow> free_block page n st = None"
proof (induction n arbitrary: page st)
  case 0
  then show ?case by simp
next
  case (Suc n)
  show ?case
  proof (cases "page = PMM_MAX_PAGES")
    case True
    then show ?thesis using Suc.prems by (simp add: bitmap_test_def)
  next
    case False
    then have p: "page < 32 * length (page_bitmap st)" using Suc.prems by simp
    obtain bm where bm: "bitmap_clear page st = Some (st\<lparr>page_bitmap := bm\<rparr>)"
        "length bm = length (page_bitmap st)"
      using bitmap_clear_ok [OF p] by metis
    show ?thesis
      using Suc.IH [of st "Suc page"] Suc.IH [of "st\<lparr>page_bitmap := bm, used_pages_count := used_pages_count st - 1\<rparr>" "Suc page"]
        Suc.prems False bm by (simp add: bitmap_test_ok [OF p])
  qed
qed

section \<open>Properties\<close>

text \<open>A booted instance for the examples: no E820 entries and a kernel that ends at 1 MiB, so that
  \<open>pmm_initialize\<close> falls back to the region below 4 MiB.\<close>

definition boot_pmm :: pmm where
  "boot_pmm = the (pmm_initialize 0x100000 [] 0)"

lemma boot_pmm_ok:
  "pmm_initialize 0x100000 [] 0 = Some boot_pmm"
  "pmm_inv {256..<1024} boot_pmm" "avail boot_pmm = {256..<1024}"
  "managed_start boot_pmm = 0x100000"
proof -
  obtain st where st: "pmm_initialize 0x100000 [] 0 = Some st" "pmm_inv (avail st) st"
      "avail st = whole_pages 0x100000 0x00400000" "unat (managed_start st) = 0x100000"
    using pmm_initialize_spec [of "0x100000" 0 "[]"] by auto
  then show "pmm_initialize 0x100000 [] 0 = Some boot_pmm"
    "pmm_inv {256..<1024} boot_pmm" "avail boot_pmm = {256..<1024}"
    "managed_start boot_pmm = 0x100000"
    by (simp_all add: boot_pmm_def whole_pages_range word_unat_eq_iff)
qed

text \<open>C1. First-fit allocation. From any state satisfying the allocator invariant,
  \<open>pmm_alloc_pages\<close> returns. When it returns null the state is unchanged and either no pages were
  requested or no run of that many available pages exists; otherwise it returns the lowest
  page-aligned address at which such a run starts, exactly that run becomes unavailable, the
  used-page counter grows by the request and the invariant is kept.\<close>

theorem pmm_alloc_first_fit:
  assumes "pmm_inv U st"
  shows "\<exists>a st'. pmm_alloc_pages n st = Some (a, st') \<and>
    (if a = 0 then st' = st \<and> (n = 0 \<or> (\<forall>q. \<not> {q..<q + unat n} \<subseteq> avail st))
     else 4096 dvd unat a \<and> n \<noteq> 0 \<and> pages_of a n \<subseteq> avail st \<and> avail st' = avail st - pages_of a n
       \<and> pmm_inv U st' \<and> pmm_used_pages st' = pmm_used_pages st + n
       \<and> (\<forall>q < unat a div 4096. \<not> {q..<q + unat n} \<subseteq> avail st))"
  using pmm_alloc_pages_spec [OF assms, of n] unfolding pmm_used_pages_def by blast

theorem pmm_alloc_first_fit_witness:
  "pmm_inv {256..<1024} boot_pmm \<and> (\<exists>st'. pmm_alloc_pages 3 boot_pmm = Some (0x100000, st') \<and> avail st' = {259..<1024})"
proof -
  obtain a st' where a: "pmm_alloc_pages 3 boot_pmm = Some (a, st')" and
    r: "if a = 0 then st' = boot_pmm \<and> ((3 :: u32) = 0 \<or> (\<forall>q. \<not> {q..<q + unat (3 :: u32)} \<subseteq> avail boot_pmm))
     else 4096 dvd unat a \<and> (3 :: u32) \<noteq> 0 \<and> pages_of a 3 \<subseteq> avail boot_pmm
       \<and> avail st' = avail boot_pmm - pages_of a 3 \<and> pmm_inv {256..<1024} st'
       \<and> pmm_used_pages st' = pmm_used_pages boot_pmm + 3
       \<and> (\<forall>q < unat a div 4096. \<not> {q..<q + unat (3 :: u32)} \<subseteq> avail boot_pmm)"
    using pmm_alloc_first_fit [OF boot_pmm_ok(2), of 3] by blast
  have run: "{256..<256 + unat (3 :: u32)} \<subseteq> avail boot_pmm" by (simp add: boot_pmm_ok(3))
  then have "\<exists>q. {q..<q + unat (3 :: u32)} \<subseteq> avail boot_pmm" by blast
  then have a0: "a \<noteq> 0" using r by (cases "a = 0") auto
  then have s: "4096 dvd unat a" "pages_of a 3 \<subseteq> {256..<1024}" "avail st' = {256..<1024} - pages_of a 3"
    and low: "\<not> 256 < unat a div 4096" using r run by (auto simp: boot_pmm_ok(3))
  have "unat a div 4096 = 256" using s(2) low by (auto simp: pages_of_def)
  then have "unat a = 0x100000" using s(1) by auto
  then have "a = 0x100000" by (simp add: word_unat_eq_iff)
  then show ?thesis using a s(3) boot_pmm_ok(2) by (auto simp: pages_of_def)
qed

text \<open>Freeing. Freeing a page-aligned block whose pages all belong to the managed usable pages
  returns, makes exactly these pages available again, keeps the invariant, and decreases the
  used-page counter by the number of pages that were in use, so a double free changes neither the
  bitmap nor the counter.\<close>

theorem pmm_free_exact:
  assumes "pmm_inv U st" and "4096 dvd unat a" and "pages_of a n \<subseteq> U"
  shows "\<exists>st'. pmm_free_pages_block a n st = Some st' \<and> avail st' = avail st \<union> pages_of a n \<and> pmm_inv U st'
    \<and> pmm_used_pages st' = pmm_used_pages st - of_nat (card (pages_of a n - avail st))"
  using pmm_free_pages_block_spec [OF assms] unfolding pmm_used_pages_def by blast

theorem pmm_free_exact_witness:
  "\<exists>st'. pmm_free_pages_block 0x100000 3 boot_pmm = Some st' \<and> avail st' = {256..<1024}
     \<and> pmm_used_pages st' = pmm_used_pages boot_pmm"
proof -
  have p: "pages_of 0x100000 3 = {256..<259}" by (simp add: pages_of_def)
  have "\<exists>st'. pmm_free_pages_block 0x100000 3 boot_pmm = Some st' \<and> avail st' = {256..<1024} \<union> {256..<259}
     \<and> pmm_used_pages st' = pmm_used_pages boot_pmm - of_nat (card ({256..<259} - {256..<1024 :: nat}))"
    using pmm_free_exact [OF boot_pmm_ok(2), of "0x100000" 3] unfolding boot_pmm_ok(3) p by auto
  moreover have "{256..<1024} \<union> {256..<259} = {256..<1024 :: nat}" "{256..<259} - {256..<1024 :: nat} = {}"
    by auto
  ultimately show ?thesis by simp
qed

text \<open>C40. Initialisation. With a kernel end that does not wrap when rounded up and E820 entries that
  do not wrap 64 bits, \<open>pmm_initialize\<close> returns a state satisfying the invariant in which no page is
  used and the available pages are exactly the whole pages, above the kernel and below the 128 MiB
  limit, of the usable entries among the first 32; when there is none, the whole pages between the
  kernel and 4 MiB.\<close>

theorem pmm_initialize_exact:
  assumes "0 < unat kernel_end" and "unat kernel_end + 4095 < 2 ^ 32"
    and "min (unat entry_count) E820_MAX_ENTRIES \<le> length entries"
    and "\<forall>e \<in> set entries. unat (base e) + unat (elength e) < 2 ^ 64"
  shows "\<exists>st. pmm_initialize kernel_end entries entry_count = Some st
    \<and> pmm_inv (avail st) st \<and> pmm_used_pages st = 0 \<and> unat (pmm_free_pages st) = card (avail st)
    \<and> (let ms = (unat kernel_end + 4095) div 4096 * 4096;
           F = (\<Union>e \<in> set (take (min (unat entry_count) E820_MAX_ENTRIES) entries). usable_pages ms e)
       in unat (pmm_managed_start st) = ms \<and> avail st = (if F = {} then whole_pages ms 0x00400000 else F))"
proof -
  have "pmm_used_pages st = 0 \<and> unat (pmm_free_pages st) = card (avail st)" if "pmm_inv (avail st) st" for st
  proof -
    have "used_pages_count st = 0" using that by (simp add: pmm_inv_def word_unat_eq_iff)
    then show ?thesis using that by (simp add: pmm_inv_def pmm_used_pages_def pmm_free_pages_def)
  qed
  then show ?thesis
    using pmm_initialize_spec [OF assms] unfolding Let_def pmm_managed_start_def by blast
qed

theorem pmm_initialize_exact_witness:
  "\<exists>st. pmm_initialize 0x150001 [\<lparr>base = 0, elength = 0x9FC00, etype = 1, acpi = 0\<rparr>,
       \<lparr>base = 0x100000, elength = 0x1FF800, etype = 1, acpi = 0\<rparr>] 2 = Some st \<and> avail st = {337..<767}"
proof -
  have u: "usable_pages 0x151000 \<lparr>base = 0, elength = 0x9FC00, etype = 1, acpi = 0\<rparr> = {}"
    "usable_pages 0x151000 \<lparr>base = 0x100000, elength = 0x1FF800, etype = 1, acpi = 0\<rparr> = {337..<767}"
    by (simp_all add: usable_pages_def whole_pages_range)
  show ?thesis
    using pmm_initialize_exact [of "0x150001" 2 "[\<lparr>base = 0, elength = 0x9FC00, etype = 1, acpi = 0\<rparr>,
       \<lparr>base = 0x100000, elength = 0x1FF800, etype = 1, acpi = 0\<rparr>]"]
    by (auto simp: Let_def u)
qed

text \<open>C23. Live blocks never overlap. Any sequence of allocations from a state satisfying the invariant
  returns, and the blocks it hands out are pairwise disjoint runs of pages that were available before
  and are not available after.\<close>

theorem pmm_blocks_disjoint:
  assumes "pmm_inv U st"
  shows "\<exists>bs st'. alloc_seq pmm_alloc_pages ns st = Some (bs, st') \<and> pmm_inv U st' \<and> map snd bs = ns
    \<and> (\<forall>(a, n) \<in> set bs. a \<noteq> 0 \<longrightarrow> pages_of a n \<subseteq> avail st \<and> pages_of a n \<inter> avail st' = {})
    \<and> sorted_wrt (\<lambda>(a, n) (b, m). a \<noteq> 0 \<longrightarrow> b \<noteq> 0 \<longrightarrow> pages_of a n \<inter> pages_of b m = {}) bs"
  using pmm.alloc_seq_disjoint [OF assms, of ns] by blast

theorem pmm_blocks_disjoint_witness:
  "pmm_inv {256..<1024} boot_pmm \<and> (\<exists>a b st'. alloc_seq pmm_alloc_pages [3, 5] boot_pmm = Some ([(a, 3), (b, 5)], st')
     \<and> (a = 0 \<or> pages_of a 3 \<subseteq> {256..<1024}) \<and> (a = 0 \<or> b = 0 \<or> pages_of a 3 \<inter> pages_of b 5 = {}))"
  using pmm_blocks_disjoint [OF boot_pmm_ok(2), of "[3, 5]"] boot_pmm_ok(2)
  by (fastforce simp: boot_pmm_ok(3) map_eq_Cons_conv)

text \<open>A wrapping range check. \<open>pmm_free_pages_block\<close> bounds the block by
  \<open>address + count * PMM_PAGE_SIZE\<close> in 32 bits, which wraps: for a count of \<open>0x100000\<close> pages the check
  passes for every managed page and the loop leaves the bitmap array.\<close>

theorem pmm_free_wraps:
  assumes "pmm_inv U st" and "4096 dvd unat a" and "managed_start st \<le> a" and "a < managed_end st"
  shows "pmm_free_pages_block a 0x100000 st = None"
proof -
  have len: "length (page_bitmap st) = 1024" by (rule pmm_inv_bounds [OF assms(1)])
  have "unat (managed_end st) \<le> 0x08000000"
    using assms(1,3,4) by (auto simp: pmm_inv_def word_le_nat_alt word_less_nat_alt)
  then have "unat a div 4096 \<le> PMM_MAX_PAGES" using assms(4) by (simp add: word_less_nat_alt)
  moreover have "a mod 4096 = 0" using assms(2) by (simp add: word_unat_eq_iff unat_mod dvd_eq_mod_eq_0)
  moreover have "(0x100000 :: u32) * 4096 = 0" by (simp add: word_unat_eq_iff)
  ultimately show ?thesis
    using assms(3,4) free_block_overruns [OF len, where page = "unat a div 4096" and n = "0x100000"]
    by (simp only: pmm_free_pages_block_def) auto
qed

theorem pmm_free_wraps_witness: "pmm_free_pages_block 0x100000 0x100000 boot_pmm = None"
proof -
  have "256 \<in> managed_pages boot_pmm" using boot_pmm_ok(2) by (auto simp: pmm_inv_def)
  then have "0x100000 < managed_end boot_pmm" by (auto simp: managed_pages_def word_less_nat_alt)
  then show ?thesis
    using pmm_free_wraps [OF boot_pmm_ok(2), of "0x100000"] boot_pmm_ok(4) by simp
qed

end
