(* ===== verification/Heap.thy ===== *)
theory Heap
  imports Pmm
begin

text \<open>The kernel heap, \<open>src/kernel/mm/heap.c\<close>: a doubly linked list of blocks that live in the pages
  obtained from the page allocator. Block headers and the header in front of an aligned pointer are
  kept in the raw memory \<open>hmem\<close> at the offsets the i386 compiler gives the fields of
  \<open>struct heap_block\<close> (24 bytes) and \<open>struct aligned_header\<close> (8 bytes), so that a header can alias a
  client's bytes. Walks over the list and the loop that grows the heap are partial functions in the
  option monad: a cyclic list would be \<open>None\<close>.\<close>

section \<open>Model\<close>


abbreviation (input) HEAP_MAGIC :: u32 where "HEAP_MAGIC \<equiv> 0xC0DEF00D"
abbreviation (input) HEAP_ALIGN_MAGIC :: u32 where "HEAP_ALIGN_MAGIC \<equiv> 0xA11A11A1"
abbreviation (input) HEAP_MIN_SPLIT :: u32 where "HEAP_MIN_SPLIT \<equiv> 32"

abbreviation (input) sizeof_heap_block :: u32 where "sizeof_heap_block \<equiv> 24"
abbreviation (input) sizeof_aligned_header :: u32 where "sizeof_aligned_header \<equiv> 8"

definition blk_magic :: "mem \<Rightarrow> u32 \<Rightarrow> u32" where "blk_magic m b = load32 m (unat b)"
definition blk_size :: "mem \<Rightarrow> u32 \<Rightarrow> u32" where "blk_size m b = load32 m (unat b + 4)"
definition blk_page_count :: "mem \<Rightarrow> u32 \<Rightarrow> u32" where "blk_page_count m b = load32 m (unat b + 8)"
definition blk_free :: "mem \<Rightarrow> u32 \<Rightarrow> bool" where "blk_free m b \<longleftrightarrow> m (unat b + 12) \<noteq> 0"
definition blk_next :: "mem \<Rightarrow> u32 \<Rightarrow> u32" where "blk_next m b = load32 m (unat b + 16)"
definition blk_prev :: "mem \<Rightarrow> u32 \<Rightarrow> u32" where "blk_prev m b = load32 m (unat b + 20)"

definition set_magic :: "u32 \<Rightarrow> u32 \<Rightarrow> mem \<Rightarrow> mem" where "set_magic b v m = store32 m (unat b) v"
definition set_size :: "u32 \<Rightarrow> u32 \<Rightarrow> mem \<Rightarrow> mem" where "set_size b v m = store32 m (unat b + 4) v"
definition set_page_count :: "u32 \<Rightarrow> u32 \<Rightarrow> mem \<Rightarrow> mem" where "set_page_count b v m = store32 m (unat b + 8) v"
definition set_free :: "u32 \<Rightarrow> bool \<Rightarrow> mem \<Rightarrow> mem" where "set_free b v m = m(unat b + 12 := of_bool v)"
definition set_next :: "u32 \<Rightarrow> u32 \<Rightarrow> mem \<Rightarrow> mem" where "set_next b v m = store32 m (unat b + 16) v"
definition set_prev :: "u32 \<Rightarrow> u32 \<Rightarrow> mem \<Rightarrow> mem" where "set_prev b v m = store32 m (unat b + 20) v"

record heap =
  hmem :: mem
  hpmm :: pmm
  heap_head :: u32
  heap_total :: u32
  heap_used :: u32
  invalid_free_count :: u32
  double_free_count :: u32

definition align_up_size :: "u32 \<Rightarrow> u32 \<Rightarrow> u32" where
  "align_up_size value alignment = (value + alignment - 1) AND NOT (alignment - 1)"

partial_function (option) find_tail :: "mem \<Rightarrow> u32 \<Rightarrow> u32 option" where
  "find_tail m tail = (if blk_next m tail \<noteq> 0 then find_tail m (blk_next m tail) else Some tail)"

definition block_from_pages :: "u32 \<Rightarrow> u32 \<Rightarrow> heap \<Rightarrow> heap option" where
  "block_from_pages page page_count h =
     (let block = page; region_size = page_count * PMM_PAGE_SIZE;
          m1 = set_prev block 0 (set_next block 0 (set_free block True (set_page_count block page_count
                 (set_size block (region_size - sizeof_heap_block) (set_magic block HEAP_MAGIC (hmem h))))))
      in do { h1 \<leftarrow> (if heap_head h = 0
                     then Some (h\<lparr>hmem := m1, heap_head := block\<rparr>)
                     else do { tail \<leftarrow> find_tail m1 (heap_head h);
                               Some (h\<lparr>hmem := set_prev block tail (set_next tail block m1)\<rparr>) });
              Some (h1\<lparr>heap_total := heap_total h1 + blk_size (hmem h1) block\<rparr>) })"

partial_function (option) find_free_from :: "mem \<Rightarrow> u32 \<Rightarrow> u32 \<Rightarrow> u32 option" where
  "find_free_from m block sz =
     (if block = 0 then Some 0
      else if blk_free m block \<and> blk_size m block \<ge> sz then Some block
      else find_free_from m (blk_next m block) sz)"

definition find_free_block :: "u32 \<Rightarrow> heap \<Rightarrow> u32 option" where
  "find_free_block sz h = find_free_from (hmem h) (heap_head h) sz"

definition split_block :: "u32 \<Rightarrow> u32 \<Rightarrow> heap \<Rightarrow> heap" where
  "split_block block sz h =
     (if blk_size (hmem h) block < sz + sizeof_heap_block + HEAP_MIN_SPLIT then h
      else let nxt = block + sizeof_heap_block + sz;
               m0 = hmem h;
               m1 = set_magic nxt HEAP_MAGIC m0;
               m2 = set_size nxt (blk_size m1 block - sz - sizeof_heap_block) m1;
               m3 = set_free nxt True m2;
               m4 = set_next nxt (blk_next m3 block) m3;
               m5 = set_prev nxt block m4;
               m6 = (if blk_next m5 nxt \<noteq> 0 then set_prev (blk_next m5 nxt) nxt m5 else m5);
               m7 = set_next block nxt m6;
               m8 = set_size block sz m7
           in h\<lparr>hmem := m8, heap_total := heap_total h - sizeof_heap_block\<rparr>)"

definition coalesce_next :: "u32 \<Rightarrow> heap \<Rightarrow> heap" where
  "coalesce_next block h =
     (let m0 = hmem h; nxt = blk_next m0 block in
      if nxt = 0 \<or> \<not> blk_free m0 nxt then h
      else if block + sizeof_heap_block + blk_size m0 block \<noteq> nxt then h
      else let m1 = set_size block (blk_size m0 block + (sizeof_heap_block + blk_size m0 nxt)) m0;
               m2 = set_next block (blk_next m1 nxt) m1;
               m3 = (if blk_next m2 block \<noteq> 0 then set_prev (blk_next m2 block) block m2 else m2)
           in h\<lparr>hmem := m3, heap_total := heap_total h + sizeof_heap_block\<rparr>)"

definition unlink_block :: "u32 \<Rightarrow> heap \<Rightarrow> heap" where
  "unlink_block block h =
     (let m0 = hmem h;
          h1 = (if blk_prev m0 block \<noteq> 0
                then h\<lparr>hmem := set_next (blk_prev m0 block) (blk_next m0 block) m0\<rparr>
                else h\<lparr>heap_head := blk_next m0 block\<rparr>);
          m1 = hmem h1
      in if blk_next m1 block \<noteq> 0
         then h1\<lparr>hmem := set_prev (blk_next m1 block) (blk_prev m1 block) m1\<rparr> else h1)"

definition release_whole_region_if_possible :: "u32 \<Rightarrow> heap \<Rightarrow> heap option" where
  "release_whole_region_if_possible block h =
     (let m = hmem h in
      if \<not> blk_free m block \<or> blk_page_count m block = 0 then Some h
      else let region_payload = blk_page_count m block * PMM_PAGE_SIZE - sizeof_heap_block in
           if blk_size m block \<noteq> region_payload then Some h
           else let h1 = unlink_block block h;
                    h2 = h1\<lparr>heap_total := heap_total h1 - blk_size (hmem h1) block\<rparr>
                in do { p \<leftarrow> pmm_free_pages_block block (blk_page_count (hmem h2) block) (hpmm h2);
                        Some (h2\<lparr>hpmm := p\<rparr>) })"

definition heap_initialize :: "mem \<Rightarrow> pmm \<Rightarrow> heap option" where
  "heap_initialize m p =
     do { (page, p1) \<leftarrow> pmm_alloc_page p;
          let h = \<lparr>hmem = m, hpmm = p1, heap_head = 0, heap_total = 0, heap_used = 0,
                   invalid_free_count = 0, double_free_count = 0\<rparr>;
          if page \<noteq> 0 then block_from_pages page 1 h else Some h }"

partial_function (option) kmalloc_grow :: "u32 \<Rightarrow> u32 \<Rightarrow> heap \<Rightarrow> (u32 \<times> heap) option" where
  "kmalloc_grow sz block h =
     (if block \<noteq> 0 then Some (block, h)
      else do { let pages_needed = (sz + sizeof_heap_block + PMM_PAGE_SIZE - 1) div PMM_PAGE_SIZE;
                (pages, p) \<leftarrow> pmm_alloc_pages pages_needed (hpmm h);
                let h1 = h\<lparr>hpmm := p\<rparr>;
                if pages = 0 then Some (0, h1)
                else do { h2 \<leftarrow> block_from_pages pages pages_needed h1;
                          block' \<leftarrow> find_free_block sz h2;
                          kmalloc_grow sz block' h2 } })"

definition kmalloc :: "u32 \<Rightarrow> heap \<Rightarrow> (u32 \<times> heap) option" where
  "kmalloc szarg h =
     (if szarg = 0 then Some (0, h)
      else let sz = align_up_size szarg 8 in
           do { block0 \<leftarrow> find_free_block sz h;
                (block, h1) \<leftarrow> kmalloc_grow sz block0 h;
                if block = 0 then Some (0, h1)
                else let h2 = split_block block sz h1;
                         h3 = h2\<lparr>hmem := set_free block False (hmem h2)\<rparr>;
                         h4 = h3\<lparr>heap_used := heap_used h3 + blk_size (hmem h3) block\<rparr>
                     in Some (block + sizeof_heap_block, h4) })"

definition kmalloc_aligned :: "u32 \<Rightarrow> u32 \<Rightarrow> heap \<Rightarrow> (u32 \<times> heap) option" where
  "kmalloc_aligned sz alignment0 h =
     (let alignment = (if alignment0 < 4 then 4 else alignment0);
          total = sz + alignment + sizeof_aligned_header
      in do { (raw, h1) \<leftarrow> kmalloc total h;
              if raw = 0 then Some (0, h1)
              else let aligned = (raw + sizeof_aligned_header + alignment - 1) AND NOT (alignment - 1);
                       header = aligned - sizeof_aligned_header;
                       m = store32 (store32 (hmem h1) (unat header) HEAP_ALIGN_MAGIC) (unat header + 4) raw
                   in Some (aligned, h1\<lparr>hmem := m\<rparr>) })"

partial_function (option) kfree :: "u32 \<Rightarrow> heap \<Rightarrow> heap option" where
  "kfree ptr h =
     (if ptr = 0 then Some h
      else let aligned = ptr - sizeof_aligned_header; m = hmem h in
      if load32 m (unat aligned) = HEAP_ALIGN_MAGIC
      then let m1 = store32 m (unat aligned) 0
           in kfree (load32 m1 (unat aligned + 4)) (h\<lparr>hmem := m1\<rparr>)
      else let block = ptr - sizeof_heap_block in
      if blk_magic m block \<noteq> HEAP_MAGIC
      then Some (h\<lparr>invalid_free_count := invalid_free_count h + 1\<rparr>)
      else if blk_free m block
      then Some (h\<lparr>double_free_count := double_free_count h + 1\<rparr>)
      else let h1 = h\<lparr>hmem := set_free block True m, heap_used := heap_used h - blk_size m block\<rparr>;
               h2 = coalesce_next block h1;
               prv = blk_prev (hmem h2) block;
               (block', h3) = (if prv \<noteq> 0 \<and> blk_free (hmem h2) prv
                               then (prv, coalesce_next prv h2) else (block, h2))
           in release_whole_region_if_possible block' h3)"

definition heap_total_bytes :: "heap \<Rightarrow> u32" where "heap_total_bytes h = heap_total h"
definition heap_used_bytes :: "heap \<Rightarrow> u32" where "heap_used_bytes h = heap_used h"
definition heap_free_bytes :: "heap \<Rightarrow> u32" where "heap_free_bytes h = heap_total h - heap_used h"
definition heap_invalid_free_count :: "heap \<Rightarrow> u32" where "heap_invalid_free_count h = invalid_free_count h"
definition heap_double_free_count :: "heap \<Rightarrow> u32" where "heap_double_free_count h = double_free_count h"

end
