(* ===== verification/Heap_Blocks.thy ===== *)
theory Heap_Blocks
  imports Heap
begin

text \<open>The block list of the heap: the abstraction of the raw headers to a list of blocks, the heap
  invariant, and the effect of each list operation (split, coalesce, unlink, release of a whole region,
  growth by pages) on that list.\<close>

section \<open>Header fields in raw memory\<close>

lemmas blk_field_defs = blk_magic_def blk_size_def blk_page_count_def blk_free_def blk_next_def blk_prev_def
  set_magic_def set_size_def set_page_count_def set_free_def set_next_def set_prev_def

lemma load32_upd_other [mem_simps]: "a < b \<or> b + 4 \<le> a \<Longrightarrow> load32 (m(a := v)) b = load32 m b"
  unfolding load32_def by auto

lemma store32_other [mem_simps]: "b < a \<or> a + 4 \<le> b \<Longrightarrow> store32 m a v b = m b"
  unfolding store32_def by auto

lemma blk_get_set_same [simp]:
  "blk_magic (set_magic b v m) b = v" "blk_magic (set_size b v m) b = blk_magic m b"
  "blk_magic (set_page_count b v m) b = blk_magic m b" "blk_magic (set_free b f m) b = blk_magic m b"
  "blk_magic (set_next b v m) b = blk_magic m b" "blk_magic (set_prev b v m) b = blk_magic m b"
  "blk_size (set_magic b v m) b = blk_size m b" "blk_size (set_size b v m) b = v"
  "blk_size (set_page_count b v m) b = blk_size m b" "blk_size (set_free b f m) b = blk_size m b"
  "blk_size (set_next b v m) b = blk_size m b" "blk_size (set_prev b v m) b = blk_size m b"
  "blk_page_count (set_magic b v m) b = blk_page_count m b" "blk_page_count (set_size b v m) b = blk_page_count m b"
  "blk_page_count (set_page_count b v m) b = v" "blk_page_count (set_free b f m) b = blk_page_count m b"
  "blk_page_count (set_next b v m) b = blk_page_count m b" "blk_page_count (set_prev b v m) b = blk_page_count m b"
  "blk_free (set_magic b v m) b = blk_free m b" "blk_free (set_size b v m) b = blk_free m b"
  "blk_free (set_page_count b v m) b = blk_free m b" "blk_free (set_free b f m) b = f"
  "blk_free (set_next b v m) b = blk_free m b" "blk_free (set_prev b v m) b = blk_free m b"
  "blk_next (set_magic b v m) b = blk_next m b" "blk_next (set_size b v m) b = blk_next m b"
  "blk_next (set_page_count b v m) b = blk_next m b" "blk_next (set_free b f m) b = blk_next m b"
  "blk_next (set_next b v m) b = v" "blk_next (set_prev b v m) b = blk_next m b"
  "blk_prev (set_magic b v m) b = blk_prev m b" "blk_prev (set_size b v m) b = blk_prev m b"
  "blk_prev (set_page_count b v m) b = blk_prev m b" "blk_prev (set_free b f m) b = blk_prev m b"
  "blk_prev (set_next b v m) b = blk_prev m b" "blk_prev (set_prev b v m) b = v"
  by (simp_all add: blk_field_defs mem_simps)

definition apart :: "u32 \<Rightarrow> u32 \<Rightarrow> bool" where
  "apart b c \<longleftrightarrow> unat b + 24 \<le> unat c \<or> unat c + 24 \<le> unat b"

lemma apart_sym: "apart b c \<longleftrightarrow> apart c b"
  by (auto simp: apart_def)

definition hdr_bytes :: "u32 \<Rightarrow> nat set" where
  "hdr_bytes b = {unat b..<unat b + 24}"

lemma set_frame:
  assumes "a \<notin> hdr_bytes b"
  shows "set_magic b v m a = m a" "set_size b v m a = m a" "set_page_count b v m a = m a"
    "set_free b f m a = m a" "set_next b v m a = m a" "set_prev b v m a = m a"
  using assms by (auto simp: hdr_bytes_def blk_field_defs intro!: store32_other)

lemma get_frame:
  assumes "\<forall>a \<in> hdr_bytes b. m' a = m a"
  shows "blk_magic m' b = blk_magic m b" "blk_size m' b = blk_size m b"
    "blk_page_count m' b = blk_page_count m b" "blk_free m' b = blk_free m b"
    "blk_next m' b = blk_next m b" "blk_prev m' b = blk_prev m b"
  using assms by (simp_all add: hdr_bytes_def blk_field_defs load32_def)

lemma apart_hdr: "apart b c \<Longrightarrow> a \<in> hdr_bytes b \<Longrightarrow> a \<notin> hdr_bytes c"
  by (auto simp: apart_def hdr_bytes_def)

lemma blk_get_set_other [mem_simps]:
  assumes "apart b c"
  shows "blk_magic (set_magic c v m) b = blk_magic m b" "blk_magic (set_size c v m) b = blk_magic m b"
    "blk_magic (set_page_count c v m) b = blk_magic m b" "blk_magic (set_free c f m) b = blk_magic m b"
    "blk_magic (set_next c v m) b = blk_magic m b" "blk_magic (set_prev c v m) b = blk_magic m b"
    "blk_size (set_magic c v m) b = blk_size m b" "blk_size (set_size c v m) b = blk_size m b"
    "blk_size (set_page_count c v m) b = blk_size m b" "blk_size (set_free c f m) b = blk_size m b"
    "blk_size (set_next c v m) b = blk_size m b" "blk_size (set_prev c v m) b = blk_size m b"
    "blk_page_count (set_magic c v m) b = blk_page_count m b" "blk_page_count (set_size c v m) b = blk_page_count m b"
    "blk_page_count (set_page_count c v m) b = blk_page_count m b" "blk_page_count (set_free c f m) b = blk_page_count m b"
    "blk_page_count (set_next c v m) b = blk_page_count m b" "blk_page_count (set_prev c v m) b = blk_page_count m b"
    "blk_free (set_magic c v m) b = blk_free m b" "blk_free (set_size c v m) b = blk_free m b"
    "blk_free (set_page_count c v m) b = blk_free m b" "blk_free (set_free c f m) b = blk_free m b"
    "blk_free (set_next c v m) b = blk_free m b" "blk_free (set_prev c v m) b = blk_free m b"
    "blk_next (set_magic c v m) b = blk_next m b" "blk_next (set_size c v m) b = blk_next m b"
    "blk_next (set_page_count c v m) b = blk_next m b" "blk_next (set_free c f m) b = blk_next m b"
    "blk_next (set_next c v m) b = blk_next m b" "blk_next (set_prev c v m) b = blk_next m b"
    "blk_prev (set_magic c v m) b = blk_prev m b" "blk_prev (set_size c v m) b = blk_prev m b"
    "blk_prev (set_page_count c v m) b = blk_prev m b" "blk_prev (set_free c f m) b = blk_prev m b"
    "blk_prev (set_next c v m) b = blk_prev m b" "blk_prev (set_prev c v m) b = blk_prev m b"
  using apart_hdr [OF assms] by (simp_all add: get_frame set_frame)

section \<open>The block list\<close>

text \<open>The abstract view of a header, and of the doubly linked list of headers from \<open>p\<close> up to the
  pointer \<open>q\<close>, the first of which points back to \<open>prv\<close>.\<close>

record hblk =
  addr :: u32
  bsz :: u32
  bpg :: u32
  bfr :: bool

definition hdr :: "mem \<Rightarrow> hblk \<Rightarrow> u32 \<Rightarrow> u32 \<Rightarrow> bool" where
  "hdr m x nxt prv \<longleftrightarrow> blk_magic m (addr x) = HEAP_MAGIC \<and> blk_size m (addr x) = bsz x
     \<and> blk_page_count m (addr x) = bpg x \<and> blk_free m (addr x) = bfr x
     \<and> blk_next m (addr x) = nxt \<and> blk_prev m (addr x) = prv"

fun chain :: "mem \<Rightarrow> u32 \<Rightarrow> u32 \<Rightarrow> hblk list \<Rightarrow> u32 \<Rightarrow> bool" where
  "chain m prv p [] q \<longleftrightarrow> p = q"
| "chain m prv p (x # xs) q \<longleftrightarrow>
     p = addr x \<and> (\<exists>nxt. hdr m x nxt prv \<and> chain m (addr x) nxt xs q)"

fun lastp :: "u32 \<Rightarrow> hblk list \<Rightarrow> u32" where
  "lastp prv [] = prv"
| "lastp prv (x # xs) = lastp (addr x) xs"

lemma lastp_snoc [simp]: "lastp prv (xs @ [x]) = addr x"
  by (induction xs arbitrary: prv) auto

lemma lastp_cases: "lastp prv xs = prv \<and> xs = [] \<or> (\<exists>ys y. xs = ys @ [y] \<and> lastp prv xs = addr y)"
  by (cases xs rule: rev_cases) auto

lemma chain_append: "chain m prv p (xs @ ys) q \<longleftrightarrow> (\<exists>r. chain m prv p xs r \<and> chain m (lastp prv xs) r ys q)"
  by (induction xs arbitrary: prv p) auto

lemma hdr_cong: "\<forall>a \<in> hdr_bytes (addr x). m' a = m a \<Longrightarrow> hdr m' x n p = hdr m x n p"
  unfolding hdr_def by (simp only: get_frame [of "addr x" m' m])

lemma chain_cong:
  "\<forall>x \<in> set xs. \<forall>a \<in> hdr_bytes (addr x). m' a = m a \<Longrightarrow> chain m' prv p xs q = chain m prv p xs q"
proof (induction xs arbitrary: prv p)
  case (Cons x xs)
  then have "hdr m' x n prv = hdr m x n prv" for n by (intro hdr_cong) simp
  then show ?case using Cons by simp
qed simp

lemma chain_start: "chain m prv p xs 0 \<Longrightarrow> \<forall>x \<in> set xs. addr x \<noteq> 0 \<Longrightarrow> p = 0 \<longleftrightarrow> xs = []"
  by (cases xs) auto

lemma chain_det: "chain m prv p xs q \<Longrightarrow> chain m prv p xs q' \<Longrightarrow> q = q'"
  by (induction xs arbitrary: prv p) (auto simp: hdr_def)

text \<open>Replacing the back pointer of the first block, and the forward pointer of the last one.\<close>

lemma chain_relink:
  assumes "chain m prv p xs 0" and "\<forall>x \<in> set xs. addr x \<noteq> 0" and "sorted_wrt (\<lambda>x y. apart (addr x) (addr y)) xs"
  shows "chain (if p \<noteq> 0 then set_prev p prv' m else m) prv' p xs 0"
proof (cases xs)
  case Nil
  then show ?thesis using assms(1) by simp
next
  case (Cons x ys)
  let ?m = "set_prev (addr x) prv' m"
  have p: "p = addr x" "addr x \<noteq> 0" using assms(1,2) by (auto simp: Cons)
  obtain n where n: "hdr m x n prv" "chain m (addr x) n ys 0" using assms(1) by (auto simp: Cons)
  have "hdr ?m x n prv'" using n(1) by (simp add: hdr_def)
  moreover have "chain ?m (addr x) n ys 0"
  proof -
    have "\<forall>y \<in> set ys. \<forall>a \<in> hdr_bytes (addr y). ?m a = m a"
      using assms(3) apart_hdr by (auto simp: Cons apart_sym set_frame)
    then show ?thesis using n(2) chain_cong by blast
  qed
  ultimately show ?thesis using p by (auto simp: Cons)
qed

lemma chain_set_next_last:
  assumes "chain m prv p (xs @ [x]) q" and "\<forall>y \<in> set xs. apart (addr y) (addr x)"
  shows "chain (set_next (addr x) q' m) prv p (xs @ [x]) q'"
proof -
  obtain r where r: "chain m prv p xs r" "r = addr x" "hdr m x q (lastp prv xs)"
    using assms(1) by (auto simp: chain_append)
  have "\<forall>y \<in> set xs. \<forall>a \<in> hdr_bytes (addr y). set_next (addr x) q' m a = m a"
    using assms(2) apart_hdr by (auto simp: set_frame)
  then have "chain (set_next (addr x) q' m) prv p xs r" using r(1) chain_cong by blast
  moreover have "hdr (set_next (addr x) q' m) x q' (lastp prv xs)" using r(3) by (simp add: hdr_def)
  ultimately show ?thesis using r(2) by (auto simp: chain_append)
qed

lemma find_tail_ok: "chain m prv p xs 0 \<Longrightarrow> xs \<noteq> [] \<Longrightarrow> \<forall>x \<in> set xs. addr x \<noteq> 0 \<Longrightarrow> find_tail m p = Some (lastp prv xs)"
proof (induction xs arbitrary: prv p)
  case (Cons x xs)
  then obtain n where n: "hdr m x n prv" "chain m (addr x) n xs 0" "p = addr x" by auto
  show ?case
  proof (cases "xs = []")
    case True
    then show ?thesis using n by (subst find_tail.simps) (simp add: hdr_def)
  next
    case False
    then have "n \<noteq> 0" using chain_start [OF n(2)] Cons.prems(3) by auto
    then show ?thesis using n False Cons by (subst find_tail.simps) (simp add: hdr_def)
  qed
qed simp

lemma find_free_from_ok:
  assumes "chain m prv p xs 0" and "\<forall>x \<in> set xs. addr x \<noteq> 0"
  shows "find_free_from m p sz = Some (case find (\<lambda>x. bfr x \<and> sz \<le> bsz x) xs of None \<Rightarrow> 0 | Some x \<Rightarrow> addr x)"
  using assms
proof (induction xs arbitrary: prv p)
  case Nil
  then show ?case by (subst find_free_from.simps) simp
next
  case (Cons x xs)
  then obtain n where "hdr m x n prv" "chain m (addr x) n xs 0" "p = addr x" by auto
  then show ?case using Cons by (subst find_free_from.simps) (auto simp: hdr_def)
qed

section \<open>Invariant\<close>

definition extent :: "hblk \<Rightarrow> nat set" where
  "extent x = {unat (addr x)..<unat (addr x) + 24 + unat (bsz x)}"

definition payload :: "hblk \<Rightarrow> nat set" where
  "payload x = {unat (addr x) + 24..<unat (addr x) + 24 + unat (bsz x)}"

definition placed :: "nat set \<Rightarrow> hblk \<Rightarrow> bool" where
  "placed P x \<longleftrightarrow> 0 < unat (addr x) \<and> unat (addr x) + 24 + unat (bsz x) \<le> 0x08000000
     \<and> 8 dvd unat (addr x) \<and> 8 dvd unat (bsz x) \<and> (\<forall>a \<in> extent x. a div 4096 \<in> P)"

definition blocks_ok :: "nat set \<Rightarrow> hblk list \<Rightarrow> bool" where
  "blocks_ok P xs \<longleftrightarrow> (\<forall>x \<in> set xs. placed P x) \<and> sorted_wrt (\<lambda>x y. extent x \<inter> extent y = {}) xs"

definition live :: "hblk list \<Rightarrow> hblk list" where
  "live xs = filter (\<lambda>x. \<not> bfr x) xs"

definition heap_inv :: "nat set \<Rightarrow> heap \<Rightarrow> hblk list \<Rightarrow> bool" where
  "heap_inv U h xs \<longleftrightarrow> pmm_inv U (hpmm h) \<and> chain (hmem h) 0 (heap_head h) xs 0
     \<and> blocks_ok (U - avail (hpmm h)) xs
     \<and> heap_total h = sum_list (map bsz xs) \<and> heap_used h = sum_list (map bsz (live xs))"

text \<open>The bytes the allocator may write: headers, and the payload of free blocks.\<close>

definition own_bytes :: "hblk list \<Rightarrow> nat set" where
  "own_bytes xs = (\<Union>x \<in> set xs. if bfr x then extent x else hdr_bytes (addr x))"

lemma live_simps [simp]:
  "live [] = []" "live (x # xs) = (if bfr x then live xs else x # live xs)" "live (xs @ ys) = live xs @ live ys"
  by (auto simp: live_def)

lemma own_bytes_simps [simp]:
  "own_bytes [] = {}"
  "own_bytes (x # xs) = (if bfr x then extent x else hdr_bytes (addr x)) \<union> own_bytes xs"
  "own_bytes (xs @ ys) = own_bytes xs \<union> own_bytes ys"
  by (auto simp: own_bytes_def)

text \<open>The bytes that can still be handed out: free blocks, and the pages the page allocator has.\<close>

definition free_area :: "hblk list \<Rightarrow> nat set" where
  "free_area xs = (\<Union>x \<in> set xs. if bfr x then extent x else {})"

definition free_bytes :: "heap \<Rightarrow> hblk list \<Rightarrow> nat set" where
  "free_bytes h xs = free_area xs \<union> {a. a div 4096 \<in> avail (hpmm h)}"

lemma free_area_simps [simp]:
  "free_area [] = {}" "free_area (x # xs) = (if bfr x then extent x else {}) \<union> free_area xs" "free_area (xs @ ys) = free_area xs \<union> free_area ys"
  by (auto simp: free_area_def)

lemma hdr_sub_extent: "hdr_bytes (addr x) \<subseteq> extent x"
  by (auto simp: hdr_bytes_def extent_def)

lemma hdr_own: "x \<in> set xs \<Longrightarrow> hdr_bytes (addr x) \<subseteq> own_bytes xs"
  using hdr_sub_extent [of x] unfolding own_bytes_def by (cases "bfr x") auto

lemma extent_apart:
  assumes "extent x \<inter> extent y = {}"
  shows "apart (addr x) (addr y)"
proof (rule ccontr)
  assume "\<not> apart (addr x) (addr y)"
  then have "max (unat (addr x)) (unat (addr y)) \<in> extent x \<inter> extent y"
    by (auto simp: apart_def extent_def)
  then show False using assms by blast
qed

lemma blocks_ok_apart: "blocks_ok P xs \<Longrightarrow> sorted_wrt (\<lambda>x y. apart (addr x) (addr y)) xs"
  unfolding blocks_ok_def
  by (elim conjE) (erule sorted_wrt_mono_rel [rotated], rule extent_apart, assumption)

lemma blocks_ok_nonzero: "blocks_ok P xs \<Longrightarrow> \<forall>x \<in> set xs. addr x \<noteq> 0"
  by (auto simp: blocks_ok_def placed_def)

lemma blocks_ok_append:
  "blocks_ok P (xs @ ys) \<longleftrightarrow> blocks_ok P xs \<and> blocks_ok P ys
     \<and> (\<forall>x \<in> set xs. \<forall>y \<in> set ys. extent x \<inter> extent y = {})"
  by (auto simp: blocks_ok_def sorted_wrt_append)

lemma blocks_ok_Cons:
  "blocks_ok P (x # ys) \<longleftrightarrow> placed P x \<and> blocks_ok P ys \<and> (\<forall>y \<in> set ys. extent x \<inter> extent y = {})"
  by (auto simp: blocks_ok_def)

lemma blocks_ok_replace:
  assumes "blocks_ok P (xs @ ws @ ys)" and "blocks_ok P zs"
    and "(\<Union>z \<in> set zs. extent z) \<subseteq> (\<Union>w \<in> set ws. extent w)"
  shows "blocks_ok P (xs @ zs @ ys)"
proof -
  have sub: "\<exists>w \<in> set ws. a \<in> extent w" if "z \<in> set zs" "a \<in> extent z" for z a
    using assms(3) that by blast
  have l: "extent x \<inter> extent w = {}" if "x \<in> set xs" "w \<in> set ws" for x w
    using assms(1) that unfolding blocks_ok_append by auto
  have r: "extent w \<inter> extent y = {}" if "w \<in> set ws" "y \<in> set ys" for w y
    using assms(1) that unfolding blocks_ok_append by auto
  have "extent x \<inter> extent z = {}" if "x \<in> set xs" "z \<in> set zs" for x z
    using sub l that by blast
  moreover have "extent z \<inter> extent y = {}" if "z \<in> set zs" "y \<in> set ys" for z y
    using sub r that by blast
  moreover have "extent x \<inter> extent y = {}" if "x \<in> set xs" "y \<in> set ys" for x y
    using assms(1) that unfolding blocks_ok_append by auto
  ultimately show ?thesis using assms(1,2) unfolding blocks_ok_append by (simp add: ball_Un)
qed

lemma blocks_ok_mono: "blocks_ok P xs \<Longrightarrow> P \<subseteq> Q \<Longrightarrow> blocks_ok Q xs"
  unfolding blocks_ok_def placed_def by blast

text \<open>The neighbourhood of a block in a well-formed list.\<close>

lemma chain_at:
  assumes "chain m 0 head (xs @ x # ys) 0" and "blocks_ok P (xs @ x # ys)"
  obtains nxt where "chain m 0 head xs (addr x)" "hdr m x nxt (lastp 0 xs)" "chain m (addr x) nxt ys 0"
    "nxt = 0 \<longleftrightarrow> ys = []" "lastp 0 xs = 0 \<longleftrightarrow> xs = []"
proof -
  obtain nxt where n: "chain m 0 head xs (addr x)" "hdr m x nxt (lastp 0 xs)" "chain m (addr x) nxt ys 0"
    using assms(1) by (auto simp: chain_append)
  have "nxt = 0 \<longleftrightarrow> ys = []"
    using chain_start [OF n(3)] blocks_ok_nonzero [OF assms(2)] by simp
  moreover have "lastp 0 xs = 0 \<longleftrightarrow> xs = []"
    using lastp_cases [of 0 xs] blocks_ok_nonzero [OF assms(2)] by auto
  ultimately show ?thesis using that n by blast
qed

lemma blocks_ok_at:
  assumes "blocks_ok P (xs @ x # ys)"
  shows "placed P x" "\<forall>y \<in> set xs \<union> set ys. extent y \<inter> extent x = {}" "\<forall>y \<in> set xs \<union> set ys. apart (addr y) (addr x)"
    "\<forall>y \<in> set xs. \<forall>z \<in> set ys. apart (addr y) (addr z)"
    "\<forall>y \<in> set ys. addr y \<noteq> 0" "sorted_wrt (\<lambda>x y. apart (addr x) (addr y)) ys"
proof -
  show "placed P x" "\<forall>y \<in> set xs \<union> set ys. extent y \<inter> extent x = {}"
    using assms by (auto simp: blocks_ok_append blocks_ok_Cons)
  then show "\<forall>y \<in> set xs \<union> set ys. apart (addr y) (addr x)" by (simp add: extent_apart)
  show "\<forall>y \<in> set xs. \<forall>z \<in> set ys. apart (addr y) (addr z)"
    using blocks_ok_apart [OF assms] by (simp add: sorted_wrt_append)
  show "\<forall>y \<in> set ys. addr y \<noteq> 0" "sorted_wrt (\<lambda>x y. apart (addr x) (addr y)) ys"
    using blocks_ok_nonzero [OF assms] blocks_ok_apart [OF assms] by (auto simp: sorted_wrt_append)
qed

lemma chain_frame:
  assumes "chain m prv p xs q" and "\<And>a. a \<notin> A \<Longrightarrow> m' a = m a"
    and "\<forall>x \<in> set xs. hdr_bytes (addr x) \<inter> A = {}"
  shows "chain m' prv p xs q"
proof -
  have "m' a = m a" if "x \<in> set xs" "a \<in> hdr_bytes (addr x)" for x a
  proof -
    have "a \<notin> A" using assms(3) that by blast
    then show ?thesis by (rule assms(2))
  qed
  then have "chain m' prv p xs q = chain m prv p xs q" by (intro chain_cong) simp
  then show ?thesis using assms(1) by simp
qed

section \<open>Splitting\<close>

text \<open>The list after a split: the block shrunk to \<open>sz\<close> and a free remainder behind it, whose page
  count is whatever the memory held.\<close>

definition shrunk :: "hblk \<Rightarrow> u32 \<Rightarrow> hblk" where
  "shrunk x sz = x\<lparr>bsz := sz\<rparr>"

definition remainder :: "mem \<Rightarrow> hblk \<Rightarrow> u32 \<Rightarrow> hblk" where
  "remainder m x sz = \<lparr>addr = addr x + 24 + sz, bsz = bsz x - sz - 24,
     bpg = blk_page_count m (addr x + 24 + sz), bfr = True\<rparr>"

lemma split_pieces:
  assumes "placed P x" and "unat sz + 56 \<le> unat (bsz x)" and "8 dvd unat sz"
  shows "unat (addr x + 24 + sz) = unat (addr x) + 24 + unat sz"
    and "unat (bsz x - sz - 24) = unat (bsz x) - unat sz - 24"
    and "blocks_ok P [shrunk x sz, remainder m x sz]"
    and "extent (shrunk x sz) \<union> extent (remainder m x sz) = extent x"
    and "apart (addr x) (addr x + 24 + sz)"
proof -
  have p: "unat (addr x) + 24 + unat (bsz x) \<le> 0x08000000" "0 < unat (addr x)" "8 dvd unat (addr x)" "8 dvd unat (bsz x)"
    using assms(1) by (auto simp: placed_def)
  show z: "unat (addr x + 24 + sz) = unat (addr x) + 24 + unat sz"
    using p assms(2) by (simp add: unat_word_ariths)
  have "sz \<le> bsz x" using assms(2) by (simp add: word_le_nat_alt)
  then have "unat (bsz x - sz) = unat (bsz x) - unat sz" by (simp add: unat_sub)
  moreover from this have "24 \<le> bsz x - sz" using assms(2) by (simp add: word_le_nat_alt)
  ultimately show s: "unat (bsz x - sz - 24) = unat (bsz x) - unat sz - 24" by (simp add: unat_sub)
  show u: "extent (shrunk x sz) \<union> extent (remainder m x sz) = extent x"
    using assms(2) by (auto simp: extent_def shrunk_def remainder_def z s)
  have d: "extent (shrunk x sz) \<inter> extent (remainder m x sz) = {}"
    by (auto simp: extent_def shrunk_def remainder_def z s)
  have pl: "\<forall>a \<in> extent (shrunk x sz) \<union> extent (remainder m x sz). a div 4096 \<in> P"
    using assms(1) u by (simp add: placed_def)
  have "placed P (shrunk x sz)"
    using pl p assms(2,3) by (simp add: placed_def) (simp add: shrunk_def)
  moreover have "placed P (remainder m x sz)"
    using pl p assms(2,3) by (simp add: placed_def) (simp add: remainder_def z s)
  ultimately show "blocks_ok P [shrunk x sz, remainder m x sz]" using d by (simp add: blocks_ok_def)
  show "apart (addr x) (addr x + 24 + sz)" by (simp add: apart_def z)
qed

lemma apart_iff: "apart b c \<longleftrightarrow> hdr_bytes b \<inter> hdr_bytes c = {}"
proof
  assume d: "hdr_bytes b \<inter> hdr_bytes c = {}"
  show "apart b c"
  proof (rule ccontr)
    assume "\<not> apart b c"
    then have "max (unat b) (unat c) \<in> hdr_bytes b \<inter> hdr_bytes c" by (auto simp: apart_def hdr_bytes_def)
    then show False using d by blast
  qed
qed (auto simp: apart_def hdr_bytes_def)

text \<open>The header a possibly null pointer points to.\<close>

definition phdr :: "u32 \<Rightarrow> nat set" where
  "phdr n = (if n = 0 then {} else hdr_bytes n)"

lemma phdr_own: "(n \<noteq> 0 \<Longrightarrow> n \<in> addr ` set ys) \<Longrightarrow> phdr n \<subseteq> own_bytes ys"
  unfolding phdr_def using hdr_own [of _ ys] by (cases "n = 0") (simp, fastforce)

lemma phdr_apart: "(n \<noteq> 0 \<Longrightarrow> n \<in> addr ` set ys) \<Longrightarrow> \<forall>y \<in> set ys. apart b (addr y) \<Longrightarrow> hdr_bytes b \<inter> phdr n = {}"
  unfolding phdr_def apart_iff by (cases "n = 0") (simp, fastforce)

lemma set_prev_frame: "a \<notin> phdr n \<Longrightarrow> (if n \<noteq> 0 then set_prev n v m else m) a = m a"
  by (auto simp: phdr_def set_frame)

lemma set_next_frame: "a \<notin> phdr n \<Longrightarrow> (if n \<noteq> 0 then set_next n v m else m) a = m a"
  by (auto simp: phdr_def set_frame)

lemma split_chain:
  fixes m x sz and z defines "z \<equiv> addr x + 24 + sz"
  assumes "chain m 0 head (xs @ x # ys) 0" and ok: "blocks_ok P (xs @ x # ys)"
    and "unat sz + 56 \<le> unat (bsz x)" and "8 dvd unat sz" and "bfr x" and "nxt = blk_next m (addr x)"
    and m1: "m1 = set_prev z (addr x) (set_next z nxt (set_free z True (set_size z (bsz x - sz - 24) (set_magic z HEAP_MAGIC m))))"
    and m2: "m2 = (if nxt \<noteq> 0 then set_prev nxt z m1 else m1)"
    and m3: "m3 = set_size (addr x) sz (set_next (addr x) z m2)"
  shows "chain m3 0 head (xs @ shrunk x sz # remainder m x sz # ys) 0"
    and "a \<notin> own_bytes (xs @ x # ys) \<Longrightarrow> m3 a = m a"
proof -
  note at = blocks_ok_at [OF ok]
  note sp = split_pieces [OF at(1) assms(4,5)]
  obtain n where n: "chain m 0 head xs (addr x)" "hdr m x n (lastp 0 xs)" "chain m (addr x) n ys 0" "n = 0 \<longleftrightarrow> ys = []"
    using chain_at [OF assms(2) ok] by metis
  have nxt: "nxt = n" using n(2) assms(7) by (simp add: hdr_def)
  have hd: "n \<in> addr ` set ys" if "n \<noteq> 0" using n(3,4) that by (cases ys) auto
  have zs: "hdr_bytes z \<subseteq> extent x"
    using sp(4) [of m] hdr_sub_extent [of "remainder m x sz"] by (auto simp: z_def remainder_def)
  have az: "apart (addr y) z" if "y \<in> set xs \<union> set ys" for y
    using at(2) that zs hdr_sub_extent [of y] unfolding apart_iff by blast
  have xz: "apart (addr x) z" using sp(5) by (simp add: z_def)
  have f1: "m1 a = m a" if "a \<notin> hdr_bytes z" for a using that by (simp add: m1 set_frame)
  have f2: "m2 a = m1 a" if "a \<notin> phdr n" for a using that unfolding m2 nxt by (rule set_prev_frame)
  have f3: "m3 a = m2 a" if "a \<notin> hdr_bytes (addr x)" for a using that by (simp add: m3 set_frame)
  have "chain m1 (addr x) n ys 0"
    using az by (intro chain_frame [OF n(3) f1]) (auto simp: apart_iff)
  from chain_relink [OF this at(5,6), of z] have "chain m2 z n ys 0" by (simp only: m2 nxt)
  then have ys: "chain m3 z n ys 0"
    using at(3) by (intro chain_frame [OF _ f3]) (auto simp: apart_iff)
  have f: "m3 a = m a" if "a \<notin> hdr_bytes z \<union> hdr_bytes (addr x) \<union> phdr n" for a
    using that f1 [of a] f2 [of a] f3 [of a] by simp
  have xs: "chain m3 0 head xs (addr x)"
    using at(3) az phdr_apart [OF hd] at(4) by (intro chain_frame [OF n(1) f, where A = "hdr_bytes z \<union> hdr_bytes (addr x) \<union> phdr n"])
      (simp_all add: apart_iff Int_Un_distrib)
  have xn: "n \<noteq> 0 \<Longrightarrow> apart (addr x) n" "n \<noteq> 0 \<Longrightarrow> apart z n" using at(3) az hd by (auto simp: apart_sym)
  have "hdr m3 (shrunk x sz) z (lastp 0 xs)"
    using n(2) xz xn(1) by (auto simp: hdr_def shrunk_def m3 m2 m1 nxt mem_simps)
  moreover have "hdr m3 (remainder m x sz) n (addr x)"
    using xz [unfolded apart_sym [of "addr x"]] xn(2)
    by (auto simp: hdr_def remainder_def z_def [symmetric] m3 m2 m1 nxt mem_simps)
  ultimately show "chain m3 0 head (xs @ shrunk x sz # remainder m x sz # ys) 0"
    using xs ys by (auto simp: chain_append shrunk_def remainder_def z_def)
  show "m3 a = m a" if "a \<notin> own_bytes (xs @ x # ys)"
    using that phdr_own [OF hd] zs hdr_sub_extent [of x] assms(6) by (intro f) auto
qed

lemma split_block_ok:
  assumes inv: "heap_inv U h (xs @ x # ys)" and "bfr x" and "sz \<le> bsz x" and "8 dvd unat sz"
  shows "\<exists>x' zs. heap_inv U (split_block (addr x) sz h) (xs @ x' # zs @ ys) \<and> addr x' = addr x \<and> bfr x' \<and> sz \<le> bsz x'
    \<and> (\<forall>z \<in> set zs. bfr z) \<and> hpmm (split_block (addr x) sz h) = hpmm h
    \<and> (\<forall>a. a \<notin> own_bytes (xs @ x # ys) \<longrightarrow> hmem (split_block (addr x) sz h) a = hmem h a)
    \<and> extent x' \<subseteq> extent x \<and> own_bytes (xs @ x' # zs @ ys) \<subseteq> own_bytes (xs @ x # ys)"
proof -
  let ?P = "U - avail (hpmm h)" and ?m = "hmem h"
  have ch: "chain ?m 0 (heap_head h) (xs @ x # ys) 0" and ok: "blocks_ok ?P (xs @ x # ys)"
    using inv by (auto simp: heap_inv_def)
  have pl: "placed ?P x" by (rule blocks_ok_at [OF ok])
  obtain n where n: "hdr ?m x n (lastp 0 xs)" using chain_at [OF ch ok] by metis
  have nw: "unat (sz + 24 + 32) = unat sz + 56"
    using pl assms(3) by (simp add: placed_def word_le_nat_alt unat_word_ariths)
  show ?thesis
  proof (cases "bsz x < sz + 24 + 32")
    case True
    then have "split_block (addr x) sz h = h" using n by (simp add: split_block_def hdr_def)
    then show ?thesis using inv assms(2,3) by (intro exI [of _ x] exI [of _ "[]"]) simp
  next
    case False
    then have big: "unat sz + 56 \<le> unat (bsz x)" using nw by (simp add: word_less_nat_alt)
    define z where "z = addr x + 24 + sz"
    note sp = split_pieces [OF pl big assms(4)]
    have xz: "apart (addr x) z" using sp(5) by (simp add: z_def)
    define m1 where "m1 = set_prev z (addr x) (set_next z n (set_free z True (set_size z (bsz x - sz - 24) (set_magic z HEAP_MAGIC ?m))))"
    define m2 where "m2 = (if n \<noteq> 0 then set_prev n z m1 else m1)"
    define m3 where "m3 = set_size (addr x) sz (set_next (addr x) z m2)"
    have "n = blk_next ?m (addr x)" using n by (simp add: hdr_def)
    note sc = split_chain [OF ch ok big assms(4,2) this m1_def [unfolded z_def] m2_def [unfolded z_def] m3_def [unfolded z_def]]
    have m: "split_block (addr x) sz h = h\<lparr>hmem := m3, heap_total := heap_total h - 24\<rparr>"
      using n False xz apart_sym by (simp add: split_block_def hdr_def Let_def z_def [symmetric] m3_def m2_def m1_def mem_simps)
    have "blocks_ok ?P (xs @ [shrunk x sz, remainder ?m x sz] @ ys)"
      using blocks_ok_replace [OF _ sp(3) [of ?m], where xs = xs and ws = "[x]" and ys = ys] ok sp(4) [of ?m] by auto
    then have "heap_inv U (split_block (addr x) sz h) (xs @ shrunk x sz # [remainder ?m x sz] @ ys)"
      using inv sc(1) assms(2) by (simp add: m heap_inv_def shrunk_def remainder_def algebra_simps)
    then show ?thesis
      using sc(2) sp(4) [of ?m] assms(2)
      by (intro exI [of _ "shrunk x sz"] exI [of _ "[remainder ?m x sz]"]) (auto simp: m shrunk_def remainder_def)
  qed
qed

section \<open>Coalescing and unlinking\<close>

definition merged :: "hblk \<Rightarrow> hblk \<Rightarrow> hblk" where
  "merged x y = x\<lparr>bsz := bsz x + (24 + bsz y)\<rparr>"

lemma merged_placed:
  assumes "placed P x" and "placed P y" and "addr x + 24 + bsz x = addr y"
  shows "placed P (merged x y)" and "extent (merged x y) = extent x \<union> extent y"
proof -
  have x: "unat (addr x) + 24 + unat (bsz x) \<le> 0x08000000" and y: "unat (addr y) + 24 + unat (bsz y) \<le> 0x08000000"
    using assms(1,2) by (auto simp: placed_def)
  have a: "unat (addr y) = unat (addr x) + 24 + unat (bsz x)"
    using x assms(3) [symmetric] by (simp add: unat_word_ariths)
  have s: "unat (bsz x + (24 + bsz y)) = unat (bsz x) + 24 + unat (bsz y)"
    using y a by (simp add: unat_word_ariths)
  show e: "extent (merged x y) = extent x \<union> extent y" by (auto simp: extent_def merged_def s a)
  have "\<forall>b \<in> extent (merged x y). b div 4096 \<in> P" using assms(1,2) by (auto simp: e placed_def)
  then show "placed P (merged x y)" using assms(1,2) y a
    by (simp add: placed_def) (simp add: merged_def s)
qed

lemma coalesce_chain:
  assumes ch: "chain m 0 head (xs @ x # y # ys) 0" and ok: "blocks_ok P (xs @ x # y # ys)" and "nxt = blk_next m (addr y)"
    and m1: "m1 = set_next (addr x) nxt (set_size (addr x) (bsz x + (24 + bsz y)) m)"
    and m2: "m2 = (if nxt \<noteq> 0 then set_prev nxt (addr x) m1 else m1)"
  shows "chain m2 0 head (xs @ merged x y # ys) 0"
    and "a \<notin> own_bytes (xs @ x # y # ys) \<Longrightarrow> m2 a = m a"
proof -
  note at = blocks_ok_at [OF ok]
  have ok': "blocks_ok P ((xs @ [x]) @ y # ys)" using ok by simp
  note aty = blocks_ok_at [OF ok']
  have ch': "chain m 0 head ((xs @ [x]) @ y # ys) 0" using ch by simp
  obtain c where c: "chain m 0 head xs (addr x)" "hdr m x c (lastp 0 xs)"
    using chain_at [OF ch ok] by metis
  obtain n where n: "chain m (addr y) n ys 0" "hdr m y n (addr x)" "n = 0 \<longleftrightarrow> ys = []"
    using chain_at [OF ch' ok'] by (metis lastp_snoc)
  have nxt: "nxt = n" using n(2) assms(3) by (simp add: hdr_def)
  have hd: "n \<in> addr ` set ys" if "n \<noteq> 0" using n(1,3) that by (cases ys) auto
  have f1: "m1 a = m a" if "a \<notin> hdr_bytes (addr x)" for a using that by (simp add: m1 set_frame)
  have f: "m2 a = m a" if "a \<notin> hdr_bytes (addr x) \<union> phdr n" for a
  proof -
    have "m2 a = m1 a" unfolding m2 nxt by (rule set_prev_frame) (use that in simp)
    then show ?thesis using that f1 by simp
  qed
  have "chain m1 (addr y) n ys 0"
    using at(3) by (intro chain_frame [OF n(1) f1]) (auto simp: apart_iff)
  from chain_relink [OF this aty(5,6), of "addr x"] have ys: "chain m2 (addr x) n ys 0" by (simp only: m2 nxt)
  have xs: "chain m2 0 head xs (addr x)"
    using at(3) phdr_apart [OF hd] aty(4) by (intro chain_frame [OF c(1) f, where A = "hdr_bytes (addr x) \<union> phdr n"])
      (simp_all add: apart_iff Int_Un_distrib)
  have "n \<noteq> 0 \<Longrightarrow> apart (addr x) n" using at(3) hd by (auto simp: apart_sym)
  then have "hdr m2 (merged x y) n (lastp 0 xs)"
    using c(2) by (auto simp: hdr_def merged_def m2 m1 nxt mem_simps)
  then show "chain m2 0 head (xs @ merged x y # ys) 0"
    using xs ys by (auto simp: chain_append merged_def)
  show "m2 a = m a" if "a \<notin> own_bytes (xs @ x # y # ys)"
    using that phdr_own [OF hd] hdr_own [of x "[x]"] by (intro f) auto
qed

lemma coalesce_next_ok:
  assumes inv: "heap_inv U h (xs @ x # ys)" and "bfr x"
  shows "\<exists>x' ys'. heap_inv U (coalesce_next (addr x) h) (xs @ x' # ys') \<and> addr x' = addr x \<and> bfr x' \<and> live ys' = live ys
    \<and> bpg x' = bpg x \<and> hpmm (coalesce_next (addr x) h) = hpmm h \<and> free_area (xs @ x' # ys') = free_area (xs @ x # ys)
    \<and> own_bytes (xs @ x' # ys') \<subseteq> own_bytes (xs @ x # ys)
    \<and> (\<forall>a. a \<notin> own_bytes (xs @ x # ys) \<longrightarrow> hmem (coalesce_next (addr x) h) a = hmem h a)"
proof -
  let ?P = "U - avail (hpmm h)" and ?m = "hmem h"
  have ch: "chain ?m 0 (heap_head h) (xs @ x # ys) 0" and ok: "blocks_ok ?P (xs @ x # ys)"
    using inv by (auto simp: heap_inv_def)
  obtain n where n: "hdr ?m x n (lastp 0 xs)" "chain ?m (addr x) n ys 0" "n = 0 \<longleftrightarrow> ys = []"
    using chain_at [OF ch ok] by metis
  have same: ?thesis if "coalesce_next (addr x) h = h"
    using that inv assms(2) by (intro exI [of _ x] exI [of _ ys]) simp
  show ?thesis
  proof (cases ys)
    case Nil
    then show ?thesis using n same by (simp add: coalesce_next_def hdr_def Let_def)
  next
    case (Cons y zs)
    then obtain k where k: "n = addr y" "hdr ?m y k (addr x)" "n \<noteq> 0" using n by auto
    show ?thesis
    proof (cases "bfr y \<and> addr x + 24 + bsz x = addr y")
      case False
      then show ?thesis using n(1) k same by (auto simp: coalesce_next_def hdr_def Let_def)
    next
      case True
      have xy: "apart (addr y) (addr x)" using blocks_ok_at(3) [OF ok] by (simp add: Cons)
      define m1 where "m1 = set_next (addr x) k (set_size (addr x) (bsz x + (24 + bsz y)) ?m)"
      define m2 where "m2 = (if k \<noteq> 0 then set_prev k (addr x) m1 else m1)"
      have "k = blk_next ?m (addr y)" using k by (simp add: hdr_def)
      note cc = coalesce_chain [OF ch [unfolded Cons] ok [unfolded Cons] this m1_def m2_def]
      have m: "coalesce_next (addr x) h = h\<lparr>hmem := m2, heap_total := heap_total h + 24\<rparr>"
        using n(1) k True xy by (simp add: coalesce_next_def hdr_def Let_def m2_def m1_def mem_simps)
      have pl: "placed ?P x" "placed ?P y" using ok by (auto simp: Cons blocks_ok_append blocks_ok_Cons)
      note mp = merged_placed [OF pl conjunct2 [OF True]]
      have "blocks_ok ?P [merged x y]" using mp(1) by (simp add: blocks_ok_def)
      from blocks_ok_replace [OF _ this, where xs = xs and ws = "[x, y]" and ys = zs]
      have "blocks_ok ?P (xs @ merged x y # zs)" using ok mp(2) by (simp add: Cons)
      then have "heap_inv U (coalesce_next (addr x) h) (xs @ merged x y # zs)"
        using inv cc(1) assms(2) True by (simp add: m heap_inv_def Cons merged_def algebra_simps)
      then show ?thesis
        using cc(2) mp(2) assms(2) True
        by (intro exI [of _ "merged x y"] exI [of _ zs]) (auto simp: m Cons merged_def)
    qed
  qed
qed

lemma unlink_chain:
  assumes ch: "chain (hmem h) 0 (heap_head h) (xs @ x # ys) 0" and ok: "blocks_ok P (xs @ x # ys)"
  defines "h' \<equiv> unlink_block (addr x) h"
  shows "chain (hmem h') 0 (heap_head h') (xs @ ys) 0"
    and "a \<notin> own_bytes (xs @ ys) \<Longrightarrow> hmem h' a = hmem h a"
    and "hpmm h' = hpmm h" "heap_total h' = heap_total h" "heap_used h' = heap_used h"
    and "invalid_free_count h' = invalid_free_count h" "double_free_count h' = double_free_count h"
proof -
  note at = blocks_ok_at [OF ok]
  obtain n where n: "chain (hmem h) 0 (heap_head h) xs (addr x)" "hdr (hmem h) x n (lastp 0 xs)"
      "chain (hmem h) (addr x) n ys 0" "n = 0 \<longleftrightarrow> ys = []" "lastp 0 xs = 0 \<longleftrightarrow> xs = []"
    using chain_at [OF ch ok] by metis
  define l where "l = lastp 0 xs"
  define m1 where "m1 = (if l \<noteq> 0 then set_next l n (hmem h) else hmem h)"
  define m2 where "m2 = (if n \<noteq> 0 then set_prev n l m1 else m1)"
  have l: "l \<in> addr ` set xs" if "l \<noteq> 0" using lastp_cases [of 0 xs] that by (auto simp: l_def)
  have hd: "n \<in> addr ` set ys" if "n \<noteq> 0" using n(3,4) that by (cases ys) auto
  have lx: "apart (addr x) l" if "l \<noteq> 0" using l [OF that] at(3) by (auto simp: apart_sym)
  have h': "h' = h\<lparr>hmem := m2, heap_head := if l \<noteq> 0 then heap_head h else n\<rparr>"
    using n(2) lx by (auto simp: h'_def unlink_block_def Let_def hdr_def m2_def m1_def l_def mem_simps)
  then show "hpmm h' = hpmm h" "heap_total h' = heap_total h" "heap_used h' = heap_used h"
    "invalid_free_count h' = invalid_free_count h" "double_free_count h' = double_free_count h" by simp_all
  have f1: "m1 a = hmem h a" if "a \<notin> phdr l" for a using that unfolding m1_def by (rule set_next_frame)
  have f2: "m2 a = m1 a" if "a \<notin> phdr n" for a using that unfolding m2_def by (rule set_prev_frame)
  show "hmem h' a = hmem h a" if "a \<notin> own_bytes (xs @ ys)"
  proof -
    have "a \<notin> phdr l" "a \<notin> phdr n" using that phdr_own [OF l] phdr_own [OF hd] by auto
    then show ?thesis by (simp add: h' f1 f2)
  qed
  have "hdr_bytes (addr y) \<inter> phdr l = {}" if "y \<in> set ys" for y
    using at(4) that by (intro phdr_apart [OF l]) (auto simp: apart_sym)
  then have "chain m1 (addr x) n ys 0"
    by (intro chain_frame [OF n(3) f1]) auto
  from chain_relink [OF this at(5,6), of l] have ys: "chain m2 l n ys 0" by (simp only: m2_def)
  have "chain m1 0 (heap_head h') xs n"
  proof (cases xs rule: rev_cases)
    case Nil
    then show ?thesis using n(1) h' by (simp add: l_def)
  next
    case (snoc us u)
    have "l \<noteq> 0" "l = addr u" using n(5) snoc by (auto simp: l_def)
    moreover have "\<forall>y \<in> set us. apart (addr y) (addr u)"
      using blocks_ok_apart [OF ok] snoc by (simp add: sorted_wrt_append)
    ultimately show ?thesis
      using chain_set_next_last [of "hmem h" 0 "heap_head h" us u "addr x" n] n(1) snoc h' by (simp add: m1_def)
  qed
  then have "chain m2 0 (heap_head h') xs n"
    using phdr_apart [OF hd] at(4) by (intro chain_frame [OF _ f2]) auto
  then show "chain (hmem h') 0 (heap_head h') (xs @ ys) 0" using ys by (auto simp: chain_append h' l_def)
qed

lemma region_pages:
  assumes "placed P x" and "unat (bpg x) < 0x100000" and "bpg x \<noteq> 0" and "bsz x = bpg x * 4096 - 24" and "4096 dvd unat (addr x)"
  shows "{a. a div 4096 \<in> pages_of (addr x) (bpg x)} = extent x" and "pages_of (addr x) (bpg x) \<subseteq> P"
proof -
  have p: "unat (bpg x * 4096) = unat (bpg x) * 4096" using assms(2) by (simp add: unat_word_ariths)
  have "1 \<le> unat (bpg x)" using assms(3) by (simp add: unat_u32_pos [THEN iffD1] Suc_leI)
  then have "unat (bsz x) + 24 = unat (bpg x) * 4096"
    using p assms(4) by (simp add: unat_sub word_le_nat_alt)
  moreover obtain k where k: "unat (addr x) = 4096 * k" using assms(5) by auto
  ultimately have e: "extent x = {4096 * k..<4096 * (k + unat (bpg x))}" by (auto simp: extent_def)
  show s: "{a. a div 4096 \<in> pages_of (addr x) (bpg x)} = extent x"
    unfolding e pages_of_def k by (auto simp: less_eq_div_iff_mult_less_eq div_less_iff_less_mult mult.commute)
  show "pages_of (addr x) (bpg x) \<subseteq> P"
  proof
    fix q assume "q \<in> pages_of (addr x) (bpg x)"
    then have "q * 4096 \<in> extent x" using s by auto
    then show "q \<in> P" using assms(1) by (auto simp: placed_def)
  qed
qed

lemma own_sub_extents: "own_bytes xs \<subseteq> (\<Union>x \<in> set xs. extent x)"
  unfolding own_bytes_def using hdr_sub_extent by (auto split: if_splits)

lemma own_disjoint: "blocks_ok P (xs @ x # ys) \<Longrightarrow> own_bytes (xs @ ys) \<inter> extent x = {}"
proof -
  assume "blocks_ok P (xs @ x # ys)"
  then have "\<forall>y \<in> set (xs @ ys). extent y \<inter> extent x = {}" using blocks_ok_at(2) by auto
  then show ?thesis using own_sub_extents [of "xs @ ys"] by blast
qed

lemma free_region_ok:
  assumes pi: "pmm_inv U p" and ok: "blocks_ok (U - avail p) (xs @ x # ys)"
    and "unat (bpg x) < 0x100000" and "bpg x \<noteq> 0" and "bsz x = bpg x * 4096 - 24"
  shows "\<exists>p'. pmm_free_pages_block (addr x) (bpg x) p = Some p' \<and> pmm_inv U p' \<and> avail p \<subseteq> avail p'
    \<and> blocks_ok (U - avail p') (xs @ ys)
    \<and> (4096 dvd unat (addr x) \<longrightarrow> {a. a div 4096 \<in> avail p'} = {a. a div 4096 \<in> avail p} \<union> extent x)"
proof (cases "4096 dvd unat (addr x)")
  case False
  then show ?thesis
    using pmm_free_ignored [of "bpg x" "addr x" p] pi ok by (auto simp: blocks_ok_append blocks_ok_Cons)
next
  case True
  note at = blocks_ok_at [OF ok]
  note rp = region_pages [OF at(1) assms(3-5) True]
  have "pages_of (addr x) (bpg x) \<subseteq> U" using rp(2) by blast
  then obtain p' where p': "pmm_free_pages_block (addr x) (bpg x) p = Some p'" "pmm_inv U p'"
      "avail p' = avail p \<union> pages_of (addr x) (bpg x)"
    using pmm_free_pages_block_spec [OF pi True] by blast
  have "placed (U - avail p') y" if "y \<in> set (xs @ ys)" for y
  proof -
    have py: "placed (U - avail p) y" using ok that by (auto simp: blocks_ok_def)
    have "a \<notin> extent x" if "a \<in> extent y" for a using at(2) \<open>y \<in> set (xs @ ys)\<close> that by auto
    then have "a div 4096 \<notin> pages_of (addr x) (bpg x)" if "a \<in> extent y" for a using rp(1) that by blast
    then show ?thesis using py by (simp add: placed_def p'(3))
  qed
  moreover have "sorted_wrt (\<lambda>x y. extent x \<inter> extent y = {}) (xs @ ys)"
    using ok by (simp add: blocks_ok_def sorted_wrt_append)
  moreover have "{a. a div 4096 \<in> avail p'} = {a. a div 4096 \<in> avail p} \<union> extent x" using p'(3) rp(1) by auto
  ultimately show ?thesis using p' by (auto simp: blocks_ok_def)
qed

lemma release_ok:
  assumes inv: "heap_inv U h (xs @ x # ys)" and "bfr x" and "unat (bpg x) < 0x100000"
  shows "\<exists>h' zs. release_whole_region_if_possible (addr x) h = Some h' \<and> heap_inv U h' zs \<and> live zs = live (xs @ x # ys)
    \<and> own_bytes zs \<subseteq> own_bytes (xs @ x # ys) \<and> avail (hpmm h) \<subseteq> avail (hpmm h')
    \<and> ((bpg x \<noteq> 0 \<longrightarrow> 4096 dvd unat (addr x)) \<longrightarrow> free_bytes h' zs = free_bytes h (xs @ x # ys))
    \<and> (\<forall>a. a \<notin> own_bytes (xs @ x # ys) \<longrightarrow> hmem h' a = hmem h a)"
proof -
  let ?P = "U - avail (hpmm h)" and ?r = "release_whole_region_if_possible (addr x) h"
  have ch: "chain (hmem h) 0 (heap_head h) (xs @ x # ys) 0" and ok: "blocks_ok ?P (xs @ x # ys)"
    and pi: "pmm_inv U (hpmm h)" using inv by (auto simp: heap_inv_def)
  obtain n where n: "hdr (hmem h) x n (lastp 0 xs)" using chain_at [OF ch ok] by metis
  note at = blocks_ok_at [OF ok]
  show ?thesis
  proof (cases "bpg x \<noteq> 0 \<and> bsz x = bpg x * 4096 - 24")
    case False
    then have "?r = Some h" using n assms(2) by (auto simp: release_whole_region_if_possible_def hdr_def Let_def)
    then show ?thesis using inv by (intro exI [of _ h] exI [of _ "xs @ x # ys"]) simp
  next
    case True
    define h1 where "h1 = unlink_block (addr x) h"
    note ul = unlink_chain [OF ch ok, folded h1_def]
    have same: "hdr (hmem h1) x n (lastp 0 xs)"
    proof -
      have "\<forall>a \<in> hdr_bytes (addr x). hmem h1 a = hmem h a"
        using own_disjoint [OF ok] hdr_sub_extent [of x] by (intro ballI ul(2)) blast
      from hdr_cong [OF this] show ?thesis using n by simp
    qed
    have r: "?r = map_option (\<lambda>p. h1\<lparr>heap_total := heap_total h1 - bsz x, hpmm := p\<rparr>) (pmm_free_pages_block (addr x) (bpg x) (hpmm h))"
      using n same True assms(2) ul(3) by (simp add: release_whole_region_if_possible_def hdr_def Let_def h1_def [symmetric] map_conv_bind_option comp_def)
    obtain p' where p': "pmm_free_pages_block (addr x) (bpg x) (hpmm h) = Some p'" "pmm_inv U p'"
        "avail (hpmm h) \<subseteq> avail p'" "blocks_ok (U - avail p') (xs @ ys)"
        "4096 dvd unat (addr x) \<longrightarrow> {a. a div 4096 \<in> avail p'} = {a. a div 4096 \<in> avail (hpmm h)} \<union> extent x"
      using free_region_ok [OF pi ok assms(3) conjunct1 [OF True] conjunct2 [OF True]] by blast
    have "(bpg x \<noteq> 0 \<longrightarrow> 4096 dvd unat (addr x)) \<longrightarrow> free_bytes (h1\<lparr>heap_total := heap_total h1 - bsz x, hpmm := p'\<rparr>) (xs @ ys) = free_bytes h (xs @ x # ys)"
      using p'(5) assms(2) True by (auto simp: free_bytes_def)
    then show ?thesis
      using r p'(1-4) ul inv assms(2)
      by (intro exI [of _ "h1\<lparr>heap_total := heap_total h1 - bsz x, hpmm := p'\<rparr>"] exI [of _ "xs @ ys"])
        (auto simp: heap_inv_def)
  qed
qed

section \<open>Growing the heap\<close>

definition fresh_blk :: "u32 \<Rightarrow> u32 \<Rightarrow> hblk" where
  "fresh_blk page n = \<lparr>addr = page, bsz = n * 4096 - 24, bpg = n, bfr = True\<rparr>"

lemma block_from_pages_ok:
  fixes page n defines "x \<equiv> fresh_blk page n"
  assumes inv: "heap_inv U h xs" and pl: "placed (U - avail (hpmm h)) x" and dis: "\<forall>y \<in> set xs. extent y \<inter> extent x = {}"
  shows "\<exists>h'. block_from_pages page n h = Some h' \<and> heap_inv U h' (xs @ [x]) \<and> hpmm h' = hpmm h
    \<and> (\<forall>a. a \<notin> own_bytes (xs @ [x]) \<longrightarrow> hmem h' a = hmem h a)"
proof -
  let ?P = "U - avail (hpmm h)"
  have x: "addr x = page" "bsz x = n * 4096 - 24" "bpg x = n" "bfr x" by (simp_all add: x_def fresh_blk_def)
  define m1 where "m1 = set_prev page 0 (set_next page 0 (set_free page True (set_page_count page n
      (set_size page (n * 4096 - 24) (set_magic page HEAP_MAGIC (hmem h))))))"
  have ok: "blocks_ok ?P (xs @ [x])" using inv pl dis by (simp add: heap_inv_def blocks_ok_append blocks_ok_Cons) (simp add: blocks_ok_def)
  have ap: "\<forall>y \<in> set xs. apart (addr y) page" using blocks_ok_at(3) [OF ok] x by simp
  have f1: "m1 a = hmem h a" if "a \<notin> hdr_bytes page" for a using that by (simp add: m1_def set_frame)
  have "chain (hmem h) 0 (heap_head h) xs 0" using inv by (simp add: heap_inv_def)
  then have ch: "chain m1 0 (heap_head h) xs 0" using ap by (intro chain_frame [OF _ f1]) (auto simp: apart_iff)
  have nz: "\<forall>y \<in> set xs. addr y \<noteq> 0" using blocks_ok_nonzero [OF ok] by simp
  have hx: "hdr m1 x 0 0" by (simp add: hdr_def x m1_def)
  have px: "hdr_bytes page \<subseteq> own_bytes (xs @ [x])" using hdr_own [of x "xs @ [x]"] x by simp
  have head0: "heap_head h = 0 \<longleftrightarrow> xs = []" using chain_start [OF ch nz] .
  show ?thesis
  proof (cases xs rule: rev_cases)
    case Nil
    have "block_from_pages page n h = Some (h\<lparr>hmem := m1, heap_head := page, heap_total := heap_total h + bsz x\<rparr>)"
      using head0 hx by (simp add: block_from_pages_def Let_def m1_def [symmetric] Nil hdr_def x)
    moreover have "chain m1 0 page [x] 0" using hx x by auto
    ultimately show ?thesis using inv ok f1 px x(4) by (auto simp: heap_inv_def Nil)
  next
    case (snoc us u)
    have tl: "find_tail m1 (heap_head h) = Some (addr u)" using find_tail_ok [OF ch _ nz] snoc by simp
    define m2 where "m2 = set_prev page (addr u) (set_next (addr u) page m1)"
    have up: "apart (addr u) page" "apart page (addr u)" using ap snoc by (auto simp: apart_sym)
    have "block_from_pages page n h = Some (h\<lparr>hmem := m2, heap_total := heap_total h + bsz x\<rparr>)"
      using head0 hx tl up by (simp add: block_from_pages_def Let_def m1_def [symmetric] snoc hdr_def x m2_def mem_simps)
    moreover have "chain m2 0 (heap_head h) (xs @ [x]) 0"
    proof -
      have "\<forall>y \<in> set us. apart (addr y) (addr u)" using blocks_ok_apart [OF ok] snoc by (simp add: sorted_wrt_append)
      then have "chain (set_next (addr u) page m1) 0 (heap_head h) xs page"
        using chain_set_next_last [of m1 0 "heap_head h" us u 0 page] ch snoc by simp
      then have "chain m2 0 (heap_head h) xs page"
        using ap by (intro chain_frame [of _ _ _ _ _ "hdr_bytes page" m2]) (auto simp: apart_iff m2_def set_frame)
      moreover have "hdr m2 x 0 (addr u)" using hx up x by (simp add: hdr_def m2_def mem_simps)
      ultimately show ?thesis using x snoc by (auto simp: chain_append)
    qed
    moreover have "m2 a = hmem h a" if "a \<notin> own_bytes (xs @ [x])" for a
    proof -
      have "hdr_bytes (addr u) \<subseteq> own_bytes (xs @ [x])" using snoc by (intro hdr_own) simp
      then have "a \<notin> hdr_bytes page" "a \<notin> hdr_bytes (addr u)" using that px by blast+
      then show ?thesis by (simp add: m2_def set_frame f1)
    qed
    ultimately show ?thesis using inv ok x(4) by (auto simp: heap_inv_def)
  qed
qed

lemma grown_block:
  assumes pi: "pmm_inv U p" and al: "pmm_alloc_pages n p = Some (a, p')" and "a \<noteq> 0"
    and xs: "blocks_ok (U - avail p) xs"
  shows "placed (U - avail p') (fresh_blk a n)" and "\<forall>y \<in> set xs. extent y \<inter> extent (fresh_blk a n) = {}"
    and "extent (fresh_blk a n) = {b. b div 4096 \<in> pages_of a n}" and "blocks_ok (U - avail p') xs"
    and "unat (bsz (fresh_blk a n)) + 24 = unat n * 4096" and "pages_of a n \<noteq> {}"
proof -
  have a: "4096 dvd unat a" "pages_of a n \<subseteq> avail p" "avail p' = avail p - pages_of a n" "pmm_inv U p'"
    using pmm_alloc_cases [OF pi al] assms(3) by simp_all
  have n0: "n \<noteq> 0" using pmm_alloc_pages_spec [OF pi, of n] al assms(3) by (auto split: if_splits)
  then have n1: "1 \<le> unat n" by (simp add: unat_u32_pos [THEN iffD1] Suc_leI)
  obtain k where k: "unat a = 4096 * k" using a(1) by auto
  have "k + unat n - 1 \<in> pages_of a n" using n1 by (auto simp: pages_of_def k)
  then have lim: "k + unat n \<le> 32768" using a(2) n1 by (auto simp: avail_def)
  have sz: "unat (n * 4096 - 24) = unat n * 4096 - 24"
    using lim n1 by (simp add: unat_sub word_le_nat_alt unat_word_ariths)
  show sz': "unat (bsz (fresh_blk a n)) + 24 = unat n * 4096" using n1 by (simp add: fresh_blk_def sz)
  then have e: "extent (fresh_blk a n) = {4096 * k..<4096 * (k + unat n)}"
    by (auto simp: extent_def k fresh_blk_def)
  show s: "extent (fresh_blk a n) = {b. b div 4096 \<in> pages_of a n}"
    unfolding e pages_of_def k by (auto simp: less_eq_div_iff_mult_less_eq div_less_iff_less_mult mult.commute)
  have U: "pages_of a n \<subseteq> U - avail p'" using a(2,3) pi by (auto simp: pmm_inv_def)
  have d8: "8 dvd unat n * 4096 - 24" by (rule dvd_diff_nat) simp_all
  have "4096 * (k + unat n) \<le> 0x08000000" using lim by simp
  moreover have "0 < unat a" using assms(3) by (simp add: unat_u32_pos)
  moreover have "\<forall>b \<in> extent (fresh_blk a n). b div 4096 \<in> U - avail p'" unfolding s using U by blast
  moreover have "8 dvd unat a" using k by simp
  ultimately show "placed (U - avail p') (fresh_blk a n)"
    using sz' d8 sz k unfolding placed_def by (simp add: fresh_blk_def)
  show "\<forall>y \<in> set xs. extent y \<inter> extent (fresh_blk a n) = {}"
  proof (rule ballI, rule equals0I)
    fix y b assume "y \<in> set xs" "b \<in> extent y \<inter> extent (fresh_blk a n)"
    then have "b div 4096 \<in> U - avail p" "b div 4096 \<in> avail p"
      using xs a(2) s by (auto simp: blocks_ok_def placed_def)
    then show False by simp
  qed
  show "blocks_ok (U - avail p') xs" using a(3) by (intro blocks_ok_mono [OF xs]) auto
  show "pages_of a n \<noteq> {}" using n1 by (auto simp: pages_of_def)
qed

end
