(* ===== verification/Heap_Alloc.thy ===== *)
theory Heap_Alloc
  imports Heap_Blocks
begin

text \<open>Correctness of the heap's interface: \<open>kmalloc\<close>, \<open>kmalloc_aligned\<close>, \<open>kfree\<close> and
  \<open>heap_initialize\<close>.\<close>

section \<open>Allocation\<close>

abbreviation fits :: "u32 \<Rightarrow> hblk \<Rightarrow> bool" where
  "fits sz x \<equiv> bfr x \<and> sz \<le> bsz x"

definition first_fit :: "u32 \<Rightarrow> hblk list \<Rightarrow> u32" where
  "first_fit sz xs = (case find (fits sz) xs of None \<Rightarrow> 0 | Some x \<Rightarrow> addr x)"

definition page_bytes :: "nat set \<Rightarrow> nat set" where
  "page_bytes A = {b. b div 4096 \<in> A}"

text \<open>What a step of the allocator may have done when the block list went from \<open>xs\<close> to \<open>ys\<close>: only
  bytes of headers, free payloads and newly taken pages were written.\<close>

definition heap_step :: "heap \<Rightarrow> hblk list \<Rightarrow> heap \<Rightarrow> hblk list \<Rightarrow> bool" where
  "heap_step h xs h' ys \<longleftrightarrow>
     (\<forall>a. a \<notin> own_bytes xs \<union> page_bytes (avail (hpmm h)) \<longrightarrow> hmem h' a = hmem h a)
     \<and> own_bytes ys \<subseteq> own_bytes xs \<union> page_bytes (avail (hpmm h))
     \<and> avail (hpmm h') \<subseteq> avail (hpmm h)"

lemma heap_step_refl: "heap_step h xs h xs"
  by (auto simp: heap_step_def)

lemma heap_step_trans:
  assumes "heap_step h xs h1 ys" and "heap_step h1 ys h2 zs"
  shows "heap_step h xs h2 zs"
proof -
  let ?W = "own_bytes xs \<union> page_bytes (avail (hpmm h))"
  have sub: "own_bytes ys \<union> page_bytes (avail (hpmm h1)) \<subseteq> ?W"
    using assms(1) by (auto simp: heap_step_def page_bytes_def)
  have "hmem h2 a = hmem h a" if "a \<notin> ?W" for a
  proof -
    have "hmem h2 a = hmem h1 a" using that sub assms(2) unfolding heap_step_def by blast
    then show ?thesis using that assms(1) unfolding heap_step_def by simp
  qed
  then show ?thesis using assms sub unfolding heap_step_def by blast
qed

lemma find_free_block_ok: "heap_inv U h xs \<Longrightarrow> find_free_block sz h = Some (first_fit sz xs)"
  unfolding find_free_block_def first_fit_def heap_inv_def
  using find_free_from_ok blocks_ok_nonzero by blast

lemma grow_step:
  assumes inv: "heap_inv U h xs" and al: "pmm_alloc_pages n (hpmm h) = Some (a, p')" and "a \<noteq> 0"
  shows "\<exists>h2. block_from_pages a n (h\<lparr>hpmm := p'\<rparr>) = Some h2 \<and> heap_inv U h2 (xs @ [fresh_blk a n])
    \<and> heap_step h xs h2 (xs @ [fresh_blk a n]) \<and> card (avail (hpmm h2)) < card (avail (hpmm h))"
proof -
  let ?x = "fresh_blk a n" and ?h1 = "h\<lparr>hpmm := p'\<rparr>"
  have pi: "pmm_inv U (hpmm h)" and ok: "blocks_ok (U - avail (hpmm h)) xs" using inv by (auto simp: heap_inv_def)
  note g = grown_block [OF pi al assms(3) ok]
  have c: "pages_of a n \<subseteq> avail (hpmm h)" "avail p' = avail (hpmm h) - pages_of a n" "pmm_inv U p'"
    using pmm_alloc_cases [OF pi al] assms(3) by simp_all
  have i1: "heap_inv U ?h1 xs" using inv c(3) g(4) by (simp add: heap_inv_def)
  obtain h2 where h2: "block_from_pages a n ?h1 = Some h2" "heap_inv U h2 (xs @ [?x])" "hpmm h2 = p'"
      "\<forall>b. b \<notin> own_bytes (xs @ [?x]) \<longrightarrow> hmem h2 b = hmem h b"
    using block_from_pages_ok [OF i1, of a n] g(1,2) by auto
  have own: "own_bytes (xs @ [?x]) \<subseteq> own_bytes xs \<union> page_bytes (avail (hpmm h))"
    using g(3) c(1) by (auto simp: page_bytes_def fresh_blk_def)
  then have "heap_step h xs h2 (xs @ [?x])" using h2(3,4) c(2) unfolding heap_step_def by blast
  moreover have "card (avail p') < card (avail (hpmm h))"
    using c g(6) by (intro psubset_card_mono) (auto simp: finite_avail)
  ultimately show ?thesis using h2 by auto
qed

lemma kmalloc_grow_ok:
  assumes "heap_inv U h xs"
  shows "\<exists>h' zs. kmalloc_grow sz (first_fit sz xs) h = Some (first_fit sz (xs @ zs), h') \<and> heap_inv U h' (xs @ zs)
    \<and> (\<forall>z \<in> set zs. bfr z) \<and> heap_step h xs h' (xs @ zs)
    \<and> (first_fit sz (xs @ zs) = 0 \<longrightarrow> pmm_alloc_pages ((sz + 24 + 4096 - 1) div 4096) (hpmm h') = Some (0, hpmm h'))"
  using assms
proof (induction "card (avail (hpmm h))" arbitrary: h xs rule: less_induct)
  case less
  let ?n = "(sz + 24 + 4096 - 1) div 4096"
  have pi: "pmm_inv U (hpmm h)" using less.prems by (simp add: heap_inv_def)
  obtain a p' where al: "pmm_alloc_pages ?n (hpmm h) = Some (a, p')" using pmm.alloc_returns [OF pi] by blast
  consider "first_fit sz xs \<noteq> 0" | "first_fit sz xs = 0" "a = 0" | "first_fit sz xs = 0" "a \<noteq> 0" by blast
  then show ?case
  proof cases
    case 1
    then have "kmalloc_grow sz (first_fit sz xs) h = Some (first_fit sz xs, h)" by (subst kmalloc_grow.simps) simp
    then show ?thesis using less.prems heap_step_refl 1 by (intro exI [of _ h] exI [of _ "[]"]) simp
  next
    case 2
    then have p': "p' = hpmm h" using pmm_alloc_cases [OF pi al] by simp
    then have "kmalloc_grow sz (first_fit sz xs) h = Some (first_fit sz xs, h)"
      using 2 al by (subst kmalloc_grow.simps) (simp add: Let_def)
    then show ?thesis using less.prems heap_step_refl 2 al p' by (intro exI [of _ h] exI [of _ "[]"]) simp
  next
    case 3
    obtain h2 where h2: "block_from_pages a ?n (h\<lparr>hpmm := p'\<rparr>) = Some h2" "heap_inv U h2 (xs @ [fresh_blk a ?n])"
        "heap_step h xs h2 (xs @ [fresh_blk a ?n])" "card (avail (hpmm h2)) < card (avail (hpmm h))"
      using grow_step [OF less.prems al 3(2)] by blast
    obtain h' zs where r: "kmalloc_grow sz (first_fit sz (xs @ [fresh_blk a ?n])) h2 = Some (first_fit sz ((xs @ [fresh_blk a ?n]) @ zs), h')"
        "heap_inv U h' ((xs @ [fresh_blk a ?n]) @ zs)" "\<forall>z \<in> set zs. bfr z" "heap_step h2 (xs @ [fresh_blk a ?n]) h' ((xs @ [fresh_blk a ?n]) @ zs)"
        "first_fit sz ((xs @ [fresh_blk a ?n]) @ zs) = 0 \<longrightarrow> pmm_alloc_pages ?n (hpmm h') = Some (0, hpmm h')"
      using less.hyps [OF h2(4) h2(2)] by blast
    have "kmalloc_grow sz (first_fit sz xs) h = Some (first_fit sz (xs @ fresh_blk a ?n # zs), h')"
      using 3 al h2(1) find_free_block_ok [OF h2(2)] r(1) by (subst kmalloc_grow.simps) (simp add: Let_def)
    then show ?thesis
      using r heap_step_trans [OF h2(3) r(4)]
      by (intro exI [of _ h'] exI [of _ "fresh_blk a ?n # zs"]) (simp add: fresh_blk_def)
  qed
qed

lemma set_free_ok:
  assumes inv: "heap_inv U h (xs @ x # ys)"
  shows "heap_inv U (h\<lparr>hmem := set_free (addr x) f (hmem h),
      heap_used := heap_used h + (if bfr x then 0 else - bsz x) + (if f then 0 else bsz x)\<rparr>) (xs @ x\<lparr>bfr := f\<rparr> # ys)"
proof -
  let ?P = "U - avail (hpmm h)" and ?m = "set_free (addr x) f (hmem h)"
  have ch: "chain (hmem h) 0 (heap_head h) (xs @ x # ys) 0" and ok: "blocks_ok ?P (xs @ x # ys)"
    using inv by (auto simp: heap_inv_def)
  note at = blocks_ok_at [OF ok]
  obtain n where n: "chain (hmem h) 0 (heap_head h) xs (addr x)" "hdr (hmem h) x n (lastp 0 xs)" "chain (hmem h) (addr x) n ys 0"
    using chain_at [OF ch ok] by metis
  have f: "?m a = hmem h a" if "a \<notin> hdr_bytes (addr x)" for a using that by (simp add: set_frame)
  have "chain ?m 0 (heap_head h) xs (addr x)" "chain ?m (addr x) n ys 0"
    using at(3) by (auto simp: apart_iff intro!: chain_frame [OF n(1) f] chain_frame [OF n(3) f])
  moreover have "hdr ?m (x\<lparr>bfr := f\<rparr>) n (lastp 0 xs)" using n(2) by (simp add: hdr_def)
  ultimately have "chain ?m 0 (heap_head h) (xs @ x\<lparr>bfr := f\<rparr> # ys) 0" by (auto simp: chain_append)
  moreover have "extent (x\<lparr>bfr := f\<rparr>) = extent x" by (simp add: extent_def)
  then have "blocks_ok ?P (xs @ x\<lparr>bfr := f\<rparr> # ys)"
    using ok by (simp add: blocks_ok_def sorted_wrt_append placed_def)
  ultimately show ?thesis using inv by (simp add: heap_inv_def algebra_simps)
qed

lemma align_up_size_8: "8 dvd unat (align_up_size v 8)"
  and align_up_size_8_ge: "unat v \<le> 0xFFFFFFF8 \<Longrightarrow> unat v \<le> unat (align_up_size v 8) \<and> unat (align_up_size v 8) \<le> unat v + 7"
proof -
  have e: "unat (align_up_size v 8) = unat (v + 7) div 8 * 8"
    using unat_and_not_mask [of "v + 7" 3] by (simp add: align_up_size_def mask_eq_exp_minus_1 add.commute)
  show "8 dvd unat (align_up_size v 8)" unfolding e by simp
  assume "unat v \<le> 0xFFFFFFF8"
  then have "unat (v + 7) = unat v + 7" by (simp add: unat_word_ariths)
  then show "unat v \<le> unat (align_up_size v 8) \<and> unat (align_up_size v 8) \<le> unat v + 7" unfolding e by presburger
qed

lemma first_fit_cases:
  assumes "\<forall>x \<in> set xs. addr x \<noteq> 0"
  shows "first_fit sz xs = 0 \<and> (\<forall>x \<in> set xs. \<not> fits sz x)
    \<or> first_fit sz xs \<noteq> 0 \<and> (\<exists>us x vs. xs = us @ x # vs \<and> fits sz x \<and> first_fit sz xs = addr x \<and> (\<forall>u \<in> set us. \<not> fits sz u))"
proof (cases "find (fits sz) xs")
  case None
  then have "\<forall>x \<in> set xs. \<not> fits sz x" by (auto simp: find_None_iff)
  then show ?thesis using None by (simp add: first_fit_def)
next
  case (Some x)
  then obtain i where i: "i < length xs" "fits sz (xs ! i)" "x = xs ! i" "\<forall>j < i. \<not> fits sz (xs ! j)"
    by (auto simp: find_Some_iff)
  have "\<forall>u \<in> set (take i xs). \<not> fits sz u" using i by (auto simp: in_set_conv_nth)
  moreover have "xs = take i xs @ x # drop (Suc i) xs" using i by (simp add: id_take_nth_drop)
  moreover have "first_fit sz xs = addr x" using Some by (simp add: first_fit_def)
  moreover have "addr x \<noteq> 0" using i assms by simp
  ultimately show ?thesis using i(2,3)
    by (intro disjI2 conjI exI [of _ "take i xs"] exI [of _ x] exI [of _ "drop (Suc i) xs"]) simp_all
qed

lemma kmalloc_ok:
  fixes szarg defines "sz \<equiv> align_up_size szarg 8"
  assumes inv: "heap_inv U h xs" and "szarg \<noteq> 0"
  shows "\<exists>p h' ys. kmalloc szarg h = Some (p, h') \<and> heap_inv U h' ys \<and> heap_step h xs h' ys \<and>
    (if p = 0 then live ys = live xs \<and> (\<forall>y \<in> set ys. \<not> fits sz y)
        \<and> pmm_alloc_pages ((sz + 24 + 4096 - 1) div 4096) (hpmm h') = Some (0, hpmm h')
     else \<exists>us x vs. live xs = us @ vs \<and> live ys = us @ x # vs \<and> p = addr x + 24 \<and> sz \<le> bsz x
        \<and> extent x \<subseteq> own_bytes xs \<union> page_bytes (avail (hpmm h)))"
proof -
  obtain h1 zs where g: "kmalloc_grow sz (first_fit sz xs) h = Some (first_fit sz (xs @ zs), h1)"
      "heap_inv U h1 (xs @ zs)" "\<forall>z \<in> set zs. bfr z" "heap_step h xs h1 (xs @ zs)"
      "first_fit sz (xs @ zs) = 0 \<longrightarrow> pmm_alloc_pages ((sz + 24 + 4096 - 1) div 4096) (hpmm h1) = Some (0, hpmm h1)"
    using kmalloc_grow_ok [OF inv] by blast
  have lz: "live zs = []" using g(3) by (simp add: live_def)
  have nz: "\<forall>x \<in> set (xs @ zs). addr x \<noteq> 0" using g(2) blocks_ok_nonzero by (auto simp: heap_inv_def)
  from first_fit_cases [OF this, of sz] show ?thesis
  proof (elim disjE)
    assume z: "first_fit sz (xs @ zs) = 0 \<and> (\<forall>x \<in> set (xs @ zs). \<not> fits sz x)"
    then have "kmalloc szarg h = Some (0, h1)"
      using assms(3) g(1) find_free_block_ok [OF inv] by (simp add: kmalloc_def sz_def [symmetric] Let_def)
    then show ?thesis using g z lz by (intro exI [of _ 0] exI [of _ h1] exI [of _ "xs @ zs"]) simp
  next
    assume "first_fit sz (xs @ zs) \<noteq> 0 \<and> (\<exists>us x vs. xs @ zs = us @ x # vs \<and> fits sz x
      \<and> first_fit sz (xs @ zs) = addr x \<and> (\<forall>u \<in> set us. \<not> fits sz u))"
    then obtain us x vs where z: "first_fit sz (xs @ zs) \<noteq> 0"
      and x: "xs @ zs = us @ x # vs" "fits sz x" "first_fit sz (xs @ zs) = addr x" by blast
    let ?h2 = "split_block (addr x) sz h1"
    obtain x' ws where s: "heap_inv U ?h2 (us @ x' # ws @ vs)" "addr x' = addr x" "bfr x'" "sz \<le> bsz x'"
        "\<forall>w \<in> set ws. bfr w" "hpmm ?h2 = hpmm h1" "\<forall>a. a \<notin> own_bytes (us @ x # vs) \<longrightarrow> hmem ?h2 a = hmem h1 a"
        "extent x' \<subseteq> extent x" "own_bytes (us @ x' # ws @ vs) \<subseteq> own_bytes (us @ x # vs)"
      using split_block_ok [OF g(2) [unfolded x(1)], of sz] x(2) align_up_size_8 [of szarg] by (auto simp: sz_def)
    let ?h4 = "?h2\<lparr>hmem := set_free (addr x) False (hmem ?h2), heap_used := heap_used ?h2 + bsz x'\<rparr>"
      and ?ys = "us @ x'\<lparr>bfr := False\<rparr> # ws @ vs"
    have i4: "heap_inv U ?h4 ?ys" using set_free_ok [OF s(1), of False] s(2,3) by simp
    have "blk_size (hmem ?h2) (addr x) = bsz x'"
      using s(1,2) by (auto simp: heap_inv_def chain_append hdr_def)
    then have k: "kmalloc szarg h = Some (addr x + 24, ?h4)"
      using assms(3) g(1) find_free_block_ok [OF inv] x(3) z by (simp add: kmalloc_def sz_def [symmetric] Let_def)
    have "placed (U - avail (hpmm h1)) x" using g(2) by (simp add: heap_inv_def x(1) blocks_ok_append blocks_ok_Cons)
    then have "unat (addr x + 24) = unat (addr x) + 24" by (simp add: placed_def unat_word_ariths)
    then have p0: "addr x + 24 \<noteq> 0" by (metis add_is_0 unat_0 zero_neq_numeral)
    have hb: "hdr_bytes (addr x) \<subseteq> own_bytes (us @ x # vs)" by (rule hdr_own) simp
    have "hmem ?h4 a = hmem h1 a" if "a \<notin> own_bytes (us @ x # vs)" for a
    proof -
      have "a \<notin> hdr_bytes (addr x)" using hb that by blast
      then show ?thesis using that s(7) by (simp add: set_frame del: own_bytes_simps)
    qed
    moreover have "own_bytes ?ys \<subseteq> own_bytes (us @ x # vs)"
      using s(3,9) hdr_sub_extent [of x'] by auto
    ultimately have st: "heap_step h1 (xs @ zs) ?h4 ?ys"
      using s(6) unfolding heap_step_def x(1) by auto
    have "live ws = []" using s(5) by (simp add: live_def)
    moreover have "live xs = live us @ live vs" using arg_cong [OF x(1), of live] lz x(2) by simp
    moreover have "extent (x'\<lparr>bfr := False\<rparr>) \<subseteq> own_bytes (xs @ zs)"
      using s(8) x(2) unfolding x(1) by (auto simp: extent_def)
    then have "extent (x'\<lparr>bfr := False\<rparr>) \<subseteq> own_bytes xs \<union> page_bytes (avail (hpmm h))"
      using g(4) unfolding heap_step_def by blast
    ultimately show ?thesis
      using k i4 heap_step_trans [OF g(4) st] p0 s(2,4) 
      by (intro exI [of _ "addr x + 24"] exI [of _ ?h4] exI [of _ ?ys] conjI)
        (simp_all, intro exI [of _ "live us"] exI [of _ "x'\<lparr>bfr := False\<rparr>"] exI [of _ "live vs"], simp)
  qed
qed

lemma kmalloc_zero: "kmalloc 0 h = Some (0, h)"
  by (simp add: kmalloc_def)

section \<open>Release\<close>

lemma next_not_magic:
  assumes "heap_inv U h (xs @ x # ys)"
  shows "load32 (hmem h) (unat (addr x + 24 - 8)) \<noteq> HEAP_ALIGN_MAGIC" and "unat (addr x + 24) = unat (addr x) + 24"
    and "blk_magic (hmem h) (addr x) = HEAP_MAGIC" "blk_free (hmem h) (addr x) = bfr x" "blk_size (hmem h) (addr x) = bsz x"
    "blk_prev (hmem h) (addr x) = lastp 0 xs"
proof -
  have ch: "chain (hmem h) 0 (heap_head h) (xs @ x # ys) 0" and ok: "blocks_ok (U - avail (hpmm h)) (xs @ x # ys)"
    using assms by (auto simp: heap_inv_def)
  obtain n where n: "hdr (hmem h) x n (lastp 0 xs)" "chain (hmem h) (addr x) n ys 0" using chain_at [OF ch ok] by metis
  have pl: "placed (U - avail (hpmm h)) y" if "y \<in> set (x # ys)" for y using ok that by (auto simp: blocks_ok_def)
  show "unat (addr x + 24) = unat (addr x) + 24" using pl [of x] by (simp add: placed_def unat_word_ariths)
  have "unat (addr x + 16) = unat (addr x) + 16" using pl [of x] by (simp add: placed_def unat_word_ariths)
  then have l: "load32 (hmem h) (unat (addr x + 24 - 8)) = n" using n(1) by (simp add: hdr_def blk_next_def add.commute)
  have "unat n < 0x08000000"
  proof (cases ys)
    case Nil
    then show ?thesis using n(2) by simp
  next
    case (Cons y zs)
    then show ?thesis using n(2) pl [of y] by (auto simp: placed_def)
  qed
  then show "load32 (hmem h) (unat (addr x + 24 - 8)) \<noteq> HEAP_ALIGN_MAGIC" unfolding l by auto
  show "blk_magic (hmem h) (addr x) = HEAP_MAGIC" "blk_free (hmem h) (addr x) = bfr x" "blk_size (hmem h) (addr x) = bsz x"
    "blk_prev (hmem h) (addr x) = lastp 0 xs"
    using n(1) by (simp_all add: hdr_def)
qed

lemma kfree_double:
  assumes "heap_inv U h (xs @ x # ys)" and "bfr x"
  shows "kfree (addr x + 24) h = Some (h\<lparr>double_free_count := double_free_count h + 1\<rparr>)"
proof -
  note m = next_not_magic [OF assms(1)]
  have "addr x + 24 \<noteq> 0" using m(2) by (metis add_is_0 unat_0 zero_neq_numeral)
  then show ?thesis using m assms(2) by (subst kfree.simps) (simp add: Let_def)
qed

text \<open>Blocks that carry a page count start on a page. The first block of a region does; a block that was split off has a
  page count only when the memory of its header held one before.\<close>

definition regions_aligned :: "hblk list \<Rightarrow> bool" where
  "regions_aligned xs \<longleftrightarrow> (\<forall>x \<in> set xs. bpg x \<noteq> 0 \<longrightarrow> 4096 dvd unat (addr x))"

text \<open>What a step of \<open>kfree\<close> may have done once the block is marked free.\<close>

definition free_step :: "heap \<Rightarrow> hblk list \<Rightarrow> heap \<Rightarrow> hblk list \<Rightarrow> bool" where
  "free_step h xs h' ys \<longleftrightarrow> (\<forall>a. a \<notin> own_bytes xs \<longrightarrow> hmem h' a = hmem h a)
     \<and> own_bytes ys \<subseteq> own_bytes xs \<and> avail (hpmm h) \<subseteq> avail (hpmm h')"

lemma free_step_trans:
  assumes "free_step h xs h1 ys" and "free_step h1 ys h2 zs"
  shows "free_step h xs h2 zs"
proof -
  have "hmem h2 a = hmem h a" if "a \<notin> own_bytes xs" for a
  proof -
    have "a \<notin> own_bytes ys" using assms(1) that unfolding free_step_def by blast
    then show ?thesis using assms that unfolding free_step_def by simp
  qed
  then show ?thesis using assms unfolding free_step_def by blast
qed

lemma kfree_merge_ok:
  assumes inv: "heap_inv U h (xs @ x # ys)" and "bfr x" and pg: "\<forall>y \<in> set (xs @ [x]). unat (bpg y) < 0x100000"
  shows "\<exists>h' zs. (let h2 = coalesce_next (addr x) h; prv = blk_prev (hmem h2) (addr x);
        (block', h3) = (if prv \<noteq> 0 \<and> blk_free (hmem h2) prv then (prv, coalesce_next prv h2) else (addr x, h2))
      in release_whole_region_if_possible block' h3) = Some h'
    \<and> heap_inv U h' zs \<and> live zs = live (xs @ ys) \<and> free_step h (xs @ x # ys) h' zs
    \<and> (regions_aligned (xs @ [x]) \<longrightarrow> free_bytes h' zs = free_bytes h (xs @ x # ys))"
    (is "\<exists>h' zs. ?run = Some h' \<and> _")
proof -
  define h2 where "h2 = coalesce_next (addr x) h"
  obtain x' ys' where c: "heap_inv U h2 (xs @ x' # ys')" "addr x' = addr x" "bfr x'" "live ys' = live ys" "bpg x' = bpg x"
      and s2: "free_step h (xs @ x # ys) h2 (xs @ x' # ys')" and f2: "free_bytes h2 (xs @ x' # ys') = free_bytes h (xs @ x # ys)"
    using coalesce_next_ok [OF inv assms(2)] unfolding h2_def free_step_def free_bytes_def by (metis order_refl)
  have prv: "blk_prev (hmem h2) (addr x) = lastp 0 xs" using next_not_magic(6) [OF c(1)] c(2) by simp
  have nz: "\<forall>y \<in> set xs. addr y \<noteq> 0"
    using c(1) blocks_ok_nonzero by (auto simp: heap_inv_def)
  show ?thesis
  proof (cases "\<exists>us u. xs = us @ [u] \<and> bfr u")
    case False
    have "\<not> (lastp 0 xs \<noteq> 0 \<and> blk_free (hmem h2) (lastp 0 xs))"
    proof (cases xs rule: rev_cases)
      case (snoc us u)
      then show ?thesis using False next_not_magic(4) [of U h2 us u "x' # ys'"] c(1) by simp
    qed simp
    then have "?run = release_whole_region_if_possible (addr x') h2"
      by (auto simp: Let_def h2_def [symmetric] prv c(2))
    moreover obtain h' zs where "release_whole_region_if_possible (addr x') h2 = Some h'" "heap_inv U h' zs"
        "live zs = live (xs @ x' # ys')" and s3: "free_step h2 (xs @ x' # ys') h' zs"
        and f3: "(bpg x' \<noteq> 0 \<longrightarrow> 4096 dvd unat (addr x')) \<longrightarrow> free_bytes h' zs = free_bytes h2 (xs @ x' # ys')"
      using release_ok [OF c(1,3)] c(5) pg unfolding free_step_def by auto
    moreover have "regions_aligned (xs @ [x]) \<longrightarrow> free_bytes h' zs = free_bytes h (xs @ x # ys)"
      using f2 f3 c(2,5) by (simp add: regions_aligned_def)
    ultimately show ?thesis
      using c free_step_trans [OF s2 s3] by (intro exI [of _ h'] exI [of _ zs] conjI) simp_all
  next
    case True
    then obtain us u where u: "xs = us @ [u]" "bfr u" by blast
    have fu: "blk_free (hmem h2) (addr u)" using next_not_magic(4) [of U h2 us u "x' # ys'"] c(1) u by simp
    define h3 where "h3 = coalesce_next (addr u) h2"
    have i2: "heap_inv U h2 (us @ u # x' # ys')" using c(1) u by simp
    obtain u' zs' where d: "heap_inv U h3 (us @ u' # zs')" "addr u' = addr u" "bfr u'" "live zs' = live (x' # ys')" "bpg u' = bpg u"
        and s3: "free_step h2 (us @ u # x' # ys') h3 (us @ u' # zs')" and f3: "free_bytes h3 (us @ u' # zs') = free_bytes h2 (us @ u # x' # ys')"
      using coalesce_next_ok [OF i2 u(2)] unfolding h3_def free_step_def free_bytes_def by (metis order_refl)
    have "?run = release_whole_region_if_possible (addr u') h3"
      using u fu nz by (simp add: Let_def h2_def [symmetric] h3_def prv d(2))
    moreover obtain h' zs where "release_whole_region_if_possible (addr u') h3 = Some h'" "heap_inv U h' zs"
        "live zs = live (us @ u' # zs')" and s4: "free_step h3 (us @ u' # zs') h' zs"
        and f4: "(bpg u' \<noteq> 0 \<longrightarrow> 4096 dvd unat (addr u')) \<longrightarrow> free_bytes h' zs = free_bytes h3 (us @ u' # zs')"
      using release_ok [OF d(1,3)] d(5) pg u(1) unfolding free_step_def by auto
    moreover have "regions_aligned (xs @ [x]) \<longrightarrow> free_bytes h' zs = free_bytes h (xs @ x # ys)"
      using f2 f3 f4 d(2,5) u(1) by (simp add: regions_aligned_def)
    moreover have s2': "free_step h (xs @ x # ys) h2 (us @ u # x' # ys')" using s2 u(1) by simp
    ultimately show ?thesis
      using c d u free_step_trans [OF free_step_trans [OF s2' s3] s4]
      by (intro exI [of _ h'] exI [of _ zs] conjI) simp_all
  qed
qed

lemma kfree_ok:
  assumes inv: "heap_inv U h (xs @ x # ys)" and "\<not> bfr x" and pg: "\<forall>y \<in> set (xs @ [x]). unat (bpg y) < 0x100000"
  shows "\<exists>h' zs. kfree (addr x + 24) h = Some h' \<and> heap_inv U h' zs \<and> live zs = live (xs @ ys)
    \<and> own_bytes zs \<subseteq> own_bytes (xs @ ys) \<union> extent x \<and> avail (hpmm h) \<subseteq> avail (hpmm h')
    \<and> (regions_aligned (xs @ [x]) \<longrightarrow> free_bytes h' zs = free_bytes h (xs @ x # ys) \<union> extent x)
    \<and> (\<forall>a. a \<notin> own_bytes (xs @ ys) \<union> extent x \<longrightarrow> hmem h' a = hmem h a)"
proof -
  let ?x = "x\<lparr>bfr := True\<rparr>"
  define h1 where "h1 = h\<lparr>hmem := set_free (addr x) True (hmem h), heap_used := heap_used h - bsz x\<rparr>"
  note m = next_not_magic [OF inv]
  have "addr x + 24 \<noteq> 0" using m(2) by (metis add_is_0 unat_0 zero_neq_numeral)
  then have k: "kfree (addr x + 24) h = (let h2 = coalesce_next (addr x) h1; prv = blk_prev (hmem h2) (addr x);
        (block', h3) = (if prv \<noteq> 0 \<and> blk_free (hmem h2) prv then (prv, coalesce_next prv h2) else (addr x, h2))
      in release_whole_region_if_possible block' h3)"
    using m assms(2) by (subst kfree.simps) (simp add: Let_def h1_def)
  have i1: "heap_inv U h1 (xs @ ?x # ys)" using set_free_ok [OF inv, of True] assms(2) by (simp add: h1_def)
  obtain h' zs where r: "kfree (addr x + 24) h = Some h'" "heap_inv U h' zs" "live zs = live (xs @ ys)"
      "free_step h1 (xs @ ?x # ys) h' zs" "regions_aligned (xs @ [?x]) \<longrightarrow> free_bytes h' zs = free_bytes h1 (xs @ ?x # ys)"
  proof -
    have "addr ?x = addr x" "bfr ?x" "\<forall>y \<in> set (xs @ [?x]). unat (bpg y) < 0x100000" using pg by auto
    from kfree_merge_ok [OF i1 this(2,3), unfolded this(1)] show thesis using that unfolding k by blast
  qed
  have own: "own_bytes (xs @ ?x # ys) = own_bytes (xs @ ys) \<union> extent x" by (auto simp: extent_def)
  have "hmem h' a = hmem h a" if "a \<notin> own_bytes (xs @ ys) \<union> extent x" for a
  proof -
    have "hmem h' a = hmem h1 a" using r(4) that unfolding free_step_def own by blast
    moreover have "a \<notin> hdr_bytes (addr x)" using that hdr_sub_extent [of x] by blast
    ultimately show ?thesis by (simp add: h1_def set_frame)
  qed
  moreover have "own_bytes zs \<subseteq> own_bytes (xs @ ys) \<union> extent x" "avail (hpmm h) \<subseteq> avail (hpmm h')"
    using r(4) unfolding free_step_def own by (auto simp: h1_def)
  moreover have "regions_aligned (xs @ [x]) \<longrightarrow> free_bytes h' zs = free_bytes h (xs @ x # ys) \<union> extent x"
    using r(5) assms(2) by (auto simp: regions_aligned_def free_bytes_def h1_def extent_def)
  ultimately show ?thesis using r by blast
qed

text \<open>Clients may write to the payload of their own blocks.\<close>

lemma blocks_ok_pair: "blocks_ok P xs \<Longrightarrow> x \<in> set xs \<Longrightarrow> y \<in> set xs \<Longrightarrow> x = y \<or> extent x \<inter> extent y = {}"
  by (induction xs) (auto simp: blocks_ok_Cons)

lemma live_payload_hdr:
  assumes "blocks_ok P xs" and "x \<in> set (live xs)" and "y \<in> set xs"
  shows "hdr_bytes (addr y) \<inter> payload x = {}"
proof (cases "x = y")
  case True
  then show ?thesis by (auto simp: hdr_bytes_def payload_def)
next
  case False
  have "x \<in> set xs" using assms(2) by (simp add: live_def)
  then have "extent x \<inter> extent y = {}" using blocks_ok_pair [OF assms(1)] assms(3) False by blast
  moreover have "payload x \<subseteq> extent x" by (auto simp: payload_def extent_def)
  ultimately show ?thesis using hdr_sub_extent [of y] by blast
qed

lemma client_write_ok:
  assumes inv: "heap_inv U h xs" and w: "\<And>a. a \<notin> (\<Union>x \<in> set (live xs). payload x) \<Longrightarrow> m' a = hmem h a"
  shows "heap_inv U (h\<lparr>hmem := m'\<rparr>) xs"
proof -
  have ok: "blocks_ok (U - avail (hpmm h)) xs" and ch: "chain (hmem h) 0 (heap_head h) xs 0"
    using inv by (auto simp: heap_inv_def)
  have "chain m' 0 (heap_head h) xs 0"
  proof (rule chain_frame [OF ch w])
    show "\<forall>y \<in> set xs. hdr_bytes (addr y) \<inter> (\<Union>x \<in> set (live xs). payload x) = {}"
      using live_payload_hdr [OF ok] by blast
  qed
  then show ?thesis using inv by (simp add: heap_inv_def)
qed

lemma kmalloc_payload_sep:
  assumes "heap_inv U h xs" and "x \<in> set (live xs)"
  shows "payload x \<inter> (own_bytes xs \<union> page_bytes (avail (hpmm h))) = {}"
proof -
  have ok: "blocks_ok (U - avail (hpmm h)) xs" using assms(1) by (simp add: heap_inv_def)
  have x: "x \<in> set xs" "\<not> bfr x" using assms(2) by (auto simp: live_def)
  have sub: "payload x \<subseteq> extent x" by (auto simp: payload_def extent_def)
  have "payload x \<inter> (if bfr y then extent y else hdr_bytes (addr y)) = {}" if "y \<in> set xs" for y
  proof (cases "bfr y")
    case True
    then have "extent x \<inter> extent y = {}" using blocks_ok_pair [OF ok x(1) that] x(2) by auto
    then show ?thesis using True sub by auto
  next
    case False
    then show ?thesis using live_payload_hdr [OF ok assms(2) that] by auto
  qed
  moreover have "payload x \<inter> page_bytes (avail (hpmm h)) = {}"
    using ok x(1) sub by (auto simp: blocks_ok_def placed_def page_bytes_def)
  ultimately show ?thesis unfolding own_bytes_def by blast
qed

lemma payload_sub: "payload x \<subseteq> extent x"
  by (auto simp: payload_def extent_def)

lemma kmalloc_fresh:
  assumes inv: "heap_inv U h xs" and "szarg \<noteq> 0" and "kmalloc szarg h = Some (p, h')" and "p \<noteq> 0"
  shows "\<exists>ys us x vs. heap_inv U h' ys \<and> heap_step h xs h' ys \<and> live xs = us @ vs \<and> live ys = us @ x # vs
    \<and> p = addr x + 24 \<and> align_up_size szarg 8 \<le> bsz x \<and> (\<forall>y \<in> set (live xs). payload y \<inter> payload x = {})"
proof -
  obtain ys us x vs where r: "heap_inv U h' ys" "heap_step h xs h' ys" "live xs = us @ vs" "live ys = us @ x # vs"
      "p = addr x + 24" "align_up_size szarg 8 \<le> bsz x" "extent x \<subseteq> own_bytes xs \<union> page_bytes (avail (hpmm h))"
    using kmalloc_ok [OF inv assms(2)] assms(3,4) by auto
  have "payload y \<inter> payload x = {}" if "y \<in> set (live xs)" for y
    using kmalloc_payload_sep [OF inv that] r(7) payload_sub [of x] by blast
  then show ?thesis using r by blast
qed

section \<open>Aligned blocks\<close>

lemma align_pointer:
  fixes raw al :: u32
  assumes "al = 2 ^ k" and "k < 32" and "unat raw + unat al + 7 < 2 ^ 32"
  defines "q \<equiv> (raw + 8 + al - 1) AND NOT (al - 1)"
  shows "unat al dvd unat q" and "unat raw + 8 \<le> unat q" and "unat q \<le> unat raw + unat al + 7"
proof -
  have "(2 :: nat) ^ k < 2 ^ 32" using assms(2) by (intro power_strict_increasing) auto
  moreover have "al = of_nat (2 ^ k)" using assms(1) by simp
  ultimately have u: "unat al = 2 ^ k" by (simp only: unat_of_nat) simp
  have "unat (raw + 8 + al - 1) = unat raw + 7 + unat al"
  proof -
    have "raw + 8 + al - 1 = raw + 7 + al" by simp
    then show ?thesis using assms(3) by (simp add: unat_word_ariths)
  qed
  moreover have "al - 1 = mask k" using assms(1) by (simp add: mask_eq_exp_minus_1)
  ultimately have q: "unat q = (unat raw + 7 + 2 ^ k) div 2 ^ k * 2 ^ k"
    using unat_and_not_mask [of "raw + 8 + al - 1" k] by (simp add: q_def u)
  show "unat al dvd unat q" by (simp add: q u)
  have "(unat raw + 7 + 2 ^ k) mod 2 ^ k < 2 ^ k" by simp
  then show "unat raw + 8 \<le> unat q" "unat q \<le> unat raw + unat al + 7"
    unfolding q u using div_mult_mod_eq [of "unat raw + 7 + 2 ^ k" "2 ^ k"] by linarith+
qed

lemma kmalloc_aligned_ok:
  fixes al0 sz :: u32 defines "al \<equiv> if al0 < 4 then 4 else al0"
  assumes inv: "heap_inv U h xs" and al: "al = 2 ^ k" "k < 32" and small: "unat sz + unat al + 8 \<le> 0xFFFFFFF8"
  shows "\<exists>q h' ys. kmalloc_aligned sz al0 h = Some (q, h') \<and> heap_inv U h' ys \<and> heap_step h xs h' ys \<and>
    (if q = 0 then live ys = live xs
     else \<exists>us x vs. live xs = us @ vs \<and> live ys = us @ x # vs \<and> unat al dvd unat q
       \<and> unat (addr x) + 32 \<le> unat q \<and> unat q + unat sz \<le> unat (addr x) + 24 + unat (bsz x)
       \<and> load32 (hmem h') (unat q - 8) = HEAP_ALIGN_MAGIC \<and> load32 (hmem h') (unat q - 4) = addr x + 24)"
proof -
  define total where "total = sz + al + 8"
  have tot: "unat total = unat sz + unat al + 8" using small by (simp add: total_def unat_word_ariths)
  then have t0: "total \<noteq> 0" by (metis add_is_0 unat_0 zero_neq_numeral)
  obtain p h1 ys where k: "kmalloc total h = Some (p, h1)" "heap_inv U h1 ys" "heap_step h xs h1 ys"
     "if p = 0 then live ys = live xs else \<exists>us x vs. live xs = us @ vs \<and> live ys = us @ x # vs \<and> p = addr x + 24
        \<and> align_up_size total 8 \<le> bsz x \<and> extent x \<subseteq> own_bytes xs \<union> page_bytes (avail (hpmm h))"
  proof -
    obtain p h1 ys where r: "kmalloc total h = Some (p, h1)" "heap_inv U h1 ys" "heap_step h xs h1 ys"
       "if p = 0 then live ys = live xs \<and> (\<forall>y \<in> set ys. \<not> fits (align_up_size total 8) y)
          \<and> pmm_alloc_pages ((align_up_size total 8 + 24 + 4096 - 1) div 4096) (hpmm h1) = Some (0, hpmm h1)
        else \<exists>us x vs. live xs = us @ vs \<and> live ys = us @ x # vs \<and> p = addr x + 24
          \<and> align_up_size total 8 \<le> bsz x \<and> extent x \<subseteq> own_bytes xs \<union> page_bytes (avail (hpmm h))"
      using kmalloc_ok [OF inv t0] by blast
    show thesis by (rule that [OF r(1-3)]) (use r(4) in \<open>cases "p = 0"; simp\<close>)
  qed
  show ?thesis
  proof (cases "p = 0")
    case True
    then have "kmalloc_aligned sz al0 h = Some (0, h1)"
      using k(1) by (simp add: kmalloc_aligned_def Let_def al_def total_def)
    then show ?thesis using k True by (intro exI [of _ 0] exI [of _ h1] exI [of _ ys]) simp
  next
    case False
    then obtain us x vs where x: "live xs = us @ vs" "live ys = us @ x # vs" "p = addr x + 24"
        "align_up_size total 8 \<le> bsz x" "extent x \<subseteq> own_bytes xs \<union> page_bytes (avail (hpmm h))" using k(4) by auto
    define q where "q = (p + 8 + al - 1) AND NOT (al - 1)"
    define m where "m = store32 (store32 (hmem h1) (unat (q - 8)) HEAP_ALIGN_MAGIC) (unat (q - 8) + 4) p"
    have xl: "x \<in> set (live ys)" using x(2) by simp
    then have "x \<in> set ys" by (simp add: live_def)
    then have pl: "placed (U - avail (hpmm h1)) x" using k(2) by (auto simp: heap_inv_def blocks_ok_def)
    then have p: "unat p = unat (addr x) + 24" "unat (addr x) + 24 + unat (bsz x) \<le> 0x08000000"
      by (auto simp: x(3) placed_def unat_word_ariths)
    have big: "unat sz + unat al + 8 \<le> unat (bsz x)"
      using align_up_size_8_ge [of total] small x(4) by (simp add: tot word_le_nat_alt)
    note ap = align_pointer [OF al, of p, folded q_def]
    have q: "unat al dvd unat q" "unat p + 8 \<le> unat q" "unat q \<le> unat p + unat al + 7" using ap p big by simp_all
    then have q8: "unat (q - 8) = unat q - 8" by (simp add: unat_sub word_le_nat_alt)
    have run: "kmalloc_aligned sz al0 h = Some (q, h1\<lparr>hmem := m\<rparr>)"
      using k(1) False by (simp add: kmalloc_aligned_def Let_def al_def [symmetric] total_def [symmetric] q_def m_def)
    have w: "m a = hmem h1 a" if "a \<notin> payload x" for a
    proof -
      have "a < unat q - 8 \<or> unat q \<le> a" using that q p big by (auto simp: payload_def)
      then have "a < unat q - 8 + 4 \<or> unat q - 8 + 4 + 4 \<le> a" "a < unat q - 8 \<or> unat q - 8 + 4 \<le> a"
        using q(2) by linarith+
      then show ?thesis unfolding m_def q8 by (simp only: store32_other)
    qed
    then have "heap_inv U (h1\<lparr>hmem := m\<rparr>) ys" using xl by (intro client_write_ok [OF k(2)]) auto
    moreover have "heap_step h xs (h1\<lparr>hmem := m\<rparr>) ys"
    proof -
      have "m a = hmem h1 a" if "a \<notin> own_bytes xs \<union> page_bytes (avail (hpmm h))" for a
        using that x(5) payload_sub [of x] by (intro w) blast
      then show ?thesis using k(3) unfolding heap_step_def by simp
    qed
    moreover have "load32 m (unat q - 8) = HEAP_ALIGN_MAGIC" "load32 m (unat q - 4) = addr x + 24"
      using q(2) by (simp_all add: m_def q8 x(3) mem_simps)
    moreover have "q \<noteq> 0" "unat (addr x) + 32 \<le> unat q" "unat q + unat sz \<le> unat (addr x) + 24 + unat (bsz x)"
      using q big by (auto simp: p(1))
    ultimately show ?thesis using run x q(1)
      by (intro exI [of _ q] exI [of _ "h1\<lparr>hmem := m\<rparr>"] exI [of _ ys]) auto
  qed
qed

lemma kfree_aligned_ok:
  assumes inv: "heap_inv U h (xs @ x # ys)" and "\<not> bfr x" and pg: "\<forall>y \<in> set (xs @ [x]). unat (bpg y) < 0x100000"
    and q: "unat (addr x) + 32 \<le> unat q" "unat q \<le> unat (addr x) + 24 + unat (bsz x)"
    and hd: "load32 (hmem h) (unat q - 8) = HEAP_ALIGN_MAGIC" "load32 (hmem h) (unat q - 4) = addr x + 24"
  shows "\<exists>h' zs. kfree q h = Some h' \<and> heap_inv U h' zs \<and> live zs = live (xs @ ys)
    \<and> (\<forall>a. a \<notin> own_bytes (xs @ ys) \<union> extent x \<longrightarrow> hmem h' a = hmem h a)"
proof -
  define h1 where "h1 = h\<lparr>hmem := store32 (hmem h) (unat q - 8) 0\<rparr>"
  have q8: "unat (q - 8) = unat q - 8" using q(1) by (simp add: unat_sub word_le_nat_alt)
  have w: "hmem h1 a = hmem h a" if "a \<notin> payload x" for a
    using that q by (auto simp: h1_def payload_def intro!: store32_other)
  have "x \<in> set (live (xs @ x # ys))" using assms(2) by simp
  then have "heap_inv U (h\<lparr>hmem := hmem h1\<rparr>) (xs @ x # ys)" using w by (intro client_write_ok [OF inv]) auto
  then have i1: "heap_inv U h1 (xs @ x # ys)" by (simp add: h1_def)
  have "q \<noteq> 0" using q(1) by auto
  moreover have "unat q - 8 + 4 = unat q - 4" using q(1) by simp
  ultimately have "kfree q h = kfree (addr x + 24) h1"
    using hd q(1) by (subst kfree.simps) (simp add: Let_def q8 h1_def mem_simps)
  moreover obtain h' zs where "kfree (addr x + 24) h1 = Some h'" "heap_inv U h' zs" "live zs = live (xs @ ys)"
      "\<forall>a. a \<notin> own_bytes (xs @ ys) \<union> extent x \<longrightarrow> hmem h' a = hmem h1 a"
    using kfree_ok [OF i1 assms(2,3)] by blast
  ultimately show ?thesis using w payload_sub [of x]
    by (intro exI [of _ h'] exI [of _ zs]) auto
qed

lemma heap_initialize_ok:
  assumes "pmm_inv U p"
  shows "\<exists>h. heap_initialize m p = Some h \<and> (\<exists>a p'. pmm_alloc_page p = Some (a, p') \<and>
    heap_inv U h (if a = 0 then [] else [fresh_blk a 1]))"
proof -
  obtain a p' where al: "pmm_alloc_pages 1 p = Some (a, p')" using pmm.alloc_returns [OF assms] by blast
  let ?h = "\<lparr>hmem = m, hpmm = p, heap_head = 0, heap_total = 0, heap_used = 0, invalid_free_count = 0, double_free_count = 0\<rparr>"
  have i0: "heap_inv U ?h []" using assms by (simp add: heap_inv_def blocks_ok_def)
  show ?thesis
  proof (cases "a = 0")
    case True
    then have "p' = p" using pmm_alloc_cases [OF assms al] by simp
    then show ?thesis using True al i0 by (simp add: heap_initialize_def pmm_alloc_page_def)
  next
    case False
    then show ?thesis using grow_step [OF i0, of 1 a p'] al by (auto simp: heap_initialize_def pmm_alloc_page_def)
  qed
qed

section \<open>Properties\<close>

text \<open>The heap right after \<open>heap_initialize\<close> on the booted page allocator and a zeroed memory.\<close>

definition boot_heap :: heap where
  "boot_heap = the (heap_initialize (\<lambda>_. 0) boot_pmm)"

lemma boot_heap_ok: "heap_inv {256..<1024} boot_heap [fresh_blk 0x100000 1]"
proof -
  obtain a p' where a: "pmm_alloc_page boot_pmm = Some (a, p')"
      "heap_inv {256..<1024} boot_heap (if a = 0 then [] else [fresh_blk a 1])"
    using heap_initialize_ok [OF boot_pmm_ok(2), of "\<lambda>_. 0"] by (auto simp: boot_heap_def)
  have "{256..<256 + unat (1 :: u32)} \<subseteq> avail boot_pmm" by (auto simp: boot_pmm_ok(3))
  moreover have r: "if a = 0 then p' = boot_pmm \<and> ((1 :: u32) = 0 \<or> (\<forall>q. \<not> {q..<q + unat (1 :: u32)} \<subseteq> avail boot_pmm))
     else 4096 dvd unat a \<and> (1 :: u32) \<noteq> 0 \<and> pages_of a 1 \<subseteq> avail boot_pmm \<and> avail p' = avail boot_pmm - pages_of a 1
       \<and> pmm_inv {256..<1024} p' \<and> used_pages_count p' = used_pages_count boot_pmm + 1
       \<and> (\<forall>q < unat a div 4096. \<not> {q..<q + unat (1 :: u32)} \<subseteq> avail boot_pmm)"
    using pmm_alloc_pages_spec [OF boot_pmm_ok(2), of 1] a(1) by (auto simp: pmm_alloc_page_def)
  ultimately have "a \<noteq> 0" "4096 dvd unat a" "pages_of a 1 \<subseteq> {256..<1024}" "\<not> 256 < unat a div 4096"
    by (auto simp: boot_pmm_ok(3) split: if_splits)
  then have "unat a = 0x100000" by (auto simp: pages_of_def)
  then have "a = 0x100000" by (simp add: word_unat_eq_iff)
  then show ?thesis using a(2) by simp
qed

text \<open>C2. Allocation. From a well-formed heap and for a non-zero request that does not wrap when rounded
  up to 8 bytes, \<open>kmalloc\<close> returns: no loop over the block list or over the page allocator diverges.
  When it returns null, no free block is large enough and the page allocator has no run of pages for
  the request. Otherwise the live blocks are those of before plus one new block, whose payload starts
  at the returned pointer, is 8-byte aligned, has at least the requested size and overlaps no live
  payload; every byte outside the free blocks, the headers and the pages that were available keeps
  its value, and the heap is well-formed again.\<close>

theorem kmalloc_correct:
  assumes "heap_inv U h xs" and "szarg \<noteq> 0" and "unat szarg \<le> 0xFFFFFFF8"
  shows "\<exists>p h' ys. kmalloc szarg h = Some (p, h') \<and> heap_inv U h' ys
    \<and> (\<forall>a. a \<notin> own_bytes xs \<union> page_bytes (avail (hpmm h)) \<longrightarrow> hmem h' a = hmem h a) \<and>
    (if p = 0 then live ys = live xs \<and> (\<forall>y \<in> set ys. bfr y \<longrightarrow> bsz y < align_up_size szarg 8)
        \<and> pmm_alloc_pages ((align_up_size szarg 8 + 24 + 4096 - 1) div 4096) (hpmm h') = Some (0, hpmm h')
     else \<exists>us x vs. live xs = us @ vs \<and> live ys = us @ x # vs \<and> p = addr x + 24 \<and> unat szarg \<le> unat (bsz x)
        \<and> 8 dvd unat p \<and> (\<forall>y \<in> set (live xs). payload y \<inter> payload x = {}))"
proof -
  obtain p h' ys where k: "kmalloc szarg h = Some (p, h')" "heap_inv U h' ys" "heap_step h xs h' ys"
      "if p = 0 then live ys = live xs \<and> (\<forall>y \<in> set ys. \<not> fits (align_up_size szarg 8) y)
        \<and> pmm_alloc_pages ((align_up_size szarg 8 + 24 + 4096 - 1) div 4096) (hpmm h') = Some (0, hpmm h')
     else \<exists>us x vs. live xs = us @ vs \<and> live ys = us @ x # vs \<and> p = addr x + 24 \<and> align_up_size szarg 8 \<le> bsz x
        \<and> extent x \<subseteq> own_bytes xs \<union> page_bytes (avail (hpmm h))"
    using kmalloc_ok [OF assms(1,2)] by blast
  have fr: "\<forall>a. a \<notin> own_bytes xs \<union> page_bytes (avail (hpmm h)) \<longrightarrow> hmem h' a = hmem h a"
    using k(3) by (simp add: heap_step_def)
  show ?thesis
  proof (cases "p = 0")
    case True
    then show ?thesis using k fr by (intro exI [of _ 0] exI [of _ h'] exI [of _ ys]) (auto simp: not_le)
  next
    case False
    then obtain us x vs where x: "live xs = us @ vs" "live ys = us @ x # vs" "p = addr x + 24"
        "align_up_size szarg 8 \<le> bsz x" "extent x \<subseteq> own_bytes xs \<union> page_bytes (avail (hpmm h))" using k(4) by auto
    have "payload y \<inter> payload x = {}" if "y \<in> set (live xs)" for y
      using kmalloc_payload_sep [OF assms(1) that] x(5) payload_sub [of x] by blast
    moreover have "x \<in> set (live ys)" using x(2) by simp
    then have "x \<in> set ys" by (simp add: live_def)
    then have "8 dvd unat p" using k(2) by (auto simp: heap_inv_def blocks_ok_def placed_def x(3) unat_word_ariths)
    moreover have "unat szarg \<le> unat (bsz x)"
      using align_up_size_8_ge [OF assms(3)] x(4) by (simp add: word_le_nat_alt)
    ultimately show ?thesis using k(1,2) fr x False
      by (intro exI [of _ p] exI [of _ h'] exI [of _ ys] conjI)
        (simp_all, intro exI [of _ us] exI [of _ x] exI [of _ vs], simp)
  qed
qed

theorem kmalloc_correct_witness:
  "\<exists>p h' ys. kmalloc 100 boot_heap = Some (p, h') \<and> heap_inv {256..<1024} h' ys \<and> p \<noteq> 0 \<and> 8 dvd unat p
     \<and> (\<exists>x. live ys = [x] \<and> p = addr x + 24 \<and> 100 \<le> unat (bsz x))"
proof -
  have "kmalloc 100 boot_heap \<noteq> Some (0, h')" for h'
  proof -
    have "first_fit 104 [fresh_blk 0x100000 1] = 0x100000" by (simp add: first_fit_def fresh_blk_def)
    then show ?thesis
      using find_free_block_ok [OF boot_heap_ok, of 104]
      by (simp add: kmalloc_def align_up_size_def kmalloc_grow.simps [of 104 "0x100000"] Let_def)
  qed
  then show ?thesis
    using kmalloc_correct [OF boot_heap_ok, of 100] by (auto simp: fresh_blk_def split: if_splits)
qed

text \<open>C4. Freeing. \<open>kfree\<close> of a live block returns, provided no header up to that block holds a page
  count whose size in bytes wraps 32 bits: exactly that block stops being live, the other live blocks
  and every byte outside the free blocks, the headers and the freed block keep their values, pages
  only return to the page allocator, and the heap is well-formed again. If the blocks up to that one that carry a page count
  start on a page, nothing leaks: the bytes that can be handed out, in free blocks or free pages, grow by exactly the freed block.\<close>

theorem kfree_correct:
  assumes "heap_inv U h (xs @ x # ys)" and "\<not> bfr x" and "\<forall>y \<in> set (xs @ [x]). unat (bpg y) < 0x100000"
  shows "\<exists>h' zs. kfree (addr x + 24) h = Some h' \<and> heap_inv U h' zs \<and> live zs = live xs @ live ys
    \<and> heap_used_bytes h' = heap_used_bytes h - bsz x \<and> avail (hpmm h) \<subseteq> avail (hpmm h')
    \<and> (regions_aligned (xs @ [x]) \<longrightarrow> free_bytes h' zs = free_bytes h (xs @ x # ys) \<union> extent x)
    \<and> (\<forall>a. a \<notin> own_bytes (xs @ ys) \<union> extent x \<longrightarrow> hmem h' a = hmem h a)"
proof -
  obtain h' zs where k: "kfree (addr x + 24) h = Some h'" "heap_inv U h' zs" "live zs = live (xs @ ys)"
      "avail (hpmm h) \<subseteq> avail (hpmm h')" "\<forall>a. a \<notin> own_bytes (xs @ ys) \<union> extent x \<longrightarrow> hmem h' a = hmem h a"
      "regions_aligned (xs @ [x]) \<longrightarrow> free_bytes h' zs = free_bytes h (xs @ x # ys) \<union> extent x"
    using kfree_ok [OF assms] by blast
  have "heap_used h' = heap_used h - bsz x" using k(2,3) assms(1,2) by (simp add: heap_inv_def)
  then show ?thesis using k by (intro exI [of _ h'] exI [of _ zs]) (simp add: heap_used_bytes_def)
qed

definition one_block_heap :: heap where
  "one_block_heap = boot_heap\<lparr>hmem := set_free 0x100000 False (hmem boot_heap), heap_used := heap_used boot_heap + 4072\<rparr>"

lemma one_block_heap_ok: "heap_inv {256..<1024} one_block_heap [(fresh_blk 0x100000 1)\<lparr>bfr := False\<rparr>]"
  using set_free_ok [of "{256..<1024}" boot_heap "[]" "fresh_blk 0x100000 1" "[]" False] boot_heap_ok
  by (simp add: fresh_blk_def one_block_heap_def)

theorem kfree_correct_witness:
  "\<exists>h' zs. kfree 0x100018 one_block_heap = Some h' \<and> heap_inv {256..<1024} h' zs \<and> live zs = [] \<and> 0x100000 \<in> free_bytes h' zs"
proof -
  let ?x = "(fresh_blk 0x100000 1)\<lparr>bfr := False\<rparr>"
  have "\<not> bfr ?x" "\<forall>y \<in> set ([] @ [?x]). unat (bpg y) < 0x100000" "regions_aligned ([] @ [?x])" "0x100000 \<in> extent ?x" "addr ?x + 24 = 0x100018"
    by (simp_all add: fresh_blk_def regions_aligned_def extent_def dvd_eq_mod_eq_0)
  then show ?thesis using kfree_correct [of "{256..<1024}" one_block_heap "[]" ?x "[]"] one_block_heap_ok by (auto simp: fresh_blk_def)
qed

text \<open>Double frees are detected. Freeing a pointer whose block is already free in a well-formed heap
  increments the double-free counter and changes nothing else.\<close>

theorem kfree_double_detected:
  assumes "heap_inv U h (xs @ x # ys)" and "bfr x"
  shows "kfree (addr x + 24) h = Some (h\<lparr>double_free_count := heap_double_free_count h + 1\<rparr>)"
  using kfree_double [OF assms] by (simp add: heap_double_free_count_def)

theorem kfree_double_detected_witness:
  "kfree 0x100018 boot_heap = Some (boot_heap\<lparr>double_free_count := heap_double_free_count boot_heap + 1\<rparr>)"
  using kfree_double_detected [of "{256..<1024}" boot_heap "[]" "fresh_blk 0x100000 1" "[]"] boot_heap_ok
  by (simp add: fresh_blk_def)

lemma live_split:
  "live ys = us @ x # vs \<Longrightarrow> \<exists>as bs. ys = as @ x # bs \<and> live as = us \<and> live bs = vs \<and> \<not> bfr x"
proof (induction ys arbitrary: us)
  case (Cons y ys)
  consider "bfr y" | "\<not> bfr y" "us = []" | us' where "\<not> bfr y" "us = y # us'"
    using Cons.prems by (cases us) (auto split: if_splits)
  then show ?case
  proof cases
    case 2
    then show ?thesis using Cons.prems by (intro exI [of _ "[]"] exI [of _ ys]) auto
  next
    case 1
    then obtain as bs where "ys = as @ x # bs" "live as = us" "live bs = vs" "\<not> bfr x" using Cons by auto
    then show ?thesis using 1 by (intro exI [of _ "y # as"] exI [of _ bs]) simp
  next
    case 3
    then obtain as bs where "ys = as @ x # bs" "live as = us'" "live bs = vs" "\<not> bfr x" using Cons by auto
    then show ?thesis using 3 by (intro exI [of _ "y # as"] exI [of _ bs]) simp
  qed
qed simp

text \<open>Aligned allocation round trip. For a power-of-two alignment and a request that does not wrap,
  \<open>kmalloc_aligned\<close> returns; a non-null result is aligned, the requested bytes lie inside the payload
  of one new live block, and freeing the pointer right away releases exactly that block, again unless
  a header holds a wrapping page count.\<close>

theorem kmalloc_aligned_roundtrip:
  assumes "heap_inv U h xs" and "(if al0 < 4 then 4 else al0) = (2 :: u32) ^ k" and "k < 32"
    and "unat sz + unat (if al0 < 4 then 4 else al0) + 8 \<le> 0xFFFFFFF8"
  shows "\<exists>q h1 ys. kmalloc_aligned sz al0 h = Some (q, h1) \<and> heap_inv U h1 ys \<and>
    (if q = 0 then live ys = live xs
     else (\<exists>x \<in> set (live ys). {unat q..<unat q + unat sz} \<subseteq> payload x \<and> unat (if al0 < 4 then 4 else al0) dvd unat q
       \<and> ((\<forall>y \<in> set ys. unat (bpg y) < 0x100000) \<longrightarrow>
           (\<exists>h2 zs. kfree q h1 = Some h2 \<and> heap_inv U h2 zs \<and> live zs = live xs))))"
proof -
  obtain q h1 ys where r: "kmalloc_aligned sz al0 h = Some (q, h1)" "heap_inv U h1 ys"
    "if q = 0 then live ys = live xs
     else \<exists>us x vs. live xs = us @ vs \<and> live ys = us @ x # vs \<and> unat (if al0 < 4 then 4 else al0) dvd unat q
       \<and> unat (addr x) + 32 \<le> unat q \<and> unat q + unat sz \<le> unat (addr x) + 24 + unat (bsz x)
       \<and> load32 (hmem h1) (unat q - 8) = HEAP_ALIGN_MAGIC \<and> load32 (hmem h1) (unat q - 4) = addr x + 24"
    using kmalloc_aligned_ok [OF assms] by blast
  show ?thesis
  proof (cases "q = 0")
    case True
    then show ?thesis using r by auto
  next
    case False
    then obtain us x vs where x: "live xs = us @ vs" "live ys = us @ x # vs" "unat (if al0 < 4 then 4 else al0) dvd unat q"
        "unat (addr x) + 32 \<le> unat q" "unat q + unat sz \<le> unat (addr x) + 24 + unat (bsz x)"
        "load32 (hmem h1) (unat q - 8) = HEAP_ALIGN_MAGIC" "load32 (hmem h1) (unat q - 4) = addr x + 24"
      using r(3) by auto
    have "\<exists>h2 zs. kfree q h1 = Some h2 \<and> heap_inv U h2 zs \<and> live zs = live xs"
      if pg: "\<forall>y \<in> set ys. unat (bpg y) < 0x100000"
    proof -
      obtain as bs where s: "ys = as @ x # bs" "live as = us" "live bs = vs" "\<not> bfr x"
        using live_split [OF x(2)] by blast
      show ?thesis using kfree_aligned_ok [of U h1 as x bs q] r(2) s x pg by auto
    qed
    moreover have "{unat q..<unat q + unat sz} \<subseteq> payload x" using x(4,5) by (auto simp: payload_def)
    ultimately show ?thesis using r x False by (intro exI [of _ q] exI [of _ h1] exI [of _ ys]) auto
  qed
qed

theorem kmalloc_aligned_roundtrip_witness:
  "\<exists>q h1 ys. kmalloc_aligned 64 16 boot_heap = Some (q, h1) \<and> heap_inv {256..<1024} h1 ys
     \<and> (q = 0 \<or> 16 dvd unat q)"
  using kmalloc_aligned_roundtrip [OF boot_heap_ok, of 16 4 64] by (auto split: if_splits)

text \<open>A wrapping request. For requests above \<open>0xFFFFFFF8\<close> the rounding of the size wraps to zero, so
  \<open>kmalloc\<close> hands out a non-null pointer to a block with no room for the request whenever the heap has
  any free block.\<close>

theorem kmalloc_wraps:
  assumes "heap_inv U h xs" and "0xFFFFFFF8 < unat szarg" and "\<exists>x \<in> set xs. bfr x"
  shows "\<exists>p h' ys x. kmalloc szarg h = Some (p, h') \<and> p \<noteq> 0 \<and> heap_inv U h' ys \<and> x \<in> set (live ys)
    \<and> p = addr x + 24 \<and> unat (bsz x) < unat szarg"
proof -
  have "unat (szarg + 7) = unat szarg + 7 - 4294967296"
    using assms(2) less_imp_diff_less [OF unat_u32_less [of szarg]] by (simp add: unat_word_ariths le_mod_geq)
  then have "unat (szarg + 7) < 8" using unat_u32_less [of szarg] by linarith
  then have "unat (szarg + 7) div 8 = 0" by simp
  then have sz: "align_up_size szarg 8 = 0"
    using unat_and_not_mask [of "szarg + 7" 3] by (simp add: align_up_size_def mask_eq_exp_minus_1 add.commute word_unat_eq_iff)
  have pl: "placed (U - avail (hpmm h)) x" if "x \<in> set xs" for x using assms(1) that by (simp add: heap_inv_def blocks_ok_def)
  have "blocks_ok (U - avail (hpmm h)) xs" using assms(1) by (simp add: heap_inv_def)
  note ff = first_fit_cases [OF blocks_ok_nonzero [OF this], of 0]
  have "\<not> (\<forall>x \<in> set xs. \<not> fits 0 x)" using assms(3) by auto
  then obtain us x vs where xs: "xs = us @ x # vs" and ff0: "first_fit 0 xs = addr x" "first_fit 0 xs \<noteq> 0"
    using ff by blast
  then have x: "x \<in> set xs" "first_fit 0 xs = addr x" "first_fit 0 xs \<noteq> 0" by simp_all
  then have "unat (first_fit 0 xs + 24) = unat (addr x) + 24" using pl [OF x(1)] by (simp add: placed_def unat_word_ariths)
  then have nz: "first_fit 0 xs + 24 \<noteq> 0" by (metis add_is_0 unat_0 zero_neq_numeral)
  have s0: "szarg \<noteq> 0" using assms(2) by auto
  have "kmalloc_grow 0 (first_fit 0 xs) h = Some (first_fit 0 xs, h)" using x(3) by (subst kmalloc_grow.simps) simp
  then have "fst (the (kmalloc szarg h)) = first_fit 0 xs + 24"
    using find_free_block_ok [OF assms(1), of 0] s0 x(3) by (simp add: kmalloc_def sz Let_def)
  moreover obtain p h' where k: "kmalloc szarg h = Some (p, h')" using kmalloc_ok [OF assms(1) s0] by blast
  ultimately have p: "p \<noteq> 0" using nz by simp
  obtain ys us y vs where y: "heap_inv U h' ys" "live ys = us @ y # vs" "p = addr y + 24"
    using kmalloc_fresh [OF assms(1) s0 k p] by blast
  then have yl: "y \<in> set (live ys)" by simp
  then have "y \<in> set ys" by (simp add: live_def)
  then have "unat (bsz y) \<le> 0x08000000" using y(1) by (auto simp: heap_inv_def blocks_ok_def placed_def)
  then show ?thesis using k p y yl assms(2) by (intro exI [of _ p] exI [of _ h'] exI [of _ ys] exI [of _ y]) simp
qed

theorem kmalloc_wraps_witness:
  "\<exists>p h'. kmalloc 0xFFFFFFFF boot_heap = Some (p, h') \<and> p \<noteq> 0"
  using kmalloc_wraps [OF boot_heap_ok, of "0xFFFFFFFF"] by (auto simp: fresh_blk_def)

end
