(* ===== verification/Runtime.thy ===== *)
theory Runtime
  imports Prelude
begin

text \<open>The freestanding runtime, \<open>src/lib/libk/runtime.c\<close>, and its copy in the user C library,
  \<open>src/user/libc/string.c\<close>. A C string is the list of its bytes; reading at or beyond the end of the
  list yields the terminating NUL, and a NUL inside the list ends the string there. Routines that
  work on memory blocks act on the byte memory.\<close>

section \<open>Strings\<close>

text \<open>The string proper: the bytes before the first NUL.\<close>

definition cstr :: "u8 list \<Rightarrow> u8 list" where
  "cstr s = takeWhile (\<lambda>c. c \<noteq> 0) s"

fun kstrlen :: "u8 list \<Rightarrow> u32" where
  "kstrlen [] = 0"
| "kstrlen (c # s) = (if c \<noteq> 0 then 1 + kstrlen s else 0)"

fun kstrcmp :: "u8 list \<Rightarrow> u8 list \<Rightarrow> int" where
  "kstrcmp (l # ls) (r # rs) =
     (if l \<noteq> 0 \<and> r \<noteq> 0
      then if l \<noteq> r then uint l - uint r else kstrcmp ls rs
      else uint l - uint r)"
| "kstrcmp [] (r # rs) = - uint r"
| "kstrcmp (l # ls) [] = uint l"
| "kstrcmp [] [] = 0"

section \<open>Memory blocks\<close>

fun memcpy_from :: "nat \<Rightarrow> nat \<Rightarrow> nat \<Rightarrow> nat \<Rightarrow> mem \<Rightarrow> mem" where
  "memcpy_from dst src i 0 m = m"
| "memcpy_from dst src i (Suc n) m = memcpy_from dst src (Suc i) n (m(dst + i := m (src + i)))"

definition kmemcpy :: "nat \<Rightarrow> nat \<Rightarrow> nat \<Rightarrow> mem \<Rightarrow> mem" where
  "kmemcpy dst src n m = memcpy_from dst src 0 n m"

fun memset_from :: "nat \<Rightarrow> u8 \<Rightarrow> nat \<Rightarrow> nat \<Rightarrow> mem \<Rightarrow> mem" where
  "memset_from dst v i 0 m = m"
| "memset_from dst v i (Suc n) m = memset_from dst v (Suc i) n (m(dst + i := v))"

definition kmemset :: "nat \<Rightarrow> u32 \<Rightarrow> nat \<Rightarrow> mem \<Rightarrow> mem" where
  "kmemset dst value n m = memset_from dst (ucast value) 0 n m"

section \<open>Number formatting\<close>

definition hex_digits :: "u8 list" where
  "hex_digits = [48, 49, 50, 51, 52, 53, 54, 55, 56, 57, 65, 66, 67, 68, 69, 70]"

definition u32_to_hex :: "u32 \<Rightarrow> u8 list" where
  "u32_to_hex value =
     [48, 120] @ map (\<lambda>i. hex_digits ! unat (drop_bit ((7 - i) * 4) value AND 0xF)) [0..<8] @ [0]"

text \<open>The digits in \<open>temp\<close>, least significant first; \<open>room\<close> is what is left of its 21 bytes.\<close>

fun dec_temp :: "nat \<Rightarrow> u32 \<Rightarrow> u8 list" where
  "dec_temp 0 value = []"
| "dec_temp (Suc room) value =
     (if value \<noteq> 0 then ucast (48 + value mod 10) # dec_temp room (value div 10) else [])"

text \<open>The bytes \<open>u32_to_dec\<close> stores into a buffer of \<open>out_size\<close> bytes.\<close>

definition u32_to_dec :: "u32 \<Rightarrow> nat \<Rightarrow> u8 list" where
  "u32_to_dec value out_size =
     (if out_size = 0 then []
      else if value = 0 then (if out_size > 1 then [48, 0] else [48])
      else take (out_size - 1) (rev (dec_temp 21 value)) @ [0])"

section \<open>Lemmas\<close>

lemma cstr_simps [simp]: "cstr [] = []" "cstr (c # s) = (if c \<noteq> 0 then c # cstr s else [])"
  by (simp_all add: cstr_def)

lemma kstrlen_cstr: "kstrlen s = of_nat (length (cstr s))"
  by (induction s) auto

lemma uint_pos: "(c :: u8) \<noteq> 0 \<longleftrightarrow> 0 < uint c"
  by (simp add: word_uint_eq_iff order_less_le)

lemma kstrcmp_zero: "kstrcmp a b = 0 \<longleftrightarrow> cstr a = cstr b"
  by (induction a b rule: kstrcmp.induct) (auto simp: word_uint_eq_iff)

lemma kstrcmp_less: "kstrcmp a b < 0 \<longleftrightarrow> (cstr a, cstr b) \<in> lexord {(x, y). x < y}"
  by (induction a b rule: kstrcmp.induct) (auto simp: word_less_def word_uint_eq_iff uint_pos [symmetric])

lemma memcpy_from_ok:
  assumes "dst \<le> src \<or> src + i + n \<le> dst"
  shows "memcpy_from dst src i n m a =
    (if dst + i \<le> a \<and> a < dst + i + n then m (a - dst + src) else m a)"
  using assms
proof (induction n arbitrary: i m)
  case (Suc n)
  have "dst \<le> src \<or> src + Suc i + n \<le> dst" using Suc.prems by simp
  note IH = Suc.IH [OF this, of "m(dst + i := m (src + i))"]
  have "a - dst + src \<noteq> dst + i" if "dst + Suc i \<le> a" "a < dst + Suc i + n"
    using Suc.prems that by auto
  then show ?case unfolding memcpy_from.simps IH by (auto simp: add.commute)
qed auto

lemma memset_from_ok: "memset_from dst v i n m a = (if dst + i \<le> a \<and> a < dst + i + n then v else m a)"
  by (induction n arbitrary: i m) auto

definition dec_value :: "u8 list \<Rightarrow> nat" where
  "dec_value ds = foldl (\<lambda>n d. 10 * n + (unat d - 48)) 0 ds"

lemma dec_value_snoc [simp]: "dec_value (ds @ [d]) = 10 * dec_value ds + (unat d - 48)"
  by (simp add: dec_value_def)

lemma unat_digit: "unat (ucast (48 + (v :: u32) mod 10) :: u8) = 48 + unat v mod 10"
proof -
  have "unat (48 + v mod 10) = 48 + unat v mod 10"
    by (simp add: unat_word_ariths unat_mod)
  then show ?thesis by (simp add: unsigned_ucast_eq take_bit_eq_mod)
qed

lemma dec_temp_ok: "unat v < 10 ^ n \<Longrightarrow> dec_value (rev (dec_temp n v)) = unat v \<and> length (dec_temp n v) \<le> n
    \<and> (\<forall>d \<in> set (dec_temp n v). 48 \<le> unat d \<and> unat d < 58)"
proof (induction n arbitrary: v)
  case 0
  then show ?case by (simp add: dec_value_def)
next
  case (Suc n)
  show ?case
  proof (cases "v = 0")
    case True
    then show ?thesis by (simp add: dec_value_def)
  next
    case False
    have "unat (v div 10) < 10 ^ n" using Suc.prems by (simp add: unat_div)
    from Suc.IH [OF this] show ?thesis using False by (simp add: unat_digit unat_div)
  qed
qed

lemma dec_temp_length: "unat v < 10 ^ k \<Longrightarrow> length (dec_temp n v) \<le> k"
proof (induction n arbitrary: v k)
  case (Suc n)
  show ?case
  proof (cases "v = 0")
    case False
    then have "k \<noteq> 0" using Suc.prems by (cases k) (auto simp: word_unat_eq_iff)
    then obtain j where k: "k = Suc j" by (cases k) auto
    have "unat (v div 10) < 10 ^ j" using Suc.prems by (simp add: unat_div k)
    from Suc.IH [OF this] show ?thesis by (simp add: k)
  qed simp
qed simp

lemma unat_nibble: "unat (drop_bit n (v :: u32) AND 0xF) = unat v div 2 ^ n mod 16"
proof -
  have "drop_bit n v AND 0xF = take_bit 4 (drop_bit n v)" by (simp add: take_bit_eq_mask mask_eq_exp_minus_1)
  then show ?thesis
    by (simp only: unsigned_take_bit_eq unsigned_drop_bit_eq) (simp add: take_bit_eq_mod drop_bit_eq_div)
qed

definition hex_digit_value :: "u8 \<Rightarrow> nat" where
  "hex_digit_value d = (if unat d < 58 then unat d - 48 else unat d - 55)"

lemma hex_digit_value: "n < 16 \<Longrightarrow> hex_digit_value (hex_digits ! n) = n"
proof -
  assume "n < 16"
  then have "n \<in> {0, 1, 2, 3, 4, 5, 6, 7, 8, 9, 10, 11, 12, 13, 14, 15}"
    unfolding insert_iff empty_iff by presburger
  then show ?thesis by (elim insertE emptyE) (simp_all add: hex_digit_value_def hex_digits_def)
qed

lemma base16_step: "0 < d \<Longrightarrow> (n :: nat) div d = 16 * (n div (d * 16)) + n div d mod 16"
  by (simp add: div_mult2_eq)

lemma base16_expand:
  assumes "(n :: nat) < 4294967296"
  shows "16 * (16 * (16 * (16 * (16 * (16 * (16 * (n div 268435456 mod 16) + n div 16777216 mod 16) + n div 1048576 mod 16)
     + n div 65536 mod 16) + n div 4096 mod 16) + n div 256 mod 16) + n div 16 mod 16) + n mod 16 = n"
proof -
  have "n div 268435456 mod 16 = n div 268435456" using assms by simp
  then show ?thesis
    using base16_step [of 1 n] base16_step [of 16 n] base16_step [of 256 n] base16_step [of 4096 n]
      base16_step [of 65536 n] base16_step [of 1048576 n] base16_step [of 16777216 n] by simp
qed

section \<open>Properties\<close>

text \<open>String comparison. \<open>kstrcmp\<close> returns zero exactly on equal strings and a negative value exactly
  when the left string precedes the right one lexicographically by unsigned bytes.\<close>

theorem kstrcmp_order:
  "(kstrcmp a b = 0 \<longleftrightarrow> cstr a = cstr b) \<and> (kstrcmp a b < 0 \<longleftrightarrow> (cstr a, cstr b) \<in> lexord {(x, y). x < y})"
  using kstrcmp_zero kstrcmp_less by blast

text \<open>Decimal output. In a buffer of at least 11 bytes \<open>u32_to_dec\<close> stores a NUL-terminated string of
  decimal digits that fits and denotes the value, for every 32-bit value.\<close>

theorem u32_to_dec_correct:
  assumes "11 \<le> out_size"
  shows "\<exists>ds. u32_to_dec v out_size = ds @ [0] \<and> length ds < out_size \<and> ds \<noteq> []
    \<and> (\<forall>d \<in> set ds. 48 \<le> unat d \<and> unat d < 58) \<and> dec_value ds = unat v"
proof (cases "v = 0")
  case True
  then show ?thesis using assms by (intro exI [of _ "[48]"]) (simp add: u32_to_dec_def dec_value_def)
next
  case False
  have "unat v < 10000000000" "unat v < 1000000000000000000000" using unat_u32_less [of v] by linarith+
  then have v: "unat v < 10 ^ 10" "unat v < 10 ^ 21" by simp_all
  have "dec_temp 21 v \<noteq> []" using False by (simp add: numeral_eq_Suc)
  then show ?thesis
    using dec_temp_ok [OF v(2)] dec_temp_length [OF v(1), of 21] assms False
    by (intro exI [of _ "rev (dec_temp 21 v)"]) (simp add: u32_to_dec_def)
qed

theorem u32_to_dec_correct_witness:
  "\<exists>ds. u32_to_dec 4294967295 16 = ds @ [0] \<and> length ds < 16 \<and> dec_value ds = 4294967295"
  using u32_to_dec_correct [of 16 4294967295] by auto

text \<open>Hexadecimal output. \<open>u32_to_hex\<close> stores \<open>0x\<close>, eight digits and a NUL, and the digits denote the
  value.\<close>

theorem u32_to_hex_correct:
  "\<exists>ds. u32_to_hex v = [48, 120] @ ds @ [0] \<and> length ds = 8
    \<and> foldl (\<lambda>n d. 16 * n + hex_digit_value d) 0 ds = unat v"
proof -
  have e: "[0..<8] = [0, 1, 2, 3, 4, 5, 6, 7 :: nat]" by (simp add: upt_rec)
  show ?thesis
    using base16_expand [OF unat_u32_less [of v]] e
    by (simp only: u32_to_hex_def list.map append_same_eq) (simp add: unat_nibble [of 0, simplified] drop_bit_eq_div unat_div hex_digit_value)
qed

text \<open>Block copy and fill. \<open>kmemcpy\<close> copies the source block as it was to the destination and changes
  nothing else, provided the destination does not start inside the source block; \<open>kmemset\<close> fills
  exactly the block with the low byte of the value.\<close>

theorem kmemcpy_kmemset_exact:
  assumes "dst \<le> src \<or> src + n \<le> dst"
  shows "kmemcpy dst src n m = (\<lambda>a. if a \<in> {dst..<dst + n} then m (a - dst + src) else m a)
    \<and> kmemset dst v n m = (\<lambda>a. if a \<in> {dst..<dst + n} then ucast v else m a)"
  using assms by (auto simp: kmemcpy_def kmemset_def memcpy_from_ok memset_from_ok)

theorem kmemcpy_kmemset_exact_witness:
  "kmemcpy 10 12 4 (\<lambda>a. of_nat a) 11 = 13 \<and> kmemset 10 0x141 4 (\<lambda>a. of_nat a) 11 = 0x41"
  using kmemcpy_kmemset_exact [of 10 12 4] by simp

end
