(* ===== verification/Diskfs_Cache.thy ===== *)
theory Diskfs_Cache
  imports Runtime
begin

text \<open>The block layer of the file system, the first part of \<open>src/kernel/fs/diskfs/diskfs.c\<close>: raw sector
  access, the write-back cache of eight sectors with a clock for the victim, and the flush. The block
  device is an argument: a record of its read and write operations, which the locale \<open>block_device\<close>
  specifies and the theory of the ATA driver provides.\<close>

section \<open>Model\<close>

abbreviation (input) DISKFS_SECTOR_SIZE :: nat where "DISKFS_SECTOR_SIZE \<equiv> 512"
abbreviation (input) DISKFS_TOTAL_SECTORS :: u32 where "DISKFS_TOTAL_SECTORS \<equiv> 4096"
abbreviation (input) DISKFS_CACHE_SLOTS :: nat where "DISKFS_CACHE_SLOTS \<equiv> 8"

record 'd blockdev =
  bd_read :: "u32 \<Rightarrow> 'd \<Rightarrow> u8 list option \<times> 'd"
  bd_write :: "u32 \<Rightarrow> u8 list \<Rightarrow> 'd \<Rightarrow> bool \<times> 'd"

record diskfs_cache_entry =
  cvalid :: bool
  cdirty :: bool
  csector :: u32
  cdata :: "u8 list"

record 'd bcache =
  dev :: 'd
  fs_start_lba :: u32
  cache :: "diskfs_cache_entry list"
  cache_clock :: u32

definition raw_read_sector :: "'d blockdev \<Rightarrow> u32 \<Rightarrow> ('d, 'z) bcache_scheme \<Rightarrow> u8 list option \<times> ('d, 'z) bcache_scheme" where
  "raw_read_sector bd relative_sector st =
     (if relative_sector \<ge> DISKFS_TOTAL_SECTORS then (None, st)
      else let (r, d) = bd_read bd (fs_start_lba st + relative_sector) (dev st) in (r, st\<lparr>dev := d\<rparr>))"

definition raw_write_sector :: "'d blockdev \<Rightarrow> u32 \<Rightarrow> u8 list \<Rightarrow> ('d, 'z) bcache_scheme \<Rightarrow> bool \<times> ('d, 'z) bcache_scheme" where
  "raw_write_sector bd relative_sector buffer st =
     (if relative_sector \<ge> DISKFS_TOTAL_SECTORS then (False, st)
      else let (r, d) = bd_write bd (fs_start_lba st + relative_sector) buffer (dev st) in (r, st\<lparr>dev := d\<rparr>))"

definition upd_entry :: "nat \<Rightarrow> (diskfs_cache_entry \<Rightarrow> diskfs_cache_entry) \<Rightarrow> ('d, 'z) bcache_scheme \<Rightarrow> ('d, 'z) bcache_scheme" where
  "upd_entry i f st = st\<lparr>cache := (cache st)[i := f (cache st ! i)]\<rparr>"

definition cache_writeback :: "'d blockdev \<Rightarrow> nat \<Rightarrow> ('d, 'z) bcache_scheme \<Rightarrow> bool \<times> ('d, 'z) bcache_scheme" where
  "cache_writeback bd entry st =
     (let e = cache st ! entry in
      if \<not> cvalid e \<or> \<not> cdirty e then (True, st)
      else let (ok, st1) = raw_write_sector bd (csector e) (cdata e) st in
           if \<not> ok then (False, st1)
           else (True, upd_entry entry (\<lambda>e. e\<lparr>cdirty := False\<rparr>) st1))"

definition cache_hit :: "u32 \<Rightarrow> diskfs_cache_entry list \<Rightarrow> nat option" where
  "cache_hit sector es = find (\<lambda>i. cvalid (es ! i) \<and> csector (es ! i) = sector) [0..<DISKFS_CACHE_SLOTS]"

definition cache_get :: "'d blockdev \<Rightarrow> u32 \<Rightarrow> bool \<Rightarrow> ('d, 'z) bcache_scheme \<Rightarrow> nat option \<times> ('d, 'z) bcache_scheme" where
  "cache_get bd sector for_write st =
     (let victim = unat (cache_clock st) mod DISKFS_CACHE_SLOTS;
          st0 = st\<lparr>cache_clock := cache_clock st + 1\<rparr>
      in case cache_hit sector (cache st0) of
           Some i \<Rightarrow> (Some i, if for_write then upd_entry i (\<lambda>e. e\<lparr>cdirty := True\<rparr>) st0 else st0)
         | None \<Rightarrow>
             let (ok, st1) = cache_writeback bd victim st0 in
             if \<not> ok then (None, st1)
             else case raw_read_sector bd sector st1 of
                    (None, st2) \<Rightarrow> (None, upd_entry victim (\<lambda>e. e\<lparr>cvalid := False\<rparr>) st2)
                  | (Some data, st2) \<Rightarrow>
                      (Some victim, upd_entry victim
                         (\<lambda>e. e\<lparr>cdata := data, cvalid := True, cdirty := for_write, csector := sector\<rparr>) st2))"

definition read_sector :: "'d blockdev \<Rightarrow> u32 \<Rightarrow> ('d, 'z) bcache_scheme \<Rightarrow> u8 list option \<times> ('d, 'z) bcache_scheme" where
  "read_sector bd relative_sector st =
     (case cache_get bd relative_sector False st of
        (None, st1) \<Rightarrow> (None, st1)
      | (Some entry, st1) \<Rightarrow> (Some (cdata (cache st1 ! entry)), st1))"

definition write_sector :: "'d blockdev \<Rightarrow> u32 \<Rightarrow> u8 list \<Rightarrow> ('d, 'z) bcache_scheme \<Rightarrow> bool \<times> ('d, 'z) bcache_scheme" where
  "write_sector bd relative_sector buffer st =
     (case cache_get bd relative_sector True st of
        (None, st1) \<Rightarrow> (False, st1)
      | (Some entry, st1) \<Rightarrow> (True, upd_entry entry (\<lambda>e. e\<lparr>cdata := buffer\<rparr>) st1))"

fun flush_from :: "'d blockdev \<Rightarrow> nat \<Rightarrow> nat \<Rightarrow> bool \<Rightarrow> ('d, 'z) bcache_scheme \<Rightarrow> bool \<times> ('d, 'z) bcache_scheme" where
  "flush_from bd i 0 ok st = (ok, st)"
| "flush_from bd i (Suc n) ok st =
     (let (w, st1) = cache_writeback bd i st in flush_from bd (Suc i) n (if w then ok else False) st1)"

definition diskfs_flush :: "'d blockdev \<Rightarrow> ('d, 'z) bcache_scheme \<Rightarrow> bool \<times> ('d, 'z) bcache_scheme" where
  "diskfs_flush bd st = flush_from bd 0 DISKFS_CACHE_SLOTS True st"

section \<open>The device interface\<close>

text \<open>What the file system relies on, for the sectors of its partition: reads return the content and
  leave it alone, a successful write changes exactly the sector it names, and a failed operation
  affects at most the sector it was writing.\<close>

locale block_device =
  fixes bd :: "'d blockdev" and content :: "'d \<Rightarrow> u32 \<Rightarrow> u8 list" and dev_inv :: "'d \<Rightarrow> bool" and part :: "u32 set"
  assumes read_ok: "dev_inv d \<Longrightarrow> lba \<in> part \<Longrightarrow> bd_read bd lba d = (r, d') \<Longrightarrow>
      dev_inv d' \<and> (\<forall>l \<in> part. content d' l = content d l) \<and> (r = None \<or> r = Some (content d lba))"
    and write_ok: "dev_inv d \<Longrightarrow> lba \<in> part \<Longrightarrow> length buf = 512 \<Longrightarrow> bd_write bd lba buf d = (ok, d') \<Longrightarrow>
      dev_inv d' \<and> (\<forall>l \<in> part - {lba}. content d' l = content d l) \<and> (ok \<longrightarrow> content d' lba = buf)"
    and content_length: "dev_inv d \<Longrightarrow> lba \<in> part \<Longrightarrow> length (content d lba) = 512"

text \<open>A device on which no operation fails.\<close>

locale reliable_device = block_device +
  assumes read_succeeds: "dev_inv d \<Longrightarrow> lba \<in> part \<Longrightarrow> \<exists>data d'. bd_read bd lba d = (Some data, d')"
    and write_succeeds: "dev_inv d \<Longrightarrow> lba \<in> part \<Longrightarrow> length buf = 512 \<Longrightarrow> \<exists>d'. bd_write bd lba buf d = (True, d')"

section \<open>The logical content of a sector\<close>

definition entry_for :: "u32 \<Rightarrow> diskfs_cache_entry \<Rightarrow> bool" where
  "entry_for s e \<longleftrightarrow> cvalid e \<and> csector e = s"

definition view :: "('d \<Rightarrow> u32 \<Rightarrow> u8 list) \<Rightarrow> ('d, 'z) bcache_scheme \<Rightarrow> u32 \<Rightarrow> u8 list" where
  "view content st s =
     (case find (entry_for s) (cache st) of Some e \<Rightarrow> cdata e | None \<Rightarrow> content (dev st) (fs_start_lba st + s))"

definition cache_uniq :: "diskfs_cache_entry list \<Rightarrow> bool" where
  "cache_uniq es \<longleftrightarrow> (\<forall>i < length es. \<forall>j < length es. \<forall>s. entry_for s (es ! i) \<longrightarrow> entry_for s (es ! j) \<longrightarrow> i = j)"

definition entry_ok :: "('d \<Rightarrow> u32 \<Rightarrow> u8 list) \<Rightarrow> 'd \<Rightarrow> u32 \<Rightarrow> diskfs_cache_entry \<Rightarrow> bool" where
  "entry_ok content d start e \<longleftrightarrow> (cvalid e \<longrightarrow> csector e < DISKFS_TOTAL_SECTORS \<and> length (cdata e) = DISKFS_SECTOR_SIZE
     \<and> (\<not> cdirty e \<longrightarrow> cdata e = content d (start + csector e)))"

definition cache_inv :: "('d \<Rightarrow> u32 \<Rightarrow> u8 list) \<Rightarrow> ('d \<Rightarrow> bool) \<Rightarrow> u32 set \<Rightarrow> ('d, 'z) bcache_scheme \<Rightarrow> bool" where
  "cache_inv content dinv part st \<longleftrightarrow> dinv (dev st) \<and> length (cache st) = DISKFS_CACHE_SLOTS \<and> cache_uniq (cache st)
     \<and> (\<forall>i < length (cache st). entry_ok content (dev st) (fs_start_lba st) (cache st ! i))
     \<and> (\<forall>s < DISKFS_TOTAL_SECTORS. fs_start_lba st + s \<in> part)"

text \<open>The block layer changes nothing but the device, the cache and its clock.\<close>

definition io_step :: "('d, 'z) bcache_scheme \<Rightarrow> ('d, 'z) bcache_scheme \<Rightarrow> bool" where
  "io_step st st' \<longleftrightarrow> st' = st\<lparr>dev := dev st', cache := cache st', cache_clock := cache_clock st'\<rparr>"

lemma io_step_refl [simp]: "io_step st st"
  by (simp add: io_step_def)

lemma io_step_trans: "io_step st st1 \<Longrightarrow> io_step st1 st2 \<Longrightarrow> io_step st st2"
  by (cases st; cases st1; cases st2) (simp add: io_step_def)

lemma io_stepI: "st' = st\<lparr>dev := d, cache := c, cache_clock := k\<rparr> \<Longrightarrow> io_step st st'"
  by (simp add: io_step_def)

lemma io_step_start: "io_step st st' \<Longrightarrow> fs_start_lba st' = fs_start_lba st"
  by (cases st; cases st') (simp add: io_step_def)

lemma view_cases:
  assumes "cache_uniq (cache st)"
  shows "i < length (cache st) \<Longrightarrow> entry_for s (cache st ! i) \<Longrightarrow> view content st s = cdata (cache st ! i)"
    and "(\<forall>i < length (cache st). \<not> entry_for s (cache st ! i)) \<Longrightarrow> view content st s = content (dev st) (fs_start_lba st + s)"
proof -
  show "view content st s = cdata (cache st ! i)" if i: "i < length (cache st)" "entry_for s (cache st ! i)"
  proof (cases "find (entry_for s) (cache st)")
    case None
    then show ?thesis using i by (auto simp: find_None_iff)
  next
    case (Some e)
    then obtain j where "j < length (cache st)" "entry_for s (cache st ! j)" "e = cache st ! j"
      by (auto simp: find_Some_iff)
    then show ?thesis using assms i Some unfolding cache_uniq_def view_def by (metis option.simps(5))
  qed
  show "view content st s = content (dev st) (fs_start_lba st + s)" if "\<forall>i < length (cache st). \<not> entry_for s (cache st ! i)"
  proof -
    have "find (entry_for s) (cache st) = None" using that by (auto simp: find_None_iff in_set_conv_nth)
    then show ?thesis by (simp add: view_def)
  qed
qed

lemma cache_hit_cases:
  assumes "length es = DISKFS_CACHE_SLOTS"
  shows "cache_hit s es = None \<and> (\<forall>i < length es. \<not> entry_for s (es ! i))
    \<or> (\<exists>i < length es. cache_hit s es = Some i \<and> entry_for s (es ! i))"
proof (cases "cache_hit s es")
  case None
  then show ?thesis using assms unfolding cache_hit_def find_None_iff entry_for_def by simp
next
  case (Some i)
  then have "i < length es \<and> entry_for s (es ! i)"
    using assms unfolding cache_hit_def find_Some_iff entry_for_def by auto
  then show ?thesis using Some by blast
qed

text \<open>Equality of views reduces to the slots in use: an entry for the sector, or none.\<close>

lemma view_eqI:
  assumes u: "cache_uniq (cache st)" "cache_uniq (cache st')" and len: "length (cache st') = length (cache st)"
    and hit: "\<And>i. i < length (cache st') \<Longrightarrow> entry_for s (cache st' ! i) \<Longrightarrow> cdata (cache st' ! i) = view content st s"
    and miss: "\<forall>i < length (cache st'). \<not> entry_for s (cache st' ! i) \<Longrightarrow> content (dev st') (fs_start_lba st' + s) = view content st s"
  shows "view content st' s = view content st s"
proof (cases "\<exists>i < length (cache st'). entry_for s (cache st' ! i)")
  case True
  then show ?thesis using view_cases(1) [OF u(2)] hit by metis
next
  case False
  then show ?thesis using view_cases(2) [OF u(2)] miss by metis
qed

context block_device
begin

abbreviation (input) "vw \<equiv> view content"
abbreviation (input) "cinv \<equiv> cache_inv content dev_inv part"

lemma writeback_dirty:
  fixes st :: "('d, 'z) bcache_scheme"
  assumes inv: "cinv st" and i: "i < DISKFS_CACHE_SLOTS" and v: "cvalid (cache st ! i)"
    and wr: "bd_write bd (fs_start_lba st + csector (cache st ! i)) (cdata (cache st ! i)) (dev st) = (ok, d)"
  defines "es \<equiv> (if ok then (cache st)[i := (cache st ! i)\<lparr>cdirty := False\<rparr>] else cache st)"
  assumes dirty: "cdirty (cache st ! i)"
  shows "cinv (st\<lparr>dev := d, cache := es\<rparr>)"
    and "s < DISKFS_TOTAL_SECTORS \<Longrightarrow> vw (st\<lparr>dev := d, cache := es\<rparr>) s = vw st s"
proof -
  let ?st = "st\<lparr>dev := d, cache := es\<rparr>" and ?lba = "fs_start_lba st + csector (cache st ! i)"
  have c: "length (cache st) = 8" "cache_uniq (cache st)" "dev_inv (dev st)"
    and ok: "\<And>j. j < 8 \<Longrightarrow> entry_ok content (dev st) (fs_start_lba st) (cache st ! j)"
    and pt: "\<And>s. s < 4096 \<Longrightarrow> fs_start_lba st + s \<in> part" using inv by (auto simp: cache_inv_def)
  have li: "csector (cache st ! i) < 4096" "length (cdata (cache st ! i)) = 512"
    using ok [OF i] v by (auto simp: entry_ok_def)
  have w: "dev_inv d" "\<forall>l \<in> part - {?lba}. content d l = content (dev st) l"
      "ok \<longrightarrow> content d ?lba = cdata (cache st ! i)"
    using write_ok [OF c(3) pt [OF li(1)] li(2) wr] by auto
  have e: "length es = 8" "\<And>s j. j < 8 \<Longrightarrow> entry_for s (es ! j) = entry_for s (cache st ! j)"
    "\<And>j. j < 8 \<Longrightarrow> cdata (es ! j) = cdata (cache st ! j)"
    using c i by (auto simp: es_def entry_for_def nth_list_update)
  have uniq: "j = i" if "j < 8" "entry_for (csector (cache st ! i)) (cache st ! j)" for j
    using c(1,2) i v that unfolding cache_uniq_def entry_for_def by auto
  have ok': "entry_ok content d (fs_start_lba st) (es ! j)" if "j < 8" for j
  proof (cases "j = i")
    case True
    then show ?thesis using ok [OF i] w(3) i c(1) dirty by (auto simp: es_def entry_ok_def)
  next
    case False
    then have "csector (cache st ! j) \<noteq> csector (cache st ! i)" if "cvalid (cache st ! j)"
      using uniq [OF \<open>j < 8\<close>] that by (auto simp: entry_for_def)
    then show ?thesis using ok [OF that] False w(2) pt by (auto simp: es_def entry_ok_def)
  qed
  have u': "cache_uniq es" using c(1,2) e(1,2) by (auto simp: cache_uniq_def)
  then show "cinv ?st" using c(1) e(1) w(1) ok' pt by (simp add: cache_inv_def)
  show "vw ?st s = vw st s" if s: "s < DISKFS_TOTAL_SECTORS"
  proof (rule view_eqI)
    fix j assume "j < length (cache ?st)" "entry_for s (cache ?st ! j)"
    then show "cdata (cache ?st ! j) = vw st s" using view_cases(1) [OF c(2), of j s] c(1) e by auto
  next
    assume none: "\<forall>j < length (cache ?st). \<not> entry_for s (cache ?st ! j)"
    then have "csector (cache st ! i) \<noteq> s" using i v e by (auto simp: entry_for_def)
    then have "content d (fs_start_lba st + s) = content (dev st) (fs_start_lba st + s)" using w(2) pt [OF s] by auto
    moreover have "vw st s = content (dev st) (fs_start_lba st + s)"
      using view_cases(2) [OF c(2), of s] none c(1) e by auto
    ultimately show "content (dev ?st) (fs_start_lba ?st + s) = vw st s" by simp
  qed (use c u' e in auto)
qed

lemma writeback_ok:
  assumes inv: "cinv st" and i: "i < DISKFS_CACHE_SLOTS" and run: "cache_writeback bd i st = (ok, st')"
  shows "cinv st'" and "io_step st st'" and "s < DISKFS_TOTAL_SECTORS \<Longrightarrow> vw st' s = vw st s"
    and "ok \<Longrightarrow> \<not> (cvalid (cache st' ! i) \<and> cdirty (cache st' ! i))"
    and "j \<noteq> i \<Longrightarrow> cache st' ! j = cache st ! j" and "cvalid (cache st' ! i) = cvalid (cache st ! i)"
    and "csector (cache st' ! i) = csector (cache st ! i)" and "cdata (cache st' ! i) = cdata (cache st ! i)"
proof -
  have len: "length (cache st) = 8" using inv by (simp add: cache_inv_def)
  have "cinv st' \<and> io_step st st' \<and> (s < DISKFS_TOTAL_SECTORS \<longrightarrow> vw st' s = vw st s)
    \<and> (ok \<longrightarrow> \<not> (cvalid (cache st' ! i) \<and> cdirty (cache st' ! i))) \<and> (j \<noteq> i \<longrightarrow> cache st' ! j = cache st ! j)
    \<and> cvalid (cache st' ! i) = cvalid (cache st ! i) \<and> csector (cache st' ! i) = csector (cache st ! i)
    \<and> cdata (cache st' ! i) = cdata (cache st ! i)"
  proof (cases "cvalid (cache st ! i) \<and> cdirty (cache st ! i)")
    case False
    then have "ok" "st' = st" using run by (auto simp: cache_writeback_def Let_def)
    then show ?thesis using inv False by simp
  next
    case True
    obtain ok1 d where w: "bd_write bd (fs_start_lba st + csector (cache st ! i)) (cdata (cache st ! i)) (dev st) = (ok1, d)"
      by fastforce
    have "csector (cache st ! i) < 4096" using inv i True by (auto simp: cache_inv_def entry_ok_def)
    then have r: "ok = ok1" "st' = st\<lparr>dev := d, cache := if ok1 then (cache st)[i := (cache st ! i)\<lparr>cdirty := False\<rparr>] else cache st\<rparr>"
      using run w True by (auto simp: cache_writeback_def Let_def raw_write_sector_def upd_entry_def split: if_splits)
    show ?thesis
      using writeback_dirty [OF inv i conjunct1 [OF True] w conjunct2 [OF True]] len i
      by (auto simp: r io_step_def nth_list_update)
  qed
  then show "cinv st'" "io_step st st'" "s < DISKFS_TOTAL_SECTORS \<Longrightarrow> vw st' s = vw st s"
    "ok \<Longrightarrow> \<not> (cvalid (cache st' ! i) \<and> cdirty (cache st' ! i))" "j \<noteq> i \<Longrightarrow> cache st' ! j = cache st ! j"
    "cvalid (cache st' ! i) = cvalid (cache st ! i)" "csector (cache st' ! i) = csector (cache st ! i)"
    "cdata (cache st' ! i) = cdata (cache st ! i)" by auto
qed

end

section \<open>The cache is transparent\<close>

context block_device
begin

lemma replace_ok:
  fixes st :: "('d, 'z) bcache_scheme" and fw :: bool
  assumes inv: "cinv st" and i: "i < DISKFS_CACHE_SLOTS" and clean: "\<not> (cvalid (cache st ! i) \<and> cdirty (cache st ! i))"
    and miss: "\<forall>j < DISKFS_CACHE_SLOTS. \<not> entry_for s (cache st ! j)" and s: "s < DISKFS_TOTAL_SECTORS"
    and rd: "bd_read bd (fs_start_lba st + s) (dev st) = (r, d)"
  defines "e \<equiv> (case r of None \<Rightarrow> (cache st ! i)\<lparr>cvalid := False\<rparr>
      | Some data \<Rightarrow> (cache st ! i)\<lparr>cdata := data, cvalid := True, cdirty := fw, csector := s\<rparr>)"
  shows "cinv (st\<lparr>dev := d, cache := (cache st)[i := e]\<rparr>)"
    and "t < DISKFS_TOTAL_SECTORS \<Longrightarrow> vw (st\<lparr>dev := d, cache := (cache st)[i := e]\<rparr>) t = vw st t"
    and "r = Some data \<Longrightarrow> data = vw st s"
proof -
  let ?st = "st\<lparr>dev := d, cache := (cache st)[i := e]\<rparr>"
  have c: "length (cache st) = 8" "cache_uniq (cache st)" "dev_inv (dev st)"
    and ok: "\<And>j. j < 8 \<Longrightarrow> entry_ok content (dev st) (fs_start_lba st) (cache st ! j)"
    and pt: "\<And>s. s < 4096 \<Longrightarrow> fs_start_lba st + s \<in> part" using inv by (auto simp: cache_inv_def)
  have w: "dev_inv d" "\<And>t. t < 4096 \<Longrightarrow> content d (fs_start_lba st + t) = content (dev st) (fs_start_lba st + t)"
      "r = None \<or> r = Some (content (dev st) (fs_start_lba st + s))"
    using read_ok [OF c(3) pt [OF s] rd] pt by auto
  have vs: "vw st s = content (dev st) (fs_start_lba st + s)" using view_cases(2) [OF c(2)] miss c(1) by simp
  then have data: "x = vw st s" if "r = Some x" for x using w(3) that by auto
  then show "data = vw st s" if "r = Some data" using that by simp
  have ee: "entry_for t e \<longleftrightarrow> r \<noteq> None \<and> t = s" for t by (auto simp: e_def entry_for_def split: option.split)
  have eo: "entry_ok content d (fs_start_lba st) e"
    using w s data content_length [OF c(3) pt [OF s]] vs by (auto simp: e_def entry_ok_def split: option.split)
  have u: "cache_uniq ((cache st)[i := e])"
    using c(1,2) ee miss i unfolding cache_uniq_def by (auto simp: nth_list_update)
  have "entry_ok content d (fs_start_lba st) ((cache st)[i := e] ! j)" if "j < 8" for j
    using ok [OF that] eo w(2) that c(1) i by (cases "j = i") (auto simp: entry_ok_def)
  then show "cinv ?st" using c(1) u w(1) pt by (simp add: cache_inv_def)
  show "vw ?st t = vw st t" if t: "t < DISKFS_TOTAL_SECTORS"
  proof (rule view_eqI)
    fix j assume j: "j < length (cache ?st)" "entry_for t (cache ?st ! j)"
    show "cdata (cache ?st ! j) = vw st t"
    proof (cases "j = i")
      case True
      then show ?thesis using j ee data c(1) i by (auto simp: e_def split: option.splits)
    next
      case False
      then show ?thesis using j view_cases(1) [OF c(2), of j t] c(1) by simp
    qed
  next
    assume none: "\<forall>j < length (cache ?st). \<not> entry_for t (cache ?st ! j)"
    have "content (dev st) (fs_start_lba st + t) = vw st t"
    proof (cases "entry_for t (cache st ! i)")
      case True
      then show ?thesis
        using clean ok [OF i] view_cases(1) [OF c(2), of i t] c(1) i by (auto simp: entry_for_def entry_ok_def)
    next
      case False
      then have "\<not> entry_for t (cache st ! j)" if "j < length (cache st)" for j
        using none that by (cases "j = i") auto
      then show ?thesis using view_cases(2) [OF c(2)] by simp
    qed
    then show "content (dev ?st) (fs_start_lba ?st + t) = vw st t" using w(2) [OF t] by simp
  qed (use c u in auto)
qed

lemma get_hit:
  fixes st :: "('d, 'z) bcache_scheme"
  assumes inv: "cinv st" and i: "i < DISKFS_CACHE_SLOTS" and hit: "entry_for s (cache st ! i)"
    and e: "e = (cache st ! i)\<lparr>cdirty := True\<rparr> \<or> e = (cache st ! i)\<lparr>cdirty := True, cdata := buf\<rparr> \<and> length buf = DISKFS_SECTOR_SIZE"
  shows "cinv (st\<lparr>cache := (cache st)[i := e]\<rparr>)"
    and "vw (st\<lparr>cache := (cache st)[i := e]\<rparr>) t = (if t = s then cdata e else vw st t)"
proof -
  let ?st = "st\<lparr>cache := (cache st)[i := e]\<rparr>"
  have c: "length (cache st) = 8" "cache_uniq (cache st)"
    and ok: "\<And>j. j < 8 \<Longrightarrow> entry_ok content (dev st) (fs_start_lba st) (cache st ! j)"
    using inv by (auto simp: cache_inv_def)
  have ee: "entry_for t e = entry_for t (cache st ! i)" "entry_for t (cache st ! i) \<longleftrightarrow> t = s" for t
    using e hit by (auto simp: entry_for_def)
  have "entry_ok content (dev st) (fs_start_lba st) e" using e ok [OF i] by (auto simp: entry_ok_def)
  then have "entry_ok content (dev st) (fs_start_lba st) ((cache st)[i := e] ! j)" if "j < 8" for j
    using ok [OF that] c(1) that i by (simp add: nth_list_update)
  moreover have n: "entry_for t ((cache st)[i := e] ! j) = entry_for t (cache st ! j)" if "j < 8" for t j
    using ee(1) that c(1) i by (simp add: nth_list_update)
  then have u: "cache_uniq ((cache st)[i := e])" using c unfolding cache_uniq_def by simp
  ultimately show "cinv ?st" using inv c(1) by (simp add: cache_inv_def)
  show "vw ?st t = (if t = s then cdata e else vw st t)"
  proof (cases "t = s")
    case True
    then show ?thesis using view_cases(1) [of ?st i s content] u i c(1) hit ee by simp
  next
    case False
    have "vw ?st t = vw st t"
    proof (rule view_eqI)
      fix j assume j: "j < length (cache ?st)" "entry_for t (cache ?st ! j)"
      then have "j \<noteq> i" "entry_for t (cache st ! j)" using False ee(2) n c(1) by auto
      then show "cdata (cache ?st ! j) = vw st t" using view_cases(1) [OF c(2), of j t] j c(1) by simp
    next
      assume "\<forall>j < length (cache ?st). \<not> entry_for t (cache ?st ! j)"
      then show "content (dev ?st) (fs_start_lba ?st + t) = vw st t" using view_cases(2) [OF c(2), of t] n c(1) by simp
    qed (use c u in auto)
    then show ?thesis using False by simp
  qed
qed

lemma cinv_clock [simp]: "cinv (st\<lparr>cache_clock := k\<rparr>) = cinv st" "vw (st\<lparr>cache_clock := k\<rparr>) = vw st"
  by (simp_all add: cache_inv_def view_def fun_eq_iff split: option.split)

lemma get_ok:
  assumes inv: "cinv st" and s: "s < DISKFS_TOTAL_SECTORS" and run: "cache_get bd s fw st = (r, st')"
  shows "cinv st' \<and> io_step st st' \<and> (\<forall>t < DISKFS_TOTAL_SECTORS. vw st' t = vw st t)
    \<and> (\<forall>i. r = Some i \<longrightarrow> i < DISKFS_CACHE_SLOTS \<and> entry_for s (cache st' ! i) \<and> (fw \<longrightarrow> cdirty (cache st' ! i)))"
proof -
  define st0 where "st0 = st\<lparr>cache_clock := cache_clock st + 1\<rparr>"
  define v where "v = unat (cache_clock st) mod DISKFS_CACHE_SLOTS"
  have v: "v < DISKFS_CACHE_SLOTS" by (simp add: v_def)
  have i0: "cinv st0" "io_step st st0" "cache st0 = cache st" "vw st0 = vw st"
    using inv by (simp_all add: st0_def io_step_def)
  have len: "length (cache st) = 8" using inv by (simp add: cache_inv_def)
  from cache_hit_cases [OF len, of s] show ?thesis
  proof (elim disjE exE conjE)
    fix i assume i: "i < length (cache st)" "cache_hit s (cache st) = Some i" "entry_for s (cache st ! i)"
    then have r: "r = Some i" "st' = (if fw then upd_entry i (\<lambda>e. e\<lparr>cdirty := True\<rparr>) st0 else st0)"
      using run by (auto simp: cache_get_def Let_def st0_def)
    have vi: "vw st s = cdata (cache st ! i)" using view_cases(1) [OF _ i(1,3)] inv by (auto simp: cache_inv_def)
    show ?thesis
    proof (cases fw)
      case True
      then show ?thesis
        using r i len i0 vi get_hit [OF i0(1), of i s "(cache st ! i)\<lparr>cdirty := True\<rparr>"]
        by (auto simp: upd_entry_def entry_for_def st0_def io_step_def)
    qed (use r i len i0 in auto)
  next
    assume miss: "cache_hit s (cache st) = None" "\<forall>i < length (cache st). \<not> entry_for s (cache st ! i)"
    obtain ok st1 where wb: "cache_writeback bd v st0 = (ok, st1)" by fastforce
    note w = writeback_ok [OF i0(1) v wb]
    have s1: "io_step st st1" using io_step_trans [OF i0(2) w(2)] .
    show ?thesis
    proof (cases ok)
      case False
      then have "r = None" "st' = st1" using run miss wb by (auto simp: cache_get_def Let_def st0_def v_def)
      then show ?thesis using w(1,3) i0(4) s1 by simp
    next
      case True
      obtain r1 d where rd: "bd_read bd (fs_start_lba st1 + s) (dev st1) = (r1, d)" by fastforce
      have len1: "length (cache st1) = 8" using w(1) by (simp add: cache_inv_def)
      have miss1: "\<forall>j < DISKFS_CACHE_SLOTS. \<not> entry_for s (cache st1 ! j)"
        using miss(2) len w(5,6,7) i0(3) by (metis entry_for_def)
      define e where "e = (case r1 of None \<Rightarrow> (cache st1 ! v)\<lparr>cvalid := False\<rparr>
        | Some data \<Rightarrow> (cache st1 ! v)\<lparr>cdata := data, cvalid := True, cdirty := fw, csector := s\<rparr>)"
      have r: "st' = st1\<lparr>dev := d, cache := (cache st1)[v := e]\<rparr>" "r = map_option (\<lambda>_. v) r1"
      proof -
        have raw: "raw_read_sector bd s st1 = (r1, st1\<lparr>dev := d\<rparr>)" using rd s by (simp add: raw_read_sector_def not_le [symmetric])
        show "st' = st1\<lparr>dev := d, cache := (cache st1)[v := e]\<rparr>" "r = map_option (\<lambda>_. v) r1"
          using run miss wb True raw
          by (auto simp: cache_get_def Let_def st0_def v_def upd_entry_def e_def split: option.splits)
      qed
      note rp = replace_ok(1,2) [OF w(1) v w(4) [OF True] miss1 s rd, where fw = fw, folded e_def]
      have "io_step st1 st'" by (simp add: r(1) io_step_def)
      then show ?thesis
        using rp(1,2) w(3) i0(4) io_step_trans [OF s1] len1 v
        by (auto simp: r entry_for_def e_def split: option.splits)
    qed
  qed
qed

lemma read_sector_ok:
  assumes inv: "cinv st" and s: "s < DISKFS_TOTAL_SECTORS" and run: "read_sector bd s st = (r, st')"
  shows "cinv st'" and "io_step st st'" and "t < DISKFS_TOTAL_SECTORS \<Longrightarrow> vw st' t = vw st t"
    and "r = None \<or> r = Some (vw st s)"
proof -
  obtain g where g: "cache_get bd s False st = (g, st')" "r = map_option (\<lambda>i. cdata (cache st' ! i)) g"
    using run by (auto simp: read_sector_def split: prod.splits option.splits)
  note k = get_ok [OF inv s g(1)]
  then show "cinv st'" "io_step st st'" "t < DISKFS_TOTAL_SECTORS \<Longrightarrow> vw st' t = vw st t" by auto
  show "r = None \<or> r = Some (vw st s)"
  proof (cases g)
    case (Some i)
    have "cache_uniq (cache st')" "length (cache st') = 8" using k by (auto simp: cache_inv_def)
    then have "vw st' s = cdata (cache st' ! i)" using k Some view_cases(1) by metis
    then show ?thesis using k s g Some by auto
  qed (use g in simp)
qed

lemma write_sector_ok:
  assumes inv: "cinv st" and s: "s < DISKFS_TOTAL_SECTORS" and buf: "length buf = DISKFS_SECTOR_SIZE"
    and run: "write_sector bd s buf st = (ok, st')"
  shows "cinv st'" and "io_step st st'"
    and "t < DISKFS_TOTAL_SECTORS \<Longrightarrow> vw st' t = (if ok \<and> t = s then buf else vw st t)"
proof -
  obtain g st1 where g: "cache_get bd s True st = (g, st1)" by fastforce
  note k = get_ok [OF inv s g]
  have "cinv st' \<and> io_step st st' \<and> (t < DISKFS_TOTAL_SECTORS \<longrightarrow> vw st' t = (if ok \<and> t = s then buf else vw st t))"
  proof (cases g)
    case None
    then show ?thesis using run g k by (auto simp: write_sector_def)
  next
    case (Some i)
    then have ki: "i < 8" "entry_for s (cache st1 ! i)" "cdirty (cache st1 ! i)" and k1: "cinv st1" "io_step st st1" using k by auto
    have r: "ok" "st' = upd_entry i (\<lambda>e. e\<lparr>cdata := buf\<rparr>) st1" using run g Some by (auto simp: write_sector_def)
    have "(cache st1 ! i)\<lparr>cdirty := True, cdata := buf\<rparr> = (cache st1 ! i)\<lparr>cdata := buf\<rparr>"
      using ki(3) by (cases "cache st1 ! i") simp
    note h = get_hit [OF k1(1) ki(1,2), of "(cache st1 ! i)\<lparr>cdata := buf\<rparr>" buf, unfolded this, OF disjI2, OF conjI [OF refl buf]]
    have "io_step st1 st'" by (simp add: r(2) upd_entry_def io_step_def)
    then have "io_step st st'" using io_step_trans [OF k1(2)] by blast
    then show ?thesis using h k r by (auto simp: upd_entry_def)
  qed
  then show "cinv st'" "io_step st st'" "t < DISKFS_TOTAL_SECTORS \<Longrightarrow> vw st' t = (if ok \<and> t = s then buf else vw st t)"
    by auto
qed

end

context block_device
begin

lemma flush_from_ok:
  "cinv st \<Longrightarrow> i + n \<le> DISKFS_CACHE_SLOTS \<Longrightarrow> flush_from bd i n ok st = (r, st') \<Longrightarrow>
    cinv st' \<and> io_step st st' \<and> (\<forall>t < DISKFS_TOTAL_SECTORS. vw st' t = vw st t) \<and> (r \<longrightarrow> ok)
    \<and> (\<forall>j < i. cache st' ! j = cache st ! j)
    \<and> (r \<longrightarrow> (\<forall>j \<in> {i..<i + n}. \<not> (cvalid (cache st' ! j) \<and> cdirty (cache st' ! j))))"
proof (induction n arbitrary: i ok st)
  case 0
  then show ?case by simp
next
  case (Suc n)
  obtain w st1 where wb: "cache_writeback bd i st = (w, st1)" by fastforce
  have i: "i < DISKFS_CACHE_SLOTS" using Suc.prems(2) by simp
  note w = writeback_ok [OF Suc.prems(1) i wb]
  have f: "flush_from bd (Suc i) n (if w then ok else False) st1 = (r, st')" using Suc.prems(3) wb by simp
  note IH = Suc.IH [OF w(1) _ f]
  have IH': "cinv st'" "io_step st1 st'" "\<forall>t < DISKFS_TOTAL_SECTORS. vw st' t = vw st1 t" "r \<longrightarrow> w \<and> ok"
      "\<forall>j < Suc i. cache st' ! j = cache st1 ! j"
      "r \<longrightarrow> (\<forall>j \<in> {Suc i..<Suc i + n}. \<not> (cvalid (cache st' ! j) \<and> cdirty (cache st' ! j)))"
    using IH Suc.prems(2) by (auto split: if_splits)
  have "\<not> (cvalid (cache st' ! j) \<and> cdirty (cache st' ! j))" if "r" "j \<in> {i..<i + Suc n}" for j
  proof (cases "j = i")
    case True
    then show ?thesis using IH'(4,5) w(4) that(1) by simp
  next
    case False
    then show ?thesis using IH'(6) that by simp
  qed
  then show ?case using IH' w(3,5) io_step_trans [OF w(2)] by auto
qed

lemma flush_ok:
  assumes "cinv st" and "diskfs_flush bd st = (ok, st')"
  shows "cinv st'" and "io_step st st'" and "t < DISKFS_TOTAL_SECTORS \<Longrightarrow> vw st' t = vw st t"
    and "ok \<Longrightarrow> t < DISKFS_TOTAL_SECTORS \<Longrightarrow> content (dev st') (fs_start_lba st' + t) = vw st t"
proof -
  have f: "cinv st'" "io_step st st'" "\<forall>t < DISKFS_TOTAL_SECTORS. vw st' t = vw st t"
      "ok \<longrightarrow> (\<forall>j < 8. \<not> (cvalid (cache st' ! j) \<and> cdirty (cache st' ! j)))"
    using flush_from_ok [of st 0 8 True ok st'] assms by (auto simp: diskfs_flush_def)
  then show "cinv st'" "io_step st st'" "t < DISKFS_TOTAL_SECTORS \<Longrightarrow> vw st' t = vw st t" by auto
  assume ok and t: "t < DISKFS_TOTAL_SECTORS"
  have len: "length (cache st') = 8" and u: "cache_uniq (cache st')"
    and eo: "\<And>j. j < 8 \<Longrightarrow> entry_ok content (dev st') (fs_start_lba st') (cache st' ! j)"
    using f(1) by (auto simp: cache_inv_def)
  have "vw st' t = content (dev st') (fs_start_lba st' + t)"
  proof (cases "\<exists>j < length (cache st'). entry_for t (cache st' ! j)")
    case True
    then obtain j where j: "j < 8" "entry_for t (cache st' ! j)" using len by auto
    then show ?thesis using view_cases(1) [OF u _ j(2), of content] eo [OF j(1)] f(4) \<open>ok\<close> len
      by (auto simp: entry_for_def entry_ok_def)
  next
    case False
    then show ?thesis using view_cases(2) [OF u] by blast
  qed
  then show "content (dev st') (fs_start_lba st' + t) = vw st t" using f(3) t by simp
qed

end

text \<open>On a reliable device every block operation succeeds.\<close>

context reliable_device
begin

lemma writeback_succeeds: "cinv st \<Longrightarrow> i < DISKFS_CACHE_SLOTS \<Longrightarrow> \<exists>st'. cache_writeback bd i st = (True, st')"
proof -
  assume inv: "cinv st" and i: "i < DISKFS_CACHE_SLOTS"
  let ?e = "cache st ! i"
  show ?thesis
  proof (cases "cvalid ?e \<and> cdirty ?e")
    case True
    then have e: "csector ?e < 4096" "length (cdata ?e) = 512" "fs_start_lba st + csector ?e \<in> part" "dev_inv (dev st)"
      using inv i by (auto simp: cache_inv_def entry_ok_def)
    then obtain d where "bd_write bd (fs_start_lba st + csector ?e) (cdata ?e) (dev st) = (True, d)"
      using write_succeeds by blast
    then show ?thesis using True e(1) by (auto simp: cache_writeback_def Let_def raw_write_sector_def)
  qed (auto simp: cache_writeback_def Let_def)
qed

lemma get_succeeds:
  assumes "cinv st" and s: "s < DISKFS_TOTAL_SECTORS"
  shows "\<exists>i st'. cache_get bd s fw st = (Some i, st')"
proof (cases "cache_hit s (cache st)")
  case (Some i)
  then show ?thesis by (simp add: cache_get_def Let_def)
next
  case None
  let ?v = "unat (cache_clock st) mod 8" and ?st = "st\<lparr>cache_clock := cache_clock st + 1\<rparr>"
  obtain st1 where w: "cache_writeback bd ?v ?st = (True, st1)" using writeback_succeeds [of ?st ?v] assms(1) by auto
  have i1: "cinv st1" using writeback_ok(1) [OF _ _ w] assms(1) by simp
  then have "fs_start_lba st1 + s \<in> part" "dev_inv (dev st1)" using s by (auto simp: cache_inv_def)
  then obtain data d where "bd_read bd (fs_start_lba st1 + s) (dev st1) = (Some data, d)" using read_succeeds by blast
  then have "raw_read_sector bd s st1 = (Some data, st1\<lparr>dev := d\<rparr>)" using s by (simp add: raw_read_sector_def)
  then show ?thesis using None w by (simp add: cache_get_def Let_def)
qed

lemma read_sector_succeeds:
  assumes "cinv st" and "s < DISKFS_TOTAL_SECTORS"
  shows "\<exists>st'. read_sector bd s st = (Some (vw st s), st') \<and> cinv st' \<and> io_step st st'
    \<and> (\<forall>t < DISKFS_TOTAL_SECTORS. vw st' t = vw st t)"
proof -
  obtain i st' where "cache_get bd s False st = (Some i, st')" using get_succeeds [OF assms] by blast
  then have r: "read_sector bd s st = (Some (cdata (cache st' ! i)), st')" by (simp add: read_sector_def)
  show ?thesis using read_sector_ok [OF assms r] r by auto
qed

lemma write_sector_succeeds:
  assumes "cinv st" and "s < DISKFS_TOTAL_SECTORS" and "length buf = DISKFS_SECTOR_SIZE"
  shows "\<exists>st'. write_sector bd s buf st = (True, st') \<and> cinv st' \<and> io_step st st'
    \<and> (\<forall>t < DISKFS_TOTAL_SECTORS. vw st' t = (if t = s then buf else vw st t))"
proof -
  obtain i st1 where "cache_get bd s True st = (Some i, st1)" using get_succeeds [OF assms(1,2)] by blast
  then obtain st' where r: "write_sector bd s buf st = (True, st')" by (simp add: write_sector_def)
  show ?thesis using write_sector_ok [OF assms r] r by auto
qed

lemma flush_succeeds:
  assumes "cinv st"
  shows "\<exists>st'. diskfs_flush bd st = (True, st') \<and> cinv st' \<and> io_step st st' \<and> (\<forall>t < DISKFS_TOTAL_SECTORS. vw st' t = vw st t)
    \<and> (\<forall>t < DISKFS_TOTAL_SECTORS. content (dev st') (fs_start_lba st' + t) = vw st t)"
proof -
  have "\<exists>st'. flush_from bd i n True st = (True, st')" if "cinv st" "i + n \<le> 8" for i n and st :: "('a, 'z) bcache_scheme"
    using that
  proof (induction n arbitrary: i st)
    case (Suc n)
    obtain st1 where w: "cache_writeback bd i st = (True, st1)" using writeback_succeeds [of st i] Suc.prems by auto
    have "cinv st1" using writeback_ok(1) [OF Suc.prems(1) _ w] Suc.prems(2) by simp
    then show ?case using Suc.IH [of st1 "Suc i"] Suc.prems(2) w by simp
  qed simp
  then obtain st' where r: "diskfs_flush bd st = (True, st')" using assms unfolding diskfs_flush_def by fastforce
  show ?thesis using flush_ok [OF assms r] r by auto
qed

end

end
