(* ===== verification/Ata.thy ===== *)
theory Ata
  imports Diskfs_Cache
begin

text \<open>The ATA driver, \<open>src/kernel/drivers/storage/ata.c\<close>: programmed I/O transfers of one sector with
  28-bit addresses. The I/O ports are the argument \<open>ports\<close> of the prelude.\<close>

section \<open>Model\<close>

abbreviation (input) ATA_DATA :: u16 where "ATA_DATA \<equiv> 0x1F0"
abbreviation (input) ATA_SECTOR_COUNT :: u16 where "ATA_SECTOR_COUNT \<equiv> 0x1F2"
abbreviation (input) ATA_LBA_LOW :: u16 where "ATA_LBA_LOW \<equiv> 0x1F3"
abbreviation (input) ATA_LBA_MID :: u16 where "ATA_LBA_MID \<equiv> 0x1F4"
abbreviation (input) ATA_LBA_HIGH :: u16 where "ATA_LBA_HIGH \<equiv> 0x1F5"
abbreviation (input) ATA_DRIVE :: u16 where "ATA_DRIVE \<equiv> 0x1F6"
abbreviation (input) ATA_COMMAND :: u16 where "ATA_COMMAND \<equiv> 0x1F7"
abbreviation (input) ATA_STATUS :: u16 where "ATA_STATUS \<equiv> 0x1F7"
abbreviation (input) ATA_CMD_READ_SECTORS :: u8 where "ATA_CMD_READ_SECTORS \<equiv> 0x20"
abbreviation (input) ATA_CMD_WRITE_SECTORS :: u8 where "ATA_CMD_WRITE_SECTORS \<equiv> 0x30"
abbreviation (input) ATA_CMD_CACHE_FLUSH :: u8 where "ATA_CMD_CACHE_FLUSH \<equiv> 0xE7"
abbreviation (input) ATA_STATUS_BSY :: u8 where "ATA_STATUS_BSY \<equiv> 0x80"
abbreviation (input) ATA_STATUS_DRQ :: u8 where "ATA_STATUS_DRQ \<equiv> 0x08"
abbreviation (input) ATA_STATUS_ERR :: u8 where "ATA_STATUS_ERR \<equiv> 0x01"

fun wait_drq_from :: "'h ports \<Rightarrow> nat \<Rightarrow> 'h \<Rightarrow> bool \<times> 'h" where
  "wait_drq_from io 0 h = (False, h)"
| "wait_drq_from io (Suc n) h =
     (let (status, h1) = inb io ATA_STATUS h in
      if status AND ATA_STATUS_ERR \<noteq> 0 then (False, h1)
      else if status AND ATA_STATUS_BSY = 0 \<and> status AND ATA_STATUS_DRQ \<noteq> 0 then (True, h1)
      else wait_drq_from io n h1)"

definition wait_for_drq :: "'h ports \<Rightarrow> 'h \<Rightarrow> bool \<times> 'h" where
  "wait_for_drq io h = wait_drq_from io 100000 h"

definition ata_select :: "'h ports \<Rightarrow> u32 \<Rightarrow> u8 \<Rightarrow> 'h \<Rightarrow> 'h" where
  "ata_select io lba command h0 =
     (let h1 = outb io ATA_DRIVE (ucast (0xE0 OR (drop_bit 24 lba AND 0x0F))) h0;
          h2 = outb io ATA_SECTOR_COUNT 1 h1;
          h3 = outb io ATA_LBA_LOW (ucast (lba AND 0xFF)) h2;
          h4 = outb io ATA_LBA_MID (ucast (drop_bit 8 lba AND 0xFF)) h3;
          h5 = outb io ATA_LBA_HIGH (ucast (drop_bit 16 lba AND 0xFF)) h4
      in outb io ATA_COMMAND command h5)"

fun read_words :: "'h ports \<Rightarrow> nat \<Rightarrow> 'h \<Rightarrow> u8 list \<times> 'h" where
  "read_words io 0 h = ([], h)"
| "read_words io (Suc n) h =
     (let (w, h1) = inw io ATA_DATA h; (bs, h2) = read_words io n h1
      in (ucast w # ucast (drop_bit 8 w) # bs, h2))"

definition ata_read_sector :: "'h ports \<Rightarrow> u32 \<Rightarrow> 'h \<Rightarrow> u8 list option \<times> 'h" where
  "ata_read_sector io lba h =
     (let h1 = ata_select io lba ATA_CMD_READ_SECTORS h; (ready, h2) = wait_for_drq io h1 in
      if \<not> ready then (None, h2)
      else let (bs, h3) = read_words io 256 h2 in (Some bs, h3))"

definition word_at :: "u8 list \<Rightarrow> nat \<Rightarrow> u16" where
  "word_at bs i = ucast (bs ! (2 * i)) OR push_bit 8 (ucast (bs ! (2 * i + 1)))"

fun write_words :: "'h ports \<Rightarrow> u8 list \<Rightarrow> nat \<Rightarrow> nat \<Rightarrow> 'h \<Rightarrow> 'h" where
  "write_words io bs i 0 h = h"
| "write_words io bs i (Suc n) h = write_words io bs (Suc i) n (outw io ATA_DATA (word_at bs i) h)"

fun wait_idle_from :: "'h ports \<Rightarrow> nat \<Rightarrow> 'h \<Rightarrow> bool \<times> 'h" where
  "wait_idle_from io 0 h = (False, h)"
| "wait_idle_from io (Suc n) h =
     (let (status, h1) = inb io ATA_STATUS h in
      if status AND ATA_STATUS_ERR \<noteq> 0 then (False, h1)
      else if status AND ATA_STATUS_BSY = 0 then (True, h1)
      else wait_idle_from io n h1)"

definition ata_write_sector :: "'h ports \<Rightarrow> u32 \<Rightarrow> u8 list \<Rightarrow> 'h \<Rightarrow> bool \<times> 'h" where
  "ata_write_sector io lba buffer h =
     (let h1 = ata_select io lba ATA_CMD_WRITE_SECTORS h; (ready, h2) = wait_for_drq io h1 in
      if \<not> ready then (False, h2)
      else let h3 = write_words io buffer 0 256 h2;
               h4 = outb io ATA_COMMAND ATA_CMD_CACHE_FLUSH h3
           in wait_idle_from io 100000 h4)"

definition ata_dev :: "'h ports \<Rightarrow> 'h blockdev" where
  "ata_dev io = \<lparr>bd_read = ata_read_sector io, bd_write = ata_write_sector io\<rparr>"

section \<open>A drive behind the ports\<close>

text \<open>A drive that follows the ATA command protocol for the two transfers and the flush: it latches the
  address registers, serves or accepts 256 data words, and raises the error bit for sectors marked bad.\<close>

datatype transfer = Idle | Failed | Serving "u16 list" | Accepting "u16 list"

record drive =
  reg_drive :: u8
  reg_low :: u8
  reg_mid :: u8
  reg_high :: u8
  xfer :: transfer
  platter :: "u32 \<Rightarrow> u8 list"
  bad :: "u32 \<Rightarrow> bool"

definition drive_lba :: "drive \<Rightarrow> u32" where
  "drive_lba d = le32 (reg_low d) (reg_mid d) (reg_high d) (reg_drive d AND 0x0F)"

definition words_of :: "u8 list \<Rightarrow> u16 list" where
  "words_of bs = map (word_at bs) [0..<256]"

definition bytes_of :: "u16 list \<Rightarrow> u8 list" where
  "bytes_of ws = concat (map (\<lambda>w. [ucast w, ucast (drop_bit 8 w)]) ws)"

definition drive_inb :: "u16 \<Rightarrow> drive \<Rightarrow> u8 \<times> drive" where
  "drive_inb port d =
     (case xfer d of Idle \<Rightarrow> 0x50 | Failed \<Rightarrow> 0x51 | Serving _ \<Rightarrow> 0x58 | Accepting _ \<Rightarrow> 0x58, d)"

definition drive_outb :: "u16 \<Rightarrow> u8 \<Rightarrow> drive \<Rightarrow> drive" where
  "drive_outb port v d =
     (if port = ATA_DRIVE then d\<lparr>reg_drive := v\<rparr>
      else if port = ATA_LBA_LOW then d\<lparr>reg_low := v\<rparr>
      else if port = ATA_LBA_MID then d\<lparr>reg_mid := v\<rparr>
      else if port = ATA_LBA_HIGH then d\<lparr>reg_high := v\<rparr>
      else if port = ATA_COMMAND then
        (if v = ATA_CMD_READ_SECTORS then
           d\<lparr>xfer := if bad d (drive_lba d) then Failed else Serving (words_of (platter d (drive_lba d)))\<rparr>
         else if v = ATA_CMD_WRITE_SECTORS then d\<lparr>xfer := if bad d (drive_lba d) then Failed else Accepting []\<rparr>
         else d\<lparr>xfer := Idle\<rparr>)
      else d)"

definition drive_inw :: "u16 \<Rightarrow> drive \<Rightarrow> u16 \<times> drive" where
  "drive_inw port d =
     (case xfer d of Serving (w # ws) \<Rightarrow> (w, d\<lparr>xfer := if ws = [] then Idle else Serving ws\<rparr>) | _ \<Rightarrow> (0xFFFF, d))"

definition drive_outw :: "u16 \<Rightarrow> u16 \<Rightarrow> drive \<Rightarrow> drive" where
  "drive_outw port w d =
     (case xfer d of
        Accepting ws \<Rightarrow>
          (if length ws = 255
           then d\<lparr>xfer := Idle, platter := (platter d)(drive_lba d := bytes_of (ws @ [w]))\<rparr>
           else d\<lparr>xfer := Accepting (ws @ [w])\<rparr>)
      | _ \<Rightarrow> d)"

definition drive_ports :: "drive ports" where
  "drive_ports = \<lparr>inb = drive_inb, outb = drive_outb, inw = drive_inw, outw = drive_outw\<rparr>"

section \<open>The driver on the drive\<close>

definition lba28 :: "u32 set" where "lba28 = {lba. unat lba < 2 ^ 28}"

definition drive_ok :: "drive \<Rightarrow> bool" where "drive_ok d \<longleftrightarrow> (\<forall>lba \<in> lba28. length (platter d lba) = 512)"

lemma ports_simps [simp]:
  "inb drive_ports = drive_inb" "outb drive_ports = drive_outb" "inw drive_ports = drive_inw" "outw drive_ports = drive_outw"
  by (simp_all add: drive_ports_def)

lemma bit_bounded: "unat (x :: 'a::len word) < 2 ^ n \<Longrightarrow> bit x k \<Longrightarrow> k < n"
proof -
  assume "unat x < 2 ^ n" and b: "bit x k"
  then have "take_bit n x = x" by (simp add: word_unat_eq_iff unsigned_take_bit_eq take_bit_nat_eq_self)
  then have "bit (take_bit n x) k" using b by simp
  then show "k < n" by (simp add: bit_take_bit_iff)
qed

lemma bit_15_u8: "bit (0x0F :: u8) n \<longleftrightarrow> n < 4" and bit_15_u32: "bit (0x0F :: u32) n \<longleftrightarrow> n < 4"
  and bit_255_u32: "bit (0xFF :: u32) n \<longleftrightarrow> n < 8" and bit_224_u32: "bit (0xE0 :: u32) n \<Longrightarrow> 5 \<le> n"
proof -
  have m: "(0x0F :: u8) = mask 4" "(0x0F :: u32) = mask 4" "(0xFF :: u32) = mask 8"
    by (simp_all add: mask_eq_exp_minus_1)
  show "bit (0x0F :: u8) n \<longleftrightarrow> n < 4" "bit (0x0F :: u32) n \<longleftrightarrow> n < 4" "bit (0xFF :: u32) n \<longleftrightarrow> n < 8"
    unfolding m by (auto simp: bit_mask_iff)
  show "5 \<le> n" if "bit (0xE0 :: u32) n"
  proof (rule ccontr)
    assume "\<not> 5 \<le> n"
    then have "n \<in> {0, 1, 2, 3, 4}" by auto
    then show False using that by (elim insertE emptyE) simp_all
  qed
qed

lemma low_byte: "(ucast ((x :: u32) AND 0xFF) :: u8) = ucast x"
  by (rule bit_word_eqI) (simp only: bit_ucast_iff bit_and_iff bit_255_u32, simp)

lemma split_lba:
  assumes "lba \<in> lba28"
  shows "le32 (ucast (lba AND 0xFF)) (ucast (drop_bit 8 lba AND 0xFF)) (ucast (drop_bit 16 lba AND 0xFF))
     (ucast (0xE0 OR (drop_bit 24 lba AND 0x0F)) AND 0x0F) = lba"
proof -
  have "(ucast (0xE0 OR (drop_bit 24 lba AND 0x0F)) AND 0x0F :: u8) = ucast (drop_bit 24 lba)"
  proof (rule bit_word_eqI)
    fix n assume "n < LENGTH(8)"
    moreover have "bit lba (24 + n) \<Longrightarrow> n < 4" using bit_bounded [of lba 28 "24 + n"] assms by (simp add: lba28_def)
    moreover have "bit (0xE0 :: u32) n \<Longrightarrow> \<not> n < 4" using bit_224_u32 by fastforce
    ultimately show "bit (ucast (0xE0 OR (drop_bit 24 lba AND 0x0F)) AND 0x0F :: u8) n = bit (ucast (drop_bit 24 lba) :: u8) n"
      unfolding bit_and_iff bit_or_iff bit_ucast_iff bit_drop_bit_eq bit_15_u8 bit_15_u32 comp_def by auto
  qed
  then show ?thesis unfolding low_byte by (simp only: le32_bytes)
qed

lemma ata_select_drive:
  assumes "lba \<in> lba28"
  shows "\<exists>d'. ata_select drive_ports lba cmd d = drive_outb ATA_COMMAND cmd d' \<and> drive_lba d' = lba
    \<and> platter d' = platter d \<and> bad d' = bad d"
  by (rule exI [of _ "d\<lparr>reg_drive := ucast (0xE0 OR (drop_bit 24 lba AND 0x0F)), reg_low := ucast (lba AND 0xFF),
      reg_mid := ucast (drop_bit 8 lba AND 0xFF), reg_high := ucast (drop_bit 16 lba AND 0xFF)\<rparr>"])
    (simp add: ata_select_def Let_def drive_lba_def split_lba [OF assms], simp add: drive_outb_def)

lemma bytes_of_simps [simp]: "bytes_of [] = []" "bytes_of (w # ws) = ucast w # ucast (drop_bit 8 w) # bytes_of ws"
  "length (bytes_of ws) = 2 * length ws"
  by (induction ws) (auto simp: bytes_of_def)

lemma word_at_bytes: "ucast (word_at bs i) = bs ! (2 * i)" "ucast (drop_bit 8 (word_at bs i)) = bs ! (2 * i + 1)"
  unfolding word_at_def by (rule bit_word_eqI; auto simp: bit_simps dest: bit_imp_le_length)+

lemma bytes_nth: "i < length ws \<Longrightarrow> bytes_of ws ! (2 * i) = ucast (ws ! i) \<and> bytes_of ws ! (2 * i + 1) = ucast (drop_bit 8 (ws ! i))"
proof (induction ws arbitrary: i)
  case (Cons w ws)
  then show ?case by (cases i) auto
qed simp

lemma words_bytes:
  assumes "length bs = 512"
  shows "bytes_of (words_of bs) = bs"
proof (rule nth_equalityI)
  fix k assume "k < length (bytes_of (words_of bs))"
  then have k: "k div 2 < 256" by (simp add: words_of_def less_mult_imp_div_less)
  then have "bytes_of (words_of bs) ! (2 * (k div 2)) = bs ! (2 * (k div 2))"
    "bytes_of (words_of bs) ! (2 * (k div 2) + 1) = bs ! (2 * (k div 2) + 1)"
    using bytes_nth [of "k div 2" "words_of bs"] by (simp_all add: words_of_def word_at_bytes [simplified])
  moreover have "k = 2 * (k div 2) \<or> k = 2 * (k div 2) + 1" by presburger
  ultimately show "bytes_of (words_of bs) ! k = bs ! k" by metis
qed (simp add: assms words_of_def)

lemma wait_drq_drive:
  "wait_for_drq drive_ports d = (case xfer d of Serving _ \<Rightarrow> (True, d) | Accepting _ \<Rightarrow> (True, d) | _ \<Rightarrow> (False, d))"
proof (cases "xfer d = Idle")
  case True
  then have "wait_drq_from drive_ports n d = (False, d)" for n by (induction n) (simp_all add: drive_inb_def)
  then show ?thesis using True by (simp add: wait_for_drq_def)
next
  case False
  then have "wait_drq_from drive_ports (Suc n) d =
      (case xfer d of Serving _ \<Rightarrow> (True, d) | Accepting _ \<Rightarrow> (True, d) | _ \<Rightarrow> (False, d))" for n
    by (simp add: drive_inb_def split: transfer.split)
  from this [of 99999] show ?thesis by (simp add: wait_for_drq_def)
qed

lemma wait_idle_drive: "wait_idle_from drive_ports (Suc n) d = (xfer d \<noteq> Failed, d)"
  by (simp add: drive_inb_def split: transfer.split)

lemma read_words_drive:
  "xfer d = (if ws = [] then Idle else Serving ws) \<Longrightarrow> read_words drive_ports (length ws) d = (bytes_of ws, d\<lparr>xfer := Idle\<rparr>)"
proof (induction ws arbitrary: d)
  case (Cons w ws)
  then show ?case by (simp add: drive_inw_def Cons.IH)
qed simp

lemma write_words_drive:
  assumes "xfer d = Accepting ws" and "length ws + Suc n = 256"
  shows "write_words drive_ports bs (length ws) (Suc n) d = d\<lparr>xfer := Idle,
    platter := (platter d)(drive_lba d := bytes_of (ws @ map (word_at bs) [length ws..<256]))\<rparr>"
  using assms
proof (induction n arbitrary: d ws)
  case 0
  then have "length ws = 255" by simp
  moreover have "[255..<256] = [255 :: nat]" by (simp add: upt_rec)
  ultimately show ?case using 0 by (simp add: drive_outw_def del: fun_upd_apply)
next
  case (Suc n)
  let ?d = "d\<lparr>xfer := Accepting (ws @ [word_at bs (length ws)])\<rparr>"
  have o: "drive_outw ATA_DATA (word_at bs (length ws)) d = ?d" using Suc.prems by (simp add: drive_outw_def)
  have u: "[length ws..<256] = length ws # [Suc (length ws)..<256]" using Suc.prems(2) by (simp add: upt_rec)
  show ?case
    using Suc.IH [of ?d "ws @ [word_at bs (length ws)]"] Suc.prems(2)
    by (simp only: write_words.simps(2) [of _ _ _ "Suc n"] ports_simps o) (simp add: u drive_lba_def del: fun_upd_apply)
qed

lemma ata_read_drive:
  assumes "drive_ok d" and "lba \<in> lba28"
  shows "\<exists>d'. ata_read_sector drive_ports lba d = (if bad d lba then None else Some (platter d lba), d')
    \<and> platter d' = platter d \<and> bad d' = bad d"
proof -
  obtain d1 where d1: "ata_select drive_ports lba 0x20 d = drive_outb ATA_COMMAND 0x20 d1" "drive_lba d1 = lba"
      "platter d1 = platter d" "bad d1 = bad d" using ata_select_drive [OF assms(2)] by blast
  have len: "length (platter d lba) = 512" using assms by (simp add: drive_ok_def)
  let ?ws = "words_of (platter d lba)"
  have ws: "length ?ws = 256" "?ws \<noteq> []" by (simp_all add: words_of_def)
  have c: "drive_outb ATA_COMMAND 0x20 d1 = d1\<lparr>xfer := if bad d lba then Failed else Serving ?ws\<rparr>"
    using d1 by (simp add: drive_outb_def)
  show ?thesis
  proof (cases "bad d lba")
    case True
    then show ?thesis using d1 by (simp add: ata_read_sector_def c wait_drq_drive)
  next
    case False
    then show ?thesis
      using d1 read_words_drive [of "d1\<lparr>xfer := Serving ?ws\<rparr>" ?ws] ws words_bytes [OF len]
      by (simp add: ata_read_sector_def c wait_drq_drive)
  qed
qed

lemma ata_write_drive:
  assumes "lba \<in> lba28" and "length buf = 512"
  shows "\<exists>d'. ata_write_sector drive_ports lba buf d = (\<not> bad d lba, d')
    \<and> platter d' = (if bad d lba then platter d else (platter d)(lba := buf)) \<and> bad d' = bad d"
proof -
  obtain d1 where d1: "ata_select drive_ports lba 0x30 d = drive_outb ATA_COMMAND 0x30 d1" "drive_lba d1 = lba"
      "platter d1 = platter d" "bad d1 = bad d" using ata_select_drive [OF assms(1)] by blast
  have c: "drive_outb ATA_COMMAND 0x30 d1 = d1\<lparr>xfer := if bad d lba then Failed else Accepting []\<rparr>"
    using d1 by (simp add: drive_outb_def)
  show ?thesis
  proof (cases "bad d lba")
    case True
    then show ?thesis using d1 by (simp add: ata_write_sector_def c wait_drq_drive)
  next
    case False
    let ?d2 = "d1\<lparr>xfer := Accepting []\<rparr>"
    have w: "write_words drive_ports buf 0 256 ?d2 = ?d2\<lparr>xfer := Idle, platter := (platter d)(lba := buf)\<rparr>"
      using write_words_drive [of ?d2 "[]" 255 buf] d1 words_bytes [OF assms(2)] by (simp add: drive_lba_def words_of_def)
    show ?thesis
      using False d1 wait_idle_drive [of 99999]
      by (simp add: ata_write_sector_def c wait_drq_drive w drive_outb_def)
  qed
qed

interpretation ata: block_device "ata_dev drive_ports" platter drive_ok lba28
proof
  fix d lba r d'
  assume d: "drive_ok d" and l: "lba \<in> lba28"
  show "drive_ok d' \<and> (\<forall>l \<in> lba28. platter d' l = platter d l) \<and> (r = None \<or> r = Some (platter d lba))"
    if "bd_read (ata_dev drive_ports) lba d = (r, d')"
    using ata_read_drive [OF d l] that d by (auto simp: ata_dev_def drive_ok_def)
  show "length (platter d lba) = 512" using d l by (simp add: drive_ok_def)
  fix buf :: "u8 list" and ok
  show "drive_ok d' \<and> (\<forall>l \<in> lba28 - {lba}. platter d' l = platter d l) \<and> (ok \<longrightarrow> platter d' lba = buf)"
    if "length buf = 512" "bd_write (ata_dev drive_ports) lba buf d = (ok, d')"
    using ata_write_drive [OF l that(1), of d] that d by (auto simp: ata_dev_def drive_ok_def)
qed

text \<open>A drive without bad sectors is reliable.\<close>

definition good_drive :: "drive \<Rightarrow> bool" where "good_drive d \<longleftrightarrow> drive_ok d \<and> (\<forall>l. \<not> bad d l)"

interpretation good_ata: reliable_device "ata_dev drive_ports" platter good_drive lba28
proof
  fix d lba r d'
  assume d: "good_drive d" and l: "lba \<in> lba28"
  then have ok: "drive_ok d" "\<not> bad d lba" by (auto simp: good_drive_def)
  note r = ata_read_drive [OF ok(1) l]
  show "good_drive d' \<and> (\<forall>l \<in> lba28. platter d' l = platter d l) \<and> (r = None \<or> r = Some (platter d lba))"
    if "bd_read (ata_dev drive_ports) lba d = (r, d')"
    using r that d by (auto simp: ata_dev_def good_drive_def drive_ok_def)
  show "length (platter d lba) = 512" using ok l by (simp add: drive_ok_def)
  show "\<exists>data d'. bd_read (ata_dev drive_ports) lba d = (Some data, d')" using r ok by (auto simp: ata_dev_def)
  fix buf :: "u8 list" and ok
  assume b: "length buf = 512"
  note w = ata_write_drive [OF l b, of d]
  show "\<exists>d'. bd_write (ata_dev drive_ports) lba buf d = (True, d')" using w \<open>\<not> bad d lba\<close> by (auto simp: ata_dev_def)
  show "good_drive d' \<and> (\<forall>l \<in> lba28 - {lba}. platter d' l = platter d l) \<and> (ok \<longrightarrow> platter d' lba = buf)"
    if "bd_write (ata_dev drive_ports) lba buf d = (ok, d')"
    using w that d b by (auto simp: ata_dev_def good_drive_def drive_ok_def)
qed

section \<open>Properties\<close>

definition blank_drive :: drive where
  "blank_drive = \<lparr>reg_drive = 0, reg_low = 0, reg_mid = 0, reg_high = 0, xfer = Idle,
     platter = \<lambda>_. replicate 512 0, bad = \<lambda>_. False\<rparr>"

definition blank_cache :: "drive bcache" where
  "blank_cache = \<lparr>dev = blank_drive, fs_start_lba = 2048,
     cache = replicate 8 \<lparr>cvalid = False, cdirty = False, csector = 0, cdata = replicate 512 0\<rparr>, cache_clock = 0\<rparr>"

lemma partition_lba28:
  assumes "s < (4096 :: u32)" and "unat start < 2 ^ 28 - 4096"
  shows "start + s \<in> lba28"
proof -
  have "unat s < 4096" using assms(1) by (simp add: word_less_nat_alt)
  then show ?thesis using assms(2) by (simp add: lba28_def unat_word_ariths)
qed

lemma blank_cache_ok: "cache_inv platter drive_ok lba28 blank_cache" "cache_inv platter good_drive lba28 blank_cache"
  by (auto simp: cache_inv_def blank_cache_def drive_ok_def good_drive_def blank_drive_def cache_uniq_def entry_ok_def
      entry_for_def intro: partition_lba28)

text \<open>C27. Sector transfers. On a drive that follows the ATA protocol, a sector write followed by a read of
  any 28-bit address succeeds exactly when the addressed sectors are not bad; the read returns what
  was written to that address, or the old content of another one.\<close>

theorem ata_write_read:
  assumes "drive_ok d" and "a \<in> lba28" and "b \<in> lba28" and "length buf = 512"
  shows "\<exists>d1 d2. ata_write_sector drive_ports a buf d = (\<not> bad d a, d1) \<and>
    ata_read_sector drive_ports b d1 =
      (if bad d b then None else Some (if a = b then buf else platter d b), d2)"
proof -
  obtain d1 where d1: "ata_write_sector drive_ports a buf d = (\<not> bad d a, d1)"
      "platter d1 = (if bad d a then platter d else (platter d)(a := buf))" "bad d1 = bad d"
    using ata_write_drive [OF assms(2,4)] by blast
  have "drive_ok d1" using assms(1,4) d1(2) by (simp add: drive_ok_def)
  then obtain d2 where "ata_read_sector drive_ports b d1 = (if bad d1 b then None else Some (platter d1 b), d2)"
    using ata_read_drive [OF _ assms(3)] by blast
  then show ?thesis using d1 by auto
qed

theorem ata_write_read_witness:
  "\<exists>d1 d2. ata_write_sector drive_ports 0x1234567 (replicate 512 7) blank_drive = (True, d1)
     \<and> ata_read_sector drive_ports 0x1234567 d1 = (Some (replicate 512 7), d2)"
proof -
  have "drive_ok blank_drive" "0x1234567 \<in> lba28" "\<not> bad blank_drive 0x1234567"
    by (simp_all add: drive_ok_def blank_drive_def lba28_def)
  then show ?thesis using ata_write_read [of blank_drive "0x1234567" "0x1234567" "replicate 512 7"] by auto
qed

text \<open>C24. The cache is coherent for reads. For every device that meets the block-device contract, whatever
  operations fail, \<open>read_sector\<close> either fails or returns the logical content of the sector (the cached
  data if the sector is cached, the device content otherwise), and no read, hit, miss or write-back of
  a victim changes the logical content of any sector.\<close>

theorem cache_read_coherent:
  assumes "block_device bd content dinv part" and "cache_inv content dinv part st" and "s < DISKFS_TOTAL_SECTORS"
    and "read_sector bd s st = (r, st')"
  shows "cache_inv content dinv part st' \<and> (r = None \<or> r = Some (view content st s))
    \<and> (\<forall>t < DISKFS_TOTAL_SECTORS. view content st' t = view content st t)"
  using block_device.read_sector_ok [OF assms] by blast

theorem cache_read_coherent_witness:
  "\<exists>r st'. read_sector (ata_dev drive_ports) 5 blank_cache = (r, st') \<and> cache_inv platter drive_ok lba28 st'
     \<and> (r = None \<or> r = Some (replicate 512 0))"
proof -
  obtain r st' where run: "read_sector (ata_dev drive_ports) 5 blank_cache = (r, st')" by fastforce
  have "view platter blank_cache 5 = replicate 512 0"
    by (simp add: view_def blank_cache_def blank_drive_def entry_for_def find_None_iff [THEN iffD2])
  then show ?thesis
    using cache_read_coherent [OF ata.block_device_axioms blank_cache_ok(1) _ run] run by auto
qed

text \<open>C25. Writes reach the disk. For every device that meets the contract, a successful \<open>write_sector\<close>
  changes the logical content of exactly that sector, a failed one changes none, and after a successful
  \<open>diskfs_flush\<close> the device holds the logical content of every sector of the partition.\<close>

theorem cache_write_durable:
  assumes "block_device bd content dinv part" and "cache_inv content dinv part st" and "s < DISKFS_TOTAL_SECTORS"
    and "length buf = DISKFS_SECTOR_SIZE" and "write_sector bd s buf st = (ok, st1)" and "diskfs_flush bd st1 = (ok2, st2)"
  shows "cache_inv content dinv part st2
    \<and> (\<forall>t < DISKFS_TOTAL_SECTORS. view content st2 t = (if ok \<and> t = s then buf else view content st t))
    \<and> (ok2 \<longrightarrow> (\<forall>t < DISKFS_TOTAL_SECTORS. content (dev st2) (fs_start_lba st2 + t) = (if ok \<and> t = s then buf else view content st t)))"
proof -
  note w = block_device.write_sector_ok [OF assms(1-5)]
  note f = block_device.flush_ok [OF assms(1) w(1) assms(6)]
  show ?thesis using w f by auto
qed

theorem cache_write_durable_witness:
  "\<exists>st1 st2. write_sector (ata_dev drive_ports) 9 (replicate 512 1) blank_cache = (True, st1)
     \<and> diskfs_flush (ata_dev drive_ports) st1 = (True, st2) \<and> platter (dev st2) (fs_start_lba st2 + 9) = replicate 512 1"
proof -
  obtain st1 where w: "write_sector (ata_dev drive_ports) 9 (replicate 512 1) blank_cache = (True, st1)"
      "cache_inv platter good_drive lba28 st1"
    using good_ata.write_sector_succeeds [OF blank_cache_ok(2), of 9 "replicate 512 1"] by auto
  obtain st2 where f: "diskfs_flush (ata_dev drive_ports) st1 = (True, st2)"
    using good_ata.flush_succeeds [OF w(2)] by auto
  show ?thesis
    using cache_write_durable [OF good_ata.block_device_axioms blank_cache_ok(2) _ _ w(1) f] w f by auto
qed

end
