(* ===== verification/Diskfs.thy ===== *)
theory Diskfs
  imports Ata
begin

text \<open>The directory file system, the rest of \<open>src/kernel/fs/diskfs/diskfs.c\<close>, on top of the sector cache:
  superblock, inode table and sector bitmap in memory, path lookup, first-fit extents, file reads and
  writes under a journal marker, the mount-time validation and the consistency check. The state extends
  the record of the cache by the file's other static variables; the visible file list is kept as a list
  instead of two arrays and a counter. Strings are lists of bytes (a missing pointer is \<open>None\<close>), a
  result of \<open>-1\<close> is \<open>None\<close>, and functions that can index an array out of bounds are in the option monad.\<close>

section \<open>Data\<close>

abbreviation (input) DISKFS_MAGIC :: u32 where "DISKFS_MAGIC \<equiv> 0x3246594D"
abbreviation (input) DISKFS_JOURNAL_MAGIC :: u32 where "DISKFS_JOURNAL_MAGIC \<equiv> 0x324E524A"
abbreviation (input) DISKFS_MAX_INODES :: nat where "DISKFS_MAX_INODES \<equiv> 64"
abbreviation (input) DISKFS_INODE_SIZE :: nat where "DISKFS_INODE_SIZE \<equiv> 64"
abbreviation (input) DISKFS_BITMAP_BYTES :: nat where "DISKFS_BITMAP_BYTES \<equiv> 512"
abbreviation (input) DISKFS_NAME_MAX :: nat where "DISKFS_NAME_MAX \<equiv> 31"
abbreviation (input) DISKFS_PATH_MAX :: nat where "DISKFS_PATH_MAX \<equiv> 64"
abbreviation (input) DISKFS_ROOT_INODE :: nat where "DISKFS_ROOT_INODE \<equiv> 0"
abbreviation (input) DISKFS_TYPE_FILE :: u8 where "DISKFS_TYPE_FILE \<equiv> 1"
abbreviation (input) DISKFS_TYPE_DIR :: u8 where "DISKFS_TYPE_DIR \<equiv> 2"
abbreviation (input) DISKFS_READ_BUFFER_SIZE :: u32 where "DISKFS_READ_BUFFER_SIZE \<equiv> 16384"
abbreviation (input) DISKFS_MAX_FILE_SIZE :: u32 where "DISKFS_MAX_FILE_SIZE \<equiv> 1048576"
abbreviation (input) SLASH :: u8 where "SLASH \<equiv> 47"

record diskfs_superblock =
  magic :: u32
  total_sectors :: u32
  max_inodes :: u32
  inode_count :: u32
  bitmap_start :: u32
  bitmap_sectors :: u32
  inode_start :: u32
  inode_sectors :: u32
  data_start :: u32
  journal_state :: u32

record diskfs_inode =
  itype :: u8
  reserved0 :: u8
  iflags :: u16
  isize :: u32
  first_sector :: u32
  sector_count :: u32
  iparent :: u32
  iname :: "u8 list"
  ireserved :: "u8 list"

record 'd diskfs = "'d bcache" +
  available :: bool
  superblock :: diskfs_superblock
  inodes :: "diskfs_inode list"
  bitmap :: "u8 list"
  file_list :: "(u32 \<times> u8 list) list"
  file_buffer :: "u8 list"

definition zero_inode :: diskfs_inode where
  "zero_inode = \<lparr>itype = 0, reserved0 = 0, iflags = 0, isize = 0, first_sector = 0, sector_count = 0,
     iparent = 0, iname = replicate 32 0, ireserved = replicate 12 0\<rparr>"

definition zero_superblock :: diskfs_superblock where
  "zero_superblock = \<lparr>magic = 0, total_sectors = 0, max_inodes = 0, inode_count = 0, bitmap_start = 0,
     bitmap_sectors = 0, inode_start = 0, inode_sectors = 0, data_start = 0, journal_state = 0\<rparr>"

text \<open>The packed little-endian images of the structures.\<close>

definition u32_bytes :: "u32 \<Rightarrow> u8 list" where
  "u32_bytes v = [ucast v, ucast (drop_bit 8 v), ucast (drop_bit 16 v), ucast (drop_bit 24 v)]"

definition dec32 :: "u8 list \<Rightarrow> nat \<Rightarrow> u32" where
  "dec32 bs i = le32 (bs ! i) (bs ! (i + 1)) (bs ! (i + 2)) (bs ! (i + 3))"

definition superblock_bytes :: "diskfs_superblock \<Rightarrow> u8 list" where
  "superblock_bytes sb = concat (map u32_bytes [magic sb, total_sectors sb, max_inodes sb, inode_count sb, bitmap_start sb,
     bitmap_sectors sb, inode_start sb, inode_sectors sb, data_start sb, journal_state sb])"

definition superblock_of :: "u8 list \<Rightarrow> diskfs_superblock" where
  "superblock_of bs = \<lparr>magic = dec32 bs 0, total_sectors = dec32 bs 4, max_inodes = dec32 bs 8, inode_count = dec32 bs 12,
     bitmap_start = dec32 bs 16, bitmap_sectors = dec32 bs 20, inode_start = dec32 bs 24, inode_sectors = dec32 bs 28,
     data_start = dec32 bs 32, journal_state = dec32 bs 36\<rparr>"

definition inode_bytes :: "diskfs_inode \<Rightarrow> u8 list" where
  "inode_bytes n = [itype n, reserved0 n, ucast (iflags n), ucast (drop_bit 8 (iflags n))] @ u32_bytes (isize n)
     @ u32_bytes (first_sector n) @ u32_bytes (sector_count n) @ u32_bytes (iparent n) @ iname n @ ireserved n"

definition inode_of :: "u8 list \<Rightarrow> nat \<Rightarrow> diskfs_inode" where
  "inode_of bs i = \<lparr>itype = bs ! i, reserved0 = bs ! (i + 1),
     iflags = ucast (bs ! (i + 2)) OR push_bit 8 (ucast (bs ! (i + 3))), isize = dec32 bs (i + 4),
     first_sector = dec32 bs (i + 8), sector_count = dec32 bs (i + 12), iparent = dec32 bs (i + 16),
     iname = take 32 (drop (i + 20) bs), ireserved = take 12 (drop (i + 52) bs)\<rparr>"

text \<open>\<open>mem_copy\<close> of some bytes to an offset of a buffer, and the bytes of a string literal.\<close>

definition mem_copy_at :: "u8 list \<Rightarrow> nat \<Rightarrow> u8 list \<Rightarrow> u8 list" where
  "mem_copy_at dst offset src = take offset dst @ src @ drop (offset + length src) dst"

definition ascii :: "string \<Rightarrow> u8 list" where
  "ascii s = map (\<lambda>c. of_nat (of_char c)) s"

definition upd_super :: "(diskfs_superblock \<Rightarrow> diskfs_superblock) \<Rightarrow> 'd diskfs \<Rightarrow> 'd diskfs" where
  "upd_super f st = st\<lparr>superblock := f (superblock st)\<rparr>"

definition upd_inode :: "nat \<Rightarrow> (diskfs_inode \<Rightarrow> diskfs_inode) \<Rightarrow> 'd diskfs \<Rightarrow> 'd diskfs" where
  "upd_inode i f st = st\<lparr>inodes := (inodes st)[i := f (inodes st ! i)]\<rparr>"

section \<open>Metadata writes and the journal marker\<close>

definition fs_bitmap_get :: "nat \<Rightarrow> 'd diskfs \<Rightarrow> bool option" where
  "fs_bitmap_get sector st =
     (if sector div 8 < length (bitmap st) then Some (bitmap st ! (sector div 8) AND push_bit (sector mod 8) 1 \<noteq> 0) else None)"

definition fs_bitmap_set :: "nat \<Rightarrow> bool \<Rightarrow> 'd diskfs \<Rightarrow> 'd diskfs option" where
  "fs_bitmap_set sector used st =
     (let i = sector div 8 in
      if i < length (bitmap st)
      then Some (st\<lparr>bitmap := (bitmap st)[i := (if used then bitmap st ! i OR push_bit (sector mod 8) 1
             else bitmap st ! i AND NOT (push_bit (sector mod 8) 1))]\<rparr>)
      else None)"

definition write_and_flush :: "'d blockdev \<Rightarrow> u32 \<Rightarrow> u8 list \<Rightarrow> 'd diskfs \<Rightarrow> bool \<times> 'd diskfs" where
  "write_and_flush bd sector buffer st =
     (let (ok, st1) = write_sector bd sector buffer st in if ok then diskfs_flush bd st1 else (False, st1))"

definition write_bitmap :: "'d blockdev \<Rightarrow> 'd diskfs \<Rightarrow> bool \<times> 'd diskfs" where
  "write_bitmap bd st = write_and_flush bd (bitmap_start (superblock st)) (bitmap st) st"

definition write_inode :: "'d blockdev \<Rightarrow> nat \<Rightarrow> 'd diskfs \<Rightarrow> bool \<times> 'd diskfs" where
  "write_inode bd index st =
     (let per_sector = DISKFS_SECTOR_SIZE div DISKFS_INODE_SIZE;
          sector_index = inode_start (superblock st) + of_nat (index div per_sector);
          offset = (index mod per_sector) * DISKFS_INODE_SIZE
      in case read_sector bd sector_index st of
           (None, st1) \<Rightarrow> (False, st1)
         | (Some sector, st1) \<Rightarrow>
             write_and_flush bd sector_index (mem_copy_at sector offset (inode_bytes (inodes st1 ! index))) st1)"

definition write_superblock :: "'d blockdev \<Rightarrow> 'd diskfs \<Rightarrow> bool \<times> 'd diskfs" where
  "write_superblock bd st =
     write_and_flush bd 0 (mem_copy_at (replicate DISKFS_SECTOR_SIZE 0) 0 (superblock_bytes (superblock st))) st"

definition write_journal :: "'d blockdev \<Rightarrow> u32 \<Rightarrow> 'd diskfs \<Rightarrow> bool \<times> 'd diskfs" where
  "write_journal bd state st =
     (let sector = mem_copy_at (replicate DISKFS_SECTOR_SIZE 0) 0 (u32_bytes DISKFS_JOURNAL_MAGIC @ u32_bytes state);
          st1 = upd_super (\<lambda>sb. sb\<lparr>journal_state := state\<rparr>) st;
          (ok, st2) = write_sector bd 1 sector st1
      in if ok then write_superblock bd st2 else (False, st2))"

definition begin_transaction :: "'d blockdev \<Rightarrow> 'd diskfs \<Rightarrow> bool \<times> 'd diskfs" where
  "begin_transaction bd st = write_journal bd 1 st"

definition commit_transaction :: "'d blockdev \<Rightarrow> 'd diskfs \<Rightarrow> bool \<times> 'd diskfs" where
  "commit_transaction bd st = write_journal bd 0 st"

section \<open>Names and paths\<close>

definition char_at :: "u8 list \<Rightarrow> nat \<Rightarrow> u8" where
  "char_at s i = (if i < length s then s ! i else 0)"

definition inode_name_valid :: "u8 list \<Rightarrow> bool" where
  "inode_name_valid name \<longleftrightarrow> char_at name 0 \<noteq> 0 \<and> list_ex (\<lambda>i. char_at name i = 0) [0..<32]"

fun skip_slashes :: "u8 list \<Rightarrow> u8 list" where
  "skip_slashes [] = []"
| "skip_slashes (c # p) = (if c = SLASH then skip_slashes p else c # p)"

text \<open>The component copied so far is \<open>acc\<close>; \<open>None\<close> is the early return for a component that is too long.\<close>

fun take_component :: "u8 list \<Rightarrow> u8 list \<Rightarrow> (u8 list \<times> u8 list) option" where
  "take_component [] acc = Some (acc, [])"
| "take_component (c # p) acc =
     (if c \<noteq> 0 \<and> c \<noteq> SLASH
      then if length acc + 1 \<ge> DISKFS_NAME_MAX then None else take_component p (acc @ [c])
      else Some (acc, c # p))"

text \<open>\<open>path_part\<close> yields the component, if any, and the new cursor.\<close>

definition path_part :: "u8 list \<Rightarrow> u8 list option \<times> u8 list" where
  "path_part cursor =
     (let p = skip_slashes cursor in
      if char_at p 0 = 0 then (None, p)
      else case take_component p [] of
             None \<Rightarrow> (None, cursor)
           | Some (part, p') \<Rightarrow> (if length part > 0 then Some part else None, p'))"

definition find_child :: "nat \<Rightarrow> u8 list \<Rightarrow> u8 \<Rightarrow> 'd diskfs \<Rightarrow> nat option" where
  "find_child parent name type_or_zero st =
     find (\<lambda>i. itype (inodes st ! i) \<noteq> 0 \<and> iparent (inodes st ! i) = of_nat parent
        \<and> (type_or_zero = 0 \<or> itype (inodes st ! i) = type_or_zero) \<and> kstrcmp (iname (inodes st ! i)) name = 0)
       [0..<min (unat (inode_count (superblock st))) DISKFS_MAX_INODES]"

lemma skip_slashes_length: "length (skip_slashes p) \<le> length p"
  by (induction p) auto

lemma take_component_length:
  "take_component p acc = Some (part, p') \<Longrightarrow> length part + length p' = length acc + length p"
  by (induction p acc rule: take_component.induct) (auto split: if_splits)

lemma path_part_length: "path_part cursor = (Some part, cursor') \<Longrightarrow> length cursor' < length cursor"
proof -
  assume "path_part cursor = (Some part, cursor')"
  then have "take_component (skip_slashes cursor) [] = Some (part, cursor')" and ne: "part \<noteq> []"
    by (auto simp: path_part_def Let_def split: if_splits option.splits)
  from take_component_length [OF this(1)] ne skip_slashes_length [of cursor] show ?thesis
    by (cases part) auto
qed

function find_path_from :: "u8 list \<Rightarrow> nat \<Rightarrow> 'd diskfs \<Rightarrow> nat option" where
  "find_path_from cursor current st =
     (case path_part cursor of
        (None, _) \<Rightarrow> Some current
      | (Some part, cursor') \<Rightarrow>
          (case find_child current part 0 st of
             None \<Rightarrow> None
           | Some child \<Rightarrow> find_path_from cursor' child st))"
  by pat_completeness auto
termination
  by (relation "measure (\<lambda>(cursor, current, st). length cursor)") (auto dest: path_part_length [OF sym])

definition find_path :: "u8 list option \<Rightarrow> 'd diskfs \<Rightarrow> nat option" where
  "find_path path st = (case path of None \<Rightarrow> None | Some p \<Rightarrow> find_path_from p DISKFS_ROOT_INODE st)"

function parent_dir_from :: "u8 list \<Rightarrow> u8 list \<Rightarrow> nat \<Rightarrow> 'd diskfs \<Rightarrow> (nat \<times> u8 list) option" where
  "parent_dir_from cursor part current st =
     (case path_part cursor of
        (None, _) \<Rightarrow> Some (current, part)
      | (Some nxt, cursor') \<Rightarrow>
          (case find_child current part DISKFS_TYPE_DIR st of
             None \<Rightarrow> None
           | Some child \<Rightarrow> parent_dir_from cursor' nxt child st))"
  by pat_completeness auto
termination
  by (relation "measure (\<lambda>(cursor, part, current, st). length cursor)") (auto dest: path_part_length [OF sym])

definition ensure_parent_dir :: "u8 list \<Rightarrow> 'd diskfs \<Rightarrow> (nat \<times> u8 list) option" where
  "ensure_parent_dir path st =
     (case path_part path of
        (None, _) \<Rightarrow> None
      | (Some part, cursor) \<Rightarrow> parent_dir_from cursor part DISKFS_ROOT_INODE st)"

section \<open>Allocation\<close>

fun alloc_inode_from :: "nat \<Rightarrow> nat \<Rightarrow> 'd diskfs \<Rightarrow> nat option \<times> 'd diskfs" where
  "alloc_inode_from i 0 st = (None, st)"
| "alloc_inode_from i (Suc n) st =
     (if i \<ge> unat (inode_count (superblock st))
      then (Some i, upd_super (\<lambda>sb. sb\<lparr>inode_count := of_nat i + 1\<rparr>) st)
      else if itype (inodes st ! i) = 0 then (Some i, st)
      else alloc_inode_from (Suc i) n st)"

definition alloc_inode :: "'d diskfs \<Rightarrow> nat option \<times> 'd diskfs" where
  "alloc_inode st = alloc_inode_from 1 (DISKFS_MAX_INODES - 1) st"

fun mark_run :: "nat \<Rightarrow> nat \<Rightarrow> 'd diskfs \<Rightarrow> 'd diskfs option" where
  "mark_run first 0 st = Some st"
| "mark_run first (Suc n) st = do { st' \<leftarrow> fs_bitmap_set first True st; mark_run (Suc first) n st' }"

fun alloc_from :: "nat \<Rightarrow> nat \<Rightarrow> nat \<Rightarrow> nat \<Rightarrow> nat \<Rightarrow> 'd diskfs \<Rightarrow> (nat option \<times> 'd diskfs) option" where
  "alloc_from sectors sector 0 run_start run_len st = Some (None, st)"
| "alloc_from sectors sector (Suc n) run_start run_len st =
     do { used \<leftarrow> fs_bitmap_get sector st;
          if \<not> used
          then let run_start' = (if run_len = 0 then sector else run_start); run_len' = run_len + 1 in
               if run_len' = sectors
               then do { st' \<leftarrow> mark_run run_start' sectors st; Some (Some run_start', st') }
               else alloc_from sectors (Suc sector) n run_start' run_len' st
          else alloc_from sectors (Suc sector) n run_start 0 st }"

definition alloc_contiguous :: "nat \<Rightarrow> 'd diskfs \<Rightarrow> (nat option \<times> 'd diskfs) option" where
  "alloc_contiguous sectors st =
     (let first = unat (data_start (superblock st))
      in alloc_from sectors first (unat (total_sectors (superblock st)) - first) first 0 st)"

fun free_extent_from :: "u32 \<Rightarrow> nat \<Rightarrow> nat \<Rightarrow> 'd diskfs \<Rightarrow> 'd diskfs option" where
  "free_extent_from first i 0 st = Some st"
| "free_extent_from first i (Suc n) st =
     (if first + of_nat i < total_sectors (superblock st)
      then do { st' \<leftarrow> fs_bitmap_set (unat (first + of_nat i)) False st; free_extent_from first (Suc i) n st' }
      else Some st)"

definition free_extent :: "u32 \<Rightarrow> u32 \<Rightarrow> 'd diskfs \<Rightarrow> 'd diskfs option" where
  "free_extent first sectors st = free_extent_from first 0 (unat sectors) st"

definition sectors_for_size :: "u32 \<Rightarrow> u32" where
  "sectors_for_size sz = (let sectors = (sz + 512 - 1) div 512 in if sectors = 0 then 1 else sectors)"

section \<open>File data\<close>

definition file_chunk :: "u8 list \<Rightarrow> nat \<Rightarrow> nat \<Rightarrow> u8 list" where
  "file_chunk buffer sz s =
     (let offset = s * DISKFS_SECTOR_SIZE;
          chunk = min (if sz > offset then sz - offset else 0) DISKFS_SECTOR_SIZE
      in mem_copy_at (replicate DISKFS_SECTOR_SIZE 0) 0 (take chunk (drop offset buffer)))"

fun write_data_from :: "'d blockdev \<Rightarrow> u32 \<Rightarrow> u8 list \<Rightarrow> nat \<Rightarrow> nat \<Rightarrow> nat \<Rightarrow> 'd diskfs \<Rightarrow> bool \<times> 'd diskfs" where
  "write_data_from bd first buffer sz s 0 st = diskfs_flush bd st"
| "write_data_from bd first buffer sz s (Suc n) st =
     (let (ok, st1) = write_sector bd (first + of_nat s) (file_chunk buffer sz s) st in
      if \<not> ok then (False, st1) else write_data_from bd first buffer sz (Suc s) n st1)"

definition write_file_data :: "'d blockdev \<Rightarrow> u32 \<Rightarrow> u8 list \<Rightarrow> u32 \<Rightarrow> 'd diskfs \<Rightarrow> (bool \<times> 'd diskfs) option" where
  "write_file_data bd first buffer sz st =
     (if length buffer < unat sz then None
      else Some (write_data_from bd first buffer (unat sz) 0 (unat (sectors_for_size sz)) st))"

section \<open>The file list\<close>

text \<open>A path in \<open>file_names\<close> is cut at 63 bytes.\<close>

definition append_name :: "u8 list \<Rightarrow> u8 list \<Rightarrow> u8 list" where
  "append_name out name = out @ take (DISKFS_PATH_MAX - 1 - length out) (cstr name)"

definition file_path :: "diskfs_inode list \<Rightarrow> diskfs_inode \<Rightarrow> u8 list option" where
  "file_path ns n =
     (if iparent n \<noteq> of_nat DISKFS_ROOT_INODE then
        if unat (iparent n) < length ns then
          let p = ns ! unat (iparent n) in
          Some (append_name
            (if itype p = DISKFS_TYPE_DIR
             then let out = append_name [SLASH] (iname p)
                  in if length out + 1 < DISKFS_PATH_MAX then out @ [SLASH] else out
             else [SLASH]) (iname n))
        else None
      else Some (append_name [SLASH] (iname n)))"

fun rebuild_from :: "nat \<Rightarrow> nat \<Rightarrow> 'd diskfs \<Rightarrow> 'd diskfs option" where
  "rebuild_from i 0 st = Some st"
| "rebuild_from i (Suc n) st =
     (if itype (inodes st ! i) = DISKFS_TYPE_FILE
      then do { p \<leftarrow> file_path (inodes st) (inodes st ! i);
                rebuild_from (Suc i) n (st\<lparr>file_list := file_list st @ [(of_nat i, p)]\<rparr>) }
      else rebuild_from (Suc i) n st)"

definition rebuild_file_list :: "'d diskfs \<Rightarrow> 'd diskfs option" where
  "rebuild_file_list st =
     rebuild_from 0 (min (unat (inode_count (superblock st))) DISKFS_MAX_INODES) (st\<lparr>file_list := []\<rparr>)"

section \<open>Validation and mounting\<close>

definition validate_inode :: "'d diskfs \<Rightarrow> nat \<Rightarrow> bool" where
  "validate_inode st i =
     (let n = inodes st ! i; sb = superblock st in
      if itype n = 0 then True
      else if i \<noteq> DISKFS_ROOT_INODE \<and> \<not> inode_name_valid (iname n) then False
      else if i \<noteq> DISKFS_ROOT_INODE \<and> iparent n \<ge> inode_count sb then False
      else if itype n = DISKFS_TYPE_FILE
        \<and> (first_sector n < data_start sb \<or> first_sector n + sector_count n > total_sectors sb
           \<or> sector_count n \<noteq> sectors_for_size (isize n)) then False
      else True)"

definition diskfs_validate :: "'d diskfs \<Rightarrow> bool" where
  "diskfs_validate st =
     (let sb = superblock st in
      if \<not> available st \<or> magic sb \<noteq> DISKFS_MAGIC \<or> total_sectors sb \<noteq> DISKFS_TOTAL_SECTORS
        \<or> inode_count sb > of_nat DISKFS_MAX_INODES \<or> itype (inodes st ! DISKFS_ROOT_INODE) \<noteq> DISKFS_TYPE_DIR then False
      else list_all (validate_inode st) [0..<unat (inode_count sb)])"

fun load_sector_inodes :: "u8 list \<Rightarrow> nat \<Rightarrow> nat \<Rightarrow> nat \<Rightarrow> diskfs_inode list \<Rightarrow> diskfs_inode list" where
  "load_sector_inodes sector base i 0 ns = ns"
| "load_sector_inodes sector base i (Suc n) ns =
     (if base + i < DISKFS_MAX_INODES
      then load_sector_inodes sector base (Suc i) n (ns[base + i := inode_of sector (i * DISKFS_INODE_SIZE)])
      else ns)"

fun load_inodes :: "'d blockdev \<Rightarrow> nat \<Rightarrow> nat \<Rightarrow> 'd diskfs \<Rightarrow> bool \<times> 'd diskfs" where
  "load_inodes bd s 0 st = (True, st)"
| "load_inodes bd s (Suc n) st =
     (case raw_read_sector bd (inode_start (superblock st) + of_nat s) st of
        (None, st1) \<Rightarrow> (False, st1)
      | (Some sector, st1) \<Rightarrow>
          load_inodes bd (Suc s) n
            (st1\<lparr>inodes := load_sector_inodes sector (s * 8) 0 8 (inodes st1)\<rparr>))"

definition diskfs_initialize :: "'d blockdev \<Rightarrow> u32 \<Rightarrow> 'd diskfs \<Rightarrow> 'd diskfs option" where
  "diskfs_initialize bd start_lba st0 =
     (let st1 = st0\<lparr>fs_start_lba := start_lba, available := False, file_list := [], superblock := zero_superblock,
            inodes := replicate DISKFS_MAX_INODES zero_inode, bitmap := replicate DISKFS_BITMAP_BYTES 0,
            cache := replicate DISKFS_CACHE_SLOTS
              \<lparr>cvalid = False, cdirty = False, csector = 0, cdata = replicate DISKFS_SECTOR_SIZE 0\<rparr>\<rparr>
      in case raw_read_sector bd 0 st1 of
           (None, st2) \<Rightarrow> Some st2
         | (Some sector, st2) \<Rightarrow>
             let st3 = st2\<lparr>superblock := superblock_of sector\<rparr>; sb = superblock st3 in
             if magic sb \<noteq> DISKFS_MAGIC \<or> max_inodes sb > of_nat DISKFS_MAX_INODES
               \<or> bitmap_sectors sb \<noteq> 1 \<or> total_sectors sb \<noteq> DISKFS_TOTAL_SECTORS then Some st3
             else case raw_read_sector bd (bitmap_start sb) st3 of
                (None, st4) \<Rightarrow> Some st4
              | (Some bm, st4) \<Rightarrow>
                  let (ok, st5) = load_inodes bd 0 (unat (inode_sectors sb)) (st4\<lparr>bitmap := bm\<rparr>) in
                  if \<not> ok then Some st5
                  else let st6 = st5\<lparr>available := True\<rparr> in
                  if \<not> diskfs_validate st6 then Some (st6\<lparr>available := False\<rparr>)
                  else let st7 = (if journal_state (superblock st6) \<noteq> 0 then snd (write_journal bd 0 st6) else st6)
                       in rebuild_file_list st7)"

section \<open>Queries and reads\<close>

definition diskfs_is_available :: "'d diskfs \<Rightarrow> bool" where "diskfs_is_available st = available st"

definition diskfs_file_count :: "'d diskfs \<Rightarrow> nat" where "diskfs_file_count st = length (file_list st)"

definition diskfs_file_name :: "nat \<Rightarrow> 'd diskfs \<Rightarrow> u8 list" where
  "diskfs_file_name index st = (if index < length (file_list st) then snd (file_list st ! index) else [])"

definition diskfs_file_size :: "nat \<Rightarrow> 'd diskfs \<Rightarrow> u32" where
  "diskfs_file_size index st =
     (if index \<ge> length (file_list st) then 0 else isize (inodes st ! unat (fst (file_list st ! index))))"

definition diskfs_index_size :: "u32 \<Rightarrow> 'd diskfs \<Rightarrow> u32" where
  "diskfs_index_size index st =
     (if index \<ge> inode_count (superblock st) \<or> itype (inodes st ! unat index) \<noteq> DISKFS_TYPE_FILE then 0
      else isize (inodes st ! unat index))"

definition is_file :: "nat \<Rightarrow> 'd diskfs \<Rightarrow> bool" where
  "is_file i st \<longleftrightarrow> itype (inodes st ! i) = DISKFS_TYPE_FILE"

definition diskfs_find_file :: "u8 list option \<Rightarrow> 'd diskfs \<Rightarrow> nat option" where
  "diskfs_find_file path st =
     (let retry = (case path of
            None \<Rightarrow> None
          | Some p \<Rightarrow>
              if char_at p 0 \<noteq> SLASH
              then (case find_path (Some (SLASH # take 62 (cstr p))) st of
                      Some index \<Rightarrow> if is_file index st then Some index else None
                    | None \<Rightarrow> None)
              else None)
      in case find_path path st of
           Some index \<Rightarrow> if is_file index st then Some index else retry
         | None \<Rightarrow> retry)"

text \<open>The \<open>finished\<close> bytes stored in the caller's buffer so far are \<open>out\<close>; reading ends at a sector error.\<close>

function read_loop :: "'d blockdev \<Rightarrow> u32 \<Rightarrow> nat \<Rightarrow> nat \<Rightarrow> nat \<Rightarrow> u8 list \<Rightarrow> 'd diskfs \<Rightarrow> bool \<times> u8 list \<times> 'd diskfs" where
  "read_loop bd first offset sz finished out st =
     (if finished < sz
      then let absolute = offset + finished;
               sector_index = absolute div DISKFS_SECTOR_SIZE;
               sector_offset = absolute mod DISKFS_SECTOR_SIZE;
               chunk = min (DISKFS_SECTOR_SIZE - sector_offset) (sz - finished)
           in case read_sector bd (first + of_nat sector_index) st of
                (None, st1) \<Rightarrow> (False, out, st1)
              | (Some sector, st1) \<Rightarrow>
                  read_loop bd first offset sz (finished + chunk) (out @ take chunk (drop sector_offset sector)) st1
      else (True, out, st))"
  by pat_completeness auto
termination
  by (relation "measure (\<lambda>(bd, first, offset, sz, finished, out, st). sz - finished)") auto

definition diskfs_read_index :: "'d blockdev \<Rightarrow> u32 \<Rightarrow> u32 \<Rightarrow> bool \<Rightarrow> u32 \<Rightarrow> 'd diskfs \<Rightarrow> bool \<times> u8 list \<times> 'd diskfs" where
  "diskfs_read_index bd index offset buffer sz st =
     (let n = inodes st ! unat index in
      if \<not> available st \<or> index \<ge> inode_count (superblock st) \<or> itype n \<noteq> DISKFS_TYPE_FILE \<or> \<not> buffer
      then (False, [], st)
      else if offset \<ge> isize n \<or> sz = 0 then (True, [], st)
      else let remaining = isize n - offset; sz' = (if sz > remaining then remaining else sz)
           in read_loop bd (first_sector n) (unat offset) (unat sz') 0 [] st)"

section \<open>Changing operations\<close>

definition set_name :: "u8 list \<Rightarrow> u8 list" where
  "set_name leaf = (let name = take DISKFS_NAME_MAX (cstr leaf) in name @ replicate (32 - length name) 0)"

text \<open>The body of \<open>diskfs_write_file\<close> after the transaction has begun, for an existing file and for a new
  one. The inner boolean of the result tells whether the code after the branch (rebuild of the list and
  commit) is reached.\<close>

definition write_existing :: "'d blockdev \<Rightarrow> nat \<Rightarrow> u8 list \<Rightarrow> u32 \<Rightarrow> 'd diskfs \<Rightarrow> (bool \<times> 'd diskfs) option" where
  "write_existing bd index buffer sz st =
     (let sectors = sectors_for_size sz; n = inodes st ! index in
      do { (found, st1) \<leftarrow>
             (if sectors > sector_count n
              then do { (first, st1) \<leftarrow> alloc_contiguous (unat sectors) st;
                        case first of
                          None \<Rightarrow> Some (False, snd (commit_transaction bd st1))
                        | Some f \<Rightarrow>
                            do { st2 \<leftarrow> free_extent (first_sector n) (sector_count n) st1;
                                 Some (True, upd_inode index (\<lambda>n. n\<lparr>first_sector := of_nat f, sector_count := sectors\<rparr>) st2) } }
              else if sectors < sector_count n
              then do { st1 \<leftarrow> free_extent (first_sector n + sectors) (sector_count n - sectors) st;
                        Some (True, upd_inode index (\<lambda>n. n\<lparr>sector_count := sectors\<rparr>) st1) }
              else Some (True, st));
           if \<not> found then Some (False, st1)
           else let st2 = upd_inode index (\<lambda>n. n\<lparr>isize := sz\<rparr>) st1 in
             do { (ok, st3) \<leftarrow> write_file_data bd (first_sector (inodes st2 ! index)) buffer sz st2;
                  if \<not> ok then Some (False, st3)
                  else let (ok2, st4) = write_inode bd index st3 in
                    if \<not> ok2 then Some (False, st4) else Some (write_bitmap bd st4) } })"

definition write_new :: "'d blockdev \<Rightarrow> nat \<Rightarrow> u8 list \<Rightarrow> u8 list \<Rightarrow> u32 \<Rightarrow> 'd diskfs \<Rightarrow> (bool \<times> 'd diskfs) option" where
  "write_new bd parent leaf buffer sz st =
     (let sectors = sectors_for_size sz; (index, st1) = alloc_inode st in
      case index of
        None \<Rightarrow> Some (False, snd (commit_transaction bd st1))
      | Some i \<Rightarrow>
          do { (first, st2) \<leftarrow> alloc_contiguous (unat sectors) st1;
               case first of
                 None \<Rightarrow> Some (False, snd (commit_transaction bd st2))
               | Some f \<Rightarrow>
                   let st3 = upd_inode i (\<lambda>_. zero_inode\<lparr>itype := DISKFS_TYPE_FILE, iparent := of_nat parent, isize := sz,
                         first_sector := of_nat f, sector_count := sectors, iname := set_name leaf\<rparr>) st2 in
                   do { (ok, st4) \<leftarrow> write_file_data bd (of_nat f) buffer sz st3;
                        if \<not> ok then Some (False, st4)
                        else let (ok2, st5) = write_inode bd i st4 in
                          if \<not> ok2 then Some (False, st5)
                          else let (ok3, st6) = write_superblock bd st5 in
                            if \<not> ok3 then Some (False, st6) else Some (write_bitmap bd st6) } })"

definition diskfs_write_file :: "'d blockdev \<Rightarrow> u8 list option \<Rightarrow> u8 list option \<Rightarrow> u32 \<Rightarrow> 'd diskfs \<Rightarrow> (bool \<times> 'd diskfs) option" where
  "diskfs_write_file bd path buffer sz st =
     (case (path, buffer) of
        (Some p, Some buf) \<Rightarrow>
          if \<not> available st \<or> sz > DISKFS_MAX_FILE_SIZE then Some (False, st)
          else (case ensure_parent_dir p st of
             None \<Rightarrow> Some (False, st)
           | Some (parent, leaf) \<Rightarrow>
               if \<not> inode_name_valid leaf then Some (False, st)
               else let existing = find_child parent leaf DISKFS_TYPE_FILE st;
                        (begun, st1) = begin_transaction bd st
                    in if \<not> begun then Some (False, st1)
                       else do { (ok, st2) \<leftarrow>
                                   (case existing of
                                      Some index \<Rightarrow> write_existing bd index buf sz st1
                                    | None \<Rightarrow> write_new bd parent leaf buf sz st1);
                                 if \<not> ok then Some (False, st2)
                                 else do { st3 \<leftarrow> rebuild_file_list st2; Some (commit_transaction bd st3) } })
      | _ \<Rightarrow> Some (False, st))"

definition diskfs_delete_file :: "'d blockdev \<Rightarrow> u8 list option \<Rightarrow> 'd diskfs \<Rightarrow> (bool \<times> 'd diskfs) option" where
  "diskfs_delete_file bd path st =
     (case diskfs_find_file path st of
        None \<Rightarrow> Some (False, st)
      | Some index \<Rightarrow>
          let (begun, st1) = begin_transaction bd st in
          if \<not> begun then Some (False, st1)
          else do { st2 \<leftarrow> free_extent (first_sector (inodes st1 ! index)) (sector_count (inodes st1 ! index)) st1;
                    let st3 = upd_inode index (\<lambda>_. zero_inode) st2;
                    let (ok, st4) = write_inode bd index st3;
                    if \<not> ok then Some (False, st4)
                    else let (ok2, st5) = write_bitmap bd st4 in
                      if \<not> ok2 then Some (False, st5)
                      else do { st6 \<leftarrow> rebuild_file_list st5; Some (commit_transaction bd st6) } })"

definition diskfs_rename_file :: "'d blockdev \<Rightarrow> u8 list option \<Rightarrow> u8 list \<Rightarrow> 'd diskfs \<Rightarrow> (bool \<times> 'd diskfs) option" where
  "diskfs_rename_file bd old_path new_path st =
     (case (diskfs_find_file old_path st, ensure_parent_dir new_path st) of
        (Some index, Some (parent, leaf)) \<Rightarrow>
          if \<not> inode_name_valid leaf \<or> find_child parent leaf 0 st \<noteq> None then Some (False, st)
          else let (begun, st1) = begin_transaction bd st in
            if \<not> begun then Some (False, st1)
            else let st2 = upd_inode index (\<lambda>n. n\<lparr>iparent := of_nat parent, iname := set_name leaf\<rparr>) st1;
                     (ok, st3) = write_inode bd index st2
                 in if \<not> ok then Some (False, st3)
                    else do { st4 \<leftarrow> rebuild_file_list st3; Some (commit_transaction bd st4) }
      | _ \<Rightarrow> Some (False, st))"

definition diskfs_truncate_file :: "'d blockdev \<Rightarrow> u8 list option \<Rightarrow> u32 \<Rightarrow> 'd diskfs \<Rightarrow> (bool \<times> 'd diskfs) option" where
  "diskfs_truncate_file bd path sz st =
     (if sz > DISKFS_MAX_FILE_SIZE then Some (False, st)
      else case diskfs_find_file path st of
        None \<Rightarrow> if sz = 0 then diskfs_write_file bd path (Some [0]) 0 st else Some (False, st)
      | Some index \<Rightarrow>
          let old = isize (inodes st ! index) in
          if sz = old then Some (True, st)
          else if sz = 0 then diskfs_write_file bd path (Some [0]) 0 st
          else if old > DISKFS_READ_BUFFER_SIZE \<or> sz > DISKFS_READ_BUFFER_SIZE then Some (False, st)
          else let zeroed = mem_copy_at (file_buffer st) 0 (replicate (unat sz) 0);
                   (_, bytes, st1) = diskfs_read_index bd (of_nat index) 0 True old (st\<lparr>file_buffer := zeroed\<rparr>);
                   buffer = mem_copy_at (file_buffer st1) 0 bytes
               in diskfs_write_file bd path (Some buffer) sz (st1\<lparr>file_buffer := buffer\<rparr>))"

definition diskfs_read_file :: "'d blockdev \<Rightarrow> u8 list option \<Rightarrow> 'd diskfs \<Rightarrow> (u8 list \<times> nat) option \<times> 'd diskfs" where
  "diskfs_read_file bd name st =
     (case diskfs_find_file name st of
        None \<Rightarrow> (None, st)
      | Some index \<Rightarrow>
          let sz = isize (inodes st ! index) in
          if sz > DISKFS_READ_BUFFER_SIZE then (None, st)
          else let (ok, bytes, st1) = diskfs_read_index bd (of_nat index) 0 True sz st;
                   buf = mem_copy_at (file_buffer st1) 0 bytes
               in if \<not> ok then (None, st1\<lparr>file_buffer := buf\<rparr>)
                  else let buf' = (if length bytes < unat DISKFS_READ_BUFFER_SIZE then buf[length bytes := 0] else buf)
                       in (Some (buf', length bytes), st1\<lparr>file_buffer := buf'\<rparr>))"

definition diskfs_max_file_size :: u32 where "diskfs_max_file_size = DISKFS_MAX_FILE_SIZE"

section \<open>Consistency check\<close>

text \<open>A report is the text in the caller's buffer of \<open>report_size\<close> bytes, \<open>None\<close> without a buffer.\<close>

definition append_report :: "nat \<Rightarrow> u8 list \<Rightarrow> u8 list option \<Rightarrow> u8 list option" where
  "append_report report_size txt report =
     (case report of
        None \<Rightarrow> None
      | Some r \<Rightarrow> if report_size = 0 then report else Some (r @ take (report_size - 1 - length r) txt))"

record fsck_state =
  seen :: "u8 list"
  errors :: u32
  report :: "u8 list option"

definition seen_get :: "nat \<Rightarrow> fsck_state \<Rightarrow> bool option" where
  "seen_get sector f =
     (if sector div 8 < length (seen f) then Some (seen f ! (sector div 8) AND push_bit (sector mod 8) 1 \<noteq> 0) else None)"

definition seen_set :: "nat \<Rightarrow> fsck_state \<Rightarrow> fsck_state option" where
  "seen_set sector f =
     (if sector div 8 < length (seen f)
      then Some (f\<lparr>seen := (seen f)[sector div 8 := seen f ! (sector div 8) OR push_bit (sector mod 8) 1]\<rparr>) else None)"

definition fsck_error :: "nat \<Rightarrow> u8 list \<Rightarrow> fsck_state \<Rightarrow> fsck_state" where
  "fsck_error report_size txt f = f\<lparr>errors := errors f + 1, report := append_report report_size txt (report f)\<rparr>"

fun fsck_reserved :: "nat \<Rightarrow> nat \<Rightarrow> fsck_state \<Rightarrow> fsck_state option" where
  "fsck_reserved sector 0 f = Some f"
| "fsck_reserved sector (Suc n) f = do { f' \<leftarrow> seen_set sector f; fsck_reserved (Suc sector) n f' }"

fun fsck_extent :: "nat \<Rightarrow> nat \<Rightarrow> nat \<Rightarrow> fsck_state \<Rightarrow> fsck_state option" where
  "fsck_extent rsz sector 0 f = Some f"
| "fsck_extent rsz sector (Suc n) f =
     do { taken \<leftarrow> seen_get sector f;
          f' \<leftarrow> seen_set sector (if taken then fsck_error rsz (ascii ''overlapping extent'' @ [10]) f else f);
          fsck_extent rsz (Suc sector) n f' }"

fun fsck_inodes :: "nat \<Rightarrow> 'd diskfs \<Rightarrow> nat \<Rightarrow> nat \<Rightarrow> fsck_state \<Rightarrow> fsck_state option" where
  "fsck_inodes rsz st i 0 f = Some f"
| "fsck_inodes rsz st i (Suc k) f =
     (if i < length (inodes st) then
        let n = inodes st ! i; sb = superblock st in
        if itype n = DISKFS_TYPE_FILE then
          if first_sector n < data_start sb \<or> first_sector n + sector_count n > total_sectors sb
          then fsck_inodes rsz st (Suc i) k (fsck_error rsz (ascii ''file extent out of bounds'' @ [10]) f)
          else do { f' \<leftarrow> fsck_extent rsz (unat (first_sector n)) (unat (sector_count n)) f;
                    fsck_inodes rsz st (Suc i) k f' }
        else fsck_inodes rsz st (Suc i) k f
      else None)"

fun fsck_bitmap :: "nat \<Rightarrow> 'd diskfs \<Rightarrow> nat \<Rightarrow> nat \<Rightarrow> fsck_state \<Rightarrow> fsck_state option" where
  "fsck_bitmap rsz st sector 0 f = Some f"
| "fsck_bitmap rsz st sector (Suc n) f =
     do { expected \<leftarrow> seen_get sector f; used \<leftarrow> fs_bitmap_get sector st;
          if used \<noteq> expected then Some (fsck_error rsz (ascii ''bitmap mismatch'' @ [10]) f)
          else fsck_bitmap rsz st (Suc sector) n f }"

definition diskfs_fsck :: "bool \<Rightarrow> nat \<Rightarrow> 'd diskfs \<Rightarrow> (u32 \<times> u8 list option) option" where
  "diskfs_fsck buffer report_size st =
     (let f0 = \<lparr>seen = replicate DISKFS_BITMAP_BYTES 0, errors = 0, report = if buffer then Some [] else None\<rparr> in
      if \<not> available st then Some (1, append_report report_size (ascii ''diskfs unavailable'' @ [10]) (report f0))
      else do { f1 \<leftarrow> fsck_reserved 0 (unat (data_start (superblock st))) f0;
                f2 \<leftarrow> fsck_inodes report_size st 0 (unat (inode_count (superblock st))) f1;
                f3 \<leftarrow> fsck_bitmap report_size st 0 (unat (total_sectors (superblock st))) f2;
                Some (errors f3, if errors f3 = 0 then append_report report_size (ascii ''diskfs fsck: clean'' @ [10]) (report f3)
                                 else report f3) })"

end
