(* ===== verification/Diskfs_Alloc.thy ===== *)
theory Diskfs_Alloc
  imports Diskfs
begin

text \<open>The sector bitmap of the file system as a set of sectors: the extent allocator, the release of
  extents, and the consistency check.\<close>

section \<open>The bitmap\<close>

definition bits_on :: "u8 list \<Rightarrow> nat set" where
  "bits_on bs = {s. s div 8 < length bs \<and> bit (bs ! (s div 8)) (s mod 8)}"

definition used_sectors :: "'d diskfs \<Rightarrow> nat set" where
  "used_sectors st = bits_on (bitmap st)"

lemma div_mod_8: "(q :: nat) div 8 = p div 8 \<Longrightarrow> q mod 8 = p mod 8 \<longleftrightarrow> q = p"
  by (metis div_mult_mod_eq)

lemma bits_on_set:
  "p div 8 < length bs \<Longrightarrow> bits_on (bs[p div 8 := bs ! (p div 8) OR push_bit (p mod 8) 1]) = insert p (bits_on bs)"
proof (rule set_eqI)
  fix q assume p: "p div 8 < length bs"
  show "q \<in> bits_on (bs[p div 8 := bs ! (p div 8) OR push_bit (p mod 8) 1]) \<longleftrightarrow> q \<in> insert p (bits_on bs)"
  proof (cases "q div 8 = p div 8")
    case True
    then show ?thesis using p div_mod_8 [OF True] by (auto simp: bits_on_def bit_or_iff bit_exp_iff)
  next
    case False
    then show ?thesis using p by (auto simp: bits_on_def)
  qed
qed

lemma bits_on_clear:
  "p div 8 < length bs \<Longrightarrow> bits_on (bs[p div 8 := bs ! (p div 8) AND NOT (push_bit (p mod 8) 1)]) = bits_on bs - {p}"
proof (rule set_eqI)
  fix q assume p: "p div 8 < length bs"
  show "q \<in> bits_on (bs[p div 8 := bs ! (p div 8) AND NOT (push_bit (p mod 8) 1)]) \<longleftrightarrow> q \<in> bits_on bs - {p}"
  proof (cases "q div 8 = p div 8")
    case True
    then show ?thesis using p div_mod_8 [OF True]
      by (auto simp: bits_on_def bit_and_iff bit_not_iff bit_exp_iff)
  next
    case False
    then show ?thesis using p by (auto simp: bits_on_def)
  qed
qed

lemma fs_bitmap_get_ok: "s < 8 * length (bitmap st) \<Longrightarrow> fs_bitmap_get s st = Some (s \<in> used_sectors st)"
  by (simp add: fs_bitmap_get_def used_sectors_def bits_on_def and_exp_eq_0_iff less_mult_imp_div_less mult.commute)

lemma fs_bitmap_set_ok:
  assumes "s < 8 * length (bitmap st)"
  shows "\<exists>bm. fs_bitmap_set s v st = Some (st\<lparr>bitmap := bm\<rparr>) \<and> length bm = length (bitmap st)
    \<and> bits_on bm = (if v then insert s (used_sectors st) else used_sectors st - {s})"
proof -
  have "s div 8 < length (bitmap st)" using assms by (simp add: less_mult_imp_div_less mult.commute)
  from bits_on_set [OF this] bits_on_clear [OF this] this show ?thesis
    by (cases v) (auto simp: fs_bitmap_set_def Let_def used_sectors_def)
qed

lemma mark_run_ok:
  "first + n \<le> 8 * length (bitmap st) \<Longrightarrow> \<exists>bm. mark_run first n st = Some (st\<lparr>bitmap := bm\<rparr>)
    \<and> length bm = length (bitmap st) \<and> bits_on bm = used_sectors st \<union> {first..<first + n}"
proof (induction n arbitrary: first st)
  case 0
  then show ?case by (intro exI [of _ "bitmap st"]) (simp add: used_sectors_def)
next
  case (Suc n)
  obtain bm where bm: "fs_bitmap_set first True st = Some (st\<lparr>bitmap := bm\<rparr>)" "length bm = length (bitmap st)"
      "bits_on bm = insert first (used_sectors st)"
    using fs_bitmap_set_ok [of first st True] Suc.prems by auto
  obtain bm' where bm': "mark_run (Suc first) n (st\<lparr>bitmap := bm\<rparr>) = Some (st\<lparr>bitmap := bm'\<rparr>)"
      "length bm' = length bm" "bits_on bm' = bits_on bm \<union> {Suc first..<Suc first + n}"
    using Suc.IH [of "Suc first" "st\<lparr>bitmap := bm\<rparr>"] Suc.prems bm(2) by (auto simp: used_sectors_def)
  have "{first..<first + Suc n} = insert first {Suc first..<Suc first + n}" by auto
  then show ?case using bm bm' by (intro exI [of _ bm']) auto
qed

section \<open>First-fit extents\<close>

definition run_clear :: "'d diskfs \<Rightarrow> nat \<Rightarrow> nat \<Rightarrow> bool" where
  "run_clear st p n \<longleftrightarrow> {p..<p + n} \<inter> used_sectors st = {}"

definition alloc_post :: "nat \<Rightarrow> nat \<Rightarrow> nat \<Rightarrow> 'd diskfs \<Rightarrow> nat option \<Rightarrow> 'd diskfs \<Rightarrow> bool" where
  "alloc_post lo hi sectors st r st' \<longleftrightarrow>
    (case r of
       None \<Rightarrow> st' = st \<and> (\<forall>p. lo \<le> p \<and> p + sectors \<le> hi \<longrightarrow> \<not> run_clear st p sectors)
     | Some f \<Rightarrow> lo \<le> f \<and> f + sectors \<le> hi \<and> run_clear st f sectors \<and> (\<forall>p. lo \<le> p \<and> p < f \<longrightarrow> \<not> run_clear st p sectors)
         \<and> (\<exists>bm. st' = st\<lparr>bitmap := bm\<rparr> \<and> length bm = length (bitmap st) \<and> bits_on bm = used_sectors st \<union> {f..<f + sectors}))"

lemma alloc_from_ok:
  assumes "sector + n \<le> 8 * length (bitmap st)" and "run_len < sectors" and "run_len \<le> sector - lo" and "lo \<le> sector"
    and "run_len \<noteq> 0 \<Longrightarrow> run_start = sector - run_len" and "run_clear st (sector - run_len) run_len"
    and "\<forall>p. lo \<le> p \<and> p < sector - run_len \<longrightarrow> \<not> run_clear st p sectors" and "hi = sector + n"
  shows "\<exists>r st'. alloc_from sectors sector n run_start run_len st = Some (r, st') \<and> alloc_post lo hi sectors st r st'"
  using assms
proof (induction n arbitrary: sector run_start run_len)
  case 0
  have "\<not> run_clear st p sectors" if "lo \<le> p" "p + sectors \<le> sector" for p
    using 0 that by simp
  then show ?case using 0(8) by (auto simp: alloc_post_def)
next
  case (Suc n)
  have get: "fs_bitmap_get sector st = Some (sector \<in> used_sectors st)" using Suc.prems(1) by (intro fs_bitmap_get_ok) simp
  show ?case
  proof (cases "sector \<in> used_sectors st")
    case True
    have none: "\<not> run_clear st p sectors" if "lo \<le> p" "p < Suc sector" for p
    proof (cases "p < sector - run_len")
      case False
      then have "sector \<in> {p..<p + sectors}" using that Suc.prems(2) by auto
      then show ?thesis using True by (auto simp: run_clear_def)
    qed (use Suc.prems(7) that in blast)
    have "\<exists>r st'. alloc_from sectors (Suc sector) n run_start 0 st = Some (r, st') \<and> alloc_post lo hi sectors st r st'"
      by (rule Suc.IH) (use Suc.prems none in \<open>auto simp: run_clear_def\<close>)
    then show ?thesis using get True by simp
  next
    case False
    define rs where "rs = (if run_len = 0 then sector else run_start)"
    have rs: "rs = sector - run_len" "rs = Suc sector - Suc run_len" using Suc.prems(5) by (auto simp: rs_def)
    have clr: "run_clear st rs (Suc run_len)"
    proof -
      have "{rs..<rs + Suc run_len} = insert sector {sector - run_len..<sector - run_len + run_len}"
        using rs(1) Suc.prems(3,4) by auto
      then show ?thesis using Suc.prems(6) False by (simp add: run_clear_def)
    qed
    show ?thesis
    proof (cases "Suc run_len = sectors")
      case True
      have hi: "rs + sectors \<le> hi" using rs True Suc.prems(3,4,8) by auto
      then have "rs + sectors \<le> 8 * length (bitmap st)" using Suc.prems(1,8) by simp
      then obtain bm where bm: "mark_run rs sectors st = Some (st\<lparr>bitmap := bm\<rparr>)" "length bm = length (bitmap st)"
          "bits_on bm = used_sectors st \<union> {rs..<rs + sectors}" using mark_run_ok by blast
      have "lo \<le> rs" "\<forall>p. lo \<le> p \<and> p < rs \<longrightarrow> \<not> run_clear st p sectors" using rs(1) Suc.prems(3,4,7) by auto
      then have "alloc_post lo hi sectors st (Some rs) (st\<lparr>bitmap := bm\<rparr>)"
        using bm hi clr True by (auto simp: alloc_post_def)
      then show ?thesis using get False True bm(1) by (simp add: Let_def rs_def [symmetric])
    next
      case less: False
      have "\<exists>r st'. alloc_from sectors (Suc sector) n rs (Suc run_len) st = Some (r, st') \<and> alloc_post lo hi sectors st r st'"
        by (rule Suc.IH) (use Suc.prems rs clr less in auto)
      then show ?thesis using get False less by (simp add: Let_def rs_def [symmetric])
    qed
  qed
qed

lemma alloc_contiguous_ok:
  assumes "length (bitmap st) = DISKFS_BITMAP_BYTES" and "total_sectors (superblock st) = DISKFS_TOTAL_SECTORS" and "0 < sectors"
  shows "\<exists>r st'. alloc_contiguous sectors st = Some (r, st')
    \<and> alloc_post (unat (data_start (superblock st))) (max (unat (data_start (superblock st))) 4096) sectors st r st'"
proof -
  let ?d = "unat (data_start (superblock st))"
  have "\<exists>r st'. alloc_from sectors ?d (4096 - ?d) ?d 0 st = Some (r, st') \<and> alloc_post ?d (max ?d 4096) sectors st r st'"
  proof (cases "?d \<le> 4096")
    case True
    then show ?thesis using assms by (intro alloc_from_ok) (auto simp: run_clear_def)
  next
    case False
    then show ?thesis using assms(3) by (auto simp: alloc_post_def)
  qed
  then show ?thesis using assms(2) by (simp add: alloc_contiguous_def Let_def)
qed

lemma free_extent_from_ok:
  assumes "length (bitmap st) = DISKFS_BITMAP_BYTES" and "total_sectors (superblock st) = DISKFS_TOTAL_SECTORS"
    and "unat first + i + n \<le> 4096"
  shows "\<exists>bm. free_extent_from first i n st = Some (st\<lparr>bitmap := bm\<rparr>) \<and> length bm = DISKFS_BITMAP_BYTES
    \<and> bits_on bm = used_sectors st - {unat first + i..<unat first + i + n}"
  using assms
proof (induction n arbitrary: i st)
  case 0
  then show ?case by (intro exI [of _ "bitmap st"]) (simp add: used_sectors_def)
next
  case (Suc n)
  have u: "unat (first + of_nat i) = unat first + i" using Suc.prems(3) by (simp add: unat_word_ariths unat_of_nat)
  then have lt: "first + of_nat i < total_sectors (superblock st)" using Suc.prems by (simp add: word_less_nat_alt)
  obtain bm where bm: "fs_bitmap_set (unat first + i) False st = Some (st\<lparr>bitmap := bm\<rparr>)" "length bm = 512"
      "bits_on bm = used_sectors st - {unat first + i}"
    using fs_bitmap_set_ok [of "unat first + i" st False] Suc.prems by auto
  obtain bm' where bm': "free_extent_from first (Suc i) n (st\<lparr>bitmap := bm\<rparr>) = Some (st\<lparr>bitmap := bm'\<rparr>)" "length bm' = 512"
      "bits_on bm' = bits_on bm - {unat first + Suc i..<unat first + Suc i + n}"
    using Suc.IH [of "st\<lparr>bitmap := bm\<rparr>" "Suc i"] Suc.prems bm(2) by (auto simp: used_sectors_def)
  have "{unat first + i..<unat first + i + Suc n} = insert (unat first + i) {unat first + Suc i..<unat first + Suc i + n}" by auto
  then show ?case using bm bm' u lt by (intro exI [of _ bm']) auto
qed

lemma free_extent_ok:
  assumes "length (bitmap st) = DISKFS_BITMAP_BYTES" and "total_sectors (superblock st) = DISKFS_TOTAL_SECTORS"
    and "unat first + unat n \<le> 4096"
  shows "\<exists>bm. free_extent first n st = Some (st\<lparr>bitmap := bm\<rparr>) \<and> length bm = DISKFS_BITMAP_BYTES
    \<and> bits_on bm = used_sectors st - {unat first..<unat first + unat n}"
  using free_extent_from_ok [of st first 0 "unat n"] assms by (simp add: free_extent_def)

section \<open>Consistency\<close>

definition fs_layout :: "'d diskfs \<Rightarrow> bool" where
  "fs_layout st \<longleftrightarrow> available st \<and> total_sectors (superblock st) = DISKFS_TOTAL_SECTORS
     \<and> unat (data_start (superblock st)) \<le> 4096 \<and> unat (inode_count (superblock st)) \<le> DISKFS_MAX_INODES
     \<and> length (inodes st) = DISKFS_MAX_INODES \<and> length (bitmap st) = DISKFS_BITMAP_BYTES"

definition file_extent :: "diskfs_inode \<Rightarrow> nat set" where
  "file_extent n = (if itype n = DISKFS_TYPE_FILE then {unat (first_sector n)..<unat (first_sector n) + unat (sector_count n)} else {})"

definition extent_in :: "nat \<Rightarrow> diskfs_inode \<Rightarrow> bool" where
  "extent_in lo n \<longleftrightarrow> (itype n = DISKFS_TYPE_FILE \<longrightarrow> lo \<le> unat (first_sector n) \<and> unat (first_sector n) + unat (sector_count n) \<le> 4096)"

definition live_inodes :: "'d diskfs \<Rightarrow> diskfs_inode list" where
  "live_inodes st = take (unat (inode_count (superblock st))) (inodes st)"

text \<open>A consistent file system: the extents of the files lie in the data area and are pairwise disjoint,
  and the bitmap marks exactly the metadata sectors and these extents.\<close>

definition fs_clean :: "'d diskfs \<Rightarrow> bool" where
  "fs_clean st \<longleftrightarrow> fs_layout st \<and> (\<forall>n \<in> set (live_inodes st). extent_in (unat (data_start (superblock st))) n)
     \<and> sorted_wrt (\<lambda>m n. file_extent m \<inter> file_extent n = {}) (live_inodes st)
     \<and> used_sectors st = {..<unat (data_start (superblock st))} \<union> (\<Union>n \<in> set (live_inodes st). file_extent n)"

definition seen_sectors :: "fsck_state \<Rightarrow> nat set" where "seen_sectors f = bits_on (seen f)"

lemma seen_get_ok: "s < 8 * length (seen f) \<Longrightarrow> seen_get s f = Some (s \<in> seen_sectors f)"
  by (simp add: seen_get_def seen_sectors_def bits_on_def and_exp_eq_0_iff less_mult_imp_div_less mult.commute)

lemma seen_set_ok:
  assumes "s < 8 * length (seen f)"
  shows "\<exists>bs. seen_set s f = Some (f\<lparr>seen := bs\<rparr>) \<and> length bs = length (seen f) \<and> bits_on bs = insert s (seen_sectors f)"
proof -
  have "s div 8 < length (seen f)" using assms by (simp add: less_mult_imp_div_less mult.commute)
  from bits_on_set [OF this] this show ?thesis by (auto simp: seen_set_def seen_sectors_def)
qed

lemma fsck_reserved_ok:
  "sector + n \<le> 8 * length (seen f) \<Longrightarrow> \<exists>bs. fsck_reserved sector n f = Some (f\<lparr>seen := bs\<rparr>)
    \<and> length bs = length (seen f) \<and> bits_on bs = seen_sectors f \<union> {sector..<sector + n}"
proof (induction n arbitrary: sector f)
  case 0
  then show ?case by (intro exI [of _ "seen f"]) (simp add: seen_sectors_def)
next
  case (Suc n)
  obtain bs where bs: "seen_set sector f = Some (f\<lparr>seen := bs\<rparr>)" "length bs = length (seen f)" "bits_on bs = insert sector (seen_sectors f)"
    using seen_set_ok [of sector f] Suc.prems by auto
  obtain bs' where bs': "fsck_reserved (Suc sector) n (f\<lparr>seen := bs\<rparr>) = Some (f\<lparr>seen := bs'\<rparr>)" "length bs' = length bs"
      "bits_on bs' = bits_on bs \<union> {Suc sector..<Suc sector + n}"
    using Suc.IH [of "Suc sector" "f\<lparr>seen := bs\<rparr>"] Suc.prems bs(2) by (auto simp: seen_sectors_def)
  have "{sector..<sector + Suc n} = insert sector {Suc sector..<Suc sector + n}" by auto
  then show ?case using bs bs' by (intro exI [of _ bs']) auto
qed

lemma fsck_extent_ok:
  "sector + n \<le> 8 * length (seen f) \<Longrightarrow> unat (errors f) + n < 2 ^ 32 \<Longrightarrow>
    \<exists>f'. fsck_extent rsz sector n f = Some f' \<and> length (seen f') = length (seen f)
      \<and> seen_sectors f' = seen_sectors f \<union> {sector..<sector + n}
      \<and> unat (errors f') = unat (errors f) + card ({sector..<sector + n} \<inter> seen_sectors f)"
proof (induction n arbitrary: sector f)
  case 0
  then show ?case by simp
next
  case (Suc n)
  let ?t = "sector \<in> seen_sectors f"
  define g where "g = (if ?t then fsck_error rsz (ascii ''overlapping extent'' @ [10]) f else f)"
  have g: "seen g = seen f" "unat (errors g) = unat (errors f) + of_bool ?t"
    using Suc.prems(2) by (auto simp: g_def fsck_error_def unat_word_ariths)
  obtain bs where bs: "seen_set sector g = Some (g\<lparr>seen := bs\<rparr>)" "length bs = length (seen f)" "bits_on bs = insert sector (seen_sectors f)"
    using seen_set_ok [of sector g] Suc.prems(1) g(1) by (auto simp: seen_sectors_def)
  have "unat (errors g) + n < 2 ^ 32" using g(2) Suc.prems(2) by (cases ?t) auto
  then obtain f' where f': "fsck_extent rsz (Suc sector) n (g\<lparr>seen := bs\<rparr>) = Some f'" "length (seen f') = length bs"
      "seen_sectors f' = bits_on bs \<union> {Suc sector..<Suc sector + n}"
      "unat (errors f') = unat (errors g) + card ({Suc sector..<Suc sector + n} \<inter> bits_on bs)"
    using Suc.IH [of "Suc sector" "g\<lparr>seen := bs\<rparr>"] Suc.prems(1) bs(2) by (auto simp: seen_sectors_def)
  have s: "{sector..<sector + Suc n} = insert sector {Suc sector..<Suc sector + n}" by auto
  have i: "{Suc sector..<Suc sector + n} \<inter> bits_on bs = {Suc sector..<Suc sector + n} \<inter> seen_sectors f" using bs(3) by auto
  have "card ({sector..<sector + Suc n} \<inter> seen_sectors f) = of_bool ?t + card ({Suc sector..<Suc sector + n} \<inter> seen_sectors f)"
    unfolding s by (auto simp: Int_insert_left)
  moreover have "fsck_extent rsz sector (Suc n) f = Some f'"
    using f'(1) bs(1) seen_get_ok [of sector f] Suc.prems(1) by (simp add: g_def [symmetric])
  ultimately show ?case
    using f'(2-4) bs(2,3) g(2) unfolding s i by (intro exI [of _ f']) (simp add: seen_sectors_def)
qed

lemma fsck_inode_step:
  assumes lay: "fs_layout st" and i: "i < length (inodes st)" and len: "length (seen f) = DISKFS_BITMAP_BYTES"
    and wrap: "itype (inodes st ! i) = DISKFS_TYPE_FILE \<longrightarrow> unat (first_sector (inodes st ! i)) + unat (sector_count (inodes st ! i)) < 2 ^ 32"
    and e: "unat (errors f) + 8192 < 2 ^ 32"
  defines "n \<equiv> inodes st ! i"
  shows "\<exists>f1. fsck_inodes rsz st i (Suc k) f = fsck_inodes rsz st (Suc i) k f1 \<and> length (seen f1) = DISKFS_BITMAP_BYTES
    \<and> unat (errors f) \<le> unat (errors f1) \<and> unat (errors f1) \<le> unat (errors f) + 8192
    \<and> (errors f1 = errors f \<longleftrightarrow> extent_in (unat (data_start (superblock st))) n \<and> file_extent n \<inter> seen_sectors f = {})
    \<and> (errors f1 = errors f \<longrightarrow> seen_sectors f1 = seen_sectors f \<union> file_extent n)"
proof (cases "itype n = DISKFS_TYPE_FILE")
  case False
  then show ?thesis using i len by (intro exI [of _ f]) (simp add: n_def extent_in_def file_extent_def)
next
  case isf: True
  have tot: "total_sectors (superblock st) = 4096" using lay by (simp add: fs_layout_def)
  have "unat (first_sector n + sector_count n) = unat (first_sector n) + unat (sector_count n)"
    using wrap isf by (simp add: n_def unat_word_ariths)
  then have ob: "first_sector n < data_start (superblock st) \<or> first_sector n + sector_count n > total_sectors (superblock st)
      \<longleftrightarrow> \<not> extent_in (unat (data_start (superblock st))) n"
    using isf by (auto simp: tot extent_in_def word_less_nat_alt)
  show ?thesis
  proof (cases "extent_in (unat (data_start (superblock st))) n")
    case False
    let ?g = "fsck_error rsz (ascii ''file extent out of bounds'' @ [10]) f"
    have g: "unat (errors ?g) = unat (errors f) + 1" "seen ?g = seen f" using e by (simp_all add: fsck_error_def unat_word_ariths)
    then have "errors ?g \<noteq> errors f" by auto
    moreover have "fsck_inodes rsz st i (Suc k) f = fsck_inodes rsz st (Suc i) k ?g"
      using i isf ob False by (auto simp: Let_def n_def)
    ultimately show ?thesis using g False len by (intro exI [of _ ?g]) simp
  next
    case True
    have ext: "file_extent n = {unat (first_sector n)..<unat (first_sector n) + unat (sector_count n)}" using isf by (simp add: file_extent_def)
    have b: "unat (first_sector n) + unat (sector_count n) \<le> 4096" using True isf by (simp add: extent_in_def)
    obtain f1 where f1: "fsck_extent rsz (unat (first_sector n)) (unat (sector_count n)) f = Some f1" "length (seen f1) = 512"
        "seen_sectors f1 = seen_sectors f \<union> file_extent n" "unat (errors f1) = unat (errors f) + card (file_extent n \<inter> seen_sectors f)"
      using fsck_extent_ok [of "unat (first_sector n)" "unat (sector_count n)" f rsz] len b e unfolding ext by auto
    have "card (file_extent n \<inter> seen_sectors f) \<le> card (file_extent n)" by (intro card_mono) (auto simp: ext)
    then have c: "card (file_extent n \<inter> seen_sectors f) \<le> 4096" using b by (simp add: ext)
    have "errors f1 = errors f \<longleftrightarrow> file_extent n \<inter> seen_sectors f = {}"
      using f1(4) by (auto simp: word_unat_eq_iff ext)
    moreover have "fsck_inodes rsz st i (Suc k) f = fsck_inodes rsz st (Suc i) k f1"
      using i isf ob True f1(1) by (auto simp: Let_def n_def)
    ultimately show ?thesis using f1 True c by (intro exI [of _ f1]) auto
  qed
qed

lemma fsck_inodes_ok:
  assumes lay: "fs_layout st" and "i + k \<le> unat (inode_count (superblock st))" and "length (seen f) = DISKFS_BITMAP_BYTES"
    and wrap: "\<forall>n \<in> set (live_inodes st). itype n = DISKFS_TYPE_FILE \<longrightarrow> unat (first_sector n) + unat (sector_count n) < 2 ^ 32"
    and "unat (errors f) + (k + 1) * 8192 < 2 ^ 32"
  shows "\<exists>f'. fsck_inodes rsz st i k f = Some f' \<and> length (seen f') = DISKFS_BITMAP_BYTES
    \<and> unat (errors f') \<le> unat (errors f) + k * 8192 \<and> unat (errors f) \<le> unat (errors f')
    \<and> (errors f' = errors f \<longleftrightarrow> (\<forall>n \<in> set (take k (drop i (inodes st))).
          extent_in (unat (data_start (superblock st))) n \<and> file_extent n \<inter> seen_sectors f = {})
        \<and> sorted_wrt (\<lambda>m n. file_extent m \<inter> file_extent n = {}) (take k (drop i (inodes st))))
    \<and> (errors f' = errors f \<longrightarrow> seen_sectors f' = seen_sectors f \<union> (\<Union>n \<in> set (take k (drop i (inodes st))). file_extent n))"
  using assms(2,3,5)
proof (induction k arbitrary: i f)
  case 0
  then show ?case by simp
next
  case (Suc k)
  let ?n = "inodes st ! i" and ?lo = "unat (data_start (superblock st))" and ?ns = "take k (drop (Suc i) (inodes st))"
  have i: "i < length (inodes st)" "?n \<in> set (live_inodes st)"
    using Suc.prems(1) lay by (auto simp: fs_layout_def live_inodes_def in_set_conv_nth intro!: exI [of _ i])
  have ns: "take (Suc k) (drop i (inodes st)) = ?n # ?ns" using i(1) by (simp add: take_Suc_conv_app_nth Cons_nth_drop_Suc [symmetric])
  have "unat (errors f) + 8192 < 2 ^ 32" using Suc.prems(3) by simp
  from fsck_inode_step [OF lay i(1) Suc.prems(2) _ this, of rsz k] obtain f1 where
    f1: "fsck_inodes rsz st i (Suc k) f = fsck_inodes rsz st (Suc i) k f1" "length (seen f1) = 512"
      "unat (errors f) \<le> unat (errors f1)" "unat (errors f1) \<le> unat (errors f) + 8192"
      "errors f1 = errors f \<longleftrightarrow> extent_in ?lo ?n \<and> file_extent ?n \<inter> seen_sectors f = {}"
      "errors f1 = errors f \<longrightarrow> seen_sectors f1 = seen_sectors f \<union> file_extent ?n"
    using wrap i(2) by blast
  have "unat (errors f1) + (k + 1) * 8192 < 2 ^ 32" using f1(4) Suc.prems(3) by simp
  from Suc.IH [OF _ f1(2) this, of "Suc i"] obtain f' where
    f': "fsck_inodes rsz st (Suc i) k f1 = Some f'" "length (seen f') = 512" "unat (errors f') \<le> unat (errors f1) + k * 8192"
      "unat (errors f1) \<le> unat (errors f')"
      "errors f' = errors f1 \<longleftrightarrow> (\<forall>n \<in> set ?ns. extent_in ?lo n \<and> file_extent n \<inter> seen_sectors f1 = {})
        \<and> sorted_wrt (\<lambda>m n. file_extent m \<inter> file_extent n = {}) ?ns"
      "errors f' = errors f1 \<longrightarrow> seen_sectors f' = seen_sectors f1 \<union> (\<Union>n \<in> set ?ns. file_extent n)"
    using Suc.prems(1) by auto
  have eq: "errors f' = errors f \<longleftrightarrow> errors f1 = errors f \<and> errors f' = errors f1"
    using f1(3) f'(4) by (metis eq_iff word_unat_eq_iff)
  have "errors f' = errors f \<longleftrightarrow> (\<forall>n \<in> set (?n # ?ns). extent_in ?lo n \<and> file_extent n \<inter> seen_sectors f = {})
        \<and> sorted_wrt (\<lambda>m n. file_extent m \<inter> file_extent n = {}) (?n # ?ns)"
  proof (cases "errors f1 = errors f")
    case True
    then have s1: "seen_sectors f1 = seen_sectors f \<union> file_extent ?n" using f1(6) by blast
    have "(\<forall>n \<in> set ?ns. extent_in ?lo n \<and> file_extent n \<inter> seen_sectors f1 = {}) \<longleftrightarrow>
      (\<forall>n \<in> set ?ns. extent_in ?lo n \<and> file_extent n \<inter> seen_sectors f = {}) \<and> (\<forall>n \<in> set ?ns. file_extent ?n \<inter> file_extent n = {})"
      unfolding s1 by blast
    then show ?thesis using True eq f1(5) f'(5) by auto
  next
    case False
    then show ?thesis using eq f1(5) by auto
  qed
  moreover have "seen_sectors f' = seen_sectors f \<union> (\<Union>n \<in> set (?n # ?ns). file_extent n)" if "errors f' = errors f"
    using that eq f1(6) f'(6) by auto
  ultimately show ?case using f1 f' unfolding ns by (intro exI [of _ f']) simp
qed

lemma fsck_bitmap_ok:
  assumes "length (seen f) = DISKFS_BITMAP_BYTES" and "length (bitmap st) = DISKFS_BITMAP_BYTES" and "sector + n \<le> 4096"
    and "unat (errors f) + 1 < 2 ^ 32"
  shows "\<exists>f'. fsck_bitmap rsz st sector n f = Some f' \<and> unat (errors f) \<le> unat (errors f')
    \<and> (errors f' = errors f \<longleftrightarrow> (\<forall>s \<in> {sector..<sector + n}. s \<in> used_sectors st \<longleftrightarrow> s \<in> seen_sectors f))"
  using assms(3)
proof (induction n arbitrary: sector)
  case 0
  then show ?case by simp
next
  case (Suc n)
  have g: "seen_get sector f = Some (sector \<in> seen_sectors f)" "fs_bitmap_get sector st = Some (sector \<in> used_sectors st)"
    using assms(1,2) Suc.prems by (simp_all add: seen_get_ok fs_bitmap_get_ok)
  have s: "{sector..<sector + Suc n} = insert sector {Suc sector..<Suc sector + n}" by auto
  show ?case
  proof (cases "sector \<in> used_sectors st \<longleftrightarrow> sector \<in> seen_sectors f")
    case True
    then show ?thesis using Suc.IH [of "Suc sector"] Suc.prems g unfolding s by auto
  next
    case False
    let ?f = "fsck_error rsz (ascii ''bitmap mismatch'' @ [10]) f"
    have e: "unat (errors ?f) = unat (errors f) + 1" using assms(4) by (simp add: fsck_error_def unat_word_ariths)
    then have "errors ?f \<noteq> errors f" by auto
    then show ?thesis using g False e unfolding s by (intro exI [of _ ?f]) auto
  qed
qed

lemma bits_on_bound: "length bs = 512 \<Longrightarrow> bits_on bs \<subseteq> {..<4096}"
  by (auto simp: bits_on_def)

lemma bits_on_zero: "bits_on (replicate n 0) = {}"
  by (auto simp: bits_on_def)

lemma diskfs_fsck_ok:
  assumes lay: "fs_layout st"
    and wrap: "\<forall>n \<in> set (live_inodes st). itype n = DISKFS_TYPE_FILE \<longrightarrow> unat (first_sector n) + unat (sector_count n) < 2 ^ 32"
  shows "\<exists>e r. diskfs_fsck b rsz st = Some (e, r) \<and> (e = 0 \<longleftrightarrow> fs_clean st)"
proof -
  let ?lo = "unat (data_start (superblock st))" and ?k = "unat (inode_count (superblock st))"
  let ?f0 = "\<lparr>seen = replicate 512 0, errors = 0, report = if b then Some [] else None\<rparr>"
  have L: "available st" "total_sectors (superblock st) = 4096" "?lo \<le> 4096" "?k \<le> 64" "length (bitmap st) = 512"
    using lay by (auto simp: fs_layout_def)
  obtain bs where f1: "fsck_reserved 0 ?lo ?f0 = Some (?f0\<lparr>seen := bs\<rparr>)" "length bs = 512" "bits_on bs = {..<?lo}"
    using fsck_reserved_ok [of 0 ?lo ?f0] L(3) by (auto simp: seen_sectors_def bits_on_zero lessThan_atLeast0)
  let ?f1 = "?f0\<lparr>seen := bs\<rparr>"
  obtain f2 where f2: "fsck_inodes rsz st 0 ?k ?f1 = Some f2" "length (seen f2) = 512" "unat (errors f2) \<le> ?k * 8192"
      "errors f2 = 0 \<longleftrightarrow> (\<forall>n \<in> set (live_inodes st). extent_in ?lo n \<and> file_extent n \<inter> {..<?lo} = {})
        \<and> sorted_wrt (\<lambda>m n. file_extent m \<inter> file_extent n = {}) (live_inodes st)"
      "errors f2 = 0 \<longrightarrow> seen_sectors f2 = {..<?lo} \<union> (\<Union>n \<in> set (live_inodes st). file_extent n)"
    using fsck_inodes_ok [OF lay, of 0 ?k ?f1 rsz] wrap f1 L(4) by (auto simp: seen_sectors_def live_inodes_def)
  have "unat (errors f2) + 1 < 2 ^ 32" using f2(3) L(4) by simp
  from fsck_bitmap_ok [OF f2(2) L(5) _ this, of 0 4096 rsz] obtain f3 where
    f3: "fsck_bitmap rsz st 0 4096 f2 = Some f3" "unat (errors f2) \<le> unat (errors f3)"
      "errors f3 = errors f2 \<longleftrightarrow> (\<forall>s \<in> {0..<4096}. s \<in> used_sectors st \<longleftrightarrow> s \<in> seen_sectors f2)" by auto
  have sub: "used_sectors st \<subseteq> {..<4096}" "seen_sectors f2 \<subseteq> {..<4096}"
    using bits_on_bound L(5) f2(2) by (auto simp: used_sectors_def seen_sectors_def)
  have eqs: "(\<forall>s \<in> {0..<4096}. s \<in> used_sectors st \<longleftrightarrow> s \<in> seen_sectors f2) \<longleftrightarrow> used_sectors st = seen_sectors f2"
    using sub by (auto simp: set_eq_iff)
  have disj: "file_extent n \<inter> {..<?lo} = {}" if "extent_in ?lo n" for n
    using that by (auto simp: file_extent_def extent_in_def)
  then have within: "(\<forall>n \<in> set (live_inodes st). extent_in ?lo n \<and> file_extent n \<inter> {..<?lo} = {}) \<longleftrightarrow> (\<forall>n \<in> set (live_inodes st). extent_in ?lo n)"
    by blast
  have "errors f3 = 0 \<longleftrightarrow> errors f2 = 0 \<and> errors f3 = errors f2"
    using f3(2) by (auto simp: word_unat_eq_iff)
  also have "\<dots> \<longleftrightarrow> errors f2 = 0 \<and> used_sectors st = {..<?lo} \<union> (\<Union>n \<in> set (live_inodes st). file_extent n)"
    unfolding f3(3) eqs by (rule conj_cong) (simp_all only: f2(5) [rule_format])
  also have "\<dots> \<longleftrightarrow> fs_clean st"
    by (simp only: f2(4) within fs_clean_def lay simp_thms conj_assoc)
  finally show ?thesis using f1(1) f2(1) f3(1) L(1,2) by (simp add: diskfs_fsck_def Let_def)
qed

section \<open>Properties\<close>

text \<open>An empty file system with one directory, the root, on the blank drive.\<close>

definition blank_super :: diskfs_superblock where
  "blank_super = \<lparr>magic = DISKFS_MAGIC, total_sectors = DISKFS_TOTAL_SECTORS, max_inodes = 64, inode_count = 1, bitmap_start = 2,
     bitmap_sectors = 1, inode_start = 3, inode_sectors = 8, data_start = 16, journal_state = 0\<rparr>"

definition blank_fs :: "drive diskfs" where
  "blank_fs = \<lparr>dev = blank_drive, fs_start_lba = 2048, cache = cache blank_cache, cache_clock = 0, available = True,
     superblock = blank_super, inodes = zero_inode\<lparr>itype := DISKFS_TYPE_DIR\<rparr> # replicate 63 zero_inode,
     bitmap = [255, 255] @ replicate 510 0, file_list = [], file_buffer = replicate 16384 0\<rparr>"

lemma bit_255_u8: "bit (255 :: u8) n \<longleftrightarrow> n < 8"
proof -
  have "(255 :: u8) = mask 8" by (simp add: mask_eq_exp_minus_1)
  then show ?thesis by (simp only: bit_mask_iff) auto
qed

lemma blank_used: "used_sectors blank_fs = {..<16}"
proof -
  have m: "bitmap blank_fs = 255 # 255 # replicate 510 0" by (simp add: blank_fs_def)
  have "s \<in> used_sectors blank_fs \<longleftrightarrow> s < 16" for s
  proof (cases "s < 16")
    case True
    then have "s div 8 = 0 \<or> s div 8 = 1" by linarith
    then have "bitmap blank_fs ! (s div 8) = 255" "s div 8 < length (bitmap blank_fs)" unfolding m by auto
    moreover have "bit (255 :: u8) (s mod 8)" by (rule iffD2 [OF bit_255_u8]) simp
    ultimately show ?thesis using True by (simp add: used_sectors_def bits_on_def)
  next
    case False
    then obtain k where k: "s div 8 = Suc (Suc k)" using le_Suc_ex [of 2 "s div 8"] by fastforce
    then show ?thesis using False unfolding used_sectors_def bits_on_def m by auto
  qed
  then show ?thesis by auto
qed

lemma blank_fs_clean: "fs_layout blank_fs" "live_inodes blank_fs = [zero_inode\<lparr>itype := DISKFS_TYPE_DIR\<rparr>]" "fs_clean blank_fs"
proof -
  show l: "fs_layout blank_fs" "live_inodes blank_fs = [zero_inode\<lparr>itype := DISKFS_TYPE_DIR\<rparr>]"
    by (simp_all add: fs_layout_def blank_fs_def blank_super_def live_inodes_def)
  show "fs_clean blank_fs"
    using l blank_used by (auto simp: fs_clean_def file_extent_def extent_in_def blank_fs_def blank_super_def)
qed

text \<open>C11. The consistency check decides consistency. On a mounted file system of the formatted geometry - 4096
  sectors, a data area that starts at sector 4096 or before, the inode table and the bitmap at full size -
  whose extents do not wrap 32 bits, \<open>diskfs_fsck\<close> returns, and it reports zero errors exactly when every file's extent lies in the
  data area, no two extents overlap, and the bitmap marks exactly the metadata sectors and the extents.\<close>

theorem fsck_decides_consistency:
  assumes "fs_layout st"
    and "\<forall>n \<in> set (live_inodes st). itype n = DISKFS_TYPE_FILE \<longrightarrow> unat (first_sector n) + unat (sector_count n) < 2 ^ 32"
  shows "\<exists>e r. diskfs_fsck buffer report_size st = Some (e, r) \<and> (e = 0 \<longleftrightarrow> fs_clean st)"
  using assms by (rule diskfs_fsck_ok)

theorem fsck_decides_consistency_witness: "\<exists>r. diskfs_fsck True 128 blank_fs = Some (0, r)"
  using fsck_decides_consistency [OF blank_fs_clean(1), of True 128] blank_fs_clean(2,3) by (auto simp: zero_inode_def)

text \<open>C12. Extent allocation is first fit. On a bitmap of the right size, \<open>alloc_contiguous\<close> returns for every
  positive request. It fails, leaving the state alone, only when no run of that many clear sectors
  exists in the data area; otherwise it returns the lowest such run and sets exactly its bits.\<close>

theorem alloc_contiguous_first_fit:
  assumes "length (bitmap st) = DISKFS_BITMAP_BYTES" and "total_sectors (superblock st) = DISKFS_TOTAL_SECTORS"
    and "unat (data_start (superblock st)) \<le> 4096" and "0 < sectors"
  shows "\<exists>r st'. alloc_contiguous sectors st = Some (r, st') \<and>
    (case r of
       None \<Rightarrow> st' = st \<and> (\<forall>p \<ge> unat (data_start (superblock st)). p + sectors \<le> 4096 \<longrightarrow> {p..<p + sectors} \<inter> used_sectors st \<noteq> {})
     | Some f \<Rightarrow> unat (data_start (superblock st)) \<le> f \<and> f + sectors \<le> 4096 \<and> {f..<f + sectors} \<inter> used_sectors st = {}
         \<and> (\<forall>p. unat (data_start (superblock st)) \<le> p \<and> p < f \<longrightarrow> {p..<p + sectors} \<inter> used_sectors st \<noteq> {})
         \<and> (\<exists>bm. st' = st\<lparr>bitmap := bm\<rparr>) \<and> used_sectors st' = used_sectors st \<union> {f..<f + sectors})"
proof -
  obtain r st' where r: "alloc_contiguous sectors st = Some (r, st')"
      "alloc_post (unat (data_start (superblock st))) 4096 sectors st r st'"
    using alloc_contiguous_ok [OF assms(1,2,4)] assms(3) by (auto simp: max_def split: if_splits)
  then show ?thesis
    by (intro exI [of _ r] exI [of _ st']) (cases r; auto simp: alloc_post_def run_clear_def used_sectors_def)
qed

theorem alloc_contiguous_first_fit_witness:
  "\<exists>st'. alloc_contiguous 3 blank_fs = Some (Some 16, st') \<and> used_sectors st' = {..<19}"
proof -
  have b: "length (bitmap blank_fs) = 512" "total_sectors (superblock blank_fs) = 4096" "unat (data_start (superblock blank_fs)) = 16"
    by (simp_all add: blank_fs_def blank_super_def)
  obtain r st' where a: "alloc_contiguous 3 blank_fs = Some (r, st')" and
    c: "case r of None \<Rightarrow> st' = blank_fs \<and> (\<forall>p \<ge> 16. p + 3 \<le> 4096 \<longrightarrow> {p..<p + 3} \<inter> {..<16 :: nat} \<noteq> {})
      | Some f \<Rightarrow> 16 \<le> f \<and> f + 3 \<le> 4096 \<and> {f..<f + 3} \<inter> {..<16} = {} \<and> (\<forall>p. 16 \<le> p \<and> p < f \<longrightarrow> {p..<p + 3} \<inter> {..<16} \<noteq> {})
         \<and> (\<exists>bm. st' = blank_fs\<lparr>bitmap := bm\<rparr>) \<and> used_sectors st' = {..<16} \<union> {f..<f + 3}"
    using alloc_contiguous_first_fit [of blank_fs 3] unfolding b blank_used by auto
  have clear: "{16..<16 + 3} \<inter> {..<16 :: nat} = {}" by auto
  have "r \<noteq> None"
  proof
    assume "r = None"
    then have "\<forall>p \<ge> 16. p + 3 \<le> 4096 \<longrightarrow> {p..<p + 3} \<inter> {..<16 :: nat} \<noteq> {}" using c by simp
    then have "{16..<16 + 3} \<inter> {..<16 :: nat} \<noteq> {}" by (elim allE [of _ 16]) (simp del: Int_atLeastLessThan)
    then show False using clear by simp
  qed
  then obtain f where f: "r = Some f" "16 \<le> f" "\<forall>p. 16 \<le> p \<and> p < f \<longrightarrow> {p..<p + 3} \<inter> {..<16} \<noteq> {}"
      "used_sectors st' = {..<16} \<union> {f..<f + 3}" using c by auto
  have "\<not> 16 < f" using f(3) clear by blast
  then have "f = 16" using f(2) by simp
  then show ?thesis using a f by auto
qed

end
