(* ===== verification/Ring_Buffer.thy ===== *)
theory Ring_Buffer
  imports Prelude
begin

text \<open>Ring buffers as the input drivers use them: an array of \<open>N\<close> slots with a head (next slot to fill) and a
  tail (oldest entry), of which one slot stays empty so that a full ring differs from an empty one.
  \<open>ring_list\<close> reads a ring as the list of its entries, oldest first. The locale \<open>bounded_queue\<close> is the
  contract of such a buffer for its clients: a queue that drops what does not fit.\<close>

section \<open>Rings as lists\<close>

definition ring_list :: "nat \<Rightarrow> 'a list \<Rightarrow> nat \<Rightarrow> nat \<Rightarrow> 'a list" where
  "ring_list N buf head tail = map (\<lambda>i. buf ! ((tail + i) mod N)) [0..<(head + N - tail) mod N]"

lemma ring_count: "head < N \<Longrightarrow> tail < N \<Longrightarrow> (head + N - tail) mod N = (if tail \<le> head then head - tail else head + N - tail)" for head tail N :: nat
proof (cases "tail \<le> head")
  case True
  moreover assume "head < N"
  moreover have "(head + N - tail) mod N = ((head - tail) + N) mod N" using True by simp
  ultimately show ?thesis by (simp only: mod_add_self2) simp
qed simp

lemma ring_next: "head < N \<Longrightarrow> Suc head mod N = (if Suc head = N then 0 else Suc head)" for head N :: nat
  by simp

lemma ring_index: "tail < N \<Longrightarrow> i < N \<Longrightarrow> (tail + i) mod N = (if tail + i < N then tail + i else tail + i - N)" for tail i N :: nat
  by (simp add: mod_if)

lemma ring_empty: "head < N \<Longrightarrow> tail < N \<Longrightarrow> ring_list N buf head tail = [] \<longleftrightarrow> head = tail"
  by (auto simp: ring_list_def ring_count)

lemma ring_push:
  assumes "length buf = N" "head < N" "tail < N" "(head + 1) mod N \<noteq> tail"
  shows "ring_list N (buf[head := x]) ((head + 1) mod N) tail = ring_list N buf head tail @ [x]"
proof -
  let ?k = "(head + N - tail) mod N"
  have n: "(head + 1) mod N < N" using assms by simp
  have k: "((head + 1) mod N + N - tail) mod N = Suc ?k"
    unfolding ring_count [OF n assms(3)] ring_count [OF assms(2,3)] using assms by (auto simp: ring_next split: if_splits)
  have kN: "?k < N" using assms(2) by simp
  have t: "(tail + ?k) mod N = head"
    unfolding ring_index [OF assms(3) kN] ring_count [OF assms(2,3)] using assms by auto
  have "head \<noteq> (tail + i) mod N" if "i < ?k" for i
    using that assms kN ring_index [OF assms(3), of i] ring_count [OF assms(2,3)] by (auto split: if_splits)
  then have "map (\<lambda>i. buf[head := x] ! ((tail + i) mod N)) [0..<?k] = map (\<lambda>i. buf ! ((tail + i) mod N)) [0..<?k]"
    by (intro map_cong) auto
  then show ?thesis unfolding ring_list_def k using assms(1,2) by (simp add: t)
qed

lemma ring_length:
  assumes "head < N" "tail < N"
  shows "length (ring_list N buf head tail) < N - 1 \<longleftrightarrow> (head + 1) mod N \<noteq> tail"
  using assms by (auto simp: ring_list_def ring_count ring_next)

lemma ring_pop:
  assumes "head < N" "tail < N" "head \<noteq> tail"
  shows "ring_list N buf head tail = buf ! tail # ring_list N buf head ((tail + 1) mod N)"
proof -
  let ?k = "(head + N - tail) mod N"
  have n: "(tail + 1) mod N < N" using assms by simp
  have k: "?k = Suc ((head + N - (tail + 1) mod N) mod N)"
    unfolding ring_count [OF assms(1) n] ring_count [OF assms(1,2)] using assms by (auto simp: ring_next split: if_splits)
  have "((tail + 1) mod N + i) mod N = (tail + Suc i) mod N" for i by (simp add: mod_simps)
  moreover have "[0..<Suc j] = 0 # map Suc [0..<j]" for j by (metis map_Suc_upt upt_conv_Cons zero_less_Suc)
  ultimately show ?thesis using assms unfolding ring_list_def k by (simp del: upt_Suc)
qed

section \<open>Runs of a queue\<close>

datatype 'a queue_op = Push 'a | Pop

text \<open>The results of the pops in a sequence of operations, on an implementation and on a list that drops
  what exceeds its capacity.\<close>

fun queue_run :: "('a \<Rightarrow> 's \<Rightarrow> 's) \<Rightarrow> ('s \<Rightarrow> ('b \<times> 's) option) \<Rightarrow> 'a queue_op list \<Rightarrow> 's \<Rightarrow> 'b option list" where
  "queue_run push pop [] s = []"
| "queue_run push pop (Push x # ops) s = queue_run push pop ops (push x s)"
| "queue_run push pop (Pop # ops) s =
     (case pop s of None \<Rightarrow> None # queue_run push pop ops s | Some (y, s') \<Rightarrow> Some y # queue_run push pop ops s')"

fun list_run :: "nat \<Rightarrow> ('a \<Rightarrow> 'b) \<Rightarrow> 'a queue_op list \<Rightarrow> 'b list \<Rightarrow> 'b option list" where
  "list_run cap entry [] q = []"
| "list_run cap entry (Push x # ops) q = list_run cap entry ops (if length q < cap then q @ [entry x] else q)"
| "list_run cap entry (Pop # ops) [] = None # list_run cap entry ops []"
| "list_run cap entry (Pop # ops) (y # ys) = Some y # list_run cap entry ops ys"

section \<open>The queue contract\<close>

locale bounded_queue =
  fixes push :: "'a \<Rightarrow> 's \<Rightarrow> 's"
    and pop :: "'s \<Rightarrow> ('b \<times> 's) option"
    and entry :: "'a \<Rightarrow> 's \<Rightarrow> 'b"
    and contents :: "'s \<Rightarrow> 'b list"
    and ok :: "'s \<Rightarrow> bool"
    and capacity :: nat
  assumes push_ok: "ok s \<Longrightarrow> ok (push x s)"
    and push_contents: "ok s \<Longrightarrow> contents (push x s) = (if length (contents s) < capacity then contents s @ [entry x s] else contents s)"
    and push_entry: "entry x' (push x s) = entry x' s"
    and pop_empty: "ok s \<Longrightarrow> contents s = [] \<Longrightarrow> pop s = None"
    and pop_Cons: "ok s \<Longrightarrow> contents s = y # ys \<Longrightarrow> \<exists>s'. pop s = Some (y, s') \<and> ok s' \<and> contents s' = ys \<and> (\<forall>x. entry x s' = entry x s)"
begin

text \<open>Every interleaving of pushes and pops behaves like the list.\<close>

lemma run_refines: "ok s \<Longrightarrow> queue_run push pop ops s = list_run capacity (\<lambda>x. entry x s) ops (contents s)"
proof (induction ops arbitrary: s)
  case (Cons op ops)
  show ?case
  proof (cases op)
    case (Push x)
    then show ?thesis using Cons.IH [OF push_ok [OF Cons.prems]] Cons.prems by (simp add: push_contents push_entry)
  next
    case Pop
    show ?thesis
    proof (cases "contents s")
      case Nil
      then show ?thesis using Pop Cons by (simp add: pop_empty)
    next
      case (Cons y ys)
      with pop_Cons [OF \<open>ok s\<close> Cons] show ?thesis using Pop Cons.IH by auto
    qed
  qed
qed simp

end

end
