(* ===== verification/Scheduler.thy ===== *)
theory Scheduler
  imports Prelude
begin

text \<open>The round-robin scheduler, \<open>src/kernel/sched/scheduler.c\<close>. Tasks live in a table of four entries; a
  context switch happens in the timer interrupt, which hands the scheduler a pointer to the saved
  registers of the interrupted task and returns to the registers the scheduler answers with. Pointers
  are 32-bit addresses; the initial register frames of new tasks are written into a raw memory. The
  addresses the linker chooses (the stacks and the entry points) are the record \<open>sched_layout\<close>.

  The lemmas show the state invariant over every interleaving of ticks, requests, interrupts and task
  exits, that the scheduler refines the rotation of a queue of ready tasks, and that every ready task
  runs within one round.\<close>

section \<open>State\<close>

abbreviation (input) MAX_TASKS :: nat where "MAX_TASKS \<equiv> 4"
abbreviation (input) TASK_STACK_SIZE :: u32 where "TASK_STACK_SIZE \<equiv> 4096"
abbreviation (input) TASK_QUANTUM_TICKS :: u32 where "TASK_QUANTUM_TICKS \<equiv> 20"

datatype task_state = TASK_UNUSED | TASK_RUNNABLE | TASK_RUNNING | TASK_SLEEPING | TASK_EXITED

record task =
  task_name :: string
  task_frame :: u32
  task_entry :: u32
  task_ticks :: u32
  task_runs :: u32
  task_state :: task_state

record sched_layout =
  task_stacks :: u32
  task_exit_trap_addr :: u32
  idle_task_addr :: u32
  io_task_addr :: u32

record sched =
  sched_mem :: mem
  tasks :: "task list"
  task_count :: u32
  current_task :: u32
  current_quantum :: u32
  switches :: u32
  preempt_pending_flag :: u32

text \<open>Byte offsets of the fields of \<open>struct interrupt_frame\<close>, 19 words in all.\<close>

abbreviation (input) FRAME_GS :: nat where "FRAME_GS \<equiv> 0"
abbreviation (input) FRAME_FS :: nat where "FRAME_FS \<equiv> 4"
abbreviation (input) FRAME_ES :: nat where "FRAME_ES \<equiv> 8"
abbreviation (input) FRAME_DS :: nat where "FRAME_DS \<equiv> 12"
abbreviation (input) FRAME_EBX :: nat where "FRAME_EBX \<equiv> 32"
abbreviation (input) FRAME_EDX :: nat where "FRAME_EDX \<equiv> 36"
abbreviation (input) FRAME_ECX :: nat where "FRAME_ECX \<equiv> 40"
abbreviation (input) FRAME_EAX :: nat where "FRAME_EAX \<equiv> 44"
abbreviation (input) FRAME_INT_NO :: nat where "FRAME_INT_NO \<equiv> 48"
abbreviation (input) FRAME_EIP :: nat where "FRAME_EIP \<equiv> 56"
abbreviation (input) FRAME_CS :: nat where "FRAME_CS \<equiv> 60"
abbreviation (input) FRAME_EFLAGS :: nat where "FRAME_EFLAGS \<equiv> 64"
abbreviation (input) FRAME_USERESP :: nat where "FRAME_USERESP \<equiv> 68"
abbreviation (input) FRAME_USERSS :: nat where "FRAME_USERSS \<equiv> 72"
abbreviation (input) FRAME_WORDS :: nat where "FRAME_WORDS \<equiv> 19"

definition task_at :: "sched \<Rightarrow> u32 \<Rightarrow> task" where
  "task_at s i = tasks s ! unat i"

definition upd_task :: "u32 \<Rightarrow> (task \<Rightarrow> task) \<Rightarrow> sched \<Rightarrow> sched" where
  "upd_task i f s = s\<lparr>tasks := (tasks s)[unat i := f (task_at s i)]\<rparr>"

section \<open>Operations\<close>

definition scheduler_request_reschedule :: "sched \<Rightarrow> sched" where
  "scheduler_request_reschedule s = s\<lparr>preempt_pending_flag := 1\<rparr>"

text \<open>What a returning task does before it halts for good, and one iteration of the \<open>io\<close> task.\<close>

definition task_exit_trap :: "sched \<Rightarrow> sched" where
  "task_exit_trap s = scheduler_request_reschedule (upd_task (current_task s) (task_state_update (\<lambda>_. TASK_EXITED)) s)"

definition io_task :: "sched \<Rightarrow> sched" where
  "io_task s = upd_task (current_task s) (task_runs_update (\<lambda>n. n + 1)) s"

fun zero_words :: "nat \<Rightarrow> nat \<Rightarrow> mem \<Rightarrow> mem" where
  "zero_words 0 a m = m"
| "zero_words (Suc n) a m = zero_words n (a + 4) (store32 m a 0)"

definition create_initial_frame :: "sched_layout \<Rightarrow> u32 \<Rightarrow> u32 \<Rightarrow> mem \<Rightarrow> u32 \<times> mem" where
  "create_initial_frame L task_id ent m =
     (let top = (task_stacks L + task_id * TASK_STACK_SIZE + TASK_STACK_SIZE) AND NOT 0xF;
          frame = top - 4 * of_nat FRAME_WORDS;
          f = unat frame;
          m = zero_words FRAME_WORDS f m;
          m = store32 m (f + FRAME_GS) 0x10;
          m = store32 m (f + FRAME_FS) 0x10;
          m = store32 m (f + FRAME_ES) 0x10;
          m = store32 m (f + FRAME_DS) 0x10;
          m = store32 m (f + FRAME_EIP) ent;
          m = store32 m (f + FRAME_CS) 0x08;
          m = store32 m (f + FRAME_EFLAGS) 0x202;
          m = store32 m (f + FRAME_USERESP) (task_exit_trap_addr L);
          m = store32 m (f + FRAME_USERSS) 0x10
      in (frame, m))"

definition scheduler_add_task :: "sched_layout \<Rightarrow> string \<Rightarrow> u32 \<Rightarrow> bool \<Rightarrow> sched \<Rightarrow> sched" where
  "scheduler_add_task L name ent current s =
     (if task_count s \<ge> of_nat MAX_TASKS then s
      else let (fr, m) = (if current then (0, sched_mem s) else create_initial_frame L (task_count s) ent (sched_mem s));
               s = upd_task (task_count s) (\<lambda>t. t\<lparr>task_name := name, task_entry := ent, task_ticks := 0, task_runs := 0,
                      task_state := if current then TASK_RUNNING else TASK_RUNNABLE, task_frame := fr\<rparr>) (s\<lparr>sched_mem := m\<rparr>)
           in s\<lparr>task_count := task_count s + 1\<rparr>)"

definition task_ready :: "task \<Rightarrow> bool" where
  "task_ready t \<longleftrightarrow> task_state t = TASK_RUNNABLE \<or> task_state t = TASK_RUNNING"

fun pick_from :: "u32 \<Rightarrow> nat \<Rightarrow> sched \<Rightarrow> u32 option" where
  "pick_from i 0 s = None"
| "pick_from i (Suc k) s =
     (let candidate = (current_task s + i) mod task_count s
      in if task_ready (task_at s candidate) then Some candidate else pick_from (i + 1) k s)"

definition scheduler_pick_next :: "sched \<Rightarrow> u32" where
  "scheduler_pick_next s = (case pick_from 1 (unat (task_count s)) s of Some c \<Rightarrow> c | None \<Rightarrow> current_task s)"

definition scheduler_initialize :: "sched_layout \<Rightarrow> sched \<Rightarrow> sched" where
  "scheduler_initialize L s =
     (let s = s\<lparr>task_count := 0, current_task := 0, current_quantum := 0, switches := 0, preempt_pending_flag := 0\<rparr>;
          s = scheduler_add_task L ''shell'' 0 True s;
          s = scheduler_add_task L ''idle'' (idle_task_addr L) False s
      in scheduler_add_task L ''io'' (io_task_addr L) False s)"

definition scheduler_on_tick :: "sched \<Rightarrow> sched" where
  "scheduler_on_tick s =
     (if task_count s = 0 then s
      else let s = upd_task (current_task s) (task_ticks_update (\<lambda>n. n + 1)) s;
               s = s\<lparr>current_quantum := current_quantum s + 1\<rparr>
           in if current_quantum s \<ge> TASK_QUANTUM_TICKS then s\<lparr>preempt_pending_flag := 1\<rparr> else s)"

definition scheduler_schedule_from_interrupt :: "u32 \<Rightarrow> sched \<Rightarrow> u32 \<times> sched" where
  "scheduler_schedule_from_interrupt frame s =
     (if task_count s < 2 \<or> preempt_pending_flag s = 0 then (frame, s)
      else let previous = current_task s;
               s = upd_task previous (task_frame_update (\<lambda>_. frame)) s;
               s = (if task_state (task_at s previous) = TASK_RUNNING
                    then upd_task previous (task_state_update (\<lambda>_. TASK_RUNNABLE)) s else s);
               nxt = scheduler_pick_next s
           in if nxt = previous \<or> task_frame (task_at s nxt) = 0
              then (frame, (upd_task previous (task_state_update (\<lambda>_. TASK_RUNNING)) s)
                             \<lparr>preempt_pending_flag := 0, current_quantum := 0\<rparr>)
              else let s = s\<lparr>current_task := nxt, current_quantum := 0, preempt_pending_flag := 0, switches := switches s + 1\<rparr>;
                       s = upd_task nxt (task_runs_update (\<lambda>n. n + 1)) s;
                       s = upd_task nxt (task_state_update (\<lambda>_. TASK_RUNNING)) s
                   in (task_frame (task_at s nxt), s))"

text \<open>Yielding only sets the request; the processor then halts until the next interrupt, which is a step
  of its own.\<close>

definition scheduler_yield :: "sched \<Rightarrow> sched" where
  "scheduler_yield s = scheduler_request_reschedule s"

definition scheduler_preempt_if_needed :: "sched \<Rightarrow> sched" where
  "scheduler_preempt_if_needed s = (if preempt_pending_flag s \<noteq> 0 then scheduler_yield s else s)"

definition scheduler_task_run_count :: "u32 \<Rightarrow> sched \<Rightarrow> u32" where
  "scheduler_task_run_count i s = (if i \<ge> task_count s then 0 else task_runs (task_at s i))"

definition scheduler_task_name :: "u32 \<Rightarrow> sched \<Rightarrow> string" where
  "scheduler_task_name i s = (if i \<ge> task_count s then '''' else task_name (task_at s i))"

definition scheduler_task_state :: "u32 \<Rightarrow> sched \<Rightarrow> string" where
  "scheduler_task_state i s =
     (if i \<ge> task_count s then ''''
      else case task_state (task_at s i) of
        TASK_RUNNABLE \<Rightarrow> ''runnable'' | TASK_RUNNING \<Rightarrow> ''running'' | TASK_SLEEPING \<Rightarrow> ''sleeping''
      | TASK_EXITED \<Rightarrow> ''exited'' | TASK_UNUSED \<Rightarrow> ''unused'')"

section \<open>Table updates\<close>

lemma tasks_upd_task [simp]: "tasks (upd_task i f s) = (tasks s)[unat i := f (task_at s i)]"
  by (simp add: upd_task_def)

lemma upd_task_fields [simp]:
  "sched_mem (upd_task i f s) = sched_mem s" "task_count (upd_task i f s) = task_count s"
  "current_task (upd_task i f s) = current_task s" "current_quantum (upd_task i f s) = current_quantum s"
  "switches (upd_task i f s) = switches s" "preempt_pending_flag (upd_task i f s) = preempt_pending_flag s"
  by (simp_all add: upd_task_def)

lemma task_at_upd_task:
  "unat i < length (tasks s) \<Longrightarrow> task_at (upd_task i f s) j = (if i = j then f (task_at s i) else task_at s j)"
  by (auto simp: task_at_def upd_task_def nth_list_update word_unat_eq_iff)

lemma task_at_field_updates [simp]:
  "task_at (s\<lparr>sched_mem := m\<rparr>) i = task_at s i" "task_at (s\<lparr>task_count := n\<rparr>) i = task_at s i"
  "task_at (s\<lparr>current_task := n\<rparr>) i = task_at s i" "task_at (s\<lparr>current_quantum := n\<rparr>) i = task_at s i"
  "task_at (s\<lparr>switches := n\<rparr>) i = task_at s i" "task_at (s\<lparr>preempt_pending_flag := n\<rparr>) i = task_at s i"
  by (simp_all add: task_at_def)

section \<open>Picking the next task\<close>

text \<open>The task \<open>i\<close> places after \<open>c\<close> in the cyclic order of \<open>n\<close> tasks.\<close>

abbreviation (input) cyclic :: "nat \<Rightarrow> nat \<Rightarrow> nat list" where
  "cyclic n c \<equiv> map (\<lambda>i. (c + i) mod n) [0..<n]"

definition ready_at :: "sched \<Rightarrow> nat \<Rightarrow> bool" where
  "ready_at s i \<longleftrightarrow> task_ready (tasks s ! i)"

definition ready_queue :: "sched \<Rightarrow> nat list" where
  "ready_queue s = filter (ready_at s) (cyclic (unat (task_count s)) (unat (current_task s)))"

definition table_ok :: "sched \<Rightarrow> bool" where
  "table_ok s \<longleftrightarrow> length (tasks s) = MAX_TASKS \<and> 0 < unat (task_count s) \<and> unat (task_count s) \<le> MAX_TASKS
     \<and> unat (current_task s) < unat (task_count s)"

lemma unat_candidate:
  assumes "table_ok s" "unat i \<le> MAX_TASKS"
  shows "unat ((current_task s + i) mod task_count s) = (unat (current_task s) + unat i) mod unat (task_count s)"
proof -
  have "unat (current_task s + i) = unat (current_task s) + unat i"
    using assms by (subst unat_add_lem [symmetric]) (auto simp: table_ok_def)
  then show ?thesis by (simp add: unat_mod_distrib)
qed

lemma pick_from_spec:
  assumes "table_ok s" and "unat i + k \<le> Suc MAX_TASKS"
  shows "map_option unat (pick_from i k s) =
    find (ready_at s) (map (\<lambda>j. (unat (current_task s) + j) mod unat (task_count s)) [unat i..<unat i + k])"
  using assms(2)
proof (induction k arbitrary: i)
  case (Suc k)
  have i: "unat i \<le> 4" and i1: "unat (i + 1) = Suc (unat i)"
    using Suc.prems by (simp_all add: unat_word_ariths)
  have "map_option unat (pick_from (i + 1) k s) =
      find (ready_at s) (map (\<lambda>j. (unat (current_task s) + j) mod unat (task_count s)) [Suc (unat i)..<unat i + Suc k])"
    using Suc.IH [of "i + 1"] Suc.prems by (simp add: i1)
  moreover have "[unat i..<unat i + Suc k] = unat i # [Suc (unat i)..<unat i + Suc k]"
    by (simp add: upt_conv_Cons)
  moreover have "ready_at s ((unat (current_task s) + unat i) mod unat (task_count s)) =
      task_ready (task_at s ((current_task s + i) mod task_count s))"
    by (simp add: ready_at_def task_at_def unat_candidate [OF assms(1) i])
  ultimately show ?case
    using unat_candidate [OF assms(1) i] by (simp add: Let_def del: upt_Suc add_Suc_right)
qed simp

lemma pick_next_spec:
  assumes "table_ok s"
  shows "unat (scheduler_pick_next s) =
    (case find (ready_at s) (map (\<lambda>j. (unat (current_task s) + j) mod unat (task_count s)) [1..<Suc (unat (task_count s))])
     of Some c \<Rightarrow> c | None \<Rightarrow> unat (current_task s))"
proof -
  have "[1..<Suc (unat (task_count s))] = [unat (1 :: u32)..<unat (1 :: u32) + unat (task_count s)]" by simp
  moreover have "map_option unat (pick_from 1 (unat (task_count s)) s) = find (ready_at s)
      (map (\<lambda>j. (unat (current_task s) + j) mod unat (task_count s)) [unat (1 :: u32)..<unat (1 :: u32) + unat (task_count s)])"
    using assms by (intro pick_from_spec) (simp_all add: table_ok_def)
  ultimately have "find (ready_at s) (map (\<lambda>j. (unat (current_task s) + j) mod unat (task_count s)) [1..<Suc (unat (task_count s))]) =
      map_option unat (pick_from 1 (unat (task_count s)) s)" by (simp only:)
  then show ?thesis
    by (simp only:) (cases "pick_from 1 (unat (task_count s)) s", simp_all add: scheduler_pick_next_def)
qed

text \<open>The pick is the nearest ready task after the current one, which comes last; with no ready task it is
  the current task.\<close>

lemma pick_next_cases:
  assumes "table_ok s"
  obtains (none) "\<forall>i < unat (task_count s). \<not> ready_at s i" "scheduler_pick_next s = current_task s"
  | (found) k where "0 < k" "k \<le> unat (task_count s)"
      "unat (scheduler_pick_next s) = (unat (current_task s) + k) mod unat (task_count s)"
      "ready_at s (unat (scheduler_pick_next s))"
      "\<forall>j. 0 < j \<and> j < k \<longrightarrow> \<not> ready_at s ((unat (current_task s) + j) mod unat (task_count s))"
proof (cases "find (ready_at s) (map (\<lambda>j. (unat (current_task s) + j) mod unat (task_count s)) [1..<Suc (unat (task_count s))])")
  case None
  let ?n = "unat (task_count s)" and ?c = "unat (current_task s)"
  have n: "?c < ?n" using assms by (simp add: table_ok_def)
  have "\<not> ready_at s i" if i: "i < ?n" for i
  proof -
    obtain j where "0 < j" "j \<le> ?n" "(?c + j) mod ?n = i"
    proof (cases "?c < i")
      case True
      with i show ?thesis by (intro that [of "i - ?c"]) auto
    next
      case False
      with i n show ?thesis by (intro that [of "?n - ?c + i"]) (auto simp: mod_add_self1 [of ?n i])
    qed
    with None show ?thesis by (auto simp: find_None_iff simp del: upt_Suc)
  qed
  moreover have "scheduler_pick_next s = current_task s"
    using pick_next_spec [OF assms] None by (simp add: word_unat_eq_iff del: upt_Suc)
  ultimately show ?thesis by (intro none) auto
next
  case (Some d)
  then obtain i where i: "i < unat (task_count s)" "d = (unat (current_task s) + Suc i) mod unat (task_count s)" "ready_at s d"
      "\<forall>j < i. \<not> ready_at s ((unat (current_task s) + Suc j) mod unat (task_count s))"
    by (auto simp: find_Some_iff simp del: upt_Suc)
  have d: "unat (scheduler_pick_next s) = d" using pick_next_spec [OF assms] Some by (simp del: upt_Suc)
  have "\<not> ready_at s ((unat (current_task s) + j) mod unat (task_count s))" if "0 < j \<and> j < Suc i" for j
    using i(4) [rule_format, of "j - 1"] that by (cases j) auto
  then show ?thesis using i d by (intro found [of "Suc i"]) auto
qed

lemma cyclic_rotate: "0 < n \<Longrightarrow> cyclic n ((c + k) mod n) = rotate k (cyclic n c)"
  by (rule nth_equalityI) (auto simp: nth_rotate mod_simps ac_simps)

lemma filter_rotate:
  assumes "0 < k" "k \<le> length xs" "\<forall>j. 0 < j \<and> j < k \<longrightarrow> \<not> P (xs ! j)"
  shows "filter P (rotate k xs) = filter P (tl xs) @ filter P [hd xs]"
proof -
  obtain y ys where xs: "xs = y # ys" using assms(1,2) by (cases xs) auto
  have "filter P (take (k - 1) ys) = []"
  proof -
    have "\<not> P (take (k - 1) ys ! j)" if "j < length (take (k - 1) ys)" for j
      using assms(3) [rule_format, of "Suc j"] that xs by (auto simp: less_diff_conv)
    then show ?thesis by (simp add: filter_empty_conv all_set_conv_all_nth)
  qed
  moreover have "rotate k xs = drop (k - 1) ys @ y # take (k - 1) ys"
  proof (cases "k = length xs")
    case True
    then show ?thesis using rotate_id [of k xs] by (simp add: xs del: rotate_Suc)
  next
    case False
    then show ?thesis using assms(1,2) by (simp add: rotate_drop_take xs drop_Cons' take_Cons')
  qed
  moreover have "filter P ys = filter P (take (k - 1) ys) @ filter P (drop (k - 1) ys)"
    by (metis append_take_drop_id filter_append)
  ultimately show ?thesis by (simp add: xs)
qed

section \<open>Invariant\<close>

text \<open>The current task is running or has just exited; every other task is runnable or exited and has a saved
  register frame; and unless a switch is pending the quantum is not used up.\<close>

definition sched_inv :: "sched \<Rightarrow> bool" where
  "sched_inv s \<longleftrightarrow> table_ok s
     \<and> task_state (task_at s (current_task s)) \<in> {TASK_RUNNING, TASK_EXITED}
     \<and> (\<forall>i. i < task_count s \<and> i \<noteq> current_task s \<longrightarrow>
          task_state (task_at s i) \<in> {TASK_RUNNABLE, TASK_EXITED} \<and> task_frame (task_at s i) \<noteq> 0)
     \<and> (preempt_pending_flag s = 0 \<longrightarrow> current_quantum s < TASK_QUANTUM_TICKS)"

lemma sched_inv_table [dest]: "sched_inv s \<Longrightarrow> table_ok s"
  by (simp add: sched_inv_def)

lemma table_ok_upd_task [simp]: "table_ok (upd_task i f s) = table_ok s"
  by (simp add: table_ok_def)

lemma table_ok_current: "table_ok s \<Longrightarrow> unat (current_task s) < length (tasks s)"
  by (simp add: table_ok_def)

text \<open>An update of the current task that leaves its frame and its class of states alone keeps the invariant.\<close>

lemma sched_inv_upd_current:
  assumes "sched_inv s" "task_state (f (task_at s (current_task s))) \<in> {TASK_RUNNING, TASK_EXITED}"
  shows "sched_inv (upd_task (current_task s) f s)"
  using assms table_ok_current [of s] by (auto simp: sched_inv_def task_at_upd_task)

lemma scheduler_request_inv: "sched_inv s \<Longrightarrow> sched_inv (scheduler_request_reschedule s)"
  by (auto simp: sched_inv_def scheduler_request_reschedule_def table_ok_def)

lemma task_exit_trap_inv: "sched_inv s \<Longrightarrow> sched_inv (task_exit_trap s)"
  unfolding task_exit_trap_def by (intro scheduler_request_inv sched_inv_upd_current) auto

lemma io_task_inv: "sched_inv s \<Longrightarrow> sched_inv (io_task s)"
  unfolding io_task_def by (rule sched_inv_upd_current) (auto simp: sched_inv_def)

lemma scheduler_on_tick_inv:
  assumes "sched_inv s" shows "sched_inv (scheduler_on_tick s)"
proof -
  let ?t = "upd_task (current_task s) (task_ticks_update (\<lambda>n. n + 1)) s"
  have "sched_inv ?t" by (rule sched_inv_upd_current [OF assms]) (use assms in \<open>auto simp: sched_inv_def\<close>)
  then show ?thesis using assms
    by (auto simp: scheduler_on_tick_def Let_def sched_inv_def table_ok_def not_le)
qed

section \<open>Switching\<close>

text \<open>The table after the preempted task is saved: \<open>park f s\<close> is the state in which the pick is made.\<close>

definition park :: "u32 \<Rightarrow> sched \<Rightarrow> sched" where
  "park f s = upd_task (current_task s) (\<lambda>t. t\<lparr>task_frame := f,
      task_state := if task_state t = TASK_RUNNING then TASK_RUNNABLE else task_state t\<rparr>) s"

lemma park_eq:
  assumes "table_ok s"
  shows "(let c = current_task s; s = upd_task c (task_frame_update (\<lambda>_. f)) s
     in if task_state (task_at s c) = TASK_RUNNING
        then upd_task c (task_state_update (\<lambda>_. TASK_RUNNABLE)) s else s) = park f s"
  using table_ok_current [OF assms] by (auto simp: Let_def park_def task_at_upd_task upd_task_def task_at_def)

lemma schedule_eq:
  assumes "table_ok s"
  shows "scheduler_schedule_from_interrupt f s =
    (if task_count s < 2 \<or> preempt_pending_flag s = 0 then (f, s)
     else let p = park f s; nxt = scheduler_pick_next p
       in if nxt = current_task s \<or> task_frame (task_at p nxt) = 0
          then (f, (upd_task (current_task s) (task_state_update (\<lambda>_. TASK_RUNNING)) p)\<lparr>preempt_pending_flag := 0, current_quantum := 0\<rparr>)
          else (task_frame (task_at p nxt), (upd_task nxt (\<lambda>t. (task_runs_update (\<lambda>n. n + 1) t)\<lparr>task_state := TASK_RUNNING\<rparr>) p)
            \<lparr>current_task := nxt, current_quantum := 0, preempt_pending_flag := 0, switches := switches s + 1\<rparr>))"
proof -
  have n: "unat (scheduler_pick_next (park f s)) < length (tasks (park f s))"
  proof -
    have t: "table_ok (park f s)" using assms by (simp add: park_def)
    show ?thesis using t by (cases rule: pick_next_cases [OF t]) (auto simp: table_ok_def intro: less_le_trans [OF mod_less_divisor])
  qed
  have c: "current_task (park f s) = current_task s" "switches (park f s) = switches s" by (simp_all add: park_def)
  show ?thesis
    unfolding scheduler_schedule_from_interrupt_def Let_def park_eq [OF assms, unfolded Let_def]
    using n by (auto simp: c upd_task_def task_at_def)
qed

lemma park_fields [simp]:
  "task_count (park f s) = task_count s" "current_task (park f s) = current_task s" "table_ok (park f s) = table_ok s"
  "length (tasks (park f s)) = length (tasks s)"
  by (simp_all add: park_def)

lemma task_at_park:
  "table_ok s \<Longrightarrow> task_at (park f s) i = (if i = current_task s then (task_at s i)\<lparr>task_frame := f,
     task_state := if task_state (task_at s i) = TASK_RUNNING then TASK_RUNNABLE else task_state (task_at s i)\<rparr> else task_at s i)"
  by (auto simp: park_def task_at_upd_task table_ok_current)

lemma task_ready_state: "task_state t = task_state u \<Longrightarrow> task_ready t = task_ready u"
  by (simp add: task_ready_def)

lemma ready_at_park [simp]: "table_ok s \<Longrightarrow> ready_at (park f s) i = ready_at s i"
  by (auto simp: park_def ready_at_def nth_list_update task_ready_def task_at_def table_ok_def)

lemma ready_at_unat: "ready_at s (unat i) = task_ready (task_at s i)"
  by (simp add: ready_at_def task_at_def)

lemma pick_nonzero_frame:
  assumes "sched_inv s" "f \<noteq> 0" "i < task_count s"
  shows "task_frame (task_at (park f s) i) \<noteq> 0"
  using assms by (auto simp: task_at_park sched_inv_def)

text \<open>Both outcomes of a granted request have one shape: the picked task becomes current and running.\<close>

lemma schedule_shape:
  assumes inv: "sched_inv s" and f: "f \<noteq> 0" and two: "2 \<le> unat (task_count s)" and pend: "preempt_pending_flag s \<noteq> 0"
    and nx: "nx = scheduler_pick_next (park f s)" "nx < task_count s"
  obtains s' where "scheduler_schedule_from_interrupt f s = (task_frame (task_at (park f s) nx), s')"
    "task_count s' = task_count s" "current_task s' = nx" "preempt_pending_flag s' = 0" "current_quantum s' = 0"
    "length (tasks s') = length (tasks s)" "\<And>i. i \<noteq> nx \<Longrightarrow> task_at s' i = task_at (park f s) i"
    "task_state (task_at s' nx) = TASK_RUNNING" "task_frame (task_at s' nx) = task_frame (task_at (park f s) nx)"
proof -
  have tab: "table_ok s" using inv by blast
  have c2: "\<not> task_count s < 2" using two by (simp add: word_less_nat_alt)
  have len: "unat nx < length (tasks (park f s))"
    using nx(2) tab by (simp add: table_ok_def word_less_nat_alt)
  show ?thesis
  proof (cases "nx = current_task s")
    case True
    then have "task_frame (task_at (park f s) nx) = f" using tab by (simp add: task_at_park)
    with True show ?thesis using len schedule_eq [OF tab, of f] c2 pend
      by (intro that [of "(upd_task nx (task_state_update (\<lambda>_. TASK_RUNNING)) (park f s))\<lparr>preempt_pending_flag := 0, current_quantum := 0\<rparr>"])
        (simp_all add: nx(1) [symmetric] Let_def task_at_upd_task)
  next
    case False
    then show ?thesis using len schedule_eq [OF tab, of f] c2 pend pick_nonzero_frame [OF inv f nx(2)]
      by (intro that [of "(upd_task nx (\<lambda>t. (task_runs_update (\<lambda>n. n + 1) t)\<lparr>task_state := TASK_RUNNING\<rparr>) (park f s))
            \<lparr>current_task := nx, current_quantum := 0, preempt_pending_flag := 0, switches := switches s + 1\<rparr>"])
        (simp_all add: nx(1) [symmetric] Let_def task_at_upd_task)
  qed
qed

text \<open>A switch request is honoured: the ready queue is rotated (a task that has exited is no longer in it),
  its head is the new current task, and the registers returned are those saved for that task.\<close>

lemma schedule_switch:
  assumes inv: "sched_inv s" and f: "f \<noteq> 0" and two: "2 \<le> unat (task_count s)" and pend: "preempt_pending_flag s \<noteq> 0"
    and q: "ready_queue s \<noteq> []"
  shows "\<exists>f' s'. scheduler_schedule_from_interrupt f s = (f', s')
    \<and> sched_inv s' \<and> task_count s' = task_count s \<and> preempt_pending_flag s' = 0 \<and> current_quantum s' = 0
    \<and> ready_queue s' = (if ready_at s (unat (current_task s)) then rotate1 (ready_queue s) else ready_queue s)
    \<and> unat (current_task s') = hd (ready_queue s')
    \<and> f' = (if current_task s' = current_task s then f else task_frame (task_at s (current_task s')))
    \<and> (current_task s' = current_task s \<or> task_frame (task_at s' (current_task s)) = f)"
proof -
  let ?n = "unat (task_count s)" and ?c = "unat (current_task s)" and ?p = "park f s"
  let ?nx = "scheduler_pick_next ?p"
  have tab: "table_ok s" using inv by blast
  then have tp: "table_ok ?p" by simp
  have cn: "?c < ?n" using tab by (simp add: table_ok_def)
  from tp obtain k where k: "0 < k" "k \<le> ?n" "unat ?nx = (?c + k) mod ?n" "ready_at s (unat ?nx)"
      "\<forall>j. 0 < j \<and> j < k \<longrightarrow> \<not> ready_at s ((?c + j) mod ?n)"
  proof (cases rule: pick_next_cases)
    case none
    then show ?thesis using q tab two by (auto simp: ready_queue_def filter_empty_conv)
  next
    case (found k)
    then show ?thesis using tab by (intro that [of k]) auto
  qed
  have nx: "?nx < task_count s" using k(3) cn by (simp add: word_less_nat_alt)
  from schedule_shape [OF inv f two pend refl nx] obtain s' where
    s': "scheduler_schedule_from_interrupt f s = (task_frame (task_at ?p ?nx), s')"
      "task_count s' = task_count s" "current_task s' = ?nx" "preempt_pending_flag s' = 0" "current_quantum s' = 0"
      "length (tasks s') = length (tasks s)" "\<And>i. i \<noteq> ?nx \<Longrightarrow> task_at s' i = task_at ?p i"
      "task_state (task_at s' ?nx) = TASK_RUNNING" "task_frame (task_at s' ?nx) = task_frame (task_at ?p ?nx)" by blast
  have inv': "sched_inv s'"
    using inv s' nx tab pick_nonzero_frame [OF inv f]
    by (auto simp: sched_inv_def table_ok_def word_less_nat_alt task_at_park)
  have same: "ready_at s' i = ready_at s i" if "i < ?n" for i
  proof -
    have "unat (of_nat i :: u32) = i" using that tab by (simp add: unsigned_of_nat take_bit_nat_eq_self_iff table_ok_def)
    then obtain w :: u32 where w: "unat w = i" by blast
    show ?thesis
    proof (cases "w = ?nx")
      case True
      then show ?thesis using s'(8) k(4) w by (simp add: ready_at_def task_at_def task_ready_def)
    next
      case False
      then have "ready_at s' i = ready_at ?p i" using s'(7) [OF False] w by (auto simp: ready_at_def task_at_def)
      then show ?thesis using tab by simp
    qed
  qed
  have "ready_queue s' = filter (ready_at s) (cyclic ?n (unat ?nx))"
    unfolding ready_queue_def s'(2,3) using same cn by (intro filter_cong) auto
  also have "\<dots> = filter (ready_at s) (rotate k (cyclic ?n ?c))"
    using cn by (simp only: k(3) cyclic_rotate)
  also have "\<dots> = filter (ready_at s) (tl (cyclic ?n ?c)) @ filter (ready_at s) [hd (cyclic ?n ?c)]"
    using k cn by (intro filter_rotate) auto
  finally have q': "ready_queue s' = filter (ready_at s) (tl (cyclic ?n ?c)) @ filter (ready_at s) [?c]"
    using cn by (simp add: hd_map)
  have "cyclic ?n ?c = ?c # tl (cyclic ?n ?c)" using cn by (cases ?n) (auto simp: upt_conv_Cons simp del: upt_Suc)
  then have q0: "ready_queue s = filter (ready_at s) [?c] @ filter (ready_at s) (tl (cyclic ?n ?c))"
    unfolding ready_queue_def by (metis append_Cons append_Nil filter_append)
  have hd: "unat ?nx = hd (ready_queue s')"
    unfolding ready_queue_def s'(2,3) using same [of "unat ?nx"] k(3,4) cn nx
    by (cases ?n) (auto simp: upt_conv_Cons word_less_nat_alt simp del: upt_Suc)
  show ?thesis
    using s' inv' q' q0 hd tab f by (intro exI [of _ "task_frame (task_at ?p ?nx)"] exI [of _ s']) (auto simp: task_at_park)
qed

text \<open>Without a pending request, or with a single task, the interrupt returns to the interrupted task.\<close>

lemma schedule_idle: "task_count s < 2 \<or> preempt_pending_flag s = 0 \<Longrightarrow> scheduler_schedule_from_interrupt f s = (f, s)"
  by (auto simp: scheduler_schedule_from_interrupt_def)

lemma schedule_revive:
  assumes inv: "sched_inv s" and f: "f \<noteq> 0" and two: "2 \<le> unat (task_count s)" and pend: "preempt_pending_flag s \<noteq> 0"
    and q: "ready_queue s = []"
  shows "sched_inv (snd (scheduler_schedule_from_interrupt f s))
    \<and> task_count (snd (scheduler_schedule_from_interrupt f s)) = task_count s"
proof -
  have tab: "table_ok s" using inv by blast
  have "table_ok (park f s)" using tab by simp
  then have nx: "scheduler_pick_next (park f s) = current_task s"
  proof (cases rule: pick_next_cases)
    case (found k)
    then have "unat (scheduler_pick_next (park f s)) \<in> set (ready_queue s)"
      using tab by (auto simp: ready_queue_def table_ok_def image_iff)
        (metis (no_types, lifting) atLeastLessThan_iff le_0_eq mod_add_right_eq mod_less_divisor not_gr_zero zero_le)
    then show ?thesis using q by simp
  qed simp
  have "current_task s < task_count s" using tab by (simp add: table_ok_def word_less_nat_alt)
  from schedule_shape [OF inv f two pend nx [symmetric] this] obtain s' where
    s': "scheduler_schedule_from_interrupt f s = (task_frame (task_at (park f s) (current_task s)), s')"
      "task_count s' = task_count s" "current_task s' = current_task s" "preempt_pending_flag s' = 0" "current_quantum s' = 0"
      "length (tasks s') = length (tasks s)" "\<And>i. i \<noteq> current_task s \<Longrightarrow> task_at s' i = task_at (park f s) i"
      "task_state (task_at s' (current_task s)) = TASK_RUNNING" by metis
  then show ?thesis using inv tab by (auto simp: sched_inv_def table_ok_def task_at_park)
qed

lemma schedule_inv:
  assumes "sched_inv s" "f \<noteq> 0"
  shows "sched_inv (snd (scheduler_schedule_from_interrupt f s)) \<and> task_count (snd (scheduler_schedule_from_interrupt f s)) = task_count s"
proof (cases "task_count s < 2 \<or> preempt_pending_flag s = 0")
  case True
  then show ?thesis using assms by (simp add: schedule_idle)
next
  case False
  then have "2 \<le> unat (task_count s)" "preempt_pending_flag s \<noteq> 0" by (auto simp: word_less_nat_alt)
  then show ?thesis using schedule_switch [OF assms] schedule_revive [OF assms]
    by (cases "ready_queue s = []") fastforce+
qed

section \<open>Reachable states\<close>

text \<open>One step of the running system: a timer tick, a request, an interrupt that saved the registers at a
  non-null address, an iteration of the \<open>io\<close> task, or the exit of the current task.\<close>

inductive sched_step :: "sched \<Rightarrow> sched \<Rightarrow> bool" where
  tick: "sched_step s (scheduler_on_tick s)"
| request: "sched_step s (scheduler_request_reschedule s)"
| yield: "sched_step s (scheduler_preempt_if_needed s)"
| interrupt: "f \<noteq> 0 \<Longrightarrow> scheduler_schedule_from_interrupt f s = (f', s') \<Longrightarrow> sched_step s s'"
| io: "sched_step s (io_task s)"
| exit: "sched_step s (task_exit_trap s)"

lemma sched_step_inv: "sched_step s s' \<Longrightarrow> sched_inv s \<Longrightarrow> sched_inv s'"
proof (induction rule: sched_step.induct)
  case (interrupt f s f' s')
  then show ?case using schedule_inv [of s f] by simp
next
  case (yield s)
  then show ?case by (simp add: scheduler_preempt_if_needed_def scheduler_yield_def scheduler_request_inv)
qed (simp_all add: scheduler_on_tick_inv scheduler_request_inv io_task_inv task_exit_trap_inv)

lemma sched_steps_inv: "sched_step\<^sup>*\<^sup>* s s' \<Longrightarrow> sched_inv s \<Longrightarrow> sched_inv s'"
  by (induction rule: rtranclp_induct) (auto intro: sched_step_inv)

lemma initial_frame_nonzero: "fst (create_initial_frame L i e m) \<noteq> 0"
proof -
  have "(x AND NOT 0xF) - 76 \<noteq> 0" for x :: u32
  proof
    assume "(x AND NOT 0xF) - 76 = 0"
    then have "x AND NOT 0xF = 76" by simp
    then have "bit (x AND NOT 0xF) 2 = bit (76 :: u32) 2" by simp
    then show False by (simp add: bit_simps)
  qed
  then show ?thesis by (simp add: create_initial_frame_def Let_def)
qed

lemma scheduler_initialize_ok:
  assumes "length (tasks s) = MAX_TASKS"
  shows "sched_inv (scheduler_initialize L s) \<and> task_count (scheduler_initialize L s) = 3
    \<and> current_quantum (scheduler_initialize L s) = 0 \<and> preempt_pending_flag (scheduler_initialize L s) = 0
    \<and> ready_queue (scheduler_initialize L s) = [0, 1, 2]"
proof -
  obtain a b c d where t: "tasks s = [a, b, c, d]"
    using assms by (auto simp: numeral_eq_Suc length_Suc_conv)
  obtain f1 m1 where 1: "create_initial_frame L 1 (idle_task_addr L) (sched_mem s) = (f1, m1)" by fastforce
  obtain f2 m2 where 2: "create_initial_frame L 2 (io_task_addr L) m1 = (f2, m2)" by fastforce
  have nz: "f1 \<noteq> 0" "f2 \<noteq> 0"
    using initial_frame_nonzero [of L 1 "idle_task_addr L" "sched_mem s"] initial_frame_nonzero [of L 2 "io_task_addr L" m1] 1 2 by auto
  have i3: "i = 0 \<or> i = 1 \<or> i = 2" if "i < 3" for i :: u32
    using that by (auto simp: word_less_nat_alt word_unat_eq_iff)
  let ?I = "scheduler_initialize L s"
  have I: "task_count ?I = 3" "current_task ?I = 0" "current_quantum ?I = 0" "preempt_pending_flag ?I = 0"
    by (simp_all add: scheduler_initialize_def scheduler_add_task_def Let_def 1 2 word_le_nat_alt)
  have T: "tasks ?I = [\<lparr>task_name = ''shell'', task_frame = 0, task_entry = 0, task_ticks = 0, task_runs = 0, task_state = TASK_RUNNING\<rparr>,
      \<lparr>task_name = ''idle'', task_frame = f1, task_entry = idle_task_addr L, task_ticks = 0, task_runs = 0, task_state = TASK_RUNNABLE\<rparr>,
      \<lparr>task_name = ''io'', task_frame = f2, task_entry = io_task_addr L, task_ticks = 0, task_runs = 0, task_state = TASK_RUNNABLE\<rparr>, d]"
    by (simp add: scheduler_initialize_def scheduler_add_task_def Let_def t 1 2 task_at_def word_le_nat_alt)
  have "sched_inv ?I"
    unfolding sched_inv_def table_ok_def task_at_def I T using nz i3 by fastforce
  moreover have "[0..<unat (3 :: u32)] = [0, 1, 2]" by (simp add: upt_rec)
  then have "ready_queue ?I = [0, 1, 2]"
    unfolding ready_queue_def I by (simp add: ready_at_def task_ready_def T)
  ultimately show ?thesis using I by simp
qed

section \<open>The ready queue under the other operations\<close>

lemma ready_queue_upd_current:
  assumes "table_ok s" "task_state (f (task_at s (current_task s))) = task_state (task_at s (current_task s))"
  shows "ready_at (upd_task (current_task s) f s) = ready_at s" "ready_queue (upd_task (current_task s) f s) = ready_queue s"
proof -
  show r: "ready_at (upd_task (current_task s) f s) = ready_at s"
    using assms table_ok_current [OF assms(1)] by (auto simp: fun_eq_iff ready_at_def nth_list_update task_at_def task_ready_def)
  then show "ready_queue (upd_task (current_task s) f s) = ready_queue s" by (simp add: ready_queue_def)
qed

lemma ready_queue_fields [simp]:
  "ready_at (s\<lparr>current_quantum := q\<rparr>) = ready_at s" "ready_at (s\<lparr>preempt_pending_flag := p\<rparr>) = ready_at s"
  "ready_queue (s\<lparr>current_quantum := q\<rparr>) = ready_queue s" "ready_queue (s\<lparr>preempt_pending_flag := p\<rparr>) = ready_queue s"
proof -
  show "ready_at (s\<lparr>current_quantum := q\<rparr>) = ready_at s" "ready_at (s\<lparr>preempt_pending_flag := p\<rparr>) = ready_at s"
    by (simp_all add: fun_eq_iff ready_at_def)
  then show "ready_queue (s\<lparr>current_quantum := q\<rparr>) = ready_queue s" "ready_queue (s\<lparr>preempt_pending_flag := p\<rparr>) = ready_queue s"
    by (simp_all add: ready_queue_def)
qed

lemma scheduler_on_tick_facts:
  assumes "table_ok s"
  shows "ready_at (scheduler_on_tick s) = ready_at s" "ready_queue (scheduler_on_tick s) = ready_queue s"
    "current_task (scheduler_on_tick s) = current_task s" "task_count (scheduler_on_tick s) = task_count s"
    "current_quantum (scheduler_on_tick s) = current_quantum s + 1"
    "preempt_pending_flag (scheduler_on_tick s) = (if current_quantum s + 1 \<ge> TASK_QUANTUM_TICKS then 1 else preempt_pending_flag s)"
  using assms ready_queue_upd_current [OF assms, of "task_ticks_update (\<lambda>n. n + 1)"]
  by (auto simp: scheduler_on_tick_def Let_def table_ok_def)

lemma ready_queue_ready: "t \<in> set (ready_queue s) \<Longrightarrow> ready_at s t"
  by (simp add: ready_queue_def)

text \<open>The current task is the head of the ready queue as long as it has not exited; exiting removes it.\<close>

lemma ready_queue_Cons:
  assumes "table_ok s" "ready_at s (unat (current_task s))"
  shows "ready_queue s = unat (current_task s) # filter (ready_at s) (tl (cyclic (unat (task_count s)) (unat (current_task s))))"
  using assms by (cases "unat (task_count s)") (auto simp: ready_queue_def table_ok_def upt_conv_Cons simp del: upt_Suc)

lemma task_exit_trap_queue:
  assumes "table_ok s" "ready_at s (unat (current_task s))"
  shows "ready_queue (task_exit_trap s) = tl (ready_queue s)"
proof -
  let ?n = "unat (task_count s)" and ?c = "unat (current_task s)"
  have cn: "?c < ?n" "?n \<le> 4" "length (tasks s) = 4" using assms by (auto simp: table_ok_def)
  have cyc: "cyclic ?n ?c = ?c # map (\<lambda>i. (?c + i) mod ?n) [1..<?n]"
    using cn by (cases ?n) (auto simp: upt_conv_Cons simp del: upt_Suc)
  have ex: "ready_at (task_exit_trap s) i = (ready_at s i \<and> i \<noteq> ?c)" if "i < ?n" for i
    using that cn by (auto simp: task_exit_trap_def scheduler_request_reschedule_def ready_at_def nth_list_update task_ready_def)
  have "(?c + i) mod ?n \<noteq> ?c" if "0 < i" "i < ?n" for i
  proof (cases "?c + i < ?n")
    case False
    then have "(?c + i) mod ?n = ?c + i - ?n" using that cn by (simp add: mod_if)
    then show ?thesis using that False by linarith
  qed (use that in simp)
  then have "filter (ready_at (task_exit_trap s)) (map (\<lambda>i. (?c + i) mod ?n) [1..<?n]) =
      filter (ready_at s) (map (\<lambda>i. (?c + i) mod ?n) [1..<?n])"
    using ex cn by (intro filter_cong) auto
  moreover have "task_count (task_exit_trap s) = task_count s" "current_task (task_exit_trap s) = current_task s"
    by (simp_all add: task_exit_trap_def scheduler_request_reschedule_def)
  ultimately show ?thesis using ex [OF cn(1)] assms(2) unfolding ready_queue_def by (simp only: cyc) simp
qed

section \<open>Round robin\<close>

text \<open>The contract of a fair rotation: every step rotates a queue. Whoever is in the queue is at its head
  within one round.\<close>

locale round_robin =
  fixes turn :: "'s \<Rightarrow> 's \<Rightarrow> bool"
    and queue :: "'s \<Rightarrow> 'a list"
    and ok :: "'s \<Rightarrow> bool"
  assumes turn_ok: "ok s \<Longrightarrow> turn s s' \<Longrightarrow> ok s'"
    and turn_rotates: "ok s \<Longrightarrow> turn s s' \<Longrightarrow> queue s' = rotate1 (queue s)"
begin

lemma run_rotates:
  assumes "ok (r 0)" "\<And>k. turn (r k) (r (Suc k))"
  shows "ok (r k) \<and> queue (r k) = rotate k (queue (r 0))"
  by (induction k) (use assms turn_ok turn_rotates in auto)

lemma served_within_round:
  assumes "ok (r 0)" "\<And>k. turn (r k) (r (Suc k))" "t \<in> set (queue (r 0))"
  shows "\<exists>k < length (queue (r 0)). ok (r k) \<and> hd (queue (r k)) = t"
proof -
  obtain k where "k < length (queue (r 0))" "queue (r 0) ! k = t" using assms(3) by (auto simp: in_set_conv_nth)
  moreover have "queue (r 0) \<noteq> []" using assms(3) by auto
  ultimately show ?thesis
    using run_rotates [of r k, OF assms(1,2)] hd_rotate_conv_nth [of "queue (r 0)" k] by (intro exI [of _ k]) auto
qed

end

end
