(* ===== verification/Timer.thy ===== *)
theory Timer
  imports Scheduler
begin

text \<open>The timer, \<open>src/kernel/drivers/platform/timer.c\<close>, and the timer branch of the interrupt dispatcher in
  \<open>src/arch/x86/interrupts/idt.c\<close>, which ties it to the scheduler. Writes to ports are returned as a list
  of port and value. The lemmas show that with 20 timer interrupts per quantum the scheduler is fair.\<close>

section \<open>Operations\<close>

record timer =
  ticks :: u32
  configured_frequency :: u32

definition timer_initialize :: "u32 \<Rightarrow> timer \<Rightarrow> (u16 \<times> u8) list \<times> timer" where
  "timer_initialize frequency_hz tm =
     (let frequency_hz = (if frequency_hz = 0 then 100 else frequency_hz);
          tm = tm\<lparr>configured_frequency := frequency_hz, ticks := 0\<rparr>;
          divisor = 1193182 div frequency_hz;
          divisor = (if divisor = 0 then 1 else divisor);
          divisor = (if divisor > 0xFFFF then 0xFFFF else divisor)
      in ([(0x43, 0x36), (0x40, ucast (divisor AND 0xFF)), (0x40, ucast (drop_bit 8 divisor AND 0xFF))], tm))"

definition timer_handle_interrupt :: "timer \<times> sched \<Rightarrow> timer \<times> sched" where
  "timer_handle_interrupt = (\<lambda>(tm, s). (tm\<lparr>ticks := ticks tm + 1\<rparr>, scheduler_on_tick s))"

definition timer_uptime_seconds :: "timer \<Rightarrow> u32" where
  "timer_uptime_seconds tm = (if configured_frequency tm = 0 then 0 else ticks tm div configured_frequency tm)"

text \<open>Interrupt 32 with the registers saved at \<open>frame\<close>: the registers to return to, and the new state.\<close>

definition timer_irq :: "u32 \<Rightarrow> timer \<times> sched \<Rightarrow> u32 \<times> timer \<times> sched" where
  "timer_irq frame x =
     (let (tm, s) = timer_handle_interrupt x; (frame', s) = scheduler_schedule_from_interrupt frame s in (frame', tm, s))"

section \<open>One quantum\<close>

definition quantum_start :: "timer \<times> sched \<Rightarrow> bool" where
  "quantum_start = (\<lambda>(tm, s). sched_inv s \<and> 2 \<le> unat (task_count s) \<and> ready_at s (unat (current_task s))
     \<and> preempt_pending_flag s = 0 \<and> current_quantum s = 0)"

text \<open>A quantum is twenty timer interrupts, whatever the addresses of the saved registers.\<close>

definition quantum_round :: "timer \<times> sched \<Rightarrow> timer \<times> sched \<Rightarrow> bool" where
  "quantum_round x y \<longleftrightarrow> (\<exists>frames. length frames = 20 \<and> 0 \<notin> set frames \<and> y = fold (\<lambda>f x. snd (timer_irq f x)) frames x)"

lemma quiet_ticks:
  assumes "sched_inv s" "preempt_pending_flag s = 0" "unat (current_quantum s) + length fs < 20"
  shows "\<exists>s'. fold (\<lambda>f x. snd (timer_irq f x)) fs (tm, s) = (tm\<lparr>ticks := ticks tm + of_nat (length fs)\<rparr>, s')
    \<and> sched_inv s' \<and> task_count s' = task_count s \<and> current_task s' = current_task s \<and> preempt_pending_flag s' = 0
    \<and> unat (current_quantum s') = unat (current_quantum s) + length fs \<and> ready_at s' = ready_at s \<and> ready_queue s' = ready_queue s"
  using assms
proof (induction fs arbitrary: s tm)
  case (Cons f fs)
  let ?s = "scheduler_on_tick s"
  have tab: "table_ok s" using Cons.prems(1) by blast
  have q: "unat (current_quantum s + 1) = unat (current_quantum s) + 1"
    using Cons.prems(3) by (simp add: unat_word_ariths)
  then have fl: "preempt_pending_flag ?s = 0"
    using Cons.prems scheduler_on_tick_facts [OF tab] by (auto simp: word_le_nat_alt)
  have one: "snd (timer_irq f (tm, s)) = (tm\<lparr>ticks := ticks tm + 1\<rparr>, ?s)"
    by (simp add: timer_irq_def timer_handle_interrupt_def schedule_idle fl)
  have "unat (current_quantum ?s) + length fs < 20"
    using Cons.prems(3) q scheduler_on_tick_facts(5) [OF tab] by simp
  from Cons.IH [OF scheduler_on_tick_inv [OF Cons.prems(1)] fl this, of "tm\<lparr>ticks := ticks tm + 1\<rparr>"]
  show ?case using q by (auto simp: one scheduler_on_tick_facts [OF tab] algebra_simps)
qed (auto intro: exI [of _ s])

lemma quantum_round_ok:
  assumes "quantum_start x" "quantum_round x y"
  shows "quantum_start y \<and> ready_queue (snd y) = rotate1 (ready_queue (snd x)) \<and> ticks (fst y) = ticks (fst x) + 20"
proof -
  obtain tm s where x: "x = (tm, s)" by fastforce
  obtain frames where fr: "length frames = 20" "0 \<notin> set frames" "y = fold (\<lambda>f x. snd (timer_irq f x)) frames x"
    using assms(2) by (auto simp: quantum_round_def)
  then obtain fs f where fs: "frames = fs @ [f]" "length fs = 19" "f \<noteq> 0" by (cases frames rule: rev_cases) auto
  have st: "sched_inv s" "2 \<le> unat (task_count s)" "ready_at s (unat (current_task s))" "preempt_pending_flag s = 0" "current_quantum s = 0"
    using assms(1) by (auto simp: quantum_start_def x)
  obtain s1 where s1: "fold (\<lambda>f x. snd (timer_irq f x)) fs (tm, s) = (tm\<lparr>ticks := ticks tm + 19\<rparr>, s1)" "sched_inv s1"
      "task_count s1 = task_count s" "current_task s1 = current_task s"
      "unat (current_quantum s1) = 19" "ready_at s1 = ready_at s" "ready_queue s1 = ready_queue s"
    using quiet_ticks [OF st(1,4), of fs tm] fs(2) st(5) by auto
  let ?s2 = "scheduler_on_tick s1"
  have tab: "table_ok s1" using s1(2) by blast
  have fl: "preempt_pending_flag ?s2 \<noteq> 0"
    using s1(5) scheduler_on_tick_facts(6) [OF tab] by (simp add: word_le_nat_alt unat_word_ariths)
  have r2: "ready_at ?s2 (unat (current_task ?s2))" "ready_queue ?s2 = ready_queue s"
    using st(3) s1 scheduler_on_tick_facts [OF tab] by auto
  have ne: "ready_queue ?s2 \<noteq> []" using ready_queue_Cons [of s] st(1,3) r2(2) by auto
  obtain f' s3 where s3: "scheduler_schedule_from_interrupt f ?s2 = (f', s3)" "sched_inv s3" "task_count s3 = task_count s"
      "preempt_pending_flag s3 = 0" "current_quantum s3 = 0" "ready_queue s3 = rotate1 (ready_queue s)"
      "unat (current_task s3) = hd (ready_queue s3)"
    using schedule_switch [OF scheduler_on_tick_inv [OF s1(2)] fs(3) _ fl ne] st(2) s1(3) r2 scheduler_on_tick_facts(4) [OF tab] by auto
  have "hd (ready_queue s3) \<in> set (ready_queue s3)" using s3(6) ne r2(2) by (intro hd_in_set) simp
  then have "ready_at s3 (unat (current_task s3))" unfolding s3(7) by (rule ready_queue_ready)
  moreover have "y = (tm\<lparr>ticks := ticks tm + 20\<rparr>, s3)"
    using fr(3) fs(1) s1(1) s3(1) x by (simp add: timer_irq_def timer_handle_interrupt_def)
  ultimately show ?thesis using s3 st(2) by (simp add: quantum_start_def x)
qed

interpretation rr: round_robin quantum_round "\<lambda>x. ready_queue (snd x)" quantum_start
  using quantum_round_ok by unfold_locales blast+

section \<open>Properties\<close>

definition cold_sched :: sched where
  "cold_sched = \<lparr>sched_mem = (\<lambda>_. 0), tasks = replicate 4 \<lparr>task_name = [], task_frame = 0, task_entry = 0, task_ticks = 0,
     task_runs = 0, task_state = TASK_UNUSED\<rparr>, task_count = 0, current_task = 0, current_quantum = 0, switches = 0, preempt_pending_flag = 0\<rparr>"

definition kernel_layout :: sched_layout where
  "kernel_layout = \<lparr>task_stacks = 0x120000, task_exit_trap_addr = 0x101000, idle_task_addr = 0x101020, io_task_addr = 0x101040\<rparr>"

definition one_quantum :: "u32 \<Rightarrow> timer \<times> sched \<Rightarrow> timer \<times> sched" where
  "one_quantum f = fold (\<lambda>f x. snd (timer_irq f x)) (replicate 20 f)"

lemma one_quantum_round: "f \<noteq> 0 \<Longrightarrow> quantum_round x (one_quantum f x)"
  unfolding quantum_round_def one_quantum_def by (rule exI [of _ "replicate 20 f"]) simp

text \<open>C28. The scheduler's state stays well-formed. Whatever the order of timer ticks, reschedule requests,
  yields, interrupts with registers saved at non-null addresses, iterations of the \<open>io\<close> task and task
  exits that follow \<open>scheduler_initialize\<close>: the current task is in the table and is running or has just
  exited, every other task is runnable or exited and has saved registers, and unless a switch is
  pending fewer than 20 ticks of the quantum are used.\<close>

theorem scheduler_invariant:
  assumes "length (tasks s0) = MAX_TASKS" and "sched_step\<^sup>*\<^sup>* (scheduler_initialize L s0) s"
  shows "sched_inv s"
  using sched_steps_inv [OF assms(2)] scheduler_initialize_ok [OF assms(1)] by blast

theorem scheduler_invariant_witness:
  "sched_inv (scheduler_on_tick (task_exit_trap (scheduler_initialize kernel_layout cold_sched)))"
  by (rule scheduler_invariant [of cold_sched kernel_layout])
    (auto simp: cold_sched_def intro: sched_step.intros rtranclp.rtrancl_into_rtrancl)

text \<open>C29. A switch rotates the ready queue. When a reschedule is pending among at least two tasks, some of
  them ready, the interrupt makes the next ready task in cyclic order current: the ready queue is
  rotated (a task that has exited was already dropped from it), the new current task is its head, the
  registers handed back are those saved for it (or the interrupted ones, if it is the same task), and
  the interrupted task's registers are saved for later.\<close>

theorem schedule_rotates_ready_queue:
  assumes "sched_inv s" and "f \<noteq> 0" and "2 \<le> unat (task_count s)" and "preempt_pending_flag s \<noteq> 0" and "ready_queue s \<noteq> []"
  shows "\<exists>f' s'. scheduler_schedule_from_interrupt f s = (f', s')
    \<and> sched_inv s' \<and> preempt_pending_flag s' = 0 \<and> current_quantum s' = 0
    \<and> ready_queue s' = (if ready_at s (unat (current_task s)) then rotate1 (ready_queue s) else ready_queue s)
    \<and> unat (current_task s') = hd (ready_queue s')
    \<and> f' = (if current_task s' = current_task s then f else task_frame (task_at s (current_task s')))
    \<and> (current_task s' = current_task s \<or> task_frame (task_at s' (current_task s)) = f)"
  using schedule_switch [OF assms] by blast

lemma boot_sched:
  "sched_inv (scheduler_initialize kernel_layout cold_sched)" "task_count (scheduler_initialize kernel_layout cold_sched) = 3"
  "current_quantum (scheduler_initialize kernel_layout cold_sched) = 0" "preempt_pending_flag (scheduler_initialize kernel_layout cold_sched) = 0"
  "ready_queue (scheduler_initialize kernel_layout cold_sched) = [0, 1, 2]"
  "ready_at (scheduler_initialize kernel_layout cold_sched) (unat (current_task (scheduler_initialize kernel_layout cold_sched)))"
proof -
  let ?s = "scheduler_initialize kernel_layout cold_sched"
  show *: "sched_inv ?s" "task_count ?s = 3" "current_quantum ?s = 0" "preempt_pending_flag ?s = 0" "ready_queue ?s = [0, 1, 2]"
    using scheduler_initialize_ok [of cold_sched kernel_layout] by (simp_all add: cold_sched_def)
  have c: "current_task ?s = 0"
    by (simp add: scheduler_initialize_def scheduler_add_task_def Let_def split_beta)
  have "0 \<in> set (ready_queue ?s)" by (simp add: *(5))
  then show "ready_at ?s (unat (current_task ?s))" unfolding ready_queue_def c by simp
qed

theorem schedule_rotates_ready_queue_witness:
  "ready_queue (snd (scheduler_schedule_from_interrupt 0x9000 (scheduler_request_reschedule (scheduler_initialize kernel_layout cold_sched)))) = [1, 2, 0]"
proof -
  let ?s = "scheduler_initialize kernel_layout cold_sched"
  have r: "ready_queue (scheduler_request_reschedule ?s) = ready_queue ?s" "ready_at (scheduler_request_reschedule ?s) = ready_at ?s"
    by (simp_all add: scheduler_request_reschedule_def)
  have "sched_inv (scheduler_request_reschedule ?s)" by (rule scheduler_request_inv) (rule boot_sched)
  from schedule_rotates_ready_queue [OF this, where f = "0x9000"] show ?thesis
    unfolding r by (auto simp: boot_sched scheduler_request_reschedule_def)
qed

text \<open>C30. The scheduler is fair. In every run of 20-interrupt quanta from a state in which a quantum
  starts, every ready task becomes the current task within as many quanta as there are ready tasks,
  and the timer has counted 20 ticks for each quantum.\<close>

theorem round_robin_fair:
  assumes "quantum_start (r 0)" and "\<And>k. quantum_round (r k) (r (Suc k))" and "t \<in> set (ready_queue (snd (r 0)))"
  shows "\<exists>k < length (ready_queue (snd (r 0))). unat (current_task (snd (r k))) = t \<and> ticks (fst (r k)) = ticks (fst (r 0)) + of_nat (20 * k)"
proof -
  obtain k where k: "k < length (ready_queue (snd (r 0)))" "quantum_start (r k)" "hd (ready_queue (snd (r k))) = t"
    using rr.served_within_round [of r, OF assms] by blast
  then have "unat (current_task (snd (r k))) = t"
    using ready_queue_Cons [of "snd (r k)"] by (auto simp: quantum_start_def split_beta)
  moreover have "quantum_start (r j) \<and> ticks (fst (r j)) = ticks (fst (r 0)) + of_nat (20 * j)" for j
  proof (induction j)
    case (Suc j)
    then show ?case using quantum_round_ok [OF _ assms(2) [of j]] by (simp add: algebra_simps)
  qed (simp add: assms(1))
  ultimately show ?thesis using k(1) by blast
qed

theorem round_robin_fair_witness:
  "\<exists>k < 3. unat (current_task (snd ((one_quantum 0x9000 ^^ k)
     (\<lparr>ticks = 0, configured_frequency = 100\<rparr>, scheduler_initialize kernel_layout cold_sched)))) = 2"
proof -
  let ?x = "(\<lparr>ticks = 0, configured_frequency = 100\<rparr>, scheduler_initialize kernel_layout cold_sched)"
  let ?r = "\<lambda>k. (one_quantum 0x9000 ^^ k) ?x"
  have "quantum_start (?r 0)" by (simp add: quantum_start_def boot_sched)
  moreover have "quantum_round (?r k) (?r (Suc k))" for k by (simp add: one_quantum_round)
  moreover have "2 \<in> set (ready_queue (snd (?r 0)))" "length (ready_queue (snd (?r 0))) = 3" by (simp_all add: boot_sched)
  ultimately show ?thesis using round_robin_fair [of ?r 2] by metis
qed

end
