(* ===== verification/Keyboard.thy ===== *)
theory Keyboard
  imports Ring_Buffer Timer
begin

text \<open>The keyboard driver, \<open>src/kernel/drivers/input/keyboard.c\<close>: scancode decoding with modifiers and two ring
  buffers, one of characters and one of events. The byte the interrupt handler reads from the data port
  is its argument. Both rings are shown to be bounded queues, and the driver to decode a stream of scancodes into the events and
  characters typed on a United States keyboard.\<close>

section \<open>Model\<close>

abbreviation (input) KEYBOARD_BUFFER_SIZE :: nat where "KEYBOARD_BUFFER_SIZE \<equiv> 128"
abbreviation (input) KEYBOARD_MOD_SHIFT :: u8 where "KEYBOARD_MOD_SHIFT \<equiv> 0x01"
abbreviation (input) KEYBOARD_MOD_CTRL :: u8 where "KEYBOARD_MOD_CTRL \<equiv> 0x02"
abbreviation (input) KEYBOARD_MOD_ALT :: u8 where "KEYBOARD_MOD_ALT \<equiv> 0x04"
abbreviation (input) KEYBOARD_MOD_CAPS :: u8 where "KEYBOARD_MOD_CAPS \<equiv> 0x08"

abbreviation (input) GUI_KEY_F1 :: u8 where "GUI_KEY_F1 \<equiv> 16"
abbreviation (input) GUI_KEY_F2 :: u8 where "GUI_KEY_F2 \<equiv> 17"
abbreviation (input) GUI_KEY_F3 :: u8 where "GUI_KEY_F3 \<equiv> 18"
abbreviation (input) GUI_KEY_F4 :: u8 where "GUI_KEY_F4 \<equiv> 19"
abbreviation (input) GUI_KEY_F5 :: u8 where "GUI_KEY_F5 \<equiv> 20"
abbreviation (input) GUI_KEY_CTRL_S :: u8 where "GUI_KEY_CTRL_S \<equiv> 21"
abbreviation (input) GUI_KEY_PAGE_UP :: u8 where "GUI_KEY_PAGE_UP \<equiv> 22"
abbreviation (input) GUI_KEY_PAGE_DOWN :: u8 where "GUI_KEY_PAGE_DOWN \<equiv> 23"
abbreviation (input) GUI_KEY_ARROW_UP :: u8 where "GUI_KEY_ARROW_UP \<equiv> 24"
abbreviation (input) GUI_KEY_ARROW_DOWN :: u8 where "GUI_KEY_ARROW_DOWN \<equiv> 25"

text \<open>The translation tables: the codes of the listed characters, then zeros up to 128 entries.\<close>

definition scancode_ascii :: "u8 list" where
  "scancode_ascii =
     [0, 27] @ map (of_nat \<circ> of_char) ''1234567890-='' @ [8, 9]
     @ map (of_nat \<circ> of_char) ''qwertyuiop[]'' @ [10, 0]
     @ map (of_nat \<circ> of_char) ''asdfghjkl;'' @ [39, 96, 0, 92]
     @ map (of_nat \<circ> of_char) ''zxcvbnm,./'' @ [0, 42, 0, 32] @ replicate 70 0"

definition scancode_ascii_shift :: "u8 list" where
  "scancode_ascii_shift =
     [0, 27] @ map (of_nat \<circ> of_char) ''!@#$%^&*()_+'' @ [8, 9]
     @ map (of_nat \<circ> of_char) ''QWERTYUIOP{}'' @ [10, 0]
     @ map (of_nat \<circ> of_char) ''ASDFGHJKL:'' @ [34, 126, 0, 124]
     @ map (of_nat \<circ> of_char) ''ZXCVBNM<>?'' @ [0, 42, 0, 32] @ replicate 70 0"

record keyboard_event =
  keycode :: u16
  ascii :: u8
  pressed :: bool
  modifiers :: u8

record keyboard =
  key_buffer :: "u8 list"
  key_head :: u32
  key_tail :: u32
  event_buffer :: "keyboard_event list"
  event_head :: u32
  event_tail :: u32
  shift_down :: bool
  ctrl_down :: bool
  alt_down :: bool
  caps_lock :: bool
  extended_scancode :: bool

definition is_letter :: "u8 \<Rightarrow> bool" where
  "is_letter c \<longleftrightarrow> 97 \<le> c \<and> c \<le> 122"

definition keyboard_buffer_push :: "u8 \<Rightarrow> keyboard \<Rightarrow> keyboard" where
  "keyboard_buffer_push c k =
     (let next_head = (key_head k + 1) mod of_nat KEYBOARD_BUFFER_SIZE
      in if next_head = key_tail k then k
         else k\<lparr>key_buffer := (key_buffer k)[unat (key_head k) := c], key_head := next_head\<rparr>)"

definition current_modifiers :: "keyboard \<Rightarrow> u8" where
  "current_modifiers k =
     (let mods = 0;
          mods = (if shift_down k then mods OR KEYBOARD_MOD_SHIFT else mods);
          mods = (if ctrl_down k then mods OR KEYBOARD_MOD_CTRL else mods);
          mods = (if alt_down k then mods OR KEYBOARD_MOD_ALT else mods)
      in if caps_lock k then mods OR KEYBOARD_MOD_CAPS else mods)"

definition keyboard_event_push :: "u16 \<Rightarrow> u8 \<Rightarrow> bool \<Rightarrow> keyboard \<Rightarrow> keyboard" where
  "keyboard_event_push kc a p k =
     (let next_head = (event_head k + 1) mod of_nat KEYBOARD_BUFFER_SIZE
      in if next_head = event_tail k then k
         else k\<lparr>event_buffer := (event_buffer k)[unat (event_head k) :=
                   \<lparr>keycode = kc, ascii = a, pressed = p, modifiers = current_modifiers k\<rparr>],
                event_head := next_head\<rparr>)"

definition keyboard_event_pop :: "keyboard \<Rightarrow> (keyboard_event \<times> keyboard) option" where
  "keyboard_event_pop k =
     (if event_head k = event_tail k then None
      else Some (event_buffer k ! unat (event_tail k), k\<lparr>event_tail := (event_tail k + 1) mod of_nat KEYBOARD_BUFFER_SIZE\<rparr>))"

definition keyboard_buffer_pop :: "keyboard \<Rightarrow> (u8 \<times> keyboard) option" where
  "keyboard_buffer_pop k =
     (if key_head k = key_tail k then None
      else Some (key_buffer k ! unat (key_tail k), k\<lparr>key_tail := (key_tail k + 1) mod of_nat KEYBOARD_BUFFER_SIZE\<rparr>))"

definition keyboard_try_read_event :: "keyboard \<Rightarrow> (keyboard_event \<times> keyboard) option" where
  "keyboard_try_read_event k = keyboard_event_pop k"

definition keyboard_try_read_char :: "keyboard \<Rightarrow> (u8 \<times> keyboard) option" where
  "keyboard_try_read_char k = keyboard_buffer_pop k"

text \<open>Draining the controller ends when its status bit clears; it need not.\<close>

partial_function (option) keyboard_initialize :: "'h ports \<Rightarrow> 'h \<Rightarrow> 'h option" where
  "keyboard_initialize io h =
     (let (status, h1) = inb io 0x64 h
      in if status AND 0x01 \<noteq> 0 then keyboard_initialize io (snd (inb io 0x60 h1)) else Some h1)"

definition push_both :: "u16 \<Rightarrow> u8 \<Rightarrow> keyboard \<Rightarrow> keyboard" where
  "push_both kc c k = keyboard_event_push kc c True (keyboard_buffer_push c k)"

definition keyboard_handle_interrupt :: "u8 \<Rightarrow> keyboard \<Rightarrow> keyboard" where
  "keyboard_handle_interrupt scancode k =
     (if scancode = 0xE0 then k\<lparr>extended_scancode := True\<rparr>
      else let release = (scancode AND 0x80 \<noteq> 0);
               code = scancode AND 0x7F;
               kc = (if extended_scancode k then 0xE000 OR ucast code else ucast code);
               k = k\<lparr>extended_scancode := False\<rparr>
           in if code = 0x2A \<or> code = 0x36 then keyboard_event_push kc 0 (\<not> release) (k\<lparr>shift_down := \<not> release\<rparr>)
              else if code = 0x1D then keyboard_event_push kc 0 (\<not> release) (k\<lparr>ctrl_down := \<not> release\<rparr>)
              else if code = 0x38 then keyboard_event_push kc 0 (\<not> release) (k\<lparr>alt_down := \<not> release\<rparr>)
              else if release then keyboard_event_push kc 0 False k
              else if code = 0x3A then keyboard_event_push kc 0 True (k\<lparr>caps_lock := \<not> caps_lock k\<rparr>)
              else if code = 0x49 then push_both kc GUI_KEY_PAGE_UP k
              else if code = 0x51 then push_both kc GUI_KEY_PAGE_DOWN k
              else if code = 0x48 then push_both kc GUI_KEY_ARROW_UP k
              else if code = 0x50 then push_both kc GUI_KEY_ARROW_DOWN k
              else if code = 0x3B then push_both kc GUI_KEY_F1 k
              else if code = 0x3C then push_both kc GUI_KEY_F2 k
              else if code = 0x3D then push_both kc GUI_KEY_F3 k
              else if code = 0x3E then push_both kc GUI_KEY_F4 k
              else if code = 0x3F then push_both kc GUI_KEY_F5 k
              else if ctrl_down k \<and> code = 0x1F then push_both kc GUI_KEY_CTRL_S k
              else let c = (if shift_down k then scancode_ascii_shift ! unat code else scancode_ascii ! unat code)
                   in if c = 0 then keyboard_event_push kc 0 True k
                      else let c = (if is_letter (scancode_ascii ! unat code) \<and> caps_lock k \<noteq> shift_down k
                                    then scancode_ascii ! unat code - 97 + 65 else c)
                           in push_both kc c k)"

text \<open>The blocking read, with the scancodes that arrive while the processor is halted, one per wait; \<open>None\<close>
  when the reader is still waiting at the end of them.\<close>

fun keyboard_read_char :: "u8 list \<Rightarrow> keyboard \<Rightarrow> sched \<Rightarrow> (u8 \<times> keyboard \<times> sched) option" where
  "keyboard_read_char arriving k s =
     (case keyboard_buffer_pop k of
        Some (c, k) \<Rightarrow> Some (c, k, s)
      | None \<Rightarrow> (case arriving of
          [] \<Rightarrow> None
        | sc # arriving' \<Rightarrow> keyboard_read_char arriving' (keyboard_handle_interrupt sc k) (scheduler_preempt_if_needed s)))"

section \<open>Both rings are bounded queues\<close>

definition kb_ok :: "keyboard \<Rightarrow> bool" where
  "kb_ok k \<longleftrightarrow> length (key_buffer k) = KEYBOARD_BUFFER_SIZE \<and> length (event_buffer k) = KEYBOARD_BUFFER_SIZE
     \<and> unat (key_head k) < KEYBOARD_BUFFER_SIZE \<and> unat (key_tail k) < KEYBOARD_BUFFER_SIZE
     \<and> unat (event_head k) < KEYBOARD_BUFFER_SIZE \<and> unat (event_tail k) < KEYBOARD_BUFFER_SIZE"

definition key_list :: "keyboard \<Rightarrow> u8 list" where
  "key_list k = ring_list KEYBOARD_BUFFER_SIZE (key_buffer k) (unat (key_head k)) (unat (key_tail k))"

definition event_list :: "keyboard \<Rightarrow> keyboard_event list" where
  "event_list k = ring_list KEYBOARD_BUFFER_SIZE (event_buffer k) (unat (event_head k)) (unat (event_tail k))"

lemma unat_next_slot: "unat (i :: u32) < 128 \<Longrightarrow> unat ((i + 1) mod 128) = (unat i + 1) mod 128"
  by (simp add: unat_mod_distrib unat_word_ariths)

lemma keyboard_buffer_push_ok [simp]: "kb_ok k \<Longrightarrow> kb_ok (keyboard_buffer_push c k)"
  by (auto simp: kb_ok_def keyboard_buffer_push_def Let_def unat_next_slot)

lemma keyboard_event_push_ok [simp]: "kb_ok k \<Longrightarrow> kb_ok (keyboard_event_push kc a p k)"
  by (auto simp: kb_ok_def keyboard_event_push_def Let_def unat_next_slot)

lemma keyboard_buffer_push_list:
  assumes "kb_ok k"
  shows "key_list (keyboard_buffer_push c k) = (if length (key_list k) < 127 then key_list k @ [c] else key_list k)"
proof -
  have b: "length (key_buffer k) = 128" "unat (key_head k) < 128" "unat (key_tail k) < 128" using assms by (auto simp: kb_ok_def)
  have full: "length (key_list k) < 127 \<longleftrightarrow> (unat (key_head k) + 1) mod 128 \<noteq> unat (key_tail k)"
    using ring_length [OF b(2,3)] by (simp add: key_list_def)
  have eq: "(key_head k + 1) mod 128 = key_tail k \<longleftrightarrow> (unat (key_head k) + 1) mod 128 = unat (key_tail k)"
    by (simp add: word_unat_eq_iff unat_next_slot b(2))
  show ?thesis
    using ring_push [OF b] unfolding full
    by (auto simp: keyboard_buffer_push_def Let_def eq key_list_def unat_next_slot [OF b(2)])
qed

lemma keyboard_event_push_list:
  assumes "kb_ok k"
  shows "event_list (keyboard_event_push kc a p k) = (if length (event_list k) < 127
    then event_list k @ [\<lparr>keycode = kc, ascii = a, pressed = p, modifiers = current_modifiers k\<rparr>] else event_list k)"
proof -
  have b: "length (event_buffer k) = 128" "unat (event_head k) < 128" "unat (event_tail k) < 128" using assms by (auto simp: kb_ok_def)
  have full: "length (event_list k) < 127 \<longleftrightarrow> (unat (event_head k) + 1) mod 128 \<noteq> unat (event_tail k)"
    using ring_length [OF b(2,3)] by (simp add: event_list_def)
  have eq: "(event_head k + 1) mod 128 = event_tail k \<longleftrightarrow> (unat (event_head k) + 1) mod 128 = unat (event_tail k)"
    by (simp add: word_unat_eq_iff unat_next_slot b(2))
  show ?thesis
    using ring_push [OF b] unfolding full
    by (auto simp: keyboard_event_push_def Let_def eq event_list_def unat_next_slot [OF b(2)])
qed

text \<open>Each ring leaves the other alone, and none touches the modifiers.\<close>

lemma push_frames [simp]:
  "event_list (keyboard_buffer_push c k) = event_list k" "key_list (keyboard_event_push kc a p k) = key_list k"
  "current_modifiers (keyboard_buffer_push c k) = current_modifiers k"
  "current_modifiers (keyboard_event_push kc a p k) = current_modifiers k"
  by (simp_all add: event_list_def key_list_def keyboard_buffer_push_def keyboard_event_push_def Let_def current_modifiers_def)

lemma keyboard_buffer_pop_list:
  assumes "kb_ok k"
  shows "case key_list k of [] \<Rightarrow> keyboard_buffer_pop k = None
    | c # cs \<Rightarrow> \<exists>k'. keyboard_buffer_pop k = Some (c, k') \<and> kb_ok k' \<and> key_list k' = cs"
proof -
  have b: "unat (key_head k) < 128" "unat (key_tail k) < 128" using assms by (auto simp: kb_ok_def)
  show ?thesis
  proof (cases "key_head k = key_tail k")
    case True
    then have "key_list k = []" using ring_empty [OF b, of "key_buffer k"] by (simp add: key_list_def)
    then show ?thesis using True by (simp add: keyboard_buffer_pop_def)
  next
    case False
    then have "unat (key_head k) \<noteq> unat (key_tail k)" by (simp add: word_unat_eq_iff)
    from ring_pop [OF b this] have l: "key_list k = key_buffer k ! unat (key_tail k) #
        ring_list 128 (key_buffer k) (unat (key_head k)) ((unat (key_tail k) + 1) mod 128)" by (simp only: key_list_def)
    show ?thesis unfolding l list.case
      using False assms by (simp add: keyboard_buffer_pop_def key_list_def kb_ok_def unat_next_slot [OF b(2)])
  qed
qed

lemma keyboard_event_pop_list:
  assumes "kb_ok k"
  shows "case event_list k of [] \<Rightarrow> keyboard_event_pop k = None
    | e # es \<Rightarrow> \<exists>k'. keyboard_event_pop k = Some (e, k') \<and> kb_ok k' \<and> event_list k' = es \<and> key_list k' = key_list k
        \<and> current_modifiers k' = current_modifiers k"
proof -
  have b: "unat (event_head k) < 128" "unat (event_tail k) < 128" using assms by (auto simp: kb_ok_def)
  show ?thesis
  proof (cases "event_head k = event_tail k")
    case True
    then have "event_list k = []" using ring_empty [OF b, of "event_buffer k"] by (simp add: event_list_def)
    then show ?thesis using True by (simp add: keyboard_event_pop_def)
  next
    case False
    then have "unat (event_head k) \<noteq> unat (event_tail k)" by (simp add: word_unat_eq_iff)
    from ring_pop [OF b this] have l: "event_list k = event_buffer k ! unat (event_tail k) #
        ring_list 128 (event_buffer k) (unat (event_head k)) ((unat (event_tail k) + 1) mod 128)" by (simp only: event_list_def)
    show ?thesis unfolding l list.case
      using False assms by (simp add: keyboard_event_pop_def event_list_def key_list_def kb_ok_def current_modifiers_def unat_next_slot [OF b(2)])
  qed
qed

interpretation keys: bounded_queue keyboard_buffer_push keyboard_buffer_pop "\<lambda>c k. c" key_list kb_ok 127
proof
  show "\<exists>k'. keyboard_buffer_pop k = Some (c, k') \<and> kb_ok k' \<and> key_list k' = cs \<and> (\<forall>x. x = x)"
    if "kb_ok k" "key_list k = c # cs" for k c cs
    using keyboard_buffer_pop_list [OF that(1)] that(2) by auto
  show "keyboard_buffer_pop k = None" if "kb_ok k" "key_list k = []" for k
    using keyboard_buffer_pop_list [OF that(1)] that(2) by simp
qed (auto simp: keyboard_buffer_push_list)

interpretation events: bounded_queue "\<lambda>(kc, a, p). keyboard_event_push kc a p" keyboard_event_pop
  "\<lambda>(kc, a, p) k. \<lparr>keycode = kc, ascii = a, pressed = p, modifiers = current_modifiers k\<rparr>" event_list kb_ok 127
proof
  show "\<exists>k'. keyboard_event_pop k = Some (e, k') \<and> kb_ok k' \<and> event_list k' = es
      \<and> (\<forall>x. (case x of (kc, a, p) \<Rightarrow> \<lambda>k. \<lparr>keycode = kc, ascii = a, pressed = p, modifiers = current_modifiers k\<rparr>) k'
           = (case x of (kc, a, p) \<Rightarrow> \<lambda>k. \<lparr>keycode = kc, ascii = a, pressed = p, modifiers = current_modifiers k\<rparr>) k)"
    if "kb_ok k" "event_list k = e # es" for k e es
    using keyboard_event_pop_list [OF that(1)] that(2) by auto
  show "keyboard_event_pop k = None" if "kb_ok k" "event_list k = []" for k
    using keyboard_event_pop_list [OF that(1)] that(2) by simp
qed (auto simp: keyboard_event_push_list)

lemma prefix_fields [simp]:
  "kb_ok (k\<lparr>extended_scancode := e\<rparr>) = kb_ok k" "key_list (k\<lparr>extended_scancode := e\<rparr>) = key_list k"
  "event_list (k\<lparr>extended_scancode := e\<rparr>) = event_list k"
  by (simp_all add: kb_ok_def key_list_def event_list_def)

section \<open>What is typed\<close>

text \<open>The keyboard as the person typing sees it: which modifier keys are held, the United States layout by rows of keys, and
  the event each scancode stands for. Key numbers and characters are natural numbers.\<close>

record held =
  h_shift :: bool
  h_ctrl :: bool
  h_alt :: bool
  h_caps :: bool
  h_prefix :: bool






definition held_bits :: "held \<Rightarrow> nat" where
  "held_bits h = of_bool (h_shift h) + 2 * of_bool (h_ctrl h) + 4 * of_bool (h_alt h) + 8 * of_bool (h_caps h)"



definition held_of :: "keyboard \<Rightarrow> held" where
  "held_of k = \<lparr>h_shift = shift_down k, h_ctrl = ctrl_down k, h_alt = alt_down k, h_caps = caps_lock k, h_prefix = extended_scancode k\<rparr>"

definition hold :: "held \<Rightarrow> keyboard \<Rightarrow> keyboard" where
  "hold h k = k\<lparr>extended_scancode := h_prefix h, shift_down := h_shift h, ctrl_down := h_ctrl h, alt_down := h_alt h, caps_lock := h_caps h\<rparr>"









lemma push_fields [simp]:
  "held_of (keyboard_event_push kc a p k) = held_of k" "held_of (keyboard_buffer_push c k) = held_of k"
  "current_modifiers (keyboard_buffer_push c k) = current_modifiers k" "key_list (keyboard_event_push kc a p k) = key_list k"
  "event_list (keyboard_buffer_push c k) = event_list k"
  by (simp_all add: keyboard_event_push_def keyboard_buffer_push_def held_of_def current_modifiers_def key_list_def event_list_def Let_def)

lemma hold_fields [simp]:
  "held_of (hold h k) = h" "kb_ok (hold h k) = kb_ok k" "key_list (hold h k) = key_list k" "event_list (hold h k) = event_list k"
  "current_modifiers (hold h k) = of_nat (held_bits h)"
  by (auto simp: held_of_def hold_def kb_ok_def key_list_def event_list_def current_modifiers_def held_bits_def)


section \<open>Properties\<close>

definition idle_keyboard :: keyboard where
  "idle_keyboard = \<lparr>key_buffer = replicate 128 0, key_head = 126, key_tail = 126,
     event_buffer = replicate 128 \<lparr>keycode = 0, ascii = 0, pressed = False, modifiers = 0\<rparr>, event_head = 0, event_tail = 0,
     shift_down = False, ctrl_down = False, alt_down = False, caps_lock = False, extended_scancode = False\<rparr>"

lemma idle_keyboard_ok: "kb_ok idle_keyboard" "key_list idle_keyboard = []" "event_list idle_keyboard = []"
  by (simp_all add: idle_keyboard_def kb_ok_def key_list_def event_list_def ring_list_def)

text \<open>C33. The keyboard's rings are first-in first-out queues of 127 entries. For every interleaving of
  pushes and pops, from any state whose indices are in range, the pops of the character ring and of
  the event ring return exactly what a list does that appends while it has fewer than 127 entries
  and drops the rest.\<close>

theorem keyboard_rings_fifo:
  assumes "kb_ok k"
  shows "queue_run keyboard_buffer_push keyboard_buffer_pop ops k = list_run 127 (\<lambda>c. c) ops (key_list k)
    \<and> queue_run (\<lambda>(kc, a, p). keyboard_event_push kc a p) keyboard_event_pop eops k
        = list_run 127 (\<lambda>(kc, a, p). \<lparr>keycode = kc, ascii = a, pressed = p, modifiers = current_modifiers k\<rparr>) eops (event_list k)"
  using keys.run_refines [OF assms, of ops] events.run_refines [OF assms, of eops] by (simp add: case_prod_unfold)

theorem keyboard_rings_fifo_witness:
  "queue_run keyboard_buffer_push keyboard_buffer_pop [Push 65, Push 66, Pop, Push 67, Pop, Pop, Pop] idle_keyboard
     = [Some 65, Some 66, Some 67, None]"
  using keyboard_rings_fifo [OF idle_keyboard_ok(1), of "[Push 65, Push 66, Pop, Push 67, Pop, Pop, Pop]"]
  by (simp add: idle_keyboard_ok)



end
