(* ===== verification/Mouse.thy ===== *)
theory Mouse
  imports Prelude
begin

text \<open>The PS/2 mouse driver, \<open>src/kernel/drivers/input/mouse.c\<close>: initialisation of the controller, assembly of
  three- or four-byte packets, the cursor clamped to the screen, clicks and the wheel. C's \<open>int32_t\<close>
  variables are integers; the cursor provably stays in range, and the wheel counter is reset at every
  poll. The byte the interrupt handler reads from the data port is its argument.\<close>

section \<open>Model\<close>

abbreviation (input) PS2_DATA :: u16 where "PS2_DATA \<equiv> 0x60"
abbreviation (input) PS2_STATUS :: u16 where "PS2_STATUS \<equiv> 0x64"
abbreviation (input) PS2_COMMAND :: u16 where "PS2_COMMAND \<equiv> 0x64"

record mouse =
  cursor_x :: int
  cursor_y :: int
  bound_width :: int
  bound_height :: int
  left_down_flag :: bool
  right_down_flag :: bool
  middle_down_flag :: bool
  click_pending :: bool
  click_x :: int
  click_y :: int
  wheel_delta :: int
  movement_generation :: u32
  packet :: "u8 list"
  packet_index :: u8
  packet_size :: u8

fun wait_status :: "'h ports \<Rightarrow> (u8 \<Rightarrow> bool) \<Rightarrow> nat \<Rightarrow> 'h \<Rightarrow> 'h" where
  "wait_status io done 0 h = h"
| "wait_status io done (Suc n) h =
     (let (status, h1) = inb io PS2_STATUS h in if done status then h1 else wait_status io done n h1)"

definition mouse_wait_input :: "'h ports \<Rightarrow> 'h \<Rightarrow> 'h" where
  "mouse_wait_input io = wait_status io (\<lambda>s. s AND 0x02 = 0) 100000"

definition mouse_wait_output :: "'h ports \<Rightarrow> 'h \<Rightarrow> 'h" where
  "mouse_wait_output io = wait_status io (\<lambda>s. s AND 0x01 \<noteq> 0) 100000"

definition mouse_write :: "'h ports \<Rightarrow> u8 \<Rightarrow> 'h \<Rightarrow> 'h" where
  "mouse_write io v h =
     (let h = mouse_wait_input io h; h = outb io PS2_COMMAND 0xD4 h; h = mouse_wait_input io h
      in outb io PS2_DATA v h)"

definition mouse_read_response :: "'h ports \<Rightarrow> 'h \<Rightarrow> u8 \<times> 'h" where
  "mouse_read_response io h = inb io PS2_DATA (mouse_wait_output io h)"

definition mouse_set_sample_rate :: "'h ports \<Rightarrow> u8 \<Rightarrow> 'h \<Rightarrow> 'h" where
  "mouse_set_sample_rate io rate h =
     (let h = mouse_write io 0xF3 h; h = snd (mouse_read_response io h); h = mouse_write io rate h
      in snd (mouse_read_response io h))"

definition mouse_initialize :: "'h ports \<Rightarrow> mouse \<Rightarrow> 'h \<Rightarrow> mouse \<times> 'h" where
  "mouse_initialize io m h =
     (let h = outb io PS2_COMMAND 0xA8 (mouse_wait_input io h);
          h = outb io PS2_COMMAND 0x20 (mouse_wait_input io h);
          (b, h) = inb io PS2_DATA (mouse_wait_output io h);
          status = b OR 0x02;
          h = outb io PS2_COMMAND 0x60 (mouse_wait_input io h);
          h = outb io PS2_DATA status (mouse_wait_input io h);
          h = mouse_write io 0xF6 h;
          (_, h) = mouse_read_response io h;
          h = mouse_set_sample_rate io 200 h;
          h = mouse_set_sample_rate io 100 h;
          h = mouse_set_sample_rate io 80 h;
          h = mouse_write io 0xF2 h;
          (_, h) = mouse_read_response io h;
          (ident, h) = mouse_read_response io h;
          m = (if ident = 3 \<or> ident = 4 then m\<lparr>packet_size := 4\<rparr> else m);
          h = mouse_write io 0xF4 h;
          (_, h) = mouse_read_response io h
      in (m, h))"

definition mouse_set_bounds :: "int \<Rightarrow> int \<Rightarrow> mouse \<Rightarrow> mouse" where
  "mouse_set_bounds width height m =
     (if width \<le> 0 \<or> height \<le> 0 then m
      else m\<lparr>bound_width := width, bound_height := height, cursor_x := width div 2, cursor_y := height div 2,
             movement_generation := movement_generation m + 1\<rparr>)"

text \<open>What a complete packet does, step by step: buttons, cursor, wheel, click.\<close>

definition packet_buttons :: "mouse \<Rightarrow> mouse" where
  "packet_buttons m =
     (let p0 = packet m ! 0
      in m\<lparr>left_down_flag := (p0 AND 0x01 \<noteq> 0), right_down_flag := (p0 AND 0x02 \<noteq> 0), middle_down_flag := (p0 AND 0x04 \<noteq> 0)\<rparr>)"

definition packet_move :: "mouse \<Rightarrow> mouse" where
  "packet_move m =
     (let dx = sint (packet m ! 1);
          dy = sint (packet m ! 2);
          m = m\<lparr>cursor_x := cursor_x m + dx, cursor_y := cursor_y m - dy\<rparr>;
          m = (if cursor_x m < 0 then m\<lparr>cursor_x := 0\<rparr> else m);
          m = (if cursor_y m < 0 then m\<lparr>cursor_y := 0\<rparr> else m);
          m = (if cursor_x m \<ge> bound_width m then m\<lparr>cursor_x := bound_width m - 1\<rparr> else m);
          m = (if cursor_y m \<ge> bound_height m then m\<lparr>cursor_y := bound_height m - 1\<rparr> else m)
      in m\<lparr>movement_generation := movement_generation m + 1\<rparr>)"

definition packet_wheel :: "mouse \<Rightarrow> mouse" where
  "packet_wheel m =
     (if packet_size m = 4
      then let wheel = packet m ! 3 AND 0x0F;
               wheel = (if wheel AND 0x08 \<noteq> 0 then wheel OR 0xF0 else wheel)
           in if wheel \<noteq> 0 then m\<lparr>wheel_delta := wheel_delta m + sint wheel, movement_generation := movement_generation m + 1\<rparr> else m
      else m)"

definition packet_click :: "bool \<Rightarrow> mouse \<Rightarrow> mouse" where
  "packet_click was_left m =
     (if was_left \<and> \<not> left_down_flag m
      then m\<lparr>click_pending := True, click_x := cursor_x m, click_y := cursor_y m, movement_generation := movement_generation m + 1\<rparr>
      else m)"

definition mouse_apply_packet :: "mouse \<Rightarrow> mouse" where
  "mouse_apply_packet m = packet_click (left_down_flag m) (packet_wheel (packet_move (packet_buttons m)))"

definition mouse_handle_interrupt :: "u8 \<Rightarrow> mouse \<Rightarrow> mouse" where
  "mouse_handle_interrupt data m =
     (if packet_index m = 0 \<and> data AND 0x08 = 0 then m
      else let m = m\<lparr>packet := (packet m)[unat (packet_index m) := data], packet_index := packet_index m + 1\<rparr>
           in if packet_index m < packet_size m then m
              else mouse_apply_packet (m\<lparr>packet_index := 0\<rparr>))"

definition mouse_consume_wheel_delta :: "mouse \<Rightarrow> int \<times> mouse" where
  "mouse_consume_wheel_delta m = (wheel_delta m, m\<lparr>wheel_delta := 0\<rparr>)"

definition mouse_consume_click :: "mouse \<Rightarrow> (int \<times> int) option \<times> mouse" where
  "mouse_consume_click m =
     (if \<not> click_pending m then (None, m) else (Some (click_x m, click_y m), m\<lparr>click_pending := False\<rparr>))"

section \<open>Invariant\<close>

definition mouse_ok :: "mouse \<Rightarrow> bool" where
  "mouse_ok m \<longleftrightarrow> 0 \<le> cursor_x m \<and> cursor_x m < bound_width m \<and> 0 \<le> cursor_y m \<and> cursor_y m < bound_height m
     \<and> length (packet m) = 4 \<and> packet_size m \<in> {3, 4} \<and> packet_index m < packet_size m
     \<and> (click_pending m \<longrightarrow> 0 \<le> click_x m \<and> 0 \<le> click_y m)"

definition clamp :: "int \<Rightarrow> int \<Rightarrow> int" where
  "clamp w x = max 0 (min (w - 1) x)"

definition wheel_of :: "mouse \<Rightarrow> int" where
  "wheel_of m = (if packet_size m = 4 then sint (let w = packet m ! 3 AND 0x0F in if w AND 0x08 \<noteq> 0 then w OR 0xF0 else w) else 0)"

lemma packet_move_eq:
  assumes "0 < bound_width m" "0 < bound_height m"
  shows "packet_move m = m\<lparr>cursor_x := clamp (bound_width m) (cursor_x m + sint (packet m ! 1)),
    cursor_y := clamp (bound_height m) (cursor_y m - sint (packet m ! 2)), movement_generation := movement_generation m + 1\<rparr>"
proof -
  have "(if (if a < 0 then 0 else a) \<ge> w then w - 1 else if a < 0 then 0 else a) = clamp w a" if "0 < w" for a w :: int
    using that by (auto simp: clamp_def)
  note c = this [OF assms(1)] this [OF assms(2)]
  show ?thesis using assms c [symmetric]
    by (cases "cursor_x m + sint (packet m ! 1) < 0"; cases "cursor_y m - sint (packet m ! 2) < 0") (auto simp: packet_move_def Let_def)
qed

lemma packet_wheel_eq: "\<exists>g. packet_wheel m = m\<lparr>wheel_delta := wheel_delta m + wheel_of m, movement_generation := g\<rparr>"
  by (auto simp: packet_wheel_def wheel_of_def Let_def intro: exI [of _ "movement_generation m"])

text \<open>A complete packet, field by field.\<close>

lemma apply_packet_eq:
  assumes "0 < bound_width m" "0 < bound_height m"
  shows "\<exists>g. mouse_apply_packet m = packet_click (left_down_flag m) ((packet_buttons m)\<lparr>
      cursor_x := clamp (bound_width m) (cursor_x m + sint (packet m ! 1)),
      cursor_y := clamp (bound_height m) (cursor_y m - sint (packet m ! 2)),
      wheel_delta := wheel_delta m + wheel_of m, movement_generation := g\<rparr>)"
proof -
  let ?b = "packet_buttons m"
  let ?m = "packet_move ?b"
  have b: "bound_width ?b = bound_width m" "bound_height ?b = bound_height m" "cursor_x ?b = cursor_x m" "cursor_y ?b = cursor_y m"
      "packet ?b = packet m" "wheel_delta ?b = wheel_delta m" "packet_size ?b = packet_size m"
    by (simp_all add: packet_buttons_def Let_def)
  have m: "?m = ?b\<lparr>cursor_x := clamp (bound_width m) (cursor_x m + sint (packet m ! 1)),
      cursor_y := clamp (bound_height m) (cursor_y m - sint (packet m ! 2)), movement_generation := movement_generation ?b + 1\<rparr>"
    using packet_move_eq [of ?b] assms by (simp add: b)
  obtain g where "packet_wheel ?m = ?m\<lparr>wheel_delta := wheel_delta ?m + wheel_of ?m, movement_generation := g\<rparr>"
    using packet_wheel_eq by blast
  then have "packet_wheel ?m = ?b\<lparr>cursor_x := clamp (bound_width m) (cursor_x m + sint (packet m ! 1)),
      cursor_y := clamp (bound_height m) (cursor_y m - sint (packet m ! 2)), wheel_delta := wheel_delta m + wheel_of m, movement_generation := g\<rparr>"
    by (simp add: m b wheel_of_def)
  then show ?thesis unfolding mouse_apply_packet_def by (intro exI [of _ g]) simp
qed

lemma clamp_bounds: "0 < w \<Longrightarrow> 0 \<le> clamp w x \<and> clamp w x < w"
  by (auto simp: clamp_def)

lemma apply_packet_ok:
  assumes "mouse_ok (m\<lparr>packet_index := 0\<rparr>)"
  shows "mouse_ok (mouse_apply_packet (m\<lparr>packet_index := 0\<rparr>))"
proof -
  let ?m = "m\<lparr>packet_index := 0\<rparr>"
  have w: "0 < bound_width ?m" "0 < bound_height ?m" using assms by (auto simp: mouse_ok_def)
  from apply_packet_eq [OF this] obtain g where eq: "mouse_apply_packet ?m = packet_click (left_down_flag ?m) ((packet_buttons ?m)\<lparr>
      cursor_x := clamp (bound_width ?m) (cursor_x ?m + sint (packet ?m ! 1)),
      cursor_y := clamp (bound_height ?m) (cursor_y ?m - sint (packet ?m ! 2)),
      wheel_delta := wheel_delta ?m + wheel_of ?m, movement_generation := g\<rparr>)" by blast
  show ?thesis
    unfolding eq using assms clamp_bounds [OF w(1)] clamp_bounds [OF w(2)]
    by (simp add: mouse_ok_def packet_click_def packet_buttons_def Let_def)
qed

lemma mouse_interrupt_ok:
  assumes "mouse_ok m" shows "mouse_ok (mouse_handle_interrupt data m)"
proof -
  let ?m = "m\<lparr>packet := (packet m)[unat (packet_index m) := data], packet_index := packet_index m + 1\<rparr>"
  have full: "mouse_ok (?m\<lparr>packet_index := 0\<rparr>)" using assms by (auto simp: mouse_ok_def)
  moreover have "mouse_ok ?m" if "packet_index ?m < packet_size ?m" using that assms by (auto simp: mouse_ok_def)
  ultimately show ?thesis using assms apply_packet_ok [of ?m] by (simp add: mouse_handle_interrupt_def Let_def)
qed

lemma mouse_set_bounds_ok: "mouse_ok m \<Longrightarrow> mouse_ok (mouse_set_bounds w h m)"
  by (auto simp: mouse_ok_def mouse_set_bounds_def)

section \<open>Reachable states\<close>

definition mouse_static :: mouse where
  "mouse_static = \<lparr>cursor_x = 160, cursor_y = 100, bound_width = 320, bound_height = 200, left_down_flag = False,
     right_down_flag = False, middle_down_flag = False, click_pending = False, click_x = 0, click_y = 0, wheel_delta = 0,
     movement_generation = 0, packet = [0, 0, 0, 0], packet_index = 0, packet_size = 3\<rparr>"

inductive mouse_step :: "'h ports \<Rightarrow> mouse \<Rightarrow> mouse \<Rightarrow> bool" for io :: "'h ports" where
  byte: "mouse_step io m (mouse_handle_interrupt b m)"
| bounds: "mouse_step io m (mouse_set_bounds w h m)"
| wheel: "mouse_step io m (snd (mouse_consume_wheel_delta m))"
| click: "mouse_step io m (snd (mouse_consume_click m))"
| init: "packet_index m = 0 \<Longrightarrow> mouse_step io m (fst (mouse_initialize io m h))"

lemma mouse_initialize_cases: "fst (mouse_initialize io m h) \<in> {m, m\<lparr>packet_size := 4\<rparr>}"
  by (simp add: mouse_initialize_def Let_def split_beta)

lemma mouse_consume_ok:
  "mouse_ok m \<Longrightarrow> mouse_ok (snd (mouse_consume_wheel_delta m))" "mouse_ok m \<Longrightarrow> mouse_ok (snd (mouse_consume_click m))"
  by (auto simp: mouse_consume_wheel_delta_def mouse_consume_click_def mouse_ok_def)

lemma mouse_step_ok: "mouse_step io m m' \<Longrightarrow> mouse_ok m \<Longrightarrow> mouse_ok m'"
proof (induction rule: mouse_step.induct)
  case (init m h)
  then show ?case using mouse_initialize_cases [of io m h] by (auto simp: mouse_ok_def)
qed (auto simp: mouse_interrupt_ok mouse_set_bounds_ok mouse_consume_ok)

lemma mouse_static_ok: "mouse_ok mouse_static"
  by (simp add: mouse_static_def mouse_ok_def)

section \<open>Properties\<close>

text \<open>C35. The cursor stays on the screen. After any sequence of mouse bytes, changes of the screen size,
  polls of wheel and click, and initialisation between packets, the cursor lies inside the bounds, the
  packet under assembly fits its four-byte buffer, and a pending click has a position on the screen's
  positive side.\<close>

theorem mouse_cursor_on_screen:
  assumes "(mouse_step io)\<^sup>*\<^sup>* mouse_static m"
  shows "0 \<le> cursor_x m \<and> cursor_x m < bound_width m \<and> 0 \<le> cursor_y m \<and> cursor_y m < bound_height m
    \<and> unat (packet_index m) < length (packet m) \<and> packet_index m < packet_size m"
proof -
  have "mouse_ok m" using assms by (induction rule: rtranclp_induct) (auto intro: mouse_step_ok mouse_static_ok)
  then show ?thesis by (auto simp: mouse_ok_def word_less_nat_alt)
qed

theorem mouse_cursor_on_screen_witness:
  "0 \<le> cursor_x (mouse_handle_interrupt 0x09 (mouse_set_bounds 1024 768 mouse_static))"
proof -
  have "(mouse_step (undefined :: unit ports))\<^sup>*\<^sup>* mouse_static (mouse_handle_interrupt 0x09 (mouse_set_bounds 1024 768 mouse_static))"
    by (auto intro: mouse_step.intros rtranclp.rtrancl_into_rtrancl)
  from mouse_cursor_on_screen [OF this] show ?thesis by simp
qed

text \<open>A three-byte packet moves the cursor by its signed deltas. From a packet boundary, three bytes of
  which the first has the synchronisation bit set add the second byte to the column and subtract the
  third from the row, both clamped to the screen, set the left button from bit 0, and record a click
  exactly when the button went up (or one was pending). A first byte without the bit is ignored.\<close>

theorem mouse_packet_decoded:
  assumes "mouse_ok m" and "packet_index m = 0" and "packet_size m = 3"
  shows "let m' = mouse_handle_interrupt b2 (mouse_handle_interrupt b1 (mouse_handle_interrupt b0 m)) in
    (b0 AND 0x08 = 0 \<longrightarrow> mouse_handle_interrupt b0 m = m) \<and>
    (b0 AND 0x08 \<noteq> 0 \<longrightarrow>
       cursor_x m' = clamp (bound_width m) (cursor_x m + sint b1) \<and> cursor_y m' = clamp (bound_height m) (cursor_y m - sint b2)
       \<and> left_down_flag m' = (b0 AND 0x01 \<noteq> 0) \<and> wheel_delta m' = wheel_delta m \<and> packet_index m' = 0
       \<and> click_pending m' = (click_pending m \<or> left_down_flag m \<and> b0 AND 0x01 = 0))"
proof -
  obtain p0 p1 p2 p3 where p: "packet m = [p0, p1, p2, p3]"
    using assms(1) by (auto simp: mouse_ok_def numeral_eq_Suc length_Suc_conv)
  let ?m3 = "m\<lparr>packet := [b0, b1, b2, p3], packet_index := 0\<rparr>"
  have eq: "mouse_handle_interrupt b2 (mouse_handle_interrupt b1 (mouse_handle_interrupt b0 m)) = mouse_apply_packet ?m3"
    if "b0 AND 0x08 \<noteq> 0"
    using that assms by (simp add: mouse_handle_interrupt_def Let_def p)
  have w: "0 < bound_width ?m3" "0 < bound_height ?m3" using assms(1) by (auto simp: mouse_ok_def)
  obtain g where g: "mouse_apply_packet ?m3 = packet_click (left_down_flag ?m3) ((packet_buttons ?m3)\<lparr>
      cursor_x := clamp (bound_width ?m3) (cursor_x ?m3 + sint (packet ?m3 ! 1)),
      cursor_y := clamp (bound_height ?m3) (cursor_y ?m3 - sint (packet ?m3 ! 2)),
      wheel_delta := wheel_delta ?m3 + wheel_of ?m3, movement_generation := g\<rparr>)"
    using apply_packet_eq [OF w] by blast
  have "wheel_of ?m3 = 0" using assms(3) by (simp add: wheel_of_def)
  then show ?thesis
    using assms(2) unfolding Let_def by (auto simp: eq g packet_click_def packet_buttons_def) (simp_all add: mouse_handle_interrupt_def)
qed

theorem mouse_packet_decoded_witness:
  "cursor_x (mouse_handle_interrupt 0xF6 (mouse_handle_interrupt 5 (mouse_handle_interrupt 8 mouse_static))) = 165"
proof -
  have "packet_index mouse_static = 0" "packet_size mouse_static = 3" by (simp_all add: mouse_static_def)
  from mouse_packet_decoded [OF mouse_static_ok this, of "0xF6" 5 8] show ?thesis
    by (simp add: Let_def clamp_def mouse_static_def)
qed

end
