(* ===== verification/Input.thy ===== *)
theory Input
  imports Keyboard Mouse
begin

text \<open>The input router, \<open>src/kernel/input/input.c\<close>: one poll turns the state of the keyboard and the mouse into
  at most one GUI event, keyboard events first, then wheel, button changes, missed clicks and movement.
  The event structure passed by the caller is an argument, since a poll without event only sets its type.\<close>

section \<open>Model\<close>

datatype gui_event_type = GUI_EVENT_NONE | GUI_EVENT_KEY | GUI_EVENT_MOUSE_MOVE | GUI_EVENT_MOUSE_BUTTON
  | GUI_EVENT_MOUSE_SCROLL | GUI_EVENT_TIMER_TICK

record gui_event =
  ev_type :: gui_event_type
  ev_x :: int
  ev_y :: int
  ev_dx :: int
  ev_dy :: int
  ev_wheel_delta :: int
  ev_key :: u8
  ev_keycode :: u16
  ev_modifiers :: u8
  ev_pressed :: bool
  ev_ticks :: u32

record input =
  last_left_down :: bool
  last_mouse_x :: int
  last_mouse_y :: int
  last_mouse_generation :: u32
  in_keyboard :: keyboard
  in_mouse :: mouse

definition input_initialize :: "input \<Rightarrow> input" where
  "input_initialize i =
     i\<lparr>last_left_down := left_down_flag (in_mouse i), last_mouse_x := cursor_x (in_mouse i),
       last_mouse_y := cursor_y (in_mouse i), last_mouse_generation := movement_generation (in_mouse i)\<rparr>"

text \<open>An event of the mouse: position, movement since the last event, wheel and button.\<close>

definition mouse_event :: "gui_event_type \<Rightarrow> int \<Rightarrow> int \<Rightarrow> int \<Rightarrow> int \<Rightarrow> int \<Rightarrow> bool \<Rightarrow> gui_event" where
  "mouse_event t x y dx dy w p = \<lparr>ev_type = t, ev_x = x, ev_y = y, ev_dx = dx, ev_dy = dy, ev_wheel_delta = w,
     ev_key = 0, ev_keycode = 0, ev_modifiers = 0, ev_pressed = p, ev_ticks = 0\<rparr>"

definition input_poll_mouse :: "gui_event \<Rightarrow> input \<Rightarrow> bool \<times> gui_event \<times> input" where
  "input_poll_mouse event i =
     (let generation = movement_generation (in_mouse i);
          left_down = left_down_flag (in_mouse i);
          x = cursor_x (in_mouse i);
          y = cursor_y (in_mouse i);
          (wheel, m) = mouse_consume_wheel_delta (in_mouse i);
          i = i\<lparr>in_mouse := m\<rparr>
      in if wheel \<noteq> 0
         then (True, mouse_event GUI_EVENT_MOUSE_SCROLL x y 0 0 wheel left_down, i\<lparr>last_mouse_generation := generation\<rparr>)
         else if left_down \<noteq> last_left_down i
         then let i = i\<lparr>last_left_down := left_down, last_mouse_generation := generation\<rparr>;
                  i = (if \<not> left_down then i\<lparr>in_mouse := snd (mouse_consume_click (in_mouse i))\<rparr> else i)
              in (True, mouse_event GUI_EVENT_MOUSE_BUTTON x y (x - last_mouse_x i) (y - last_mouse_y i) 0 left_down,
                  i\<lparr>last_mouse_x := x, last_mouse_y := y\<rparr>)
         else case mouse_consume_click (in_mouse i) of
           (Some (x, y), m) \<Rightarrow>
             (True, mouse_event GUI_EVENT_MOUSE_BUTTON x y (x - last_mouse_x i) (y - last_mouse_y i) 0 False,
              i\<lparr>in_mouse := m, last_left_down := False, last_mouse_x := x, last_mouse_y := y, last_mouse_generation := generation\<rparr>)
         | (None, m) \<Rightarrow>
             if generation \<noteq> last_mouse_generation i \<or> x \<noteq> last_mouse_x i \<or> y \<noteq> last_mouse_y i
             then (True, mouse_event GUI_EVENT_MOUSE_MOVE x y (x - last_mouse_x i) (y - last_mouse_y i) 0 left_down,
                   i\<lparr>in_mouse := m, last_mouse_x := x, last_mouse_y := y, last_mouse_generation := generation\<rparr>)
             else (False, event\<lparr>ev_type := GUI_EVENT_NONE\<rparr>, i\<lparr>in_mouse := m\<rparr>))"

definition input_poll_event :: "gui_event \<Rightarrow> input \<Rightarrow> bool \<times> gui_event \<times> input" where
  "input_poll_event event i =
     (case keyboard_try_read_event (in_keyboard i) of
        Some (ke, k) \<Rightarrow>
          (True, \<lparr>ev_type = GUI_EVENT_KEY, ev_x = last_mouse_x i, ev_y = last_mouse_y i, ev_dx = 0, ev_dy = 0, ev_wheel_delta = 0,
             ev_key = ascii ke, ev_keycode = keycode ke, ev_modifiers = modifiers ke, ev_pressed = pressed ke, ev_ticks = 0\<rparr>,
           i\<lparr>in_keyboard := k\<rparr>)
      | None \<Rightarrow> input_poll_mouse event i)"

section \<open>Lemmas\<close>

definition quiet :: "input \<Rightarrow> bool" where
  "quiet i \<longleftrightarrow> event_list (in_keyboard i) = [] \<and> wheel_delta (in_mouse i) = 0 \<and> left_down_flag (in_mouse i) = last_left_down i
     \<and> \<not> click_pending (in_mouse i) \<and> movement_generation (in_mouse i) = last_mouse_generation i
     \<and> cursor_x (in_mouse i) = last_mouse_x i \<and> cursor_y (in_mouse i) = last_mouse_y i"

lemma poll_key:
  assumes "kb_ok (in_keyboard i)" "event_list (in_keyboard i) = ke # es"
  shows "\<exists>k. input_poll_event e i = (True, \<lparr>ev_type = GUI_EVENT_KEY, ev_x = last_mouse_x i, ev_y = last_mouse_y i, ev_dx = 0, ev_dy = 0,
      ev_wheel_delta = 0, ev_key = ascii ke, ev_keycode = keycode ke, ev_modifiers = modifiers ke, ev_pressed = pressed ke, ev_ticks = 0\<rparr>,
      i\<lparr>in_keyboard := k\<rparr>) \<and> kb_ok k \<and> event_list k = es"
  using events.pop_Cons [OF assms] by (auto simp: input_poll_event_def keyboard_try_read_event_def)

lemma poll_no_key:
  assumes "kb_ok (in_keyboard i)" "event_list (in_keyboard i) = []"
  shows "input_poll_event e i = input_poll_mouse e i"
  using events.pop_empty [OF assms] by (simp add: input_poll_event_def keyboard_try_read_event_def)

lemma poll_mouse_keyboard: "in_keyboard (snd (snd (input_poll_mouse e i))) = in_keyboard i"
  by (auto simp: input_poll_mouse_def Let_def split_beta mouse_consume_click_def mouse_consume_wheel_delta_def)

lemma poll_mouse_quiet:
  "fst (input_poll_mouse e i) \<longleftrightarrow> \<not> (wheel_delta (in_mouse i) = 0 \<and> left_down_flag (in_mouse i) = last_left_down i
     \<and> \<not> click_pending (in_mouse i) \<and> movement_generation (in_mouse i) = last_mouse_generation i
     \<and> cursor_x (in_mouse i) = last_mouse_x i \<and> cursor_y (in_mouse i) = last_mouse_y i)"
  by (auto simp: input_poll_mouse_def Let_def mouse_consume_click_def mouse_consume_wheel_delta_def)

lemma poll_mouse_none:
  "fst (input_poll_mouse e i) = False \<Longrightarrow> snd (input_poll_mouse e i) = (e\<lparr>ev_type := GUI_EVENT_NONE\<rparr>, i)"
  by (auto simp: input_poll_mouse_def Let_def mouse_consume_click_def mouse_consume_wheel_delta_def split: if_splits)

text \<open>The button events of a poll and the remembered button state.\<close>

lemma poll_mouse_button:
  "ev_type (fst (snd (input_poll_mouse e i))) = GUI_EVENT_MOUSE_BUTTON \<Longrightarrow>
     last_left_down (snd (snd (input_poll_mouse e i))) = ev_pressed (fst (snd (input_poll_mouse e i)))
     \<and> (ev_pressed (fst (snd (input_poll_mouse e i))) \<longrightarrow> \<not> last_left_down i)"
  by (auto simp: input_poll_mouse_def Let_def mouse_consume_click_def mouse_consume_wheel_delta_def mouse_event_def split: if_splits)

lemma poll_mouse_no_button:
  "ev_type (fst (snd (input_poll_mouse e i))) \<noteq> GUI_EVENT_MOUSE_BUTTON \<Longrightarrow> last_left_down (snd (snd (input_poll_mouse e i))) = last_left_down i"
  by (auto simp: input_poll_mouse_def Let_def mouse_consume_click_def mouse_consume_wheel_delta_def mouse_event_def split: if_splits)

lemma poll_button:
  assumes "input_poll_event e i = (r, ev, i')"
  shows "if ev_type ev = GUI_EVENT_MOUSE_BUTTON then last_left_down i' = ev_pressed ev \<and> (ev_pressed ev \<longrightarrow> \<not> last_left_down i)
    else last_left_down i' = last_left_down i"
proof (cases "keyboard_try_read_event (in_keyboard i)")
  case None
  then have "input_poll_mouse e i = (r, ev, i')" using assms by (simp add: input_poll_event_def)
  then show ?thesis using poll_mouse_button [of e i] poll_mouse_no_button [of e i] by simp
next
  case (Some p)
  then show ?thesis using assms by (cases p) (auto simp: input_poll_event_def)
qed

text \<open>The events left to report decrease with every poll: queued key events, the wheel, a pending click
  (which may uncover a button change and a movement), a button change and a movement.\<close>

definition backlog :: "input \<Rightarrow> nat" where
  "backlog i = length (event_list (in_keyboard i)) + (if wheel_delta (in_mouse i) \<noteq> 0 then 1 else 0)
     + (if click_pending (in_mouse i) then 3 else 0) + (if left_down_flag (in_mouse i) \<noteq> last_left_down i then 1 else 0)
     + (if movement_generation (in_mouse i) \<noteq> last_mouse_generation i \<or> cursor_x (in_mouse i) \<noteq> last_mouse_x i
           \<or> cursor_y (in_mouse i) \<noteq> last_mouse_y i then 1 else 0)"

lemma quiet_backlog: "quiet i \<longleftrightarrow> backlog i = 0"
  by (auto simp: quiet_def backlog_def)

lemma poll_mouse_backlog:
  "fst (input_poll_mouse e i) \<Longrightarrow> backlog (snd (snd (input_poll_mouse e i))) < backlog i"
  by (auto simp: input_poll_mouse_def Let_def mouse_consume_click_def mouse_consume_wheel_delta_def backlog_def split: if_splits)

lemma poll_progress:
  assumes "kb_ok (in_keyboard i)"
  shows "kb_ok (in_keyboard (snd (snd (input_poll_event e i))))
    \<and> (if quiet i then input_poll_event e i = (False, e\<lparr>ev_type := GUI_EVENT_NONE\<rparr>, i)
       else fst (input_poll_event e i) \<and> backlog (snd (snd (input_poll_event e i))) < backlog i)"
proof (cases "event_list (in_keyboard i)")
  case Nil
  have eq: "input_poll_event e i = input_poll_mouse e i" by (rule poll_no_key [OF assms Nil])
  have q: "quiet i \<longleftrightarrow> \<not> fst (input_poll_mouse e i)" unfolding poll_mouse_quiet quiet_def using Nil by blast
  have kb: "kb_ok (in_keyboard (snd (snd (input_poll_event e i))))" unfolding eq poll_mouse_keyboard by (rule assms)
  show ?thesis
  proof (cases "quiet i")
    case True
    then have "input_poll_mouse e i = (False, e\<lparr>ev_type := GUI_EVENT_NONE\<rparr>, i)"
      using q poll_mouse_none [of e i] by (metis prod.collapse)
    then show ?thesis using True assms by (simp add: eq)
  next
    case False
    then show ?thesis using q kb poll_mouse_backlog [of e i] by (simp add: eq)
  qed
next
  case (Cons ke es)
  obtain ev k where p: "input_poll_event e i = (True, ev, i\<lparr>in_keyboard := k\<rparr>)" "kb_ok k" "event_list k = es"
    using poll_key [OF assms Cons, of e] by blast
  have "\<not> quiet i" using Cons by (simp add: quiet_def)
  moreover have "backlog (i\<lparr>in_keyboard := k\<rparr>) < backlog i" by (simp add: backlog_def p(3) Cons)
  ultimately show ?thesis using p(1,2) by simp
qed

section \<open>Runs\<close>

text \<open>A run of the desktop: polls between keyboard and mouse interrupts, with the list of reported button
  states.\<close>

inductive input_run :: "input \<Rightarrow> bool list \<Rightarrow> input \<Rightarrow> bool" for i0 where
  start: "input_run i0 [] i0"
| key: "input_run i0 bs i \<Longrightarrow> input_run i0 bs (i\<lparr>in_keyboard := keyboard_handle_interrupt b (in_keyboard i)\<rparr>)"
| mouse: "input_run i0 bs i \<Longrightarrow> input_run i0 bs (i\<lparr>in_mouse := mouse_handle_interrupt b (in_mouse i)\<rparr>)"
| button: "input_run i0 bs i \<Longrightarrow> input_poll_event e i = (r, ev, i') \<Longrightarrow> ev_type ev = GUI_EVENT_MOUSE_BUTTON
     \<Longrightarrow> input_run i0 (bs @ [ev_pressed ev]) i'"
| other: "input_run i0 bs i \<Longrightarrow> input_poll_event e i = (r, ev, i') \<Longrightarrow> ev_type ev \<noteq> GUI_EVENT_MOUSE_BUTTON \<Longrightarrow> input_run i0 bs i'"

lemma input_run_alternates:
  "input_run i0 bs i \<Longrightarrow> (bs \<noteq> [] \<longrightarrow> last bs = last_left_down i) \<and> (\<forall>n. Suc n < length bs \<longrightarrow> \<not> (bs ! n \<and> bs ! Suc n))"
proof (induction rule: input_run.induct)
  case (button bs i e r ev i')
  have p: "last_left_down i' = ev_pressed ev" "ev_pressed ev \<Longrightarrow> \<not> last_left_down i"
    using poll_button [OF button.hyps(2)] button.hyps(3) by auto
  have "\<not> ((bs @ [ev_pressed ev]) ! n \<and> (bs @ [ev_pressed ev]) ! Suc n)" if n: "Suc n < length (bs @ [ev_pressed ev])" for n
  proof (cases "Suc n = length bs")
    case True
    then have ne: "bs \<noteq> []" by auto
    then have "bs ! n = last bs" "bs \<noteq> []" using True last_conv_nth [OF ne] by (simp_all flip: True)
    then show ?thesis using True p(2) button.IH by (auto simp: nth_append)
  next
    case False
    then show ?thesis using n button.IH by (auto simp: nth_append)
  qed
  then show ?case using p(1) by auto
next
  case (other bs i e r ev i')
  then show ?case using poll_button [OF other.hyps(2)] by simp
qed auto

section \<open>Properties\<close>

definition idle_input :: input where
  "idle_input = \<lparr>last_left_down = False, last_mouse_x = 160, last_mouse_y = 100, last_mouse_generation = 0,
     in_keyboard = idle_keyboard, in_mouse = mouse_static\<rparr>"

definition no_event :: gui_event where
  "no_event = mouse_event GUI_EVENT_NONE 0 0 0 0 0 False"

text \<open>C31. Polling is complete and drains. A poll reports no event exactly when nothing is pending: no queued
  key event, wheel movement, button change, click, or cursor movement since the last report; it then
  changes nothing. Without further interrupts, polling reaches that state after at most six polls more
  than there are queued key events, so no pending input is starved by another.\<close>

theorem input_poll_drains:
  assumes "kb_ok (in_keyboard i)"
  shows "(fst (input_poll_event e i) = False \<longleftrightarrow> quiet i) \<and> (quiet i \<longrightarrow> input_poll_event e i = (False, e\<lparr>ev_type := GUI_EVENT_NONE\<rparr>, i))
    \<and> (\<exists>n \<le> length (event_list (in_keyboard i)) + 6. quiet (((\<lambda>i. snd (snd (input_poll_event e i))) ^^ n) i))"
proof -
  let ?p = "\<lambda>i. snd (snd (input_poll_event e i))"
  have "\<exists>n \<le> backlog i. quiet ((?p ^^ n) i)"
    using assms
  proof (induction "backlog i" arbitrary: i rule: less_induct)
    case less
    show ?case
    proof (cases "quiet i")
      case True
      then show ?thesis by (intro exI [of _ 0]) simp
    next
      case False
      then have lt: "backlog (?p i) < backlog i" "kb_ok (in_keyboard (?p i))" using poll_progress [OF less.prems, of e] by auto
      then obtain n where "n \<le> backlog (?p i)" "quiet ((?p ^^ n) (?p i))" using less.hyps by blast
      then show ?thesis using lt(1) by (intro exI [of _ "Suc n"]) (simp add: funpow_Suc_right del: funpow.simps)
    qed
  qed
  moreover have "backlog i \<le> length (event_list (in_keyboard i)) + 6" by (simp add: backlog_def)
  ultimately have "\<exists>n \<le> length (event_list (in_keyboard i)) + 6. quiet ((?p ^^ n) i)" by (meson le_trans)
  moreover have "fst (input_poll_event e i) = False \<longleftrightarrow> quiet i" "quiet i \<longrightarrow> input_poll_event e i = (False, e\<lparr>ev_type := GUI_EVENT_NONE\<rparr>, i)"
    using poll_progress [OF assms, of e] by (simp_all split: if_splits)
  ultimately show ?thesis by blast
qed

theorem input_poll_drains_witness: "input_poll_event no_event idle_input = (False, no_event, idle_input)"
proof -
  have "kb_ok (in_keyboard idle_input)" "quiet idle_input"
    by (simp_all add: idle_input_def idle_keyboard_ok quiet_def mouse_static_def)
  from input_poll_drains [OF this(1), of no_event] this(2) show ?thesis by (simp add: no_event_def mouse_event_def)
qed

text \<open>C32. Button presses alternate with releases. In every interleaving of keyboard interrupts, mouse
  interrupts and polls, two reported presses of the left button are never adjacent among the button
  events: a release is reported between them, even when the release and the second press both
  happened between two polls.\<close>

theorem input_presses_alternate:
  assumes "input_run i0 bs i" and "Suc n < length bs"
  shows "\<not> (bs ! n \<and> bs ! Suc n)"
  using input_run_alternates [OF assms(1)] assms(2) by blast

theorem input_presses_alternate_witness:
  "\<exists>bs i. input_run (idle_input\<lparr>in_mouse := mouse_static\<lparr>left_down_flag := True, click_pending := True\<rparr>\<rparr>) bs i
     \<and> bs = [True, False] \<and> \<not> (bs ! 0 \<and> bs ! Suc 0)"
proof -
  let ?i = "idle_input\<lparr>in_mouse := mouse_static\<lparr>left_down_flag := True, click_pending := True\<rparr>\<rparr>"
  have k: "keyboard_try_read_event idle_keyboard = None" by (simp add: keyboard_try_read_event_def keyboard_event_pop_def idle_keyboard_def)
  obtain ev1 i1 where 1: "input_poll_event no_event ?i = (True, ev1, i1)" "ev_type ev1 = GUI_EVENT_MOUSE_BUTTON" "ev_pressed ev1"
      "in_keyboard i1 = idle_keyboard" "last_left_down i1" "in_mouse i1 = mouse_static\<lparr>left_down_flag := True, click_pending := True\<rparr>"
    by (simp add: input_poll_event_def k idle_input_def input_poll_mouse_def mouse_consume_wheel_delta_def mouse_event_def mouse_static_def)
  obtain ev2 i2 where 2: "input_poll_event no_event i1 = (True, ev2, i2)" "ev_type ev2 = GUI_EVENT_MOUSE_BUTTON" "\<not> ev_pressed ev2"
    using 1(4,5,6) by (simp add: input_poll_event_def k input_poll_mouse_def mouse_consume_wheel_delta_def mouse_consume_click_def
        mouse_event_def mouse_static_def)
  have r: "input_run ?i [True, False] i2"
    using input_run.button [OF input_run.button [OF input_run.start 1(1,2)] 2(1,2)] 1(3) 2(3) by simp
  from input_presses_alternate [OF r, of 0] r show ?thesis by auto
qed

end
