(* ===== verification/Paging.thy ===== *)
theory Paging
  imports Pmm
begin

text \<open>Two-level page tables, \<open>src/kernel/mm/paging.c\<close>: the identity map of the kernel with the boot framebuffer,
  and address spaces that share the kernel's tables until they map into one. Page directories, page
  tables and the structures \<open>struct address_space\<close> live in a raw physical memory, which the kernel
  reaches through its identity map, so that sharing and overlap are visible. The addresses of the static
  arrays are the record \<open>paging_layout\<close>; \<open>cr0\<close> and \<open>cr3\<close> are fields of the state, and flushing a
  translation buffer entry has no effect on the state.\<close>

section \<open>Model\<close>

abbreviation (input) PAGE_PRESENT :: u32 where "PAGE_PRESENT \<equiv> 0x1"
abbreviation (input) PAGE_WRITABLE :: u32 where "PAGE_WRITABLE \<equiv> 0x2"
abbreviation (input) PAGE_USER :: u32 where "PAGE_USER \<equiv> 0x4"
abbreviation (input) PAGE_ENTRIES :: nat where "PAGE_ENTRIES \<equiv> 1024"
abbreviation (input) PAGE_TABLE_COUNT :: nat where "PAGE_TABLE_COUNT \<equiv> 32"
abbreviation (input) FRAMEBUFFER_PAGE_TABLES :: nat where "FRAMEBUFFER_PAGE_TABLES \<equiv> 8"
abbreviation (input) PAGE_SIZE :: u32 where "PAGE_SIZE \<equiv> 4096"

record paging_layout =
  kernel_page_directory :: u32
  identity_page_tables :: u32
  framebuffer_page_tables :: u32
  kernel_space :: u32

record paging =
  pmem :: mem
  ppmm :: pmm
  current_space :: u32
  boot_framebuffer_physical :: u32
  boot_framebuffer_size :: u32
  cr0 :: u32
  cr3 :: u32

definition entry_at :: "mem \<Rightarrow> u32 \<Rightarrow> nat \<Rightarrow> u32" where
  "entry_at m table i = load32 m (unat table + 4 * i)"

definition set_entry :: "u32 \<Rightarrow> nat \<Rightarrow> u32 \<Rightarrow> mem \<Rightarrow> mem" where
  "set_entry table i v m = store32 m (unat table + 4 * i) v"

text \<open>Fields of \<open>struct address_space\<close>: the directory pointer and the array of owned tables behind it.\<close>

definition page_directory :: "mem \<Rightarrow> u32 \<Rightarrow> u32" where
  "page_directory m space = load32 m (unat space)"

definition set_page_directory :: "u32 \<Rightarrow> u32 \<Rightarrow> mem \<Rightarrow> mem" where
  "set_page_directory space v m = store32 m (unat space) v"

definition owned_table :: "mem \<Rightarrow> u32 \<Rightarrow> nat \<Rightarrow> u32" where
  "owned_table m space i = load32 m (unat space + 4 + 4 * i)"

definition set_owned_table :: "u32 \<Rightarrow> nat \<Rightarrow> u32 \<Rightarrow> mem \<Rightarrow> mem" where
  "set_owned_table space i v m = store32 m (unat space + 4 + 4 * i) v"

definition page_base :: "u32 \<Rightarrow> u32" where
  "page_base v = v AND NOT (PAGE_SIZE - 1)"

definition directory_index :: "u32 \<Rightarrow> nat" where
  "directory_index va = unat (drop_bit 22 va)"

definition table_index :: "u32 \<Rightarrow> nat" where
  "table_index va = unat (drop_bit 12 va AND 0x3FF)"

fun zero_from :: "u32 \<Rightarrow> nat \<Rightarrow> nat \<Rightarrow> mem \<Rightarrow> mem" where
  "zero_from table i 0 m = m"
| "zero_from table i (Suc n) m = zero_from table (Suc i) n (set_entry table i 0 m)"

definition zero_page_table :: "u32 \<Rightarrow> mem \<Rightarrow> mem" where
  "zero_page_table table m = zero_from table 0 PAGE_ENTRIES m"

fun copy_from :: "u32 \<Rightarrow> u32 \<Rightarrow> nat \<Rightarrow> nat \<Rightarrow> mem \<Rightarrow> mem" where
  "copy_from dst src i 0 m = m"
| "copy_from dst src i (Suc n) m = copy_from dst src (Suc i) n (set_entry dst i (entry_at m src i) m)"

definition copy_page_table :: "u32 \<Rightarrow> u32 \<Rightarrow> mem \<Rightarrow> mem" where
  "copy_page_table dst src m = copy_from dst src 0 PAGE_ENTRIES m"

fun clear_directory :: "paging_layout \<Rightarrow> nat \<Rightarrow> nat \<Rightarrow> mem \<Rightarrow> mem" where
  "clear_directory L i 0 m = m"
| "clear_directory L i (Suc n) m =
     clear_directory L (Suc i) n (set_owned_table (kernel_space L) i 0 (set_entry (kernel_page_directory L) i PAGE_WRITABLE m))"

definition identity_table :: "paging_layout \<Rightarrow> nat \<Rightarrow> u32" where
  "identity_table L t = identity_page_tables L + of_nat t * PAGE_SIZE"

fun fill_identity_table :: "paging_layout \<Rightarrow> nat \<Rightarrow> nat \<Rightarrow> nat \<Rightarrow> mem \<Rightarrow> mem" where
  "fill_identity_table L t i 0 m = m"
| "fill_identity_table L t i (Suc n) m =
     (let address = (of_nat t * of_nat PAGE_ENTRIES + of_nat i) * PAGE_SIZE
      in fill_identity_table L t (Suc i) n (set_entry (identity_table L t) i (address OR PAGE_PRESENT OR PAGE_WRITABLE) m))"

fun fill_identity :: "paging_layout \<Rightarrow> nat \<Rightarrow> nat \<Rightarrow> mem \<Rightarrow> mem" where
  "fill_identity L t 0 m = m"
| "fill_identity L t (Suc n) m =
     fill_identity L (Suc t) n (set_entry (kernel_page_directory L) t (identity_table L t OR PAGE_PRESENT OR PAGE_WRITABLE)
       (fill_identity_table L t 0 PAGE_ENTRIES m))"

definition framebuffer_table :: "paging_layout \<Rightarrow> nat \<Rightarrow> u32" where
  "framebuffer_table L t = framebuffer_page_tables L + of_nat t * PAGE_SIZE"

fun map_fb_entries :: "u32 \<Rightarrow> nat \<Rightarrow> nat \<Rightarrow> u32 \<Rightarrow> u32 \<Rightarrow> mem \<Rightarrow> u32 \<times> mem" where
  "map_fb_entries table i 0 address stop m = (address, m)"
| "map_fb_entries table i (Suc n) address stop m =
     (if address < stop
      then map_fb_entries table (Suc i) n (address + PAGE_SIZE) stop (set_entry table i (address OR PAGE_PRESENT OR PAGE_WRITABLE) m)
      else (address, m))"

partial_function (option) map_framebuffer :: "paging_layout \<Rightarrow> u32 \<Rightarrow> u32 \<Rightarrow> nat \<Rightarrow> mem \<Rightarrow> mem option" where
  "map_framebuffer L address stop slots m =
     (if address < stop
      then let d = directory_index address; i = table_index address;
               missing = (entry_at m (kernel_page_directory L) d AND PAGE_PRESENT = 0)
           in if missing \<and> slots \<ge> FRAMEBUFFER_PAGE_TABLES then Some m
              else let m = (if missing
                            then set_entry (kernel_page_directory L) d (framebuffer_table L slots OR PAGE_PRESENT OR PAGE_WRITABLE)
                                   (zero_page_table (framebuffer_table L slots) m)
                            else m);
                       slots = (if missing then slots + 1 else slots);
                       table = page_base (entry_at m (kernel_page_directory L) d);
                       (address, m) = map_fb_entries table i (PAGE_ENTRIES - i) address stop m
                   in map_framebuffer L address stop slots m
      else Some m)"

definition paging_set_boot_framebuffer :: "u32 \<Rightarrow> u32 \<Rightarrow> paging \<Rightarrow> paging" where
  "paging_set_boot_framebuffer physical_address sz st = st\<lparr>boot_framebuffer_physical := physical_address, boot_framebuffer_size := sz\<rparr>"

definition paging_initialize :: "paging_layout \<Rightarrow> paging \<Rightarrow> paging option" where
  "paging_initialize L st =
     (let m = fill_identity L 0 PAGE_TABLE_COUNT (clear_directory L 0 PAGE_ENTRIES (pmem st)) in
      do { m \<leftarrow> (if boot_framebuffer_physical st \<noteq> 0 \<and> boot_framebuffer_size st \<noteq> 0
                 then map_framebuffer L (page_base (boot_framebuffer_physical st))
                        (page_base (boot_framebuffer_physical st + boot_framebuffer_size st + PAGE_SIZE - 1)) 0 m
                 else Some m);
           Some (st\<lparr>pmem := set_page_directory (kernel_space L) (kernel_page_directory L) m, current_space := kernel_space L,
                    cr3 := kernel_page_directory L, cr0 := cr0 st OR 0x80000000\<rparr>) })"

definition paging_is_enabled :: "paging \<Rightarrow> bool" where
  "paging_is_enabled st \<longleftrightarrow> cr0 st AND 0x80000000 \<noteq> 0"

fun clear_owned :: "u32 \<Rightarrow> nat \<Rightarrow> nat \<Rightarrow> mem \<Rightarrow> mem" where
  "clear_owned space i 0 m = m"
| "clear_owned space i (Suc n) m = clear_owned space (Suc i) n (set_owned_table space i 0 m)"

definition paging_create_address_space :: "paging_layout \<Rightarrow> paging \<Rightarrow> (u32 \<times> paging) option" where
  "paging_create_address_space L st =
     do { (space, p) \<leftarrow> pmm_alloc_page (ppmm st);
          if space = 0 then Some (0, st\<lparr>ppmm := p\<rparr>)
          else let m = clear_owned space 0 PAGE_ENTRIES (pmem st) in
               do { (directory, p) \<leftarrow> pmm_alloc_page p;
                    if directory = 0
                    then do { p \<leftarrow> pmm_free_page space p; Some (0, st\<lparr>pmem := m, ppmm := p\<rparr>) }
                    else let m = set_page_directory space directory (copy_page_table directory (kernel_page_directory L) m)
                         in Some (space, st\<lparr>pmem := m, ppmm := p\<rparr>) } }"

definition paging_switch_address_space :: "u32 \<Rightarrow> paging \<Rightarrow> paging" where
  "paging_switch_address_space space st =
     (if space = 0 \<or> page_directory (pmem st) space = 0 then st
      else st\<lparr>current_space := space, cr3 := page_directory (pmem st) space\<rparr>)"

fun free_owned :: "u32 \<Rightarrow> nat \<Rightarrow> nat \<Rightarrow> paging \<Rightarrow> paging option" where
  "free_owned space i 0 st = Some st"
| "free_owned space i (Suc n) st =
     (if owned_table (pmem st) space i \<noteq> 0
      then do { p \<leftarrow> pmm_free_page (owned_table (pmem st) space i) (ppmm st);
                free_owned space (Suc i) n (st\<lparr>ppmm := p, pmem := set_owned_table space i 0 (pmem st)\<rparr>) }
      else free_owned space (Suc i) n st)"

definition paging_destroy_address_space :: "paging_layout \<Rightarrow> u32 \<Rightarrow> paging \<Rightarrow> paging option" where
  "paging_destroy_address_space L space st =
     (if space = 0 \<or> space = kernel_space L then Some st
      else let st = (if current_space st = space then paging_switch_address_space (kernel_space L) st else st) in
           do { st \<leftarrow> free_owned space 0 PAGE_ENTRIES st;
                st \<leftarrow> (if page_directory (pmem st) space \<noteq> 0
                      then do { p \<leftarrow> pmm_free_page (page_directory (pmem st) space) (ppmm st); Some (st\<lparr>ppmm := p\<rparr>) }
                      else Some st);
                p \<leftarrow> pmm_free_page space (ppmm st);
                Some (st\<lparr>ppmm := p\<rparr>) })"

definition ensure_table :: "paging_layout \<Rightarrow> u32 \<Rightarrow> nat \<Rightarrow> u32 \<Rightarrow> paging \<Rightarrow> (u32 \<times> paging) option" where
  "ensure_table L space d flags st =
     (let directory = page_directory (pmem st) space; e = entry_at (pmem st) directory d in
      if e AND PAGE_PRESENT = 0
      then do { (table, p) \<leftarrow> pmm_alloc_page (ppmm st);
                if table = 0 then Some (0, st\<lparr>ppmm := p\<rparr>)
                else let m = set_owned_table space d table (zero_page_table table (pmem st))
                     in Some (table, st\<lparr>ppmm := p, pmem := set_entry directory d (table OR PAGE_PRESENT OR PAGE_WRITABLE OR (flags AND PAGE_USER)) m\<rparr>) }
      else let table = page_base e in
           if space \<noteq> kernel_space L \<and> owned_table (pmem st) space d = 0
           then do { (private_table, p) \<leftarrow> pmm_alloc_page (ppmm st);
                     if private_table = 0 then Some (0, st\<lparr>ppmm := p\<rparr>)
                     else let m = set_owned_table space d private_table (copy_page_table private_table table (pmem st))
                          in Some (private_table, st\<lparr>ppmm := p, pmem := set_entry directory d
                                (private_table OR PAGE_PRESENT OR PAGE_WRITABLE OR (flags AND PAGE_USER)) m\<rparr>) }
           else Some (table, st\<lparr>pmem := set_entry directory d (e OR (flags AND (PAGE_WRITABLE OR PAGE_USER))) (pmem st)\<rparr>))"

definition paging_map_page_in_space :: "paging_layout \<Rightarrow> u32 \<Rightarrow> u32 \<Rightarrow> u32 \<Rightarrow> u32 \<Rightarrow> paging \<Rightarrow> (bool \<times> paging) option" where
  "paging_map_page_in_space L space va pa flags st =
     (if space = 0 \<or> page_directory (pmem st) space = 0 then Some (False, st)
      else let va = page_base va; pa = page_base pa in
           do { (table, st) \<leftarrow> ensure_table L space (directory_index va) flags st;
                if table = 0 then Some (False, st)
                else Some (True, st\<lparr>pmem := set_entry table (table_index va) (pa OR PAGE_PRESENT OR flags) (pmem st)\<rparr>) })"

definition paging_map_page :: "paging_layout \<Rightarrow> u32 \<Rightarrow> u32 \<Rightarrow> u32 \<Rightarrow> paging \<Rightarrow> (bool \<times> paging) option" where
  "paging_map_page L va pa flags st = paging_map_page_in_space L (current_space st) va pa flags st"

definition paging_unmap_page_in_space :: "u32 \<Rightarrow> u32 \<Rightarrow> paging \<Rightarrow> paging" where
  "paging_unmap_page_in_space space va st =
     (if space = 0 \<or> page_directory (pmem st) space = 0 then st
      else let e = entry_at (pmem st) (page_directory (pmem st) space) (directory_index va) in
           if e AND PAGE_PRESENT = 0 then st
           else st\<lparr>pmem := set_entry (page_base e) (table_index va) 0 (pmem st)\<rparr>)"

definition paging_unmap_page :: "u32 \<Rightarrow> paging \<Rightarrow> paging" where
  "paging_unmap_page va st = paging_unmap_page_in_space (current_space st) va st"

definition paging_kernel_address_space :: "paging_layout \<Rightarrow> u32" where
  "paging_kernel_address_space L = kernel_space L"

definition paging_current_address_space :: "paging \<Rightarrow> u32" where
  "paging_current_address_space st = current_space st"

definition paging_get_physical_in_space :: "u32 \<Rightarrow> u32 \<Rightarrow> paging \<Rightarrow> u32" where
  "paging_get_physical_in_space space va st =
     (if space = 0 \<or> page_directory (pmem st) space = 0 then 0
      else let e = entry_at (pmem st) (page_directory (pmem st) space) (directory_index va) in
           if e AND PAGE_PRESENT = 0 then 0
           else let t = entry_at (pmem st) (page_base e) (table_index va) in
                if t AND PAGE_PRESENT = 0 then 0
                else page_base t OR (va AND (PAGE_SIZE - 1)))"

definition paging_get_physical :: "u32 \<Rightarrow> paging \<Rightarrow> u32" where
  "paging_get_physical va st = paging_get_physical_in_space (current_space st) va st"

section \<open>Entries and indices\<close>

abbreviation (input) pg :: "u32 \<Rightarrow> nat" where "pg a \<equiv> unat a div 4096"
abbreviation (input) present :: "u32 \<Rightarrow> bool" where "present e \<equiv> e AND PAGE_PRESENT \<noteq> 0"

lemma bit_page_base: "bit (page_base v) n \<longleftrightarrow> bit v n \<and> 12 \<le> n"
proof -
  have m: "PAGE_SIZE - 1 = mask 12" by (simp add: mask_eq_exp_minus_1)
  show ?thesis
  proof (cases "n < 32")
    case True
    then show ?thesis unfolding page_base_def m by (auto simp: bit_simps)
  next
    case False
    then show ?thesis by (auto dest: bit_imp_le_length)
  qed
qed

lemma page_base_or [simp]: "page_base (a OR b) = page_base a OR page_base b"
  by (rule bit_word_eqI) (auto simp: bit_page_base bit_simps)

lemma page_base_idem [simp]: "page_base (page_base a) = page_base a"
  by (rule bit_word_eqI) (auto simp: bit_page_base)

lemma page_base_flags [simp]: "page_base 0 = 0" "page_base 1 = 0" "page_base 2 = 0" "page_base 3 = 0" "page_base (f AND 4) = 0"
  "page_base (f AND 6) = 0"
proof -
  show f4: "page_base (f AND 4) = 0" "page_base (f AND 6) = 0" for f
    by (simp_all add: page_base_def and.assoc)
qed (simp_all add: page_base_def)

lemma unat_page_base: "unat (page_base v) = pg v * 4096"
  using unat_align_down [of v] by (simp add: page_base_def)

lemma page_base_dvd: "page_base t = t \<longleftrightarrow> 4096 dvd unat t"
  by (metis dvd_div_mult_self dvd_triv_right unat_page_base word_unat_eq_iff)

lemma pg_page_base [simp]: "pg (page_base v) = pg v"
  by (simp add: unat_page_base)

lemma pg_inject: "page_base a = a \<Longrightarrow> page_base b = b \<Longrightarrow> pg a = pg b \<longleftrightarrow> a = b"
  using unat_page_base [of a] unat_page_base [of b] by (metis word_unat_eq_iff)

lemma bit0_present: "present e \<longleftrightarrow> bit e 0"
  using and_exp_eq_0_iff [of e 0] by simp

lemma present_or [simp]: "present (a OR b) \<longleftrightarrow> present a \<or> present b" "present 1"
  by (simp_all add: bit0_present bit_simps)

lemma not_present_page_base [simp]: "page_base t = t \<Longrightarrow> t AND 1 = 0"
  using bit_page_base [of t 0] bit0_present [of t] by auto

lemma directory_index_eq: "directory_index va = unat va div 2 ^ 22"
  by (simp add: directory_index_def drop_bit_eq_div unat_div_distrib)

lemma table_index_eq: "table_index va = pg va mod 1024"
proof -
  have m: "(0x3FF :: u32) = mask 10" by (simp add: mask_eq_exp_minus_1)
  show ?thesis unfolding table_index_def m
    by (simp add: take_bit_eq_mask [symmetric] take_bit_eq_mod drop_bit_eq_div unat_div_distrib unat_mod_distrib)
qed

lemma directory_index_less [simp]: "directory_index va < 1024"
  using unsigned_less [of va, where ?'a = nat] by (simp add: directory_index_eq div_less_iff_less_mult)

lemma table_index_less [simp]: "table_index va < 1024"
  by (simp add: table_index_eq)

lemma same_page_iff: "pg va = pg vb \<longleftrightarrow> directory_index va = directory_index vb \<and> table_index va = table_index vb"
proof -
  have d: "directory_index v = pg v div 1024" for v by (simp add: directory_index_eq flip: div_mult2_eq)
  then have "pg v = directory_index v * 1024 + table_index v" for v by (simp add: table_index_eq)
  then show ?thesis by (metis d table_index_eq)
qed

lemma index_page_base [simp]: "directory_index (page_base va) = directory_index va" "table_index (page_base va) = table_index va"
  using same_page_iff [of "page_base va" va] by simp_all

section \<open>Pages of the memory\<close>

text \<open>\<open>same_except P m m'\<close>: the memories agree on every byte outside the pages \<open>P\<close>.\<close>

definition same_except :: "nat set \<Rightarrow> mem \<Rightarrow> mem \<Rightarrow> bool" where
  "same_except P m m' \<longleftrightarrow> (\<forall>a. a div 4096 \<notin> P \<longrightarrow> m' a = m a)"

lemma same_except_refl [simp]: "same_except P m m"
  by (simp add: same_except_def)

lemma same_except_trans: "same_except P m m' \<Longrightarrow> same_except P m' m'' \<Longrightarrow> same_except P m m''"
  by (simp add: same_except_def)

lemma same_except_mono: "same_except P m m' \<Longrightarrow> P \<subseteq> Q \<Longrightarrow> same_except Q m m'"
  by (auto simp: same_except_def)

lemma word_in_page:
  assumes "4096 dvd t" "i < 1024" "k < 4" shows "(t + 4 * i + k) div 4096 = t div (4096 :: nat)"
  using assms by (auto simp: dvd_def)

lemma store32_same_except:
  "4096 dvd t \<Longrightarrow> i < 1024 \<Longrightarrow> same_except {t div 4096} m (store32 m (t + 4 * i) v)"
  using word_in_page [of t i 0] word_in_page [of t i 1] word_in_page [of t i 2] word_in_page [of t i 3]
  by (auto simp: same_except_def store32_def)

lemma load32_same_except:
  assumes "same_except P m m'" "4096 dvd t" "i < 1024" "t div 4096 \<notin> P"
  shows "load32 m' (t + 4 * i) = load32 m (t + 4 * i)"
  using assms word_in_page [of t i 0] word_in_page [of t i 1] word_in_page [of t i 2] word_in_page [of t i 3]
  by (simp add: same_except_def load32_def)

lemma set_entry_same_except: "page_base t = t \<Longrightarrow> i < 1024 \<Longrightarrow> same_except {pg t} m (set_entry t i v m)"
  by (simp add: set_entry_def page_base_dvd store32_same_except)

lemma entry_at_same_except: "same_except P m m' \<Longrightarrow> page_base t = t \<Longrightarrow> i < 1024 \<Longrightarrow> pg t \<notin> P \<Longrightarrow> entry_at m' t i = entry_at m t i"
  unfolding entry_at_def by (rule load32_same_except) (simp_all add: page_base_dvd)

lemma entry_at_set_entry: "i < 1024 \<Longrightarrow> j < 1024 \<Longrightarrow> entry_at (set_entry t i v m) t j = (if i = j then v else entry_at m t j)"
  by (auto simp: entry_at_def set_entry_def intro: load32_store32_other)

lemma owned_table_entry: "i < 1023 \<Longrightarrow> owned_table m s i = entry_at m s (Suc i)" "set_owned_table s i v m = set_entry s (Suc i) v m"
  by (simp_all add: owned_table_def entry_at_def set_owned_table_def set_entry_def add.assoc)

lemma page_directory_entry: "page_directory m s = entry_at m s 0" "set_page_directory s v m = set_entry s 0 v m"
  by (simp_all add: page_directory_def entry_at_def set_page_directory_def set_entry_def)

lemma zero_from_spec:
  "page_base t = t \<Longrightarrow> i + n \<le> 1024 \<Longrightarrow> same_except {pg t} m (zero_from t i n m)
     \<and> (\<forall>j < 1024. entry_at (zero_from t i n m) t j = (if i \<le> j \<and> j < i + n then 0 else entry_at m t j))"
proof (induction n arbitrary: i m)
  case (Suc n)
  then have "same_except {pg t} (set_entry t i 0 m) (zero_from t (Suc i) n (set_entry t i 0 m))
     \<and> (\<forall>j < 1024. entry_at (zero_from t (Suc i) n (set_entry t i 0 m)) t j =
          (if Suc i \<le> j \<and> j < Suc i + n then 0 else entry_at (set_entry t i 0 m) t j))" by simp
  then show ?case
    using Suc.prems same_except_trans [OF set_entry_same_except [of t i m 0]] by (auto simp: entry_at_set_entry)
qed auto

lemma zero_page_table_spec:
  assumes "page_base t = t"
  shows "same_except {pg t} m (zero_page_table t m)" "j < 1024 \<Longrightarrow> entry_at (zero_page_table t m) t j = 0"
  using zero_from_spec [OF assms, of 0 1024 m] by (auto simp: zero_page_table_def)

lemma copy_from_spec:
  "page_base t = t \<Longrightarrow> page_base s = s \<Longrightarrow> s \<noteq> t \<Longrightarrow> i + n \<le> 1024 \<Longrightarrow> same_except {pg t} m (copy_from t s i n m)
     \<and> (\<forall>j < 1024. entry_at (copy_from t s i n m) t j = (if i \<le> j \<and> j < i + n then entry_at m s j else entry_at m t j))"
proof (induction n arbitrary: i m)
  case (Suc n)
  let ?m = "set_entry t i (entry_at m s i) m"
  have same: "same_except {pg t} m ?m" using Suc.prems by (intro set_entry_same_except) auto
  have "same_except {pg t} ?m (copy_from t s (Suc i) n ?m)
     \<and> (\<forall>j < 1024. entry_at (copy_from t s (Suc i) n ?m) t j =
          (if Suc i \<le> j \<and> j < Suc i + n then entry_at ?m s j else entry_at ?m t j))" using Suc by simp
  moreover have "entry_at ?m s j = entry_at m s j" if "j < 1024" for j
    using entry_at_same_except [OF same Suc.prems(2) that] Suc.prems pg_inject [of s t] by simp
  ultimately show ?case
    using Suc.prems same_except_trans [OF same] by (auto simp: entry_at_set_entry le_less_Suc_eq not_less_eq_eq)
qed auto

lemma copy_page_table_spec:
  assumes "page_base t = t" "page_base s = s" "s \<noteq> t"
  shows "same_except {pg t} m (copy_page_table t s m)" "j < 1024 \<Longrightarrow> entry_at (copy_page_table t s m) t j = entry_at m s j"
  using copy_from_spec [OF assms, of 0 1024 m] by (auto simp: copy_page_table_def)

section \<open>Walking a directory\<close>

definition walk :: "mem \<Rightarrow> u32 \<Rightarrow> u32 \<Rightarrow> u32" where
  "walk m d va =
     (let e = entry_at m d (directory_index va) in
      if \<not> present e then 0
      else let t = entry_at m (page_base e) (table_index va) in
           if \<not> present t then 0 else page_base t OR (va AND (PAGE_SIZE - 1)))"

definition tables :: "mem \<Rightarrow> u32 \<Rightarrow> nat set" where
  "tables m d = (\<lambda>i. pg (entry_at m d i)) ` {i. i < 1024 \<and> present (entry_at m d i)}"

lemma table_mem: "present (entry_at m d i) \<Longrightarrow> i < 1024 \<Longrightarrow> pg (entry_at m d i) \<in> tables m d"
  by (auto simp: tables_def)

text \<open>A directory is well-formed when it is page-aligned, no entry points back at it and no two present
  entries share a table.\<close>

definition dir_ok :: "mem \<Rightarrow> u32 \<Rightarrow> bool" where
  "dir_ok m d \<longleftrightarrow> page_base d = d \<and> pg d \<notin> tables m d
     \<and> (\<forall>i j. i < 1024 \<longrightarrow> j < 1024 \<longrightarrow> present (entry_at m d i) \<longrightarrow> present (entry_at m d j)
          \<longrightarrow> pg (entry_at m d i) = pg (entry_at m d j) \<longrightarrow> i = j)"

lemma dir_ok_distinct:
  "dir_ok m d \<Longrightarrow> i < 1024 \<Longrightarrow> j < 1024 \<Longrightarrow> present (entry_at m d i) \<Longrightarrow> present (entry_at m d j) \<Longrightarrow> i \<noteq> j
     \<Longrightarrow> pg (entry_at m d i) \<noteq> pg (entry_at m d j)"
  unfolding dir_ok_def by blast

lemma get_physical_walk:
  "paging_get_physical_in_space s va st =
     (if s = 0 \<or> page_directory (pmem st) s = 0 then 0 else walk (pmem st) (page_directory (pmem st) s) va)"
  by (simp add: paging_get_physical_in_space_def walk_def Let_def)

lemma tables_frame: "same_except P m m' \<Longrightarrow> page_base d = d \<Longrightarrow> pg d \<notin> P \<Longrightarrow> tables m' d = tables m d"
  unfolding tables_def by (intro image_cong) (auto simp: entry_at_same_except)

lemma dir_ok_frame: "same_except P m m' \<Longrightarrow> page_base d = d \<Longrightarrow> pg d \<notin> P \<Longrightarrow> dir_ok m' d = dir_ok m d"
  by (simp add: dir_ok_def tables_frame entry_at_same_except cong: conj_cong imp_cong)

lemma walk_frame:
  assumes "same_except P m m'" "page_base d = d" "pg d \<notin> P" "tables m d \<inter> P = {}"
  shows "walk m' d va = walk m d va"
proof -
  let ?e = "entry_at m d (directory_index va)"
  have e: "entry_at m' d (directory_index va) = ?e" using assms by (simp add: entry_at_same_except)
  have "entry_at m' (page_base ?e) (table_index va) = entry_at m (page_base ?e) (table_index va)" if "present ?e"
  proof (rule entry_at_same_except [OF assms(1)])
    have "pg ?e \<in> tables m d" using that by (auto simp: tables_def)
    then show "pg (page_base ?e) \<notin> P" using assms(4) by auto
  qed simp_all
  then show ?thesis by (simp add: walk_def e Let_def)
qed

lemma set_table_entry:
  assumes ok: "dir_ok m d" and i: "i < 1024" "present (entry_at m d i)" and T: "T = page_base (entry_at m d i)" and j: "j < 1024"
  shows "same_except {pg T} m (set_entry T j v m)" "dir_ok (set_entry T j v m) d" "tables (set_entry T j v m) d = tables m d"
    "walk (set_entry T j v m) d va = (if directory_index va = i \<and> table_index va = j
       then if present v then page_base v OR (va AND (PAGE_SIZE - 1)) else 0 else walk m d va)"
proof -
  let ?m = "set_entry T j v m"
  have d: "page_base d = d" "pg d \<notin> tables m d" using ok by (simp_all add: dir_ok_def)
  have dT: "pg d \<noteq> pg T" using d(2) i by (auto simp: tables_def T)
  show same: "same_except {pg T} m ?m" using j T by (intro set_entry_same_except) simp_all
  show "dir_ok ?m d" using dir_ok_frame [OF same d(1)] dT ok by simp
  show "tables ?m d = tables m d" using tables_frame [OF same d(1)] dT by simp
  let ?e = "entry_at m d (directory_index va)"
  have e: "entry_at ?m d (directory_index va) = ?e" using entry_at_same_except [OF same d(1)] dT by simp
  show "walk ?m d va = (if directory_index va = i \<and> table_index va = j
       then if present v then page_base v OR (va AND (PAGE_SIZE - 1)) else 0 else walk m d va)"
  proof (cases "directory_index va = i")
    case True
    then have eT: "page_base ?e = T" "present ?e" using T i by simp_all
    then have "walk ?m d va = (if present (entry_at ?m T (table_index va)) then page_base (entry_at ?m T (table_index va)) OR (va AND (PAGE_SIZE - 1)) else 0)"
      "walk m d va = (if present (entry_at m T (table_index va)) then page_base (entry_at m T (table_index va)) OR (va AND (PAGE_SIZE - 1)) else 0)"
      by (simp_all add: walk_def Let_def e)
    then show ?thesis using True j by (simp add: entry_at_set_entry)
  next
    case False
    then have "present ?e \<Longrightarrow> pg ?e \<noteq> pg T" using dir_ok_distinct [OF ok _ i(1) _ i(2), of "directory_index va"] by (simp add: T)
    then have "present ?e \<Longrightarrow> entry_at ?m (page_base ?e) (table_index va) = entry_at m (page_base ?e) (table_index va)"
      using entry_at_same_except [OF same, of "page_base ?e"] by simp
    then show ?thesis using False by (simp add: walk_def e Let_def)
  qed
qed

text \<open>Pointing a directory entry at another table with the same translations changes no translation.\<close>

lemma set_directory_entry:
  assumes ok: "dir_ok m d" and i: "i < 1024" and v: "present v" and fresh: "pg v \<noteq> pg d"
    "\<forall>j < 1024. j \<noteq> i \<longrightarrow> present (entry_at m d j) \<longrightarrow> pg (entry_at m d j) \<noteq> pg v"
    and old: "present (entry_at m d i) \<longrightarrow> (\<forall>j < 1024. entry_at m (page_base v) j = entry_at m (page_base (entry_at m d i)) j)"
    and new: "\<not> present (entry_at m d i) \<longrightarrow> (\<forall>j < 1024. \<not> present (entry_at m (page_base v) j))"
  shows "same_except {pg d} m (set_entry d i v m)" "dir_ok (set_entry d i v m) d" "walk (set_entry d i v m) d va = walk m d va"
    "tables (set_entry d i v m) d = insert (pg v) ((\<lambda>j. pg (entry_at m d j)) ` {j. j < 1024 \<and> j \<noteq> i \<and> present (entry_at m d j)})"
proof -
  let ?m = "set_entry d i v m"
  have d: "page_base d = d" "pg d \<notin> tables m d" using ok by (simp_all add: dir_ok_def)
  show same: "same_except {pg d} m ?m" using d i by (intro set_entry_same_except)
  have e: "entry_at ?m d j = (if j = i then v else entry_at m d j)" if "j < 1024" for j
    using that i by (simp add: entry_at_set_entry)
  have "{j. j < 1024 \<and> present (entry_at ?m d j)} = insert i {j. j < 1024 \<and> j \<noteq> i \<and> present (entry_at m d j)}"
    using i v e by auto
  moreover have "(\<lambda>j. pg (entry_at ?m d j)) ` {j. j < 1024 \<and> j \<noteq> i \<and> present (entry_at m d j)} =
      (\<lambda>j. pg (entry_at m d j)) ` {j. j < 1024 \<and> j \<noteq> i \<and> present (entry_at m d j)}" using e by (intro image_cong) auto
  ultimately show tab: "tables ?m d = insert (pg v) ((\<lambda>j. pg (entry_at m d j)) ` {j. j < 1024 \<and> j \<noteq> i \<and> present (entry_at m d j)})"
    using i e by (simp add: tables_def)
  have "pg d \<notin> tables ?m d" unfolding tab using d(2) fresh(1) by (auto simp: tables_def)
  moreover have "\<forall>a b. a < 1024 \<longrightarrow> b < 1024 \<longrightarrow> present (entry_at ?m d a) \<longrightarrow> present (entry_at ?m d b)
      \<longrightarrow> pg (entry_at ?m d a) = pg (entry_at ?m d b) \<longrightarrow> a = b"
    using ok fresh(2) e unfolding dir_ok_def by (metis (no_types, lifting))
  ultimately show "dir_ok ?m d" using d(1) by (simp add: dir_ok_def)
  let ?k = "directory_index va" and ?t = "table_index va"
  have tbl: "entry_at ?m (page_base w) ?t = entry_at m (page_base w) ?t" if "pg w \<noteq> pg d" for w
    using entry_at_same_except [OF same, of "page_base w"] that by simp
  show "walk ?m d va = walk m d va"
  proof (cases "?k = i")
    case True
    have eq: "walk ?m d va = (if present (entry_at m (page_base v) ?t) then page_base (entry_at m (page_base v) ?t) OR (va AND (PAGE_SIZE - 1)) else 0)"
    proof -
      have "entry_at ?m d ?k = v" using True i e by simp
      then show ?thesis using v by (simp add: walk_def Let_def tbl [OF fresh(1)])
    qed
    have w: "walk m d va = (if present (entry_at m d i) \<and> present (entry_at m (page_base (entry_at m d i)) ?t)
        then page_base (entry_at m (page_base (entry_at m d i)) ?t) OR (va AND (PAGE_SIZE - 1)) else 0)"
      using True by (simp add: walk_def Let_def)
    show ?thesis unfolding eq w using old new by (cases "present (entry_at m d i)") simp_all
  next
    case False
    have "pg (entry_at m d ?k) \<noteq> pg d" if "present (entry_at m d ?k)"
      using d(2) table_mem [OF that] by auto
    then show ?thesis using False tbl e by (simp add: walk_def Let_def)
  qed
qed

end
