(* ===== verification/Paging_Spaces.thy ===== *)
theory Paging_Spaces
  imports Paging
begin

text \<open>Address spaces over the page tables of the theory \<open>Paging\<close>: the invariant of a process's space, mapping
  with copy-on-first-write of shared tables, creation and destruction with the accounting of pages, and
  what a change in one space can touch in memory.\<close>

section \<open>Address spaces\<close>

text \<open>The pages that belong to a space alone: its structure, its directory and the tables it owns. The last
  slot of the array of owned tables lies outside the structure's page and is left out.\<close>

definition private_pages :: "mem \<Rightarrow> u32 \<Rightarrow> nat set" where
  "private_pages m s = {pg s, pg (page_directory m s)} \<union> (\<lambda>i. pg (owned_table m s i)) ` {i. i < 1023 \<and> owned_table m s i \<noteq> 0}"

definition space_ok :: "paging_layout \<Rightarrow> paging \<Rightarrow> u32 \<Rightarrow> bool" where
  "space_ok L st s \<longleftrightarrow> s \<noteq> 0 \<and> s \<noteq> kernel_space L \<and> page_base s = s
     \<and> page_directory (pmem st) s \<noteq> 0 \<and> dir_ok (pmem st) (page_directory (pmem st) s)
     \<and> pg s \<notin> {pg (page_directory (pmem st) s)} \<union> tables (pmem st) (page_directory (pmem st) s)
     \<and> ({pg s, pg (page_directory (pmem st) s)} \<union> tables (pmem st) (page_directory (pmem st) s)) \<inter> avail (ppmm st) = {}
     \<and> (\<forall>i < 1023. owned_table (pmem st) s i \<noteq> 0 \<longrightarrow>
          page_base (owned_table (pmem st) s i) = owned_table (pmem st) s i
          \<and> present (entry_at (pmem st) (page_directory (pmem st) s) i)
          \<and> page_base (entry_at (pmem st) (page_directory (pmem st) s) i) = owned_table (pmem st) s i)"

lemma pmm_alloc_page_spec:
  assumes "pmm_inv U p"
  obtains (none) "pmm_alloc_page p = Some (0, p)" "avail p = {}"
  | (page) a p' where "pmm_alloc_page p = Some (a, p')" "a \<noteq> 0" "page_base a = a" "pg a \<in> avail p" "avail p' = avail p - {pg a}" "pmm_inv U p'"
    "\<forall>q < pg a. q \<notin> avail p"
proof -
  obtain a p' where a: "pmm_alloc_pages 1 p = Some (a, p')" and
    r: "if a = 0 then p' = p \<and> ((1 :: u32) = 0 \<or> (\<forall>q. \<not> {q..<q + unat (1 :: u32)} \<subseteq> avail p))
     else 4096 dvd unat a \<and> (1 :: u32) \<noteq> 0 \<and> pages_of a 1 \<subseteq> avail p \<and> avail p' = avail p - pages_of a 1
       \<and> pmm_inv U p' \<and> used_pages_count p' = used_pages_count p + 1
       \<and> (\<forall>q < unat a div 4096. \<not> {q..<q + unat (1 :: u32)} \<subseteq> avail p)"
    using pmm_alloc_pages_spec [OF assms, of 1] by auto
  show ?thesis
  proof (cases "a = 0")
    case True
    then have "avail p = {}" using r by auto
    then show ?thesis using a r True none by (simp add: pmm_alloc_page_def)
  next
    case False
    then show ?thesis using a r page by (simp add: pmm_alloc_page_def pages_of_def page_base_dvd)
  qed
qed

text \<open>A page taken from the allocator is foreign to every well-formed space.\<close>

lemma space_ok_fresh:
  assumes "space_ok L st s" "pg a \<in> avail (ppmm st)"
  shows "pg a \<noteq> pg s" "pg a \<noteq> pg (page_directory (pmem st) s)" "pg a \<notin> tables (pmem st) (page_directory (pmem st) s)"
  using assms by (auto simp: space_ok_def)

text \<open>Installing a fresh private table \<open>a\<close> whose translations equal the old ones: first in memory.\<close>

lemma install_memory:
  assumes al: "page_base s = s" "page_base a = a" and ok: "dir_ok m d" and sd: "pg s \<noteq> pg d" "pg s \<notin> tables m d"
    and f: "pg a \<noteq> pg s" "pg a \<noteq> pg d" "pg a \<notin> tables m d"
    and i: "i < 1023" and v: "present v" "page_base v = a" and m1: "same_except {pg a} m m1"
    and old: "present (entry_at m d i) \<longrightarrow> (\<forall>j < 1024. entry_at m1 a j = entry_at m (page_base (entry_at m d i)) j)"
    and new: "\<not> present (entry_at m d i) \<longrightarrow> (\<forall>j < 1024. entry_at m1 a j = 0)"
    and m': "m' = set_entry d i v (set_entry s (Suc i) a m1)"
  shows "dir_ok m' d" "tables m' d \<subseteq> insert (pg a) (tables m d)" "walk m' d va = walk m d va"
    "\<And>j. j < 1024 \<Longrightarrow> entry_at m' s j = (if j = Suc i then a else entry_at m s j)"
    "\<And>j. j < 1024 \<Longrightarrow> entry_at m' d j = (if j = i then v else entry_at m d j)"
    "same_except {pg a, pg s, pg d} m m'"
proof -
  define ms where "ms = set_entry s (Suc i) a m1"
  have d: "page_base d = d" "pg d \<notin> tables m d" using ok by (auto simp: dir_ok_def)
  have pv: "pg v = pg a" using pg_page_base [of v] v(2) by simp
  have sms: "same_except {pg a, pg s} m ms"
    using same_except_trans [OF same_except_mono [OF m1] same_except_mono [OF set_entry_same_except [OF al(1), of "Suc i" m1 a]], of "{pg a, pg s}"] i
    by (simp add: ms_def)
  have fr: "dir_ok ms d" "tables ms d = tables m d" "\<And>va. walk ms d va = walk m d va" "\<And>j. j < 1024 \<Longrightarrow> entry_at ms d j = entry_at m d j"
    using dir_ok_frame [OF sms d(1)] tables_frame [OF sms d(1)] walk_frame [OF sms d(1)] entry_at_same_except [OF sms d(1)] ok sd f by auto
  have am: "entry_at ms a j = entry_at m1 a j" if "j < 1024" for j
    unfolding ms_def by (rule entry_at_same_except [OF set_entry_same_except [OF al(1)] al(2) that]) (use i f in auto)
  have em: "entry_at ms (page_base (entry_at m d i)) j = entry_at m (page_base (entry_at m d i)) j" if "present (entry_at m d i)" "j < 1024" for j
    by (rule entry_at_same_except [OF sms _ that(2)]) (use table_mem [OF that(1)] i f sd in auto)
  have old': "present (entry_at ms d i) \<longrightarrow> (\<forall>j < 1024. entry_at ms (page_base v) j = entry_at ms (page_base (entry_at ms d i)) j)"
    using old i am em fr(4) v(2) by simp
  have new': "\<not> present (entry_at ms d i) \<longrightarrow> (\<forall>j < 1024. \<not> present (entry_at ms (page_base v) j))"
    using new i am fr(4) v(2) by simp
  have fresh: "\<forall>j < 1024. j \<noteq> i \<longrightarrow> present (entry_at ms d j) \<longrightarrow> pg (entry_at ms d j) \<noteq> pg v"
    using table_mem [of ms d] fr(2) f(3) pv by metis
  have i': "i < 1024" and dvd: "pg v \<noteq> pg d" using i pv f(2) by simp_all
  have m'ms: "m' = set_entry d i v ms" by (simp add: m' ms_def)
  note D = set_directory_entry [OF fr(1) i' v(1) dvd fresh old' new', folded m'ms]
  show "dir_ok m' d" by (rule D(2))
  show "walk m' d va = walk m d va" using D(3) fr(3) by simp
  have "tables m' d = insert (pg v) ((\<lambda>j. pg (entry_at ms d j)) ` {j. j < 1024 \<and> j \<noteq> i \<and> present (entry_at ms d j)})" by (rule D(4))
  moreover have "\<dots> \<subseteq> insert (pg v) (tables ms d)" by (auto simp: tables_def)
  ultimately show "tables m' d \<subseteq> insert (pg a) (tables m d)" using pv fr(2) by simp
  show "same_except {pg a, pg s, pg d} m m'"
    using same_except_trans [OF same_except_mono [OF sms] same_except_mono [OF D(1)], of "{pg a, pg s, pg d}"] by auto
  show "entry_at m' d j = (if j = i then v else entry_at m d j)" if "j < 1024" for j
    using that i fr(4) by (simp add: m'ms entry_at_set_entry)
  show "entry_at m' s j = (if j = Suc i then a else entry_at m s j)" if "j < 1024" for j
    using entry_at_same_except [OF D(1) al(1) that] entry_at_same_except [OF m1 al(1) that] sd f that i
    by (simp add: ms_def entry_at_set_entry)
qed

lemma space_okD:
  assumes "space_ok L st s" "m = pmem st" "d = page_directory m s"
  shows "s \<noteq> 0" "s \<noteq> kernel_space L" "page_base s = s" "d \<noteq> 0" "dir_ok m d" "pg s \<noteq> pg d" "pg s \<notin> tables m d" "page_base d = d"
    "pg s \<notin> avail (ppmm st)" "pg d \<notin> avail (ppmm st)" "tables m d \<inter> avail (ppmm st) = {}"
    "\<And>j. j < 1023 \<Longrightarrow> owned_table m s j \<noteq> 0 \<Longrightarrow> page_base (owned_table m s j) = owned_table m s j
       \<and> present (entry_at m d j) \<and> page_base (entry_at m d j) = owned_table m s j"
  using assms by (auto simp: space_ok_def dir_ok_def)

lemma space_okI:
  assumes "m = pmem st" "d = page_directory m s" "s \<noteq> 0" "s \<noteq> kernel_space L" "page_base s = s" "d \<noteq> 0" "dir_ok m d" "pg s \<noteq> pg d" "pg s \<notin> tables m d"
    "pg s \<notin> avail (ppmm st)" "pg d \<notin> avail (ppmm st)" "tables m d \<inter> avail (ppmm st) = {}"
    "\<And>j. j < 1023 \<Longrightarrow> owned_table m s j \<noteq> 0 \<Longrightarrow> page_base (owned_table m s j) = owned_table m s j
       \<and> present (entry_at m d j) \<and> page_base (entry_at m d j) = owned_table m s j"
  shows "space_ok L st s"
  using assms by (simp add: space_ok_def)

lemma install_table:
  assumes ok: "space_ok L st s" and m: "m = pmem st" and d: "d = page_directory m s"
    and a: "a \<noteq> 0" "page_base a = a" "pg a \<in> avail (ppmm st)" and p: "avail p = avail (ppmm st) - {pg a}"
    and i: "i < 1023" and ow0: "owned_table m s i = 0" and fl: "page_base fl = 0" and m1: "same_except {pg a} m m1"
    and old: "present (entry_at m d i) \<longrightarrow> (\<forall>j < 1024. entry_at m1 a j = entry_at m (page_base (entry_at m d i)) j)"
    and new: "\<not> present (entry_at m d i) \<longrightarrow> (\<forall>j < 1024. entry_at m1 a j = 0)"
    and st': "st' = st\<lparr>ppmm := p, pmem := set_entry d i (a OR PAGE_PRESENT OR PAGE_WRITABLE OR fl) (set_owned_table s i a m1)\<rparr>"
  shows "space_ok L st' s" "page_directory (pmem st') s = d" "owned_table (pmem st') s i = a"
    "present (entry_at (pmem st') d i)" "page_base (entry_at (pmem st') d i) = a"
    "same_except ({pg s, pg d} \<union> avail (ppmm st)) m (pmem st')"
    "private_pages (pmem st') s = insert (pg a) (private_pages m s)" "walk (pmem st') d va = walk m d va"
    "tables (pmem st') d \<subseteq> insert (pg a) (tables m d)"
proof -
  note k = space_okD [OF ok m d]
  define v where "v = a OR PAGE_PRESENT OR PAGE_WRITABLE OR fl"
  define m' where "m' = set_entry d i v (set_entry s (Suc i) a m1)"
  have st'm: "pmem st' = m'" "ppmm st' = p" by (simp_all add: st' m'_def v_def owned_table_entry)
  have f: "pg a \<noteq> pg s" "pg a \<noteq> pg d" "pg a \<notin> tables m d" using a(3) k(9,10,11) by auto
  have v: "present v" "page_base v = a" using a(2) fl by (simp_all add: v_def)
  note M = install_memory [OF k(3) a(2) k(5,6,7) f i v m1 old new m'_def]
  have i': "i < 1024" "Suc i < 1024" using i by simp_all
  have ow: "owned_table m' s j = (if j = i then a else owned_table m s j)" if "j < 1023" for j
    using that M(4) [of "Suc j"] by (simp add: owned_table_entry(1))
  show pd: "page_directory (pmem st') s = d" using M(4) [of 0] by (simp add: st'm page_directory_entry d)
  show "owned_table (pmem st') s i = a" using ow [OF i] by (simp add: st'm)
  show "present (entry_at (pmem st') d i)" "page_base (entry_at (pmem st') d i) = a" using M(5) [OF i'(1)] v by (simp_all add: st'm)
  show "same_except ({pg s, pg d} \<union> avail (ppmm st)) m (pmem st')"
    unfolding st'm by (rule same_except_mono [OF M(6)]) (use a(3) in auto)
  have "{j. j < 1023 \<and> owned_table m' s j \<noteq> 0} = insert i {j. j < 1023 \<and> owned_table m s j \<noteq> 0}"
    using ow a(1) i by (auto split: if_splits)
  moreover have "(\<lambda>j. pg (owned_table m' s j)) ` {j. j < 1023 \<and> owned_table m s j \<noteq> 0} = (\<lambda>j. pg (owned_table m s j)) ` {j. j < 1023 \<and> owned_table m s j \<noteq> 0}"
    using ow ow0 by (intro image_cong) auto
  ultimately show "private_pages (pmem st') s = insert (pg a) (private_pages m s)"
    unfolding private_pages_def pd using ow [OF i] d by (simp add: st'm insert_commute)
  show "walk (pmem st') d va = walk m d va" unfolding st'm by (rule M(3))
  show "tables (pmem st') d \<subseteq> insert (pg a) (tables m d)" unfolding st'm by (rule M(2))
  have av: "tables m' d \<inter> avail p = {}" using M(2) k(11) p by auto
  have own: "page_base (owned_table m' s j) = owned_table m' s j \<and> present (entry_at m' d j) \<and> page_base (entry_at m' d j) = owned_table m' s j"
    if "j < 1023" "owned_table m' s j \<noteq> 0" for j
    using that ow [OF that(1)] M(5) [of j] k(12) [of j] a(2) v by (cases "j = i") simp_all
  show "space_ok L st' s"
    by (rule space_okI [OF st'm(1) [symmetric] pd [unfolded st'm, symmetric] k(1,2,3,4) M(1) k(6)])
      (use M(2) k f p av own st'm(2) in auto)
qed

definition table_ready :: "paging_layout \<Rightarrow> nat set \<Rightarrow> u32 \<Rightarrow> nat \<Rightarrow> paging \<Rightarrow> u32 \<Rightarrow> paging \<Rightarrow> bool" where
  "table_ready L U s i st T st' \<longleftrightarrow> (let m = pmem st; m' = pmem st'; d = page_directory m s in
     T \<noteq> 0 \<and> space_ok L st' s \<and> pmm_inv U (ppmm st') \<and> avail (ppmm st') \<subseteq> avail (ppmm st) \<and> page_directory m' s = d
     \<and> present (entry_at m' d i) \<and> page_base (entry_at m' d i) = T \<and> owned_table m' s i = T
     \<and> same_except (private_pages m s \<union> avail (ppmm st)) m m' \<and> private_pages m' s \<union> avail (ppmm st') = private_pages m s \<union> avail (ppmm st)
     \<and> tables m' d \<subseteq> tables m d \<union> avail (ppmm st) \<and> (\<forall>va. walk m' d va = walk m d va))"

lemma private_pages_self: "pg s \<in> private_pages m s" "pg (page_directory m s) \<in> private_pages m s"
  "i < 1023 \<Longrightarrow> owned_table m s i \<noteq> 0 \<Longrightarrow> pg (owned_table m s i) \<in> private_pages m s"
  by (auto simp: private_pages_def)

text \<open>An owned table only gets more permissive flags in its directory entry.\<close>

lemma widen_entry:
  assumes ok: "space_ok L st s" and inv: "pmm_inv U (ppmm st)" and m: "m = pmem st" and d: "d = page_directory m s" and i: "i < 1023"
    and e: "e = entry_at m d i" "present e" and ow: "owned_table m s i \<noteq> 0" and fl: "page_base fl = 0"
  shows "table_ready L U s i st (page_base e) (st\<lparr>pmem := set_entry d i (e OR fl) m\<rparr>)"
proof -
  note k = space_okD [OF ok m d]
  let ?m = "set_entry d i (e OR fl) m"
  have i': "i < 1024" using i by simp
  have pv: "page_base (e OR fl) = page_base e" "pg (e OR fl) = pg e" using fl pg_page_base [of "e OR fl"] pg_page_base [of e] by simp_all
  have v: "present (e OR fl)" "pg (e OR fl) \<noteq> pg d" using e k(5) table_mem [of m d i] i' pv(2) by (auto simp: dir_ok_def)
  have fresh: "\<forall>j < 1024. j \<noteq> i \<longrightarrow> present (entry_at m d j) \<longrightarrow> pg (entry_at m d j) \<noteq> pg (e OR fl)"
    using dir_ok_distinct [OF k(5)] e i' pv(2) by metis
  have old: "present (entry_at m d i) \<longrightarrow> (\<forall>j < 1024. entry_at m (page_base (e OR fl)) j = entry_at m (page_base (entry_at m d i)) j)"
    and new: "\<not> present (entry_at m d i) \<longrightarrow> (\<forall>j < 1024. \<not> present (entry_at m (page_base (e OR fl)) j))" using e pv(1) by simp_all
  note D = set_directory_entry [OF k(5) i' v fresh old new]
  have ed: "entry_at ?m d j = (if j = i then e OR fl else entry_at m d j)" if "j < 1024" for j using that i' by (simp add: entry_at_set_entry)
  have es: "entry_at ?m s j = entry_at m s j" if "j < 1024" for j using entry_at_same_except [OF D(1) k(3) that] k(6) by simp
  have ow': "owned_table ?m s j = owned_table m s j" if "j < 1023" for j using that es by (simp add: owned_table_entry)
  have pd: "page_directory ?m s = d" using es [of 0] by (simp add: page_directory_entry d)
  have "tables ?m d \<subseteq> insert (pg (e OR fl)) (tables m d)" unfolding D(4) by (auto simp: tables_def)
  then have tab: "tables ?m d \<subseteq> tables m d" using pv(2) table_mem [of m d i] e i' by auto
  have own: "page_base (owned_table ?m s j) = owned_table ?m s j \<and> present (entry_at ?m d j) \<and> page_base (entry_at ?m d j) = owned_table ?m s j"
    if "j < 1023" "owned_table ?m s j \<noteq> 0" for j
    using that ow' [OF that(1)] ed [of j] k(12) [of j] e pv v by (cases "j = i") simp_all
  have "space_ok L (st\<lparr>pmem := ?m\<rparr>) s"
    by (rule space_okI [OF _ pd [symmetric] k(1,2,3,4) D(2) k(6)]) (use k tab own in auto)
  moreover have "private_pages ?m s = private_pages m s"
    unfolding private_pages_def pd using ow' d by (auto simp: image_iff)
  moreover have "same_except (private_pages m s \<union> avail (ppmm st)) m ?m"
    by (rule same_except_mono [OF D(1)]) (use private_pages_self d in auto)
  moreover have "page_base e \<noteq> 0" "owned_table ?m s i = page_base e" using k(12) [OF i ow] ow ow' [OF i] e by simp_all
  ultimately show ?thesis
    unfolding table_ready_def using inv ed [OF i'] v pv D(3) pd tab by (auto simp: m [symmetric] d [symmetric] Let_def)
qed

lemma ensure_table_ok:
  assumes ok: "space_ok L st s" and inv: "pmm_inv U (ppmm st)" and i: "i < 1023"
  shows "(ensure_table L s i flags st = Some (0, st) \<and> avail (ppmm st) = {})
    \<or> (\<exists>T st'. ensure_table L s i flags st = Some (T, st') \<and> table_ready L U s i st T st')"
proof -
  define m d e where "m = pmem st" and "d = page_directory m s" and "e = entry_at m d i"
  note k = space_okD [OF ok m_def d_def]
  have ens: "ensure_table L s i flags st = (if \<not> present e
      then do { (table, p) \<leftarrow> pmm_alloc_page (ppmm st);
                if table = 0 then Some (0, st\<lparr>ppmm := p\<rparr>)
                else Some (table, st\<lparr>ppmm := p, pmem := set_entry d i (table OR PAGE_PRESENT OR PAGE_WRITABLE OR (flags AND PAGE_USER))
                       (set_owned_table s i table (zero_page_table table m))\<rparr>) }
      else if owned_table m s i = 0
      then do { (table, p) \<leftarrow> pmm_alloc_page (ppmm st);
                if table = 0 then Some (0, st\<lparr>ppmm := p\<rparr>)
                else Some (table, st\<lparr>ppmm := p, pmem := set_entry d i (table OR PAGE_PRESENT OR PAGE_WRITABLE OR (flags AND PAGE_USER))
                       (set_owned_table s i table (copy_page_table table (page_base e) m))\<rparr>) }
      else Some (page_base e, st\<lparr>pmem := set_entry d i (e OR (flags AND 6)) m\<rparr>))"
    using k(2) unfolding ensure_table_def Let_def m_def d_def e_def by simp
  show ?thesis
  proof (cases "present e \<and> owned_table m s i \<noteq> 0")
    case True
    then show ?thesis
      using widen_entry [OF ok inv m_def d_def i e_def, of "flags AND 6"] ens by auto
  next
    case False
    show ?thesis
      using inv
    proof (cases rule: pmm_alloc_page_spec)
      case none
      then show ?thesis using False ens by auto
    next
      case (page a p)
      define m1 where "m1 = (if present e then copy_page_table a (page_base e) m else zero_page_table a m)"
      define st' where "st' = st\<lparr>ppmm := p, pmem := set_entry d i (a OR PAGE_PRESENT OR PAGE_WRITABLE OR (flags AND PAGE_USER)) (set_owned_table s i a m1)\<rparr>"
      have ne: "page_base e \<noteq> a" if "present e"
      proof -
        have "pg e \<in> tables m d" using table_mem [of m d i] i that by (simp add: e_def)
        then show ?thesis using page(4) k(11) pg_page_base [of e] by auto
      qed
      have m1: "same_except {pg a} m m1" "present (entry_at m d i) \<longrightarrow> (\<forall>j < 1024. entry_at m1 a j = entry_at m (page_base (entry_at m d i)) j)"
          "\<not> present (entry_at m d i) \<longrightarrow> (\<forall>j < 1024. entry_at m1 a j = 0)"
        using copy_page_table_spec [OF page(3) page_base_idem [of e] ne] zero_page_table_spec [OF page(3)]
        by (auto simp: m1_def e_def [symmetric])
      have ow0: "owned_table m s i = 0" using False k(12) [OF i] by (auto simp: e_def)
      note I = install_table [OF ok m_def d_def page(2,3,4,5) i ow0 _ m1 st'_def]
      have "ensure_table L s i flags st = Some (a, st')" using False ens page(1,2) by (auto simp: m1_def st'_def)
      moreover have "same_except (private_pages m s \<union> avail (ppmm st)) m (pmem st')"
        by (rule same_except_mono [OF I(6)]) (use private_pages_self(1,2) d_def in auto)
      then have "table_ready L U s i st a st'"
        unfolding table_ready_def using I page by (simp add: m_def [symmetric] d_def [symmetric] st'_def [symmetric]) (auto simp: st'_def)
      ultimately show ?thesis by blast
    qed
  qed
qed

text \<open>Writing an entry of a private table changes one translation of the space and nothing of its structure.\<close>

lemma set_private_entry:
  assumes ok: "space_ok L st s" and i: "i < 1023" "owned_table (pmem st) s i \<noteq> 0" and T: "T = owned_table (pmem st) s i" and j: "j < 1024"
    and m: "m = pmem st" and d: "d = page_directory m s" and m': "m' = set_entry T j v m"
  shows "space_ok L (st\<lparr>pmem := m'\<rparr>) s" "private_pages m' s = private_pages m s" "page_directory m' s = d" "tables m' d = tables m d"
    "same_except {pg T} m m'" "pg T \<in> private_pages m s" "\<And>k. k < 1023 \<Longrightarrow> owned_table m' s k = owned_table m s k"
    "walk m' d va = (if directory_index va = i \<and> table_index va = j then if present v then page_base v OR (va AND (PAGE_SIZE - 1)) else 0 else walk m d va)"
proof -
  note k = space_okD [OF ok m d]
  have e: "i < 1024" "present (entry_at m d i)" "T = page_base (entry_at m d i)" using k(12) [OF i(1)] i T m by auto
  note S = set_table_entry [OF k(5) e j, of v, folded m']
  have pT: "pg T \<in> tables m d" using table_mem [OF e(2,1)] e(3) pg_page_base [of "entry_at m d i"] by simp
  have sT: "pg s \<noteq> pg T" "pg d \<noteq> pg T" using k(5,7) pT unfolding dir_ok_def by metis+
  have es: "entry_at m' s k = entry_at m s k" if "k < 1024" for k using entry_at_same_except [OF S(1) k(3) that] sT by simp
  have ed: "entry_at m' d k = entry_at m d k" if "k < 1024" for k using entry_at_same_except [OF S(1) k(8) that] sT by simp
  show ow: "owned_table m' s k = owned_table m s k" if "k < 1023" for k using that es by (simp add: owned_table_entry)
  show pd: "page_directory m' s = d" using es [of 0] by (simp add: page_directory_entry d)
  show "space_ok L (st\<lparr>pmem := m'\<rparr>) s"
    by (rule space_okI [OF _ pd [symmetric] k(1,2,3,4) S(2) k(6)]) (use k S(3) ow ed in auto)
  show "private_pages m' s = private_pages m s" unfolding private_pages_def pd d [symmetric] using ow by (auto simp: image_iff)
  show "tables m' d = tables m d" "same_except {pg T} m m'" by (rule S(3), rule S(1))
  show "pg T \<in> private_pages m s" using private_pages_self(3) [of i m s] i T m by simp
  show "walk m' d va = (if directory_index va = i \<and> table_index va = j then if present v then page_base v OR (va AND (PAGE_SIZE - 1)) else 0 else walk m d va)"
    using set_table_entry(4) [OF k(5) e j, of v va] unfolding m' .
qed

lemma map_page_ok:
  assumes ok: "space_ok L st s" and inv: "pmm_inv U (ppmm st)" and i: "directory_index va < 1023" and fl: "page_base flags = 0"
    and m: "m = pmem st" and d: "d = page_directory m s"
  shows "(paging_map_page_in_space L s va pa flags st = Some (False, st) \<and> avail (ppmm st) = {})
    \<or> (\<exists>st'. paging_map_page_in_space L s va pa flags st = Some (True, st') \<and> space_ok L st' s \<and> pmm_inv U (ppmm st')
         \<and> avail (ppmm st') \<subseteq> avail (ppmm st) \<and> page_directory (pmem st') s = d
         \<and> private_pages (pmem st') s \<union> avail (ppmm st') = private_pages m s \<union> avail (ppmm st)
         \<and> same_except (private_pages m s \<union> avail (ppmm st)) m (pmem st')
         \<and> tables (pmem st') d \<subseteq> tables m d \<union> avail (ppmm st) \<and> owned_table (pmem st') s (directory_index va) \<noteq> 0
         \<and> (\<forall>vb. walk (pmem st') d vb = (if pg vb = pg va then page_base pa OR (vb AND (PAGE_SIZE - 1)) else walk m d vb)))"
proof -
  note k = space_okD [OF ok m d]
  let ?i = "directory_index va" and ?j = "table_index va" and ?v = "page_base pa OR PAGE_PRESENT OR flags"
  have map_eq: "paging_map_page_in_space L s va pa flags st = do { (table, st) \<leftarrow> ensure_table L s ?i flags st;
      if table = 0 then Some (False, st) else Some (True, st\<lparr>pmem := set_entry table ?j ?v (pmem st)\<rparr>) }"
    unfolding paging_map_page_in_space_def Let_def index_page_base using k(1,4) by (simp add: m [symmetric] d [symmetric])
  from ensure_table_ok [OF ok inv i, of flags] show ?thesis
  proof (elim disjE exE conjE)
    assume "ensure_table L s ?i flags st = Some (0, st)" "avail (ppmm st) = {}"
    then show ?thesis by (simp add: map_eq)
  next
    fix T st1
    assume e: "ensure_table L s ?i flags st = Some (T, st1)" and r: "table_ready L U s ?i st T st1"
    let ?m1 = "pmem st1" and ?m2 = "set_entry T ?j ?v (pmem st1)"
    have R: "T \<noteq> 0" "space_ok L st1 s" "pmm_inv U (ppmm st1)" "avail (ppmm st1) \<subseteq> avail (ppmm st)" "page_directory ?m1 s = d"
        "owned_table ?m1 s ?i = T" "same_except (private_pages m s \<union> avail (ppmm st)) m ?m1"
        "private_pages ?m1 s \<union> avail (ppmm st1) = private_pages m s \<union> avail (ppmm st)" "tables ?m1 d \<subseteq> tables m d \<union> avail (ppmm st)"
        "\<And>va. walk ?m1 d va = walk m d va"
      using r by (simp_all add: table_ready_def m [symmetric] d [symmetric] Let_def)
    have ow: "owned_table ?m1 s ?i \<noteq> 0" "T = owned_table ?m1 s ?i" using R(1,6) by simp_all
    note S = set_private_entry [OF R(2) i ow table_index_less [of va] refl R(5) [symmetric] refl [of ?m2]]
    have "same_except (private_pages m s \<union> avail (ppmm st)) m ?m2"
      by (rule same_except_trans [OF R(7) same_except_mono [OF S(5)]]) (use S(6) R(8) in auto)
    moreover have "walk ?m2 d vb = (if pg vb = pg va then page_base pa OR (vb AND (PAGE_SIZE - 1)) else walk m d vb)" for vb
      using S(8) [of vb] R(10) [of vb] fl by (simp add: same_page_iff)
    ultimately show ?thesis using e R(1,3,4,8,9) S(1,2,3,4,7) i R(6)
      by (intro disjI2 exI [of _ "st1\<lparr>pmem := ?m2\<rparr>"]) (simp add: map_eq)
  qed
qed

text \<open>What a translation in space \<open>s\<close> reads: the structure's first word, the directory and its tables.\<close>

definition reads :: "mem \<Rightarrow> u32 \<Rightarrow> nat set" where
  "reads m s = {unat s div 4096, (unat s + 3) div 4096, pg (page_directory m s)} \<union> tables m (page_directory m s)"

lemma load32_frame:
  assumes "same_except P m m'" "a div 4096 \<notin> P" "(a + 3) div 4096 \<notin> P"
  shows "load32 m' a = load32 m a"
proof -
  have "(a + 1) div 4096 \<in> {a div 4096, (a + 3) div 4096}" "(a + 2) div 4096 \<in> {a div 4096, (a + 3) div 4096}" by auto
  then have "(a + 1) div 4096 \<notin> P" "(a + 2) div 4096 \<notin> P" using assms(2,3) by auto
  then show ?thesis using assms by (simp add: same_except_def load32_def)
qed

lemma translation_frame:
  assumes "same_except P (pmem st) (pmem st')" "page_base (page_directory (pmem st) s) = page_directory (pmem st) s" "reads (pmem st) s \<inter> P = {}"
  shows "paging_get_physical_in_space s va st' = paging_get_physical_in_space s va st"
proof -
  have "page_directory (pmem st') s = page_directory (pmem st) s"
    unfolding page_directory_def by (rule load32_frame [OF assms(1)]) (use assms(3) in \<open>auto simp: reads_def\<close>)
  then show ?thesis
    using walk_frame [OF assms(1,2)] assms(3) by (auto simp: get_physical_walk reads_def)
qed

section \<open>Creating and destroying a space\<close>

text \<open>The kernel's own tables are in use and no available page lies directly below one of them, since the
  kernel image ends below the managed pages.\<close>

definition kernel_ok :: "paging_layout \<Rightarrow> paging \<Rightarrow> bool" where
  "kernel_ok L st \<longleftrightarrow> (let kd = kernel_page_directory L; K = insert (pg kd) (tables (pmem st) kd) in
     dir_ok (pmem st) kd \<and> K \<inter> avail (ppmm st) = {} \<and> (\<forall>p \<in> avail (ppmm st). Suc p \<notin> K) \<and> pg (kernel_space L) \<notin> avail (ppmm st))"

lemma entry_at_set_any: "entry_at (set_entry t i v m) t j = (if i = j then v else entry_at m t j)"
  unfolding entry_at_def set_entry_def by (cases "i < j") (auto intro: load32_store32_other)

lemma set_entry_beyond: "page_base t = t \<Longrightarrow> i \<le> 1024 \<Longrightarrow> same_except {pg t, Suc (pg t)} m (set_entry t i v m)"
proof (cases "i = 1024")
  case True
  assume "page_base t = t"
  then have d: "4096 dvd unat t + 4096" by (simp add: page_base_dvd)
  have "same_except {(unat t + 4096) div 4096} m (store32 m (unat t + 4096 + 4 * 0) v)" by (rule store32_same_except [OF d]) simp
  then show ?thesis using True by (auto simp: set_entry_def intro: same_except_mono)
next
  case False
  assume "page_base t = t" "i \<le> 1024"
  then show ?thesis using False set_entry_same_except [of t i m v] by (auto intro: same_except_mono)
qed

lemma clear_owned_spec:
  "page_base s = s \<Longrightarrow> i + n \<le> 1024 \<Longrightarrow> same_except {pg s, Suc (pg s)} m (clear_owned s i n m)
     \<and> (\<forall>j. entry_at (clear_owned s i n m) s j = (if i < j \<and> j \<le> i + n then 0 else entry_at m s j))"
proof (induction n arbitrary: i m)
  case (Suc n)
  let ?m = "set_owned_table s i 0 m"
  have "same_except {pg s, Suc (pg s)} ?m (clear_owned s (Suc i) n ?m)
     \<and> (\<forall>j. entry_at (clear_owned s (Suc i) n ?m) s j = (if Suc i < j \<and> j \<le> Suc i + n then 0 else entry_at ?m s j))"
    using Suc by simp
  moreover have "same_except {pg s, Suc (pg s)} m ?m"
    using set_entry_beyond [of s "Suc i" m 0] Suc.prems by (simp add: owned_table_entry)
  ultimately show ?case using same_except_trans by (fastforce simp: owned_table_entry entry_at_set_any)
qed auto

lemma pmm_free_page_spec:
  assumes "pmm_inv U p" "page_base a = a" "pg a \<in> U"
  shows "\<exists>p'. pmm_free_page a p = Some p' \<and> avail p' = insert (pg a) (avail p) \<and> pmm_inv U p'"
proof -
  have "pages_of a 1 = {pg a}" by (auto simp: pages_of_def)
  then show ?thesis
    using pmm_free_pages_block_spec [OF assms(1), of a 1] assms(2,3) by (auto simp: pmm_free_page_def page_base_dvd)
qed

lemma avail_usable: "pmm_inv U p \<Longrightarrow> avail p \<subseteq> U"
  by (simp add: pmm_inv_def)

lemma create_memory:
  assumes K: "kernel_ok L st" and s: "page_base s = s" "pg s \<in> avail (ppmm st)" and d: "page_base d = d" "pg d \<in> avail (ppmm st)" "d \<noteq> s"
    and m: "m = pmem st" "m1 = clear_owned s 0 PAGE_ENTRIES m" "m2 = copy_page_table d (kernel_page_directory L) m1" "m3 = set_entry s 0 d m2"
  shows "dir_ok m3 d" "tables m3 d = tables m (kernel_page_directory L)" "walk m3 d va = walk m (kernel_page_directory L) va"
    "page_directory m3 s = d" "\<And>i. i < 1023 \<Longrightarrow> owned_table m3 s i = 0" "same_except {pg s, Suc (pg s), pg d} m m3"
proof -
  let ?kd = "kernel_page_directory L"
  have k: "dir_ok m ?kd" "page_base ?kd = ?kd" "pg ?kd \<notin> tables m ?kd" using K by (auto simp: kernel_ok_def m Let_def dir_ok_def)
  have f: "pg ?kd \<notin> {pg s, Suc (pg s), pg d}" "tables m ?kd \<inter> {pg s, Suc (pg s), pg d} = {}"
    using K s d by (auto simp: kernel_ok_def m(1) Let_def)
  have sd: "pg s \<noteq> pg d" using pg_inject [OF s(1) d(1)] d(3) by simp
  have S1: "same_except {pg s, Suc (pg s), pg d} m m1"
    unfolding m(2) using clear_owned_spec [OF s(1), of 0 1024 m] by (auto intro: same_except_mono)
  have "?kd \<noteq> d" using f(1) by auto
  note C = copy_page_table_spec [OF d(1) k(2) this, where m = m1, folded m(3)]
  have S2: "same_except {pg s, Suc (pg s), pg d} m1 m2" by (rule same_except_mono [OF C(1)]) auto
  have T: "same_except {pg s} m2 m3" unfolding m(4) by (rule set_entry_same_except [OF s(1)]) simp
  then have S3: "same_except {pg s, Suc (pg s), pg d} m2 m3" by (rule same_except_mono) auto
  show S: "same_except {pg s, Suc (pg s), pg d} m m3" by (rule same_except_trans [OF same_except_trans [OF S1 S2] S3])
  have e: "entry_at m3 d j = entry_at m ?kd j" if "j < 1024" for j
    using entry_at_same_except [OF T d(1) that] C(2) [OF that] entry_at_same_except [OF S1 k(2) that] f(1) sd by simp
  show tab: "tables m3 d = tables m ?kd" unfolding tables_def using e by (intro image_cong) auto
  have "pg d \<notin> tables m ?kd" using f(2) by auto
  then show "dir_ok m3 d" using k(1) e tab d(1) unfolding dir_ok_def by simp
  have "entry_at m3 (page_base (entry_at m ?kd (directory_index va))) (table_index va)
      = entry_at m (page_base (entry_at m ?kd (directory_index va))) (table_index va)" if "present (entry_at m ?kd (directory_index va))"
    by (rule entry_at_same_except [OF S]) (use table_mem [OF that] f(2) in auto)
  then show "walk m3 d va = walk m ?kd va" by (simp add: walk_def Let_def e)
  have es: "entry_at m3 s j = (if j = 0 then d else entry_at m1 s j)" if "j < 1024" for j
    using entry_at_same_except [OF C(1) s(1) that] sd by (simp add: m(4) entry_at_set_any)
  show "page_directory m3 s = d" using es [of 0] by (simp add: page_directory_entry)
  show "owned_table m3 s i = 0" if "i < 1023" for i
    using that es [of "Suc i"] clear_owned_spec [OF s(1), of 0 1024 m] by (simp add: owned_table_entry m(2))
qed

lemma create_space_ok:
  assumes K: "kernel_ok L st" and inv: "pmm_inv U (ppmm st)"
  shows "(\<exists>st'. paging_create_address_space L st = Some (0, st') \<and> avail (ppmm st') = avail (ppmm st) \<and> pmm_inv U (ppmm st') \<and> card (avail (ppmm st)) < 2)
    \<or> (\<exists>s st'. paging_create_address_space L st = Some (s, st') \<and> space_ok L st' s \<and> pmm_inv U (ppmm st')
         \<and> private_pages (pmem st') s \<subseteq> avail (ppmm st) \<and> avail (ppmm st') = avail (ppmm st) - private_pages (pmem st') s
         \<and> same_except (insert (Suc (pg s)) (private_pages (pmem st') s)) (pmem st) (pmem st')
         \<and> (\<forall>va. paging_get_physical_in_space s va st' = walk (pmem st) (kernel_page_directory L) va))"
  using inv
proof (cases rule: pmm_alloc_page_spec)
  case none
  then have "paging_create_address_space L st = Some (0, st\<lparr>ppmm := ppmm st\<rparr>)" by (simp add: paging_create_address_space_def)
  then show ?thesis using none inv by auto
next
  case (page s p)
  note s = page
  define m1 where "m1 = clear_owned s 0 PAGE_ENTRIES (pmem st)"
  show ?thesis
    using s(6)
  proof (cases rule: pmm_alloc_page_spec)
    case none
    obtain p' where p': "pmm_free_page s p = Some p'" "avail p' = insert (pg s) (avail p)" "pmm_inv U p'"
      using pmm_free_page_spec [OF s(6,3)] s(4) avail_usable [OF inv] by blast
    have "avail (ppmm st) = {pg s}" using none s by auto
    then show ?thesis using none s p' by (auto simp: paging_create_address_space_def Let_def)
  next
    case (page d q)
    then have d: "pg d \<in> avail (ppmm st)" "d \<noteq> s" using s(5) by auto
    define st' where "st' = st\<lparr>pmem := set_entry s 0 d (copy_page_table d (kernel_page_directory L) m1), ppmm := q\<rparr>"
    note C = create_memory [OF K s(3,4) page(3) d refl m1_def refl refl]
    have st'm: "pmem st' = set_entry s 0 d (copy_page_table d (kernel_page_directory L) m1)" "ppmm st' = q" by (simp_all add: st'_def)
    have eq: "paging_create_address_space L st = Some (s, st')"
      using s page by (simp add: paging_create_address_space_def Let_def m1_def st'_def page_directory_entry)
    have pp: "private_pages (pmem st') s = {pg s, pg d}" using C(4,5) by (auto simp: private_pages_def st'm)
    have T: "tables (pmem st) (kernel_page_directory L) \<inter> avail (ppmm st) = {}" "pg (kernel_space L) \<notin> avail (ppmm st)"
      using K by (auto simp: kernel_ok_def Let_def)
    have "pg s \<noteq> pg d" using pg_inject [OF s(3) page(3)] d(2) by simp
    then have "space_ok L st' s"
      by (intro space_okI [OF st'm(1) [symmetric] C(4) [symmetric]]) (use s page d C T in \<open>auto simp: st'm\<close>)
    moreover have "paging_get_physical_in_space s va st' = walk (pmem st) (kernel_page_directory L) va" for va
      using C(3,4) s(2) page(2) by (simp add: get_physical_walk st'm)
    moreover have "same_except (insert (Suc (pg s)) (private_pages (pmem st') s)) (pmem st) (pmem st')"
      unfolding pp using C(6) by (simp add: st'm insert_commute)
    ultimately show ?thesis using eq s page d pp by (intro disjI2 exI [of _ s] exI [of _ st']) (auto simp: st'm(2))
  qed
qed

lemma pmm_free_page_unaligned: "page_base a \<noteq> a \<Longrightarrow> pmm_free_page a p = Some p"
proof -
  assume "page_base a \<noteq> a"
  then have "unat (a mod 4096) \<noteq> 0" by (simp add: page_base_dvd unat_mod_distrib dvd_eq_mod_eq_0)
  then have "a mod 4096 \<noteq> 0" by (metis unat_0)
  then show ?thesis by (simp add: pmm_free_page_def pmm_free_pages_block_def)
qed

lemma owned_table_any: "owned_table m s i = entry_at m s (Suc i)"
  by (simp add: owned_table_def entry_at_def add.assoc)

text \<open>Freeing the owned tables; the slot beyond the structure's page must not hold the address of a page.\<close>

lemma free_owned_spec:
  assumes "pmm_inv U (ppmm st)" "i + n \<le> 1024"
    "\<forall>j. i \<le> j \<and> j < i + n \<and> j < 1023 \<and> owned_table (pmem st) s j \<noteq> 0 \<longrightarrow>
      page_base (owned_table (pmem st) s j) = owned_table (pmem st) s j \<and> pg (owned_table (pmem st) s j) \<in> U"
    "owned_table (pmem st) s 1023 \<noteq> 0 \<longrightarrow> page_base (owned_table (pmem st) s 1023) \<noteq> owned_table (pmem st) s 1023"
  shows "\<exists>st'. free_owned s i n st = Some st' \<and> pmm_inv U (ppmm st')
    \<and> avail (ppmm st') = avail (ppmm st) \<union> (\<lambda>j. pg (owned_table (pmem st) s j)) ` {j. i \<le> j \<and> j < i + n \<and> j < 1023 \<and> owned_table (pmem st) s j \<noteq> 0}
    \<and> page_directory (pmem st') s = page_directory (pmem st) s"
  using assms
proof (induction n arbitrary: i st)
  case (Suc n)
  let ?o = "\<lambda>j. owned_table (pmem st) s j"
  have rng: "{j. i \<le> j \<and> j < i + Suc n \<and> j < 1023 \<and> ?o j \<noteq> 0} =
      (if i < 1023 \<and> ?o i \<noteq> 0 then {i} else {}) \<union> {j. Suc i \<le> j \<and> j < Suc i + n \<and> j < 1023 \<and> ?o j \<noteq> 0}"
    by (auto simp: Suc_le_eq order.order_iff_strict)
  show ?case
  proof (cases "?o i = 0")
    case True
    then show ?thesis using Suc.IH [of st "Suc i"] Suc.prems rng by simp
  next
    case False
    define st1 where "st1 = (\<lambda>p. st\<lparr>ppmm := p, pmem := set_owned_table s i 0 (pmem st)\<rparr>)"
    have o1: "owned_table (pmem (st1 p)) s j = (if j = i then 0 else ?o j)" for j p
      by (simp add: st1_def owned_table_any owned_table_entry(2) entry_at_set_any)
    have d1: "page_directory (pmem (st1 p)) s = page_directory (pmem st) s" for p
      by (simp add: st1_def page_directory_entry owned_table_entry(2) entry_at_set_any)
    have st1_ppmm: "ppmm (st1 p) = p" for p by (simp add: st1_def)
    obtain p where p: "pmm_free_page (?o i) (ppmm st) = Some p" "pmm_inv U p"
        "avail p = avail (ppmm st) \<union> (if i < 1023 then {pg (?o i)} else {})"
    proof (cases "i < 1023")
      case True
      then have "page_base (?o i) = ?o i" "pg (?o i) \<in> U" using Suc.prems(3) False by auto
      then show ?thesis using pmm_free_page_spec [OF Suc.prems(1)] that True by auto
    next
      case 2: False
      then have "i = 1023" using Suc.prems(2) by simp
      then show ?thesis using pmm_free_page_unaligned [of "?o i" "ppmm st"] False Suc.prems(1,4) that 2 by auto
    qed
    have step: "free_owned s i (Suc n) st = free_owned s (Suc i) n (st1 p)"
      using False p(1) by (simp add: st1_def)
    have img: "(\<lambda>j. pg (owned_table (pmem (st1 p)) s j)) ` {j. Suc i \<le> j \<and> j < Suc i + n \<and> j < 1023 \<and> owned_table (pmem (st1 p)) s j \<noteq> 0}
        = (\<lambda>j. pg (?o j)) ` {j. Suc i \<le> j \<and> j < Suc i + n \<and> j < 1023 \<and> ?o j \<noteq> 0}"
      by (intro image_cong) (auto simp: o1)
    have "\<exists>st'. free_owned s (Suc i) n (st1 p) = Some st' \<and> pmm_inv U (ppmm st')
        \<and> avail (ppmm st') = avail p \<union> (\<lambda>j. pg (?o j)) ` {j. Suc i \<le> j \<and> j < Suc i + n \<and> j < 1023 \<and> ?o j \<noteq> 0}
        \<and> page_directory (pmem st') s = page_directory (pmem st) s"
      using Suc.IH [of "st1 p" "Suc i"] p(2) Suc.prems unfolding img d1 by (simp add: o1 st1_ppmm)
    then show ?thesis unfolding step rng using p(3) False by (auto simp: image_Un)
  qed
qed auto

lemma switch_fields [simp]: "pmem (paging_switch_address_space s st) = pmem st" "ppmm (paging_switch_address_space s st) = ppmm st"
  by (simp_all add: paging_switch_address_space_def)

lemma destroy_space_ok:
  assumes ok: "space_ok L st s" and inv: "pmm_inv U (ppmm st)" and U: "private_pages (pmem st) s \<subseteq> U"
    and last: "owned_table (pmem st) s 1023 \<noteq> 0 \<longrightarrow> page_base (owned_table (pmem st) s 1023) \<noteq> owned_table (pmem st) s 1023"
  shows "\<exists>st'. paging_destroy_address_space L s st = Some st' \<and> pmm_inv U (ppmm st')
    \<and> avail (ppmm st') = avail (ppmm st) \<union> private_pages (pmem st) s"
proof -
  note k = space_okD [OF ok refl refl]
  define st0 where "st0 = (if current_space st = s then paging_switch_address_space (kernel_space L) st else st)"
  have st0: "pmem st0 = pmem st" "ppmm st0 = ppmm st" by (simp_all add: st0_def)
  let ?o = "\<lambda>j. owned_table (pmem st) s j"
  have "\<forall>j. 0 \<le> j \<and> j < 0 + 1024 \<and> j < 1023 \<and> ?o j \<noteq> 0 \<longrightarrow> page_base (?o j) = ?o j \<and> pg (?o j) \<in> U"
    using k(12) private_pages_self(3) U by blast
  note * = free_owned_spec [of U st0 0 1024 s, unfolded st0, OF inv _ this last]
  obtain st1 where st1: "free_owned s 0 1024 st0 = Some st1" "pmm_inv U (ppmm st1)"
      "avail (ppmm st1) = avail (ppmm st) \<union> (\<lambda>j. pg (?o j)) ` {j. 0 \<le> j \<and> j < 0 + 1024 \<and> j < 1023 \<and> ?o j \<noteq> 0}"
      "page_directory (pmem st1) s = page_directory (pmem st) s"
    using * by auto
  obtain p where p: "pmm_free_page (page_directory (pmem st) s) (ppmm st1) = Some p" "pmm_inv U p"
      "avail p = insert (pg (page_directory (pmem st) s)) (avail (ppmm st1))"
    using pmm_free_page_spec [OF st1(2) k(8)] U private_pages_self(2) by blast
  obtain q where q: "pmm_free_page s p = Some q" "pmm_inv U q" "avail q = insert (pg s) (avail p)"
    using pmm_free_page_spec [OF p(2) k(3)] U private_pages_self(1) by blast
  have "paging_destroy_address_space L s st = Some (st1\<lparr>ppmm := q\<rparr>)"
    using k(1,2,4) st1(1,4) p(1) q(1) by (simp add: paging_destroy_address_space_def st0_def [symmetric] Let_def)
  moreover have "avail q = avail (ppmm st) \<union> private_pages (pmem st) s"
    by (auto simp: q(3) p(3) st1(3) private_pages_def)
  ultimately show ?thesis using q(2) by simp
qed

end
