(* ===== verification/Paging_Boot.thy ===== *)
theory Paging_Boot
  imports Paging_Spaces
begin

text \<open>The boot-time page tables: \<open>paging_initialize\<close> maps the first 128 MiB and the boot framebuffer to
  themselves and nothing else. The theorems about address spaces follow, on the state it leaves.\<close>

section \<open>Layout\<close>

text \<open>The static arrays are page-aligned and disjoint from one another and from the kernel's space structure,
  whose 4100 bytes need not be aligned.\<close>

definition struct_pages :: "paging_layout \<Rightarrow> nat set" where
  "struct_pages L = {unat (kernel_space L) div 4096..(unat (kernel_space L) + 4099) div 4096}"

definition identity_pages :: "paging_layout \<Rightarrow> nat set" where
  "identity_pages L = {pg (identity_page_tables L)..<pg (identity_page_tables L) + PAGE_TABLE_COUNT}"

definition framebuffer_pages :: "paging_layout \<Rightarrow> nat set" where
  "framebuffer_pages L = {pg (framebuffer_page_tables L)..<pg (framebuffer_page_tables L) + FRAMEBUFFER_PAGE_TABLES}"

definition layout_ok :: "paging_layout \<Rightarrow> bool" where
  "layout_ok L \<longleftrightarrow> kernel_page_directory L \<noteq> 0 \<and> kernel_space L \<noteq> 0 \<and> page_base (kernel_page_directory L) = kernel_page_directory L
     \<and> page_base (identity_page_tables L) = identity_page_tables L \<and> page_base (framebuffer_page_tables L) = framebuffer_page_tables L
     \<and> pg (identity_page_tables L) + PAGE_TABLE_COUNT \<le> 2 ^ 20 \<and> pg (framebuffer_page_tables L) + FRAMEBUFFER_PAGE_TABLES \<le> 2 ^ 20
     \<and> pg (kernel_page_directory L) \<notin> identity_pages L \<union> framebuffer_pages L \<and> identity_pages L \<inter> framebuffer_pages L = {}
     \<and> struct_pages L \<inter> (insert (pg (kernel_page_directory L)) (identity_pages L \<union> framebuffer_pages L)) = {}"

lemma table_slot:
  assumes "page_base b = b" "pg b + n \<le> 2 ^ 20" "t < n"
  shows "page_base (b + of_nat t * PAGE_SIZE) = b + of_nat t * PAGE_SIZE" "pg (b + of_nat t * PAGE_SIZE) = pg b + t"
proof -
  have t: "t < 2 ^ 20" "unat (of_nat t :: u32) = t" using assms(2,3) by (auto simp: unsigned_of_nat take_bit_nat_eq_self_iff)
  have ub: "unat b = pg b * 4096" using unat_page_base [of b] assms(1) by simp
  have "unat (of_nat t * PAGE_SIZE) = t * 4096" using t by (simp add: unat_word_ariths)
  then have u: "unat (b + of_nat t * PAGE_SIZE) = (pg b + t) * 4096" using ub assms(2,3) by (simp add: unat_word_ariths)
  then show "pg (b + of_nat t * PAGE_SIZE) = pg b + t" by simp
  then show "page_base (b + of_nat t * PAGE_SIZE) = b + of_nat t * PAGE_SIZE"
    using u unat_page_base [of "b + of_nat t * PAGE_SIZE"] by (simp add: word_unat_eq_iff)
qed

lemma identity_slot: "layout_ok L \<Longrightarrow> t < 32 \<Longrightarrow> page_base (identity_table L t) = identity_table L t"
  "layout_ok L \<Longrightarrow> t < 32 \<Longrightarrow> pg (identity_table L t) = pg (identity_page_tables L) + t"
  using table_slot [of "identity_page_tables L" 32 t] by (simp_all add: layout_ok_def identity_table_def)

lemma framebuffer_slot: "layout_ok L \<Longrightarrow> t < 8 \<Longrightarrow> page_base (framebuffer_table L t) = framebuffer_table L t"
  "layout_ok L \<Longrightarrow> t < 8 \<Longrightarrow> pg (framebuffer_table L t) = pg (framebuffer_page_tables L) + t"
  using table_slot [of "framebuffer_page_tables L" 8 t] by (simp_all add: layout_ok_def framebuffer_table_def)

lemma struct_store:
  assumes "k \<le> 1024" shows "same_except (struct_pages L) m (store32 m (unat (kernel_space L) + 4 * k) v)"
proof -
  let ?a = "unat (kernel_space L)"
  have "(?a + 4 * k + j) div 4096 \<in> struct_pages L" if "j < 4" for j
    using that assms by (auto simp: struct_pages_def intro: div_le_mono)
  from this [of 0] this [of 1] this [of 2] this [of 3] show ?thesis
    by (auto simp: same_except_def store32_def)
qed

section \<open>The identity tables\<close>

definition identity_address :: "nat \<Rightarrow> nat \<Rightarrow> u32" where
  "identity_address t i = (of_nat t * of_nat PAGE_ENTRIES + of_nat i) * PAGE_SIZE"

lemma identity_address_eq: "identity_address (directory_index va) (table_index va) = page_base va"
proof -
  have d: "directory_index va = pg va div 1024" by (simp add: directory_index_eq flip: div_mult2_eq)
  have "directory_index va * 1024 + table_index va = pg va" by (simp add: d table_index_eq)
  then have "identity_address (directory_index va) (table_index va) = of_nat (pg va * 4096)"
    by (simp only: identity_address_def of_nat_add [symmetric] of_nat_mult [symmetric] of_nat_numeral [where 'a = u32, symmetric])
  also have "\<dots> = page_base va" unfolding unat_page_base [symmetric] by simp
  finally show ?thesis .
qed

lemma page_base_offset: "page_base va OR (va AND (PAGE_SIZE - 1)) = va"
proof -
  have m: "PAGE_SIZE - 1 = mask 12" by (simp add: mask_eq_exp_minus_1)
  show ?thesis unfolding m by (rule bit_word_eqI) (auto simp: bit_page_base bit_or_iff bit_and_iff bit_mask_iff)
qed

lemma page_base_identity: "page_base (identity_address t i) = identity_address t i"
proof -
  have "page_base (push_bit 12 x) = push_bit 12 x" for x :: u32
    by (rule bit_word_eqI) (auto simp: bit_page_base bit_push_bit_iff)
  moreover have "identity_address t i = push_bit 12 (of_nat t * of_nat PAGE_ENTRIES + of_nat i)"
    by (simp add: identity_address_def push_bit_eq_mult)
  ultimately show ?thesis by (simp only:)
qed

lemma clear_directory_spec:
  assumes L: "layout_ok L" and "i + n \<le> 1024" and kd: "kd = kernel_page_directory L"
  shows "same_except (insert (pg kd) (struct_pages L)) m (clear_directory L i n m)
     \<and> (\<forall>j < 1024. entry_at (clear_directory L i n m) kd j = (if i \<le> j \<and> j < i + n then PAGE_WRITABLE else entry_at m kd j))"
  using assms(2)
proof (induction n arbitrary: i m)
  case (Suc n)
  let ?m1 = "set_entry kd i PAGE_WRITABLE m"
  let ?m2 = "set_owned_table (kernel_space L) i 0 ?m1"
  have al: "page_base kd = kd" "pg kd \<notin> struct_pages L" using L by (auto simp: layout_ok_def kd)
  have s1: "same_except {pg kd} m ?m1" using Suc.prems al by (intro set_entry_same_except) auto
  have s2: "same_except (struct_pages L) ?m1 ?m2"
    using struct_store [of "Suc i" L ?m1 0] Suc.prems by (simp add: set_owned_table_def add.assoc)
  have s: "same_except (insert (pg kd) (struct_pages L)) m ?m2"
    by (rule same_except_trans [OF same_except_mono [OF s1] same_except_mono [OF s2]]) auto
  have e: "entry_at ?m2 kd j = (if j = i then PAGE_WRITABLE else entry_at m kd j)" if "j < 1024" for j
    using entry_at_same_except [OF s2 al(1) that al(2)] by (simp add: entry_at_set_any)
  have "same_except (insert (pg kd) (struct_pages L)) ?m2 (clear_directory L (Suc i) n ?m2)
     \<and> (\<forall>j < 1024. entry_at (clear_directory L (Suc i) n ?m2) kd j = (if Suc i \<le> j \<and> j < Suc i + n then PAGE_WRITABLE else entry_at ?m2 kd j))"
    using Suc by simp
  then show ?case using same_except_trans [OF s] e by (auto simp: kd [symmetric])
qed auto

lemma fill_identity_table_spec:
  assumes "layout_ok L" "t < 32" "i + n \<le> 1024"
  shows "same_except {pg (identity_table L t)} m (fill_identity_table L t i n m)
     \<and> (\<forall>j < 1024. entry_at (fill_identity_table L t i n m) (identity_table L t) j =
          (if i \<le> j \<and> j < i + n then identity_address t j OR PAGE_PRESENT OR PAGE_WRITABLE else entry_at m (identity_table L t) j))"
  using assms(3)
proof (induction n arbitrary: i m)
  case (Suc n)
  let ?m = "set_entry (identity_table L t) i (identity_address t i OR PAGE_PRESENT OR PAGE_WRITABLE) m"
  have s: "same_except {pg (identity_table L t)} m ?m" using Suc.prems assms identity_slot by (intro set_entry_same_except) auto
  have "same_except {pg (identity_table L t)} ?m (fill_identity_table L t (Suc i) n ?m)
     \<and> (\<forall>j < 1024. entry_at (fill_identity_table L t (Suc i) n ?m) (identity_table L t) j =
          (if Suc i \<le> j \<and> j < Suc i + n then identity_address t j OR PAGE_PRESENT OR PAGE_WRITABLE else entry_at ?m (identity_table L t) j))"
    using Suc by simp
  moreover have "fill_identity_table L t i (Suc n) m = fill_identity_table L t (Suc i) n ?m"
    by (simp add: identity_address_def)
  ultimately show ?case using same_except_trans [OF s] by (auto simp: entry_at_set_any simp del: fill_identity_table.simps)
qed auto

lemma absent_or [simp]: "(a OR b) AND PAGE_PRESENT = 0 \<longleftrightarrow> \<not> present a \<and> \<not> present b" for a :: u32
  using present_or(1) [of a b] by blast

lemma fill_identity_spec:
  assumes L: "layout_ok L" and kd: "kd = kernel_page_directory L" and "t + n \<le> 32"
  shows "same_except (insert (pg kd) (identity_pages L)) m (fill_identity L t n m)
     \<and> (\<forall>j < 1024. entry_at (fill_identity L t n m) kd j =
          (if t \<le> j \<and> j < t + n then identity_table L j OR PAGE_PRESENT OR PAGE_WRITABLE else entry_at m kd j))
     \<and> (\<forall>k j. k < 32 \<longrightarrow> j < 1024 \<longrightarrow> entry_at (fill_identity L t n m) (identity_table L k) j =
          (if t \<le> k \<and> k < t + n then identity_address k j OR PAGE_PRESENT OR PAGE_WRITABLE else entry_at m (identity_table L k) j))"
  using assms(3)
proof (induction n arbitrary: t m)
  case (Suc n)
  let ?P = "insert (pg kd) (identity_pages L)"
  let ?m1 = "fill_identity_table L t 0 PAGE_ENTRIES m"
  let ?m2 = "set_entry kd t (identity_table L t OR PAGE_PRESENT OR PAGE_WRITABLE) ?m1"
  have t: "t < 32" using Suc.prems by simp
  have al: "page_base kd = kd" "pg kd \<notin> identity_pages L" using L by (auto simp: layout_ok_def kd)
  have T: "pg (identity_table L k) \<in> identity_pages L" if "k < 32" for k
    using that identity_slot(2) [OF L that] by (simp add: identity_pages_def)
  have s1: "same_except {pg (identity_table L t)} m ?m1" and e1: "\<forall>j < 1024. entry_at ?m1 (identity_table L t) j = identity_address t j OR PAGE_PRESENT OR PAGE_WRITABLE"
    using fill_identity_table_spec [OF L t, of 0 1024 m] by simp_all
  have s2: "same_except {pg kd} ?m1 ?m2" using t al by (intro set_entry_same_except) auto
  have s: "same_except ?P m ?m2"
    by (rule same_except_trans [OF same_except_mono [OF s1] same_except_mono [OF s2]]) (use T t in auto)
  have d: "entry_at ?m2 kd j = (if j = t then identity_table L t OR PAGE_PRESENT OR PAGE_WRITABLE else entry_at m kd j)" if "j < 1024" for j
  proof -
    have "pg kd \<notin> {pg (identity_table L t)}" using T [OF t] al(2) by auto
    then show ?thesis using entry_at_same_except [OF s1 al(1) that] by (auto simp: entry_at_set_any)
  qed
  have k: "entry_at ?m2 (identity_table L k) j = (if k = t then identity_address t j OR PAGE_PRESENT OR PAGE_WRITABLE else entry_at m (identity_table L k) j)"
    if "k < 32" "j < 1024" for k j
  proof -
    have "entry_at ?m2 (identity_table L k) j = entry_at ?m1 (identity_table L k) j"
      using T [OF that(1)] al by (intro entry_at_same_except [OF s2] identity_slot(1) [OF L]) (use that in auto)
    moreover have "k \<noteq> t \<Longrightarrow> entry_at ?m1 (identity_table L k) j = entry_at m (identity_table L k) j"
      using identity_slot(2) [OF L t] identity_slot(2) [OF L that(1)]
      by (intro entry_at_same_except [OF s1] identity_slot(1) [OF L]) (use that in auto)
    ultimately show ?thesis using e1 that by simp
  qed
  obtain m2 where m2: "m2 = ?m2" by simp
  have "fill_identity L t (Suc n) m = fill_identity L (Suc t) n m2" by (simp add: kd m2)
  moreover have "same_except ?P m (fill_identity L (Suc t) n m2)" using same_except_trans [OF s] Suc by (simp add: m2)
  ultimately show ?case using Suc.IH [of "Suc t" m2] Suc.prems d k unfolding m2 [symmetric] by (auto simp: Suc_le_eq le_less simp del: fill_identity.simps)
qed auto

text \<open>What the boot tables promise at every moment of their construction: a well-formed directory whose
  tables come from the static arrays, translating the addresses of \<open>R\<close> to themselves and no others.\<close>

definition boot_tables :: "paging_layout \<Rightarrow> (u32 \<Rightarrow> bool) \<Rightarrow> nat \<Rightarrow> mem \<Rightarrow> bool" where
  "boot_tables L R slots m \<longleftrightarrow> dir_ok m (kernel_page_directory L)
     \<and> tables m (kernel_page_directory L) \<subseteq> identity_pages L \<union> {pg (framebuffer_page_tables L)..<pg (framebuffer_page_tables L) + slots}
     \<and> (\<forall>va. walk m (kernel_page_directory L) va = (if R va then va else 0))"

definition low_memory :: "u32 \<Rightarrow> bool" where
  "low_memory va \<longleftrightarrow> unat va < 2 ^ 27"

lemma identity_boot_tables:
  assumes L: "layout_ok L" and m: "m = fill_identity L 0 PAGE_TABLE_COUNT (clear_directory L 0 PAGE_ENTRIES m0)"
  shows "boot_tables L low_memory 0 m" "same_except (insert (pg (kernel_page_directory L)) (identity_pages L \<union> struct_pages L)) m0 m"
proof -
  let ?kd = "kernel_page_directory L" and ?c = "clear_directory L 0 PAGE_ENTRIES m0"
  note c = clear_directory_spec [OF L _ refl, of 0 1024 m0] and f = fill_identity_spec [OF L refl, of 0 32 ?c]
  have al: "page_base ?kd = ?kd" "pg ?kd \<notin> identity_pages L" using L by (auto simp: layout_ok_def)
  have d: "entry_at m ?kd j = (if j < 32 then identity_table L j OR PAGE_PRESENT OR PAGE_WRITABLE else PAGE_WRITABLE)" if "j < 1024" for j
    using c f that by (simp add: m)
  have pr: "present (entry_at m ?kd j) \<longleftrightarrow> j < 32" if "j < 1024" for j using d [OF that] identity_slot(1) [OF L, of j] by simp
  have base: "page_base (entry_at m ?kd j) = identity_table L j" if "j < 32" for j using d [of j] identity_slot(1) [OF L that] that by simp
  have p: "pg (entry_at m ?kd j) = pg (identity_page_tables L) + j" if "j < 32" for j
    using identity_slot(2) [OF L that] base [OF that] by (metis pg_page_base)
  have tb: "tables m ?kd \<subseteq> identity_pages L" unfolding tables_def using p pr by (auto simp: identity_pages_def)
  moreover have "dir_ok m ?kd" unfolding dir_ok_def using al tb p pr by (auto simp: subset_iff)
  moreover have "walk m ?kd va = (if low_memory va then va else 0)" for va
  proof (cases "directory_index va < 32")
    case True
    then have "entry_at m (page_base (entry_at m ?kd (directory_index va))) (table_index va) = page_base va OR PAGE_PRESENT OR PAGE_WRITABLE"
      using f identity_address_eq [of va] unfolding base [OF True] by (simp add: m)
    moreover have "low_memory va" using True by (simp add: low_memory_def directory_index_eq div_less_iff_less_mult)
    ultimately show ?thesis using True pr [of "directory_index va"] page_base_offset [of va] by (simp add: walk_def Let_def)
  next
    case False
    then have "\<not> low_memory va" by (simp add: low_memory_def directory_index_eq div_less_iff_less_mult)
    then show ?thesis using False pr [of "directory_index va"] by (simp add: walk_def)
  qed
  ultimately show "boot_tables L low_memory 0 m" by (simp add: boot_tables_def)
  show "same_except (insert (pg ?kd) (identity_pages L \<union> struct_pages L)) m0 m"
    using c f unfolding m by (auto simp: same_except_def)
qed

section \<open>The boot framebuffer\<close>

lemma page_step:
  assumes "page_base a = a" "page_base s = s" "a < s"
  shows "unat (a + PAGE_SIZE) = unat a + 4096" "unat (a + PAGE_SIZE) \<le> unat s" "page_base (a + PAGE_SIZE) = a + PAGE_SIZE"
proof -
  have d: "unat a = pg a * 4096" "unat s = pg s * 4096" using unat_page_base [of a] unat_page_base [of s] assms by simp_all
  then obtain x y where "unat a = x * 4096" "unat s = y * 4096" by blast
  then have le: "unat a + 4096 \<le> unat s" using assms(3) unfolding word_less_nat_alt by simp
  then have "unat a + 4096 < 2 ^ LENGTH(32)" using unsigned_less [of s, where ?'a = nat] by linarith
  then show u: "unat (a + PAGE_SIZE) = unat a + 4096" by (simp add: unat_word_ariths)
  then show "unat (a + PAGE_SIZE) \<le> unat s" using le by simp
  show "page_base (a + PAGE_SIZE) = a + PAGE_SIZE" unfolding page_base_dvd u using assms(1) by (simp add: page_base_dvd)
qed

lemma next_page_index:
  assumes "unat b = unat a + 4096" "page_base a = a" "table_index a < 1023"
  shows "directory_index b = directory_index a" "table_index b = Suc (table_index a)"
proof -
  have d: "directory_index v = pg v div 1024" for v by (simp add: directory_index_eq flip: div_mult2_eq)
  have "pg b = Suc (pg a)" using assms(1) by simp
  then show "directory_index b = directory_index a" "table_index b = Suc (table_index a)"
    using assms(3) unfolding d table_index_eq by (auto simp: div_Suc mod_Suc)
qed

text \<open>The inner loop fills the entries of one table, from the page of \<open>address\<close> to the end of the table
  or of the framebuffer, and changes the translation of exactly those pages.\<close>

lemma map_fb_entries_spec:
  assumes "dir_ok m d" "di < 1024" "present (entry_at m d di)" "T = page_base (entry_at m d di)" "i + n = 1024"
    "page_base address = address" "page_base stop = stop" "address \<le> stop"
    "n > 0 \<longrightarrow> directory_index address = di \<and> table_index address = i"
  shows "\<exists>a' m'. map_fb_entries T i n address stop m = (a', m') \<and> unat a' = min (unat stop) (unat address + 4096 * n)
     \<and> page_base a' = a' \<and> dir_ok m' d \<and> tables m' d = tables m d \<and> same_except {pg T} m m'
     \<and> (\<forall>va. walk m' d va = (if unat address \<le> unat va \<and> unat va < unat a' then va else walk m d va))"
  using assms
proof (induction n arbitrary: i address m)
  case 0
  then show ?case by (auto simp: word_le_nat_alt)
next
  case (Suc n)
  show ?case
  proof (cases "address < stop")
    case False
    then show ?thesis using Suc.prems by (auto simp: word_le_nat_alt word_less_nat_alt)
  next
    case True
    let ?m = "set_entry T i (address OR PAGE_PRESENT OR PAGE_WRITABLE) m"
    have i: "i < 1024" "directory_index address = di" "table_index address = i" using Suc.prems by auto
    note st = page_step [OF Suc.prems(6,7) True] and te = set_table_entry [OF Suc.prems(1-4) i(1), of "address OR PAGE_PRESENT OR PAGE_WRITABLE"]
    have e: "entry_at ?m d di = entry_at m d di"
    proof (rule entry_at_same_except [OF te(1) _ Suc.prems(2)])
      show "page_base d = d" "pg d \<notin> {pg T}" using Suc.prems(1,2,3,4) table_mem [of m d di] by (auto simp: dir_ok_def)
    qed
    have w: "walk ?m d va = (if pg va = pg address then va else walk m d va)" for va
    proof -
      have "page_base va OR (va AND (PAGE_SIZE - 1)) = va" by (rule page_base_offset)
      moreover have "page_base va = address" if "pg va = pg address" using that Suc.prems(6) unat_page_base [of va] unat_page_base [of address]
        by (simp add: word_unat_eq_iff)
      ultimately have "address OR (va AND (PAGE_SIZE - 1)) = va" if "pg va = pg address" using that by metis
      then show ?thesis using te(4) [of va] same_page_iff [of va address] i Suc.prems(6) by auto
    qed
    have "\<exists>a' m'. map_fb_entries T (Suc i) n (address + PAGE_SIZE) stop ?m = (a', m')
       \<and> unat a' = min (unat stop) (unat (address + PAGE_SIZE) + 4096 * n) \<and> page_base a' = a' \<and> dir_ok m' d \<and> tables m' d = tables ?m d
       \<and> same_except {pg T} ?m m'
       \<and> (\<forall>va. walk m' d va = (if unat (address + PAGE_SIZE) \<le> unat va \<and> unat va < unat a' then va else walk ?m d va))"
    proof (rule Suc.IH)
      show "0 < n \<longrightarrow> directory_index (address + PAGE_SIZE) = di \<and> table_index (address + PAGE_SIZE) = Suc i"
        using next_page_index [OF st(1) Suc.prems(6)] i Suc.prems(5) by auto
    qed (use Suc.prems te(2) e st in \<open>auto simp: word_le_nat_alt\<close>)
    then obtain a' m' where r: "map_fb_entries T (Suc i) n (address + PAGE_SIZE) stop ?m = (a', m')"
      "unat a' = min (unat stop) (unat (address + PAGE_SIZE) + 4096 * n)" "page_base a' = a'" "dir_ok m' d" "tables m' d = tables ?m d" "same_except {pg T} ?m m'"
      "\<forall>va. walk m' d va = (if unat (address + PAGE_SIZE) \<le> unat va \<and> unat va < unat a' then va else walk ?m d va)" by blast
    have "pg va = pg address \<longleftrightarrow> unat address \<le> unat va \<and> unat va < unat address + 4096" for va
      using unat_page_base [of address] Suc.prems(6) by auto
    then have "\<forall>va. walk m' d va = (if unat address \<le> unat va \<and> unat va < unat a' then va else walk m d va)"
      using r(2,7) w st by auto
    moreover have "unat a' = min (unat stop) (unat address + 4096 * Suc n)" using r(2) st(1) by simp
    moreover have "same_except {pg T} m m'" using same_except_trans [OF te(1) r(6)] .
    ultimately show ?thesis using r(1,3,4,5) te(3) True by auto
  qed
qed

text \<open>Adding an empty framebuffer table under a missing directory entry changes no translation.\<close>

lemma add_framebuffer_table:
  assumes L: "layout_ok L" and inv: "boot_tables L R slots m" and slots: "slots < 8" and d: "d < 1024"
    and absent: "\<not> present (entry_at m (kernel_page_directory L) d)"
    and m': "m' = set_entry (kernel_page_directory L) d (framebuffer_table L slots OR PAGE_PRESENT OR PAGE_WRITABLE)
                  (zero_page_table (framebuffer_table L slots) m)"
  shows "boot_tables L R (Suc slots) m'" "present (entry_at m' (kernel_page_directory L) d)"
    "same_except (insert (pg (kernel_page_directory L)) (framebuffer_pages L)) m m'"
proof -
  let ?kd = "kernel_page_directory L" and ?F = "framebuffer_table L slots"
  let ?v = "?F OR PAGE_PRESENT OR PAGE_WRITABLE" and ?z = "zero_page_table ?F m"
  note F = framebuffer_slot [OF L slots]
  have ok: "dir_ok m ?kd" "page_base ?kd = ?kd" and tb: "tables m ?kd \<subseteq> identity_pages L \<union> {pg (framebuffer_page_tables L)..<pg (framebuffer_page_tables L) + slots}"
    using inv by (auto simp: boot_tables_def dir_ok_def)
  have Fin: "pg ?F \<in> framebuffer_pages L" using F(2) slots by (simp add: framebuffer_pages_def)
  have out: "pg ?kd \<noteq> pg ?F" "pg ?F \<notin> tables m ?kd" using L Fin tb F(2) by (auto simp: layout_ok_def)
  have z: "same_except {pg ?F} m ?z" "\<And>j. j < 1024 \<Longrightarrow> entry_at ?z ?F j = 0" using zero_page_table_spec [OF F(1)] by auto
  have e: "entry_at ?z ?kd j = entry_at m ?kd j" if "j < 1024" for j using entry_at_same_except [OF z(1) ok(2) that] out by simp
  have dz: "dir_ok ?z ?kd" "tables ?z ?kd = tables m ?kd" "\<And>va. walk ?z ?kd va = walk m ?kd va"
    using dir_ok_frame [OF z(1) ok(2)] tables_frame [OF z(1) ok(2)] walk_frame [OF z(1) ok(2)] ok(1) out by simp_all
  have b: "page_base ?v = ?F" "present ?v" using F(1) by simp_all
  then have pv: "pg ?v = pg ?F" by (metis pg_page_base)
  have "\<forall>j < 1024. j \<noteq> d \<longrightarrow> present (entry_at ?z ?kd j) \<longrightarrow> pg (entry_at ?z ?kd j) \<noteq> pg ?v"
    using table_mem [of ?z ?kd] out(2) unfolding pv dz(2) by metis
  note se = set_directory_entry [OF dz(1) d b(2) _ this]
  have se': "same_except {pg ?kd} ?z m'" "dir_ok m' ?kd" "\<And>va. walk m' ?kd va = walk m ?kd va" "tables m' ?kd \<subseteq> insert (pg ?F) (tables m ?kd)"
    using se out(1) absent e [OF d] z(2) table_mem [of ?z ?kd] dz unfolding pv b(1) m' [symmetric] by (auto simp: subset_iff)
  show "boot_tables L R (Suc slots) m'" using se'(2-4) tb F(2) inv unfolding boot_tables_def by (auto simp: subset_iff)
  show "present (entry_at m' ?kd d)" using b(2) by (simp add: m' entry_at_set_any)
  show "same_except (insert (pg ?kd) (framebuffer_pages L)) m m'" 
    by (rule same_except_trans [OF same_except_mono [OF z(1)] same_except_mono [OF se'(1)]]) (use Fin in auto)
qed

text \<open>One table of the framebuffer: find or add the table, then fill it from \<open>address\<close>.\<close>

definition framebuffer_range :: "u32 \<Rightarrow> u32 \<Rightarrow> u32 \<Rightarrow> bool" where
  "framebuffer_range start stop va \<longleftrightarrow> start \<le> va \<and> va < stop"

definition framebuffer_reach :: "u32 \<Rightarrow> u32 \<Rightarrow> nat \<Rightarrow> bool" where
  "framebuffer_reach start stop n \<longleftrightarrow> (unat stop - 1) div 2 ^ 22 < directory_index start + n"

lemma boot_tables_cong: "boot_tables L R n m \<Longrightarrow> (\<And>va. R va = R' va) \<Longrightarrow> boot_tables L R' n m"
  by (simp add: boot_tables_def)

lemma boot_tables_pages: "boot_tables L R n m \<Longrightarrow> n \<le> 8 \<Longrightarrow> tables m (kernel_page_directory L) \<subseteq> identity_pages L \<union> framebuffer_pages L"
  by (auto simp: boot_tables_def framebuffer_pages_def subset_iff)

lemma fill_framebuffer_table:
  assumes L: "layout_ok L" and inv: "boot_tables L R slots m" and le: "slots \<le> 8" and d: "d = directory_index address" and i: "i = table_index address"
    and "present (entry_at m (kernel_page_directory L) d)" "page_base address = address" "page_base stop = stop" "address < stop"
  obtains a' m' where "map_fb_entries (page_base (entry_at m (kernel_page_directory L) d)) i (PAGE_ENTRIES - i) address stop m = (a', m')"
    "unat a' = min (unat stop) ((d + 1) * 2 ^ 22)" "page_base a' = a'" "unat address < unat a'"
    "boot_tables L (\<lambda>va. R va \<or> framebuffer_range address a' va) slots m'"
    "same_except (identity_pages L \<union> framebuffer_pages L) m m'"
proof -
  let ?kd = "kernel_page_directory L" and ?T = "page_base (entry_at m (kernel_page_directory L) d)"
  have ok: "dir_ok m ?kd" using inv by (simp add: boot_tables_def)
  have i1: "i < 1024" "d < 1024" using d i by simp_all
  then have n: "i + (1024 - i) = 1024" by linarith
  have "\<exists>a' m'. map_fb_entries ?T i (1024 - i) address stop m = (a', m') \<and> unat a' = min (unat stop) (unat address + 4096 * (1024 - i))
     \<and> page_base a' = a' \<and> dir_ok m' ?kd \<and> tables m' ?kd = tables m ?kd \<and> same_except {pg ?T} m m'
     \<and> (\<forall>va. walk m' ?kd va = (if unat address \<le> unat va \<and> unat va < unat a' then va else walk m ?kd va))"
    using assms(5,7,8,9) d n by (intro map_fb_entries_spec [OF ok i1(2) assms(6) refl n]) auto
  then obtain a' m' where r: "map_fb_entries ?T i (1024 - i) address stop m = (a', m')" "unat a' = min (unat stop) (unat address + 4096 * (1024 - i))"
    "page_base a' = a'" "dir_ok m' ?kd" "tables m' ?kd = tables m ?kd" "same_except {pg ?T} m m'"
    "\<forall>va. walk m' ?kd va = (if unat address \<le> unat va \<and> unat va < unat a' then va else walk m ?kd va)" by blast
  have "d = pg address div 1024" unfolding d by (simp add: directory_index_eq flip: div_mult2_eq)
  then have a: "unat address = pg address * 4096" "pg address = d * 1024 + i"
    using unat_page_base [of address] div_mult_mod_eq [of "pg address" 1024] unfolding assms(7) i table_index_eq by simp_all
  have "unat address + 4096 * (1024 - i) = (d + 1) * 2 ^ 22"
  proof -
    have "unat address + 4096 * (1024 - i) = d * 1024 * 4096 + 4096 * (i + (1024 - i))"
      by (subst a(1), subst a(2)) (simp only: add_mult_distrib add_mult_distrib2 mult.commute add.assoc)
    then show ?thesis unfolding n by simp
  qed
  then have u: "unat a' = min (unat stop) ((d + 1) * 2 ^ 22)" using r(2) by simp
  have "unat address < unat a'" using r(2) i1(1) assms(9) by (simp add: word_less_nat_alt)
  moreover have "boot_tables L (\<lambda>va. R va \<or> framebuffer_range address a' va) slots m'"
    using inv r(4,5,7) by (simp add: boot_tables_def framebuffer_range_def word_le_nat_alt word_less_nat_alt)
  moreover have "same_except (identity_pages L \<union> framebuffer_pages L) m m'"
  proof (rule same_except_mono [OF r(6)])
    have "pg ?T \<in> tables m ?kd" using table_mem [OF assms(6) i1(2)] by simp
    then show "{pg ?T} \<subseteq> identity_pages L \<union> framebuffer_pages L"
      using boot_tables_pages [OF inv le] by blast
  qed
  ultimately show thesis using that [OF _ u r(3)] r(1) by simp
qed

text \<open>The outer loop ends, and maps the whole framebuffer when it spans at most eight directory entries.\<close>

lemma map_framebuffer_ok:
  assumes L: "layout_ok L" and "boot_tables L R slots m" "page_base address = address" "page_base stop = stop" "address \<le> stop"
    and "address < stop \<longrightarrow> slots + ((unat stop - 1) div 2 ^ 22 - directory_index address) < 8" "slots \<le> 8"
  shows "\<exists>m' n. map_framebuffer L address stop slots m = Some m' \<and> boot_tables L (\<lambda>va. R va \<or> framebuffer_range address stop va) n m' \<and> n \<le> 8
     \<and> same_except (insert (pg (kernel_page_directory L)) (identity_pages L \<union> framebuffer_pages L)) m m'"
  using assms(2-)
proof (induction "unat stop - unat address" arbitrary: R slots m address rule: less_induct)
  case less
  let ?kd = "kernel_page_directory L" and ?P = "insert (pg (kernel_page_directory L)) (identity_pages L \<union> framebuffer_pages L)"
  let ?d = "directory_index address" and ?i = "table_index address"
  show ?case
  proof (cases "address < stop")
    case False
    then have "boot_tables L (\<lambda>va. R va \<or> framebuffer_range address stop va) slots m"
      using less.prems by (elim boot_tables_cong) (auto simp: framebuffer_range_def)
    then show ?thesis using False less.prems(6) by (subst map_framebuffer.simps) auto
  next
    case True
    let ?miss = "\<not> present (entry_at m ?kd ?d)"
    let ?m1 = "if ?miss then set_entry ?kd ?d (framebuffer_table L slots OR PAGE_PRESENT OR PAGE_WRITABLE) (zero_page_table (framebuffer_table L slots) m) else m"
    let ?s1 = "if ?miss then slots + 1 else slots"
    have s: "slots < 8" using less.prems(5) True by simp
    have m1: "boot_tables L R ?s1 ?m1" "present (entry_at ?m1 ?kd ?d)" "same_except ?P m ?m1"
      using add_framebuffer_table [OF L less.prems(1) s directory_index_less _ refl, of address] less.prems(1)
      by (auto intro: same_except_mono)
    have "?s1 \<le> 8" using s by simp
    from fill_framebuffer_table [OF L m1(1) this refl refl m1(2) less.prems(2,3) True] obtain a' m'
      where r: "map_fb_entries (page_base (entry_at ?m1 ?kd ?d)) ?i (PAGE_ENTRIES - ?i) address stop ?m1 = (a', m')"
        "unat a' = min (unat stop) ((?d + 1) * 2 ^ 22)" "page_base a' = a'" "unat address < unat a'"
        "boot_tables L (\<lambda>va. R va \<or> framebuffer_range address a' va) ?s1 m'" "same_except (identity_pages L \<union> framebuffer_pages L) ?m1 m'" .
    have step: "map_framebuffer L address stop slots m = map_framebuffer L a' stop ?s1 m'"
      using True s r(1) by (subst map_framebuffer.simps) (simp add: Let_def)
    have le: "a' \<le> stop" using r(2) by (simp add: word_le_nat_alt)
    have "directory_index a' = Suc ?d" if "a' < stop" using that r(2) by (simp add: directory_index_eq word_less_nat_alt)
    moreover have "(unat stop - 1) div 2 ^ 22 \<ge> Suc ?d" if "a' < stop"
      using that r(2) by (simp add: word_less_nat_alt less_eq_div_iff_mult_less_eq)
    ultimately have "a' < stop \<longrightarrow> ?s1 + ((unat stop - 1) div 2 ^ 22 - directory_index a') < 8"
      using less.prems(5) True by auto
    moreover have "unat stop - unat a' < unat stop - unat address" using r(4) True by (simp add: diff_less_mono2 word_less_nat_alt)
    ultimately obtain m'' n where h: "map_framebuffer L a' stop ?s1 m' = Some m''" "n \<le> 8" "same_except ?P m' m''"
      "boot_tables L (\<lambda>va. (R va \<or> framebuffer_range address a' va) \<or> framebuffer_range a' stop va) n m''"
      using less.hyps [OF _ r(5,3) less.prems(3) le] \<open>?s1 \<le> 8\<close> by blast
    from h(4) have "boot_tables L (\<lambda>va. R va \<or> framebuffer_range address stop va) n m''"
      using r(4) le by (elim boot_tables_cong) (auto simp: framebuffer_range_def word_le_nat_alt word_less_nat_alt)
    moreover have "same_except ?P m m''"
      using same_except_trans [OF m1(3) same_except_trans [OF same_except_mono [OF r(6)] h(3)]] by auto
    ultimately show ?thesis using step h(1,2) by auto
  qed
qed

text \<open>Nothing but the static arrays and the kernel's space structure is written, and the space the boot
  leaves satisfies the invariant of kernel spaces.\<close>

lemma paging_initialize_ok:
  assumes L: "layout_ok L" and fb: "start = page_base (boot_framebuffer_physical st)"
      "stop = page_base (boot_framebuffer_physical st + boot_framebuffer_size st + PAGE_SIZE - 1)"
    and fits: "boot_framebuffer_physical st \<noteq> 0 \<and> boot_framebuffer_size st \<noteq> 0 \<longrightarrow> start \<le> stop \<and> (unat stop - 1) div 2 ^ 22 - directory_index start < 8"
  obtains st' n where "paging_initialize L st = Some st'"
    "boot_tables L (\<lambda>va. low_memory va \<or> boot_framebuffer_physical st \<noteq> 0 \<and> boot_framebuffer_size st \<noteq> 0 \<and> framebuffer_range start stop va) n (pmem st')" "n \<le> 8"
    "page_directory (pmem st') (kernel_space L) = kernel_page_directory L" "current_space st' = kernel_space L" "cr3 st' = kernel_page_directory L"
    "paging_is_enabled st'" "ppmm st' = ppmm st"
    "same_except (insert (pg (kernel_page_directory L)) (identity_pages L \<union> framebuffer_pages L \<union> struct_pages L)) (pmem st) (pmem st')"
proof -
  let ?kd = "kernel_page_directory L" and ?m = "fill_identity L 0 PAGE_TABLE_COUNT (clear_directory L 0 PAGE_ENTRIES (pmem st))"
  let ?has = "boot_framebuffer_physical st \<noteq> 0 \<and> boot_framebuffer_size st \<noteq> 0"
  let ?R = "\<lambda>va. low_memory va \<or> boot_framebuffer_physical st \<noteq> 0 \<and> boot_framebuffer_size st \<noteq> 0 \<and> framebuffer_range start stop va"
  note id = identity_boot_tables [OF L refl, of "pmem st"]
  obtain m' n where r: "(if ?has then map_framebuffer L start stop 0 ?m else Some ?m) = Some m'" "boot_tables L ?R n m'" "n \<le> 8"
    "same_except (insert (pg ?kd) (identity_pages L \<union> framebuffer_pages L)) ?m m'"
  proof (cases ?has)
    case True
    moreover have "page_base start = start" "page_base stop = stop" by (simp_all add: fb)
    ultimately show ?thesis using map_framebuffer_ok [OF L id(1), of start stop] fits that by auto
  next
    case False
    then show ?thesis using that id(1) by (auto elim: boot_tables_cong)
  qed
  let ?m' = "set_page_directory (kernel_space L) ?kd m'"
  have s: "same_except (struct_pages L) m' ?m'" using struct_store [of 0 L m' ?kd] by (simp add: set_page_directory_def)
  have al: "page_base ?kd = ?kd" "pg ?kd \<notin> struct_pages L" "tables m' ?kd \<inter> struct_pages L = {}"
    using L boot_tables_pages [OF r(2,3)] unfolding layout_ok_def by blast+
  have "boot_tables L ?R n ?m'"
    using r(2) dir_ok_frame [OF s al(1,2)] tables_frame [OF s al(1,2)] walk_frame [OF s al] by (simp add: boot_tables_def)
  moreover have "same_except (insert (pg ?kd) (identity_pages L \<union> framebuffer_pages L \<union> struct_pages L)) (pmem st) ?m'"
    by (rule same_except_trans [OF same_except_mono [OF id(2)] same_except_trans [OF same_except_mono [OF r(4)] same_except_mono [OF s]]]) auto
  moreover have "(cr0 st OR 0x80000000) AND 0x80000000 \<noteq> 0"
    using and_exp_eq_0_iff [of "cr0 st OR 0x80000000" 31] by (simp add: bit_simps)
  moreover have init: "paging_initialize L st = Some (st\<lparr>pmem := ?m', current_space := kernel_space L, cr3 := ?kd, cr0 := cr0 st OR 0x80000000\<rparr>)"
    using r(1) unfolding paging_initialize_def fb [symmetric] Let_def by simp
  moreover have "page_directory ?m' (kernel_space L) = ?kd" by (simp add: page_directory_entry entry_at_set_any)
  ultimately show thesis using r(3) by (intro that [OF init]) (simp_all add: paging_is_enabled_def)
qed

section \<open>A boot state\<close>

text \<open>A concrete layout and boot state, for the examples: the static arrays below 1 MiB, a 4 MiB framebuffer
  at \<open>0xFD000000\<close>, and the page allocator of \<open>boot_pmm\<close>, with the pages 256 to 1023 free.\<close>

definition boot_layout :: paging_layout where
  "boot_layout = \<lparr>kernel_page_directory = 0x10000, identity_page_tables = 0x20000, framebuffer_page_tables = 0x50000, kernel_space = 0x60000\<rparr>"

definition reset_paging :: paging where
  "reset_paging = \<lparr>pmem = (\<lambda>_. 0), ppmm = boot_pmm, current_space = 0, boot_framebuffer_physical = 0xFD000000,
     boot_framebuffer_size = 0x400000, cr0 = 0x11, cr3 = 0\<rparr>"

definition boot_paging :: paging where
  "boot_paging = the (paging_initialize boot_layout reset_paging)"

definition first_space :: u32 where
  "first_space = fst (the (paging_create_address_space boot_layout boot_paging))"

definition first_paging :: paging where
  "first_paging = snd (the (paging_create_address_space boot_layout boot_paging))"

lemma boot_layout_ok: "layout_ok boot_layout"
  by (auto simp: layout_ok_def boot_layout_def page_base_def identity_pages_def framebuffer_pages_def struct_pages_def)

lemma boot_pages: "identity_pages boot_layout = {32..<64}" "framebuffer_pages boot_layout = {80..<88}" "struct_pages boot_layout = {96..97}"
  "pg (kernel_page_directory boot_layout) = 16"
  by (auto simp: boot_layout_def identity_pages_def framebuffer_pages_def struct_pages_def)

lemma boot_framebuffer_fits:
  "page_base (boot_framebuffer_physical reset_paging) = 0xFD000000"
  "page_base (boot_framebuffer_physical reset_paging + boot_framebuffer_size reset_paging + PAGE_SIZE - 1) = 0xFD400000"
  by (simp_all add: reset_paging_def page_base_def)

lemma boot_paging_ok:
  "paging_initialize boot_layout reset_paging = Some boot_paging" "ppmm boot_paging = boot_pmm" "kernel_ok boot_layout boot_paging"
  "page_directory (pmem boot_paging) (kernel_space boot_layout) = kernel_page_directory boot_layout"
  "walk (pmem boot_paging) (kernel_page_directory boot_layout) va = (if low_memory va \<or> framebuffer_range 0xFD000000 0xFD400000 va then va else 0)"
  "tables (pmem boot_paging) (kernel_page_directory boot_layout) \<subseteq> {32..<64} \<union> {80..<88}"
  "current_space boot_paging = kernel_space boot_layout" "cr3 boot_paging = kernel_page_directory boot_layout"
proof -
  have "boot_framebuffer_physical reset_paging \<noteq> 0 \<and> boot_framebuffer_size reset_paging \<noteq> 0 \<longrightarrow>
      (0xFD000000 :: u32) \<le> 0xFD400000 \<and> (unat (0xFD400000 :: u32) - 1) div 2 ^ 22 - directory_index 0xFD000000 < 8"
    by (simp add: directory_index_def drop_bit_eq_div)
  from paging_initialize_ok [OF boot_layout_ok boot_framebuffer_fits [symmetric] this] obtain st n where
    r: "paging_initialize boot_layout reset_paging = Some st" "n \<le> 8" "page_directory (pmem st) (kernel_space boot_layout) = kernel_page_directory boot_layout"
    "ppmm st = ppmm reset_paging" "current_space st = kernel_space boot_layout" "cr3 st = kernel_page_directory boot_layout" and t: "boot_tables boot_layout (\<lambda>va. low_memory va \<or> boot_framebuffer_physical reset_paging \<noteq> 0
      \<and> boot_framebuffer_size reset_paging \<noteq> 0 \<and> framebuffer_range 0xFD000000 0xFD400000 va) n (pmem st)" .
  from r have st: "boot_paging = st" by (simp add: boot_paging_def)
  show "paging_initialize boot_layout reset_paging = Some boot_paging" "ppmm boot_paging = boot_pmm"
    "page_directory (pmem boot_paging) (kernel_space boot_layout) = kernel_page_directory boot_layout"
    "current_space boot_paging = kernel_space boot_layout" "cr3 boot_paging = kernel_page_directory boot_layout"
    using r by (simp_all add: st reset_paging_def)
  show "walk (pmem boot_paging) (kernel_page_directory boot_layout) va = (if low_memory va \<or> framebuffer_range 0xFD000000 0xFD400000 va then va else 0)"
    using t by (simp add: st boot_tables_def reset_paging_def)
  show tb: "tables (pmem boot_paging) (kernel_page_directory boot_layout) \<subseteq> {32..<64} \<union> {80..<88}"
    using boot_tables_pages [OF t r(2)] by (simp add: boot_pages st)
  have "pg (kernel_space boot_layout) = 96" by (simp add: boot_layout_def)
  then show "kernel_ok boot_layout boot_paging"
    using t tb r(4) boot_pages(4) unfolding kernel_ok_def Let_def st
    by (auto simp: boot_tables_def reset_paging_def boot_pmm_ok(3) subset_iff)
qed

lemma boot_inv: "pmm_inv {256..<1024} (ppmm boot_paging)"
  by (simp add: boot_paging_ok(2) boot_pmm_ok(2))

lemma first_space_ok:
  "paging_create_address_space boot_layout boot_paging = Some (first_space, first_paging)" "space_ok boot_layout first_paging first_space"
  "pmm_inv {256..<1024} (ppmm first_paging)" "private_pages (pmem first_paging) first_space \<subseteq> {256..<1024}"
  "avail (ppmm first_paging) = {256..<1024} - private_pages (pmem first_paging) first_space"
  "paging_get_physical_in_space first_space va first_paging = (if low_memory va \<or> framebuffer_range 0xFD000000 0xFD400000 va then va else 0)"
  using create_space_ok [OF boot_paging_ok(3) boot_inv]
  by (auto simp: first_space_def first_paging_def boot_paging_ok(2,5) boot_pmm_ok(3))

lemma first_space_nonzero: "first_space \<noteq> 0"
  using space_okD(1) [OF first_space_ok(2) refl refl] .

section \<open>Fresh spaces\<close>

text \<open>A fresh directory is a copy of the kernel's, and the word behind the structure's page holds zero, or the
  first entry of the directory when the allocator returned adjacent pages.\<close>

lemma create_entries:
  assumes K: "kernel_ok L st" and inv: "pmm_inv U (ppmm st)" and c: "paging_create_address_space L st = Some (s, st1)" "s \<noteq> 0"
  obtains d where "page_directory (pmem st1) s = d" "\<And>j. j < 1024 \<Longrightarrow> entry_at (pmem st1) d j = entry_at (pmem st) (kernel_page_directory L) j"
    "pg d = Suc (pg s) \<and> owned_table (pmem st1) s 1023 = entry_at (pmem st) (kernel_page_directory L) 0
       \<or> Suc (pg s) \<notin> avail (ppmm st) \<and> owned_table (pmem st1) s 1023 = 0"
  using inv
proof (cases rule: pmm_alloc_page_spec)
  case none
  then show ?thesis using c by (auto simp: paging_create_address_space_def)
next
  case (page s' p)
  note s = page
  let ?kd = "kernel_page_directory L"
  define m1 where "m1 = clear_owned s' 0 PAGE_ENTRIES (pmem st)"
  show ?thesis
    using s(6)
  proof (cases rule: pmm_alloc_page_spec)
    case none
    then show ?thesis using c s(1,2) by (auto simp: paging_create_address_space_def Let_def bind_eq_Some_conv)
  next
    case (page d q)
    define m2 where "m2 = copy_page_table d ?kd m1"
    have st1: "s' = s" "pmem st1 = set_entry s 0 d m2"
      using c(1) s(1,2) page(1,2) by (auto simp: paging_create_address_space_def Let_def m1_def m2_def page_directory_entry)
    have k: "page_base ?kd = ?kd" "pg ?kd \<notin> avail (ppmm st)" "\<forall>p \<in> avail (ppmm st). Suc p \<noteq> pg ?kd"
      using K by (simp_all add: kernel_ok_def Let_def dir_ok_def)
    have f: "pg s \<in> avail (ppmm st)" "pg d \<in> avail (ppmm st)" "pg d \<noteq> pg s" using s(4,5) page(4) st1(1) by simp_all
    have al: "page_base s = s" "page_base d = d" "page_base ?kd = ?kd" using s(3) page(3) st1(1) k(1) by simp_all
    have ne: "pg ?kd \<noteq> pg d" "pg ?kd \<notin> {pg s, Suc (pg s)}" using k(2,3) f(1,2) by auto
    then have ne': "?kd \<noteq> d" by blast
    have cl: "same_except {pg s, Suc (pg s)} (pmem st) m1" "entry_at m1 s 1024 = 0"
      using clear_owned_spec [OF al(1), of 0 1024 "pmem st"] st1(1) by (simp_all add: m1_def)
    note cp = copy_page_table_spec [OF al(2,3) ne', where m = m1, folded m2_def]
    have "same_except {pg s} m2 (pmem st1)" unfolding st1(2) using al(1) by (intro set_entry_same_except) auto
    then have e: "entry_at (pmem st1) d j = entry_at (pmem st) ?kd j" if "j < 1024" for j
      using entry_at_same_except [OF _ al(2) that] cp(2) [OF that] entry_at_same_except [OF cl(1) al(3) that ne(2)] f(3) by simp
    have "owned_table (pmem st1) s 1023 = entry_at m2 s 1024" by (simp add: owned_table_any st1(2) entry_at_set_any)
    moreover have "entry_at m2 s 1024 = 0" if "pg d \<noteq> Suc (pg s)"
    proof -
      have "(unat s + 4096) div 4096 = Suc (pg s)" "(unat s + 4096 + 3) div 4096 = Suc (pg s)" using al(1) by (auto simp: page_base_dvd dvd_def)
      then have "entry_at m2 s 1024 = entry_at m1 s 1024" using that unfolding entry_at_def by (intro load32_frame [OF cp(1)]) simp_all
      then show ?thesis using cl(2) by simp
    qed
    moreover have "entry_at m2 s 1024 = entry_at (pmem st) ?kd 0" if "pg d = Suc (pg s)"
    proof -
      have "unat s + 4096 = unat d" using that unat_page_base [of s] unat_page_base [of d] al(1,2) by simp
      then have "entry_at m2 s 1024 = entry_at m2 d 0" by (simp add: entry_at_def)
      then show ?thesis using cp(2) [of 0] entry_at_same_except [OF cl(1) al(3) _ ne(2), of 0] by simp
    qed
    moreover have "pg d = Suc (pg s)" if "Suc (pg s) \<in> avail (ppmm st)"
    proof -
      have "Suc (pg s) \<in> avail p" using s(5) that st1(1) by simp
      then have "\<not> Suc (pg s) < pg d" using page(7) by blast
      moreover have "\<not> pg d < pg s" using s(7) f(2) unfolding st1(1) by blast
      ultimately show ?thesis using f(3) by linarith
    qed
    ultimately have "pg d = Suc (pg s) \<and> owned_table (pmem st1) s 1023 = entry_at (pmem st) ?kd 0
       \<or> Suc (pg s) \<notin> avail (ppmm st) \<and> owned_table (pmem st1) s 1023 = 0" by metis
    then show ?thesis using that [of d] e by (simp add: st1(2) page_directory_entry entry_at_set_any)
  qed
qed

lemma struct_start: "unat (kernel_space L) div 4096 \<in> struct_pages L" "(unat (kernel_space L) + 3) div 4096 \<in> struct_pages L"
  by (auto simp: struct_pages_def intro: div_le_mono)

text \<open>Where the kernel's structure lies away from its tables, the free pages and their successors, creating a
  space changes nothing of the kernel's own.\<close>

definition kernel_apart :: "paging_layout \<Rightarrow> paging \<Rightarrow> bool" where
  "kernel_apart L st \<longleftrightarrow> page_directory (pmem st) (kernel_space L) = kernel_page_directory L
     \<and> struct_pages L \<inter> insert (pg (kernel_page_directory L)) (tables (pmem st) (kernel_page_directory L)) = {}
     \<and> struct_pages L \<inter> {p. p \<in> avail (ppmm st) \<or> p - 1 \<in> avail (ppmm st)} = {}"

lemma create_keeps_kernel:
  assumes K: "kernel_ok L st" and inv: "pmm_inv U (ppmm st)" and ap: "kernel_apart L st" and c: "paging_create_address_space L st = Some (s, st1)" "s \<noteq> 0"
    and kd: "kd = kernel_page_directory L"
  shows "page_directory (pmem st1) (kernel_space L) = kd" "dir_ok (pmem st1) kd" "tables (pmem st1) kd = tables (pmem st) kd"
    "j < 1024 \<Longrightarrow> entry_at (pmem st1) kd j = entry_at (pmem st) kd j"
proof -
  let ?P = "insert (Suc (pg s)) (private_pages (pmem st1) s)"
  have r: "same_except ?P (pmem st) (pmem st1)" "private_pages (pmem st1) s \<subseteq> avail (ppmm st)"
    using create_space_ok [OF K inv] c by auto
  then have s: "pg s \<in> avail (ppmm st)" using private_pages_self(1) by blast
  have dir: "dir_ok (pmem st) kd" "page_base kd = kd" "pg kd \<notin> avail (ppmm st)" "\<forall>p \<in> avail (ppmm st). Suc p \<noteq> pg kd"
    using K by (simp_all add: kernel_ok_def Let_def kd dir_ok_def)
  then have out: "pg kd \<notin> ?P" using s r(2) by auto
  show "dir_ok (pmem st1) kd" "tables (pmem st1) kd = tables (pmem st) kd" "j < 1024 \<Longrightarrow> entry_at (pmem st1) kd j = entry_at (pmem st) kd j"
    using dir_ok_frame [OF r(1) dir(2) out] dir(1) entry_at_same_except [OF r(1) dir(2) _ out] tables_frame [OF r(1) dir(2) out] by simp_all
  have "struct_pages L \<inter> ?P = {}" using ap s r(2) unfolding kernel_apart_def by auto
  then have "load32 (pmem st1) (unat (kernel_space L)) = load32 (pmem st) (unat (kernel_space L))"
    using struct_start [of L] by (intro load32_frame [OF r(1)]) blast+
  then show "page_directory (pmem st1) (kernel_space L) = kd" using ap by (simp add: kernel_apart_def page_directory_def kd)
qed

lemma unmap_shared:
  assumes K: "kernel_ok L st" and inv: "pmm_inv U (ppmm st)" and ap: "kernel_apart L st" and c: "paging_create_address_space L st = Some (s, st1)" "s \<noteq> 0"
  shows "paging_get_physical_in_space (kernel_space L) va (paging_unmap_page_in_space s va st1) = 0"
proof -
  let ?kd = "kernel_page_directory L" and ?i = "directory_index va"
  let ?e = "entry_at (pmem st) ?kd ?i"
  obtain d where d: "page_directory (pmem st1) s = d" "entry_at (pmem st1) d ?i = ?e"
    using create_entries [OF K inv c] directory_index_less by metis
  note k = create_keeps_kernel [OF K inv ap c refl]
  have "d \<noteq> 0" using create_space_ok [OF K inv] c space_okD(4) [OF _ refl refl, of L st1 s] d(1) by auto
  show ?thesis
  proof (cases "present ?e")
    case False
    then show ?thesis using d \<open>d \<noteq> 0\<close> c(2) k(1,4) by (simp add: paging_unmap_page_in_space_def get_physical_walk walk_def)
  next
    case True
    define st2 where "st2 = paging_unmap_page_in_space s va st1"
    have m2: "pmem st2 = set_entry (page_base ?e) (table_index va) 0 (pmem st1)"
      using True d \<open>d \<noteq> 0\<close> c(2) by (simp add: st2_def paging_unmap_page_in_space_def Let_def)
    have pr: "present (entry_at (pmem st1) ?kd ?i)" "page_base ?e = page_base (entry_at (pmem st1) ?kd ?i)" using True k(4) by simp_all
    note S = set_table_entry [OF k(2) directory_index_less pr table_index_less [of va], where v = 0, folded m2]
    have "pg ?e \<in> tables (pmem st) ?kd" using table_mem [OF True] by simp
    then have "unat (kernel_space L) div 4096 \<noteq> pg ?e" "(unat (kernel_space L) + 3) div 4096 \<noteq> pg ?e"
      using ap struct_start [of L] unfolding kernel_apart_def by auto
    then have "page_directory (pmem st2) (kernel_space L) = ?kd"
      using load32_frame [OF S(1), of "unat (kernel_space L)"] k(1) by (simp add: page_directory_def)
    then show ?thesis using S(4) [of va] by (simp add: st2_def [symmetric] get_physical_walk)
  qed
qed



lemma boot_apart: "kernel_apart boot_layout boot_paging"
  using boot_paging_ok(6) by (auto simp: kernel_apart_def boot_paging_ok(2,4) boot_pmm_ok(3) boot_pages subset_iff)


section \<open>Theorems\<close>

text \<open>C5. Boot address map: \<open>paging_initialize\<close> turns paging on with a directory that translates every
  address of the first 128 MiB and of the page-rounded boot framebuffer to itself and leaves every other
  address unmapped, whenever the framebuffer does not wrap around the address space and spans at most
  eight directory entries.\<close>

theorem boot_identity_map:
  assumes "layout_ok L" "start = page_base (boot_framebuffer_physical st)"
    "stop = page_base (boot_framebuffer_physical st + boot_framebuffer_size st + PAGE_SIZE - 1)"
    "boot_framebuffer_physical st \<noteq> 0" "boot_framebuffer_size st \<noteq> 0" "start \<le> stop" "(unat stop - 1) div 2 ^ 22 - directory_index start < 8"
  shows "\<exists>st'. paging_initialize L st = Some st' \<and> paging_is_enabled st' \<and> cr3 st' = kernel_page_directory L
     \<and> (\<forall>va. paging_get_physical va st' = (if unat va < 128 * 2 ^ 20 \<or> start \<le> va \<and> va < stop then va else 0))"
proof -
  have "boot_framebuffer_physical st \<noteq> 0 \<and> boot_framebuffer_size st \<noteq> 0 \<longrightarrow> start \<le> stop \<and> (unat stop - 1) div 2 ^ 22 - directory_index start < 8"
    using assms(6,7) by blast
  from paging_initialize_ok [OF assms(1-3) this] obtain st' n where r: "paging_initialize L st = Some st'"
    "boot_tables L (\<lambda>va. low_memory va \<or> boot_framebuffer_physical st \<noteq> 0 \<and> boot_framebuffer_size st \<noteq> 0 \<and> framebuffer_range start stop va) n (pmem st')"
    "page_directory (pmem st') (kernel_space L) = kernel_page_directory L" "current_space st' = kernel_space L" "cr3 st' = kernel_page_directory L"
    "paging_is_enabled st'" .
  moreover have "kernel_space L \<noteq> 0" "kernel_page_directory L \<noteq> 0" using assms(1) by (simp_all add: layout_ok_def)
  ultimately show ?thesis using assms(4,5)
    by (auto simp: paging_get_physical_def get_physical_walk boot_tables_def low_memory_def framebuffer_range_def)
qed

theorem boot_identity_map_witness:
  "\<exists>st'. paging_initialize boot_layout reset_paging = Some st' \<and> paging_is_enabled st' \<and> cr3 st' = kernel_page_directory boot_layout
     \<and> (\<forall>va. paging_get_physical va st' = (if unat va < 128 * 2 ^ 20 \<or> 0xFD000000 \<le> va \<and> va < 0xFD400000 then va else 0))"
  by (rule boot_identity_map [OF boot_layout_ok boot_framebuffer_fits [symmetric]])
    (simp_all add: reset_paging_def directory_index_def drop_bit_eq_div)

text \<open>C3. Mapping and isolation: mapping a page below \<open>0xFFC00000\<close> in a process's space fails only when no
  page is free, and then changes nothing; otherwise the page translates to the new frame, every other address of
  the space translates as before, and so does every address of every space whose structure, directory and
  tables are neither private to this space nor free, the kernel's included.\<close>

theorem map_page_exact:
  assumes "space_ok L st s" "pmm_inv U (ppmm st)" "directory_index va < 1023" "page_base flags = 0"
    "page_base (page_directory (pmem st) t) = page_directory (pmem st) t" "reads (pmem st) t \<inter> (private_pages (pmem st) s \<union> avail (ppmm st)) = {}"
  shows "(avail (ppmm st) = {} \<and> paging_map_page_in_space L s va pa flags st = Some (False, st))
     \<or> (\<exists>st'. paging_map_page_in_space L s va pa flags st = Some (True, st') \<and> space_ok L st' s
       \<and> (\<forall>vb. paging_get_physical_in_space s vb st' =
            (if pg vb = pg va then page_base pa OR (vb AND (PAGE_SIZE - 1)) else paging_get_physical_in_space s vb st))
       \<and> (\<forall>vb. paging_get_physical_in_space t vb st' = paging_get_physical_in_space t vb st))"
proof -
  note k = space_okD [OF assms(1) refl refl]
  from map_page_ok [OF assms(1-4) refl refl, of pa] show ?thesis
  proof (elim disjE exE conjE)
    fix st'
    assume r: "paging_map_page_in_space L s va pa flags st = Some (True, st')" "space_ok L st' s" "page_directory (pmem st') s = page_directory (pmem st) s"
      "same_except (private_pages (pmem st) s \<union> avail (ppmm st)) (pmem st) (pmem st')"
      "\<forall>vb. walk (pmem st') (page_directory (pmem st) s) vb =
         (if pg vb = pg va then page_base pa OR (vb AND (PAGE_SIZE - 1)) else walk (pmem st) (page_directory (pmem st) s) vb)"
    have "\<forall>vb. paging_get_physical_in_space t vb st' = paging_get_physical_in_space t vb st"
      using translation_frame [OF r(4) assms(5,6)] by simp
    moreover have "\<forall>vb. paging_get_physical_in_space s vb st' =
        (if pg vb = pg va then page_base pa OR (vb AND (PAGE_SIZE - 1)) else paging_get_physical_in_space s vb st)"
      using r(3,5) k(1,4) by (simp add: get_physical_walk)
    ultimately show ?thesis using r(1,2) by blast
  qed simp
qed

theorem map_page_exact_witness:
  "(avail (ppmm first_paging) = {} \<and> paging_map_page_in_space boot_layout first_space 0x400000 0x200000 6 first_paging = Some (False, first_paging))
     \<or> (\<exists>st'. paging_map_page_in_space boot_layout first_space 0x400000 0x200000 6 first_paging = Some (True, st') \<and> space_ok boot_layout st' first_space
       \<and> (\<forall>vb. paging_get_physical_in_space first_space vb st' =
            (if pg vb = pg 0x400000 then page_base 0x200000 OR (vb AND (PAGE_SIZE - 1)) else paging_get_physical_in_space first_space vb first_paging))
       \<and> (\<forall>vb. paging_get_physical_in_space (kernel_space boot_layout) vb st' = paging_get_physical_in_space (kernel_space boot_layout) vb first_paging))"
proof (rule map_page_exact [OF first_space_ok(2,3)])
  note k = create_keeps_kernel [OF boot_paging_ok(3) boot_inv boot_apart first_space_ok(1) first_space_nonzero refl]
  show "page_base (page_directory (pmem first_paging) (kernel_space boot_layout)) = page_directory (pmem first_paging) (kernel_space boot_layout)"
    using k(1) by (simp add: boot_layout_def page_base_def)
  have "unat (kernel_space boot_layout) = 0x60000" by (simp add: boot_layout_def)
  then have "reads (pmem first_paging) (kernel_space boot_layout) \<subseteq> {16, 96} \<union> ({32..<64} \<union> {80..<88})"
    using boot_paging_ok(6) unfolding reads_def k(1,3) boot_pages(4) by auto
  moreover have "private_pages (pmem first_paging) first_space \<union> avail (ppmm first_paging) \<subseteq> {256..<1024}"
    using first_space_ok(4,5) by blast
  ultimately show "reads (pmem first_paging) (kernel_space boot_layout) \<inter> (private_pages (pmem first_paging) first_space \<union> avail (ppmm first_paging)) = {}"
    by fastforce
qed (simp_all add: directory_index_def drop_bit_eq_div page_base_def)



text \<open>A process that unmaps a kernel page unmaps it for the kernel: a fresh space shares the kernel's
  page tables, mapping copies a shared table before it writes to it, but \<open>paging_unmap_page_in_space\<close> clears the
  entry in the shared table itself.\<close>

theorem unmap_reaches_kernel:
  assumes "kernel_ok L st" "pmm_inv U (ppmm st)" "kernel_apart L st" "paging_create_address_space L st = Some (s, st1)" "s \<noteq> 0"
  shows "paging_get_physical_in_space (kernel_space L) va (paging_unmap_page_in_space s va st1) = 0"
  using unmap_shared [OF assms] .

theorem unmap_reaches_kernel_witness:
  "paging_get_physical_in_space (kernel_space boot_layout) 0x1000 boot_paging = 0x1000
     \<and> paging_get_physical_in_space (kernel_space boot_layout) 0x1000 (paging_unmap_page_in_space first_space 0x1000 first_paging) = 0"
proof
  have "kernel_space boot_layout \<noteq> 0" "kernel_page_directory boot_layout \<noteq> 0" by (simp_all add: boot_layout_def)
  then show "paging_get_physical_in_space (kernel_space boot_layout) 0x1000 boot_paging = 0x1000"
    by (simp add: get_physical_walk boot_paging_ok(4,5) low_memory_def)
  show "paging_get_physical_in_space (kernel_space boot_layout) 0x1000 (paging_unmap_page_in_space first_space 0x1000 first_paging) = 0"
    by (rule unmap_reaches_kernel [OF boot_paging_ok(3) boot_inv boot_apart first_space_ok(1) first_space_nonzero])
qed

end
