(* ===== verification/Usermode.thy ===== *)
theory Usermode
  imports Paging_Boot Diskfs Timer
begin

text \<open>User processes: \<open>src/kernel/core/usermode.c\<close>. The process table with its file descriptors, the loader of
  MEXE and ELF files, and the whole life of a program from the pages it gets to the pages it gives back.

  The state is the record \<open>kernel\<close>, which joins the components the code calls: the page tables and the page
  allocator, the file system, the process table, and the scheduler and timer that system calls reach. A C
  \<open>int\<close> result is an \<open>int\<close>. The run of a program in ring 3, between \<open>usermode_enter\<close> and the exit system call, is
  the parameter \<open>enter\<close>: its value \<open>None\<close> is a program that never exits. Reading past a buffer is \<open>None\<close> too.

  The lemmas show that every way through the loader gives back exactly the pages it took, that a program
  starts with its image in memory, and that the loader of ELF files stays within the file unless the sums of
  its header wrap around.\<close>

section \<open>State\<close>

abbreviation (input) USER_PAGE_FLAGS :: u32 where "USER_PAGE_FLAGS \<equiv> 0x6"
abbreviation (input) USER_PROGRAM_BASE :: u32 where "USER_PROGRAM_BASE \<equiv> 0x00400000"
abbreviation (input) USER_IMAGE_PAGES :: nat where "USER_IMAGE_PAGES \<equiv> 16"
abbreviation (input) USER_IMAGE_SIZE :: u32 where "USER_IMAGE_SIZE \<equiv> 0x10000"
abbreviation (input) USER_STACK_BASE :: u32 where "USER_STACK_BASE \<equiv> USER_PROGRAM_BASE + USER_IMAGE_SIZE"
abbreviation (input) USER_PROCESS_NAME_SIZE :: nat where "USER_PROCESS_NAME_SIZE \<equiv> 32"
abbreviation (input) USER_PROCESS_COUNT :: nat where "USER_PROCESS_COUNT \<equiv> 8"
abbreviation (input) USER_PROCESS_FD_COUNT :: nat where "USER_PROCESS_FD_COUNT \<equiv> 8"

datatype user_process_status = USER_PROCESS_UNUSED | USER_PROCESS_RUNNING | USER_PROCESS_EXITED

record user_fd =
  fd_open :: bool
  fd_file_index :: u32
  fd_offset :: u32

record user_process =
  pid :: u32
  pstate :: user_process_status
  pname :: "u8 list"
  pentry :: u32
  exit_code :: int
  address_space :: u32
  fds :: "user_fd list"

record 'd kernel =
  kpaging :: paging
  kfs :: "'d diskfs"
  ksched :: sched
  ktimer :: timer
  next_pid :: u32
  processes :: "user_process list"
  current_process_index :: int
  load_image :: "u8 list"

type_synonym ('d, 'x) enter = "u32 \<Rightarrow> u32 \<Rightarrow> ('d, 'x) kernel_scheme \<Rightarrow> (int \<times> ('d, 'x) kernel_scheme) option"

section \<open>Process table\<close>

fun copy_name_from :: "u8 list \<Rightarrow> nat \<Rightarrow> u8 list \<Rightarrow> u8 list" where
  "copy_name_from dst i [] = dst[i := 0]"
| "copy_name_from dst i (c # src) =
     (if i + 1 < USER_PROCESS_NAME_SIZE \<and> c \<noteq> 0 then copy_name_from (dst[i := c]) (i + 1) src else dst[i := 0])"

definition copy_process_name :: "u8 list \<Rightarrow> u8 list \<Rightarrow> u8 list" where
  "copy_process_name dst src = copy_name_from dst 0 src"

definition current_process :: "('d, 'x) kernel_scheme \<Rightarrow> nat option" where
  "current_process k =
     (if current_process_index k < 0 \<or> current_process_index k \<ge> int USER_PROCESS_COUNT then None
      else Some (nat (current_process_index k)))"

definition upd_process :: "nat \<Rightarrow> (user_process \<Rightarrow> user_process) \<Rightarrow> ('d, 'x) kernel_scheme \<Rightarrow> ('d, 'x) kernel_scheme" where
  "upd_process i f k = k\<lparr>processes := (processes k)[i := f (processes k ! i)]\<rparr>"

definition process_state_name :: "user_process_status \<Rightarrow> string" where
  "process_state_name s =
     (case s of USER_PROCESS_RUNNING \<Rightarrow> ''running'' | USER_PROCESS_EXITED \<Rightarrow> ''exited'' | USER_PROCESS_UNUSED \<Rightarrow> ''unused'')"

definition closed_fd :: user_fd where
  "closed_fd = \<lparr>fd_open = False, fd_file_index = 0, fd_offset = 0\<rparr>"

fun find_process :: "user_process_status \<Rightarrow> nat \<Rightarrow> user_process list \<Rightarrow> nat option" where
  "find_process s i [] = None"
| "find_process s i (p # ps) = (if pstate p = s then Some i else find_process s (i + 1) ps)"

definition claim_process :: "nat \<Rightarrow> u8 list \<Rightarrow> u32 \<Rightarrow> ('d, 'x) kernel_scheme \<Rightarrow> ('d, 'x) kernel_scheme" where
  "claim_process i name entry k =
     upd_process i (\<lambda>p. p\<lparr>pid := next_pid k, pstate := USER_PROCESS_RUNNING, pname := copy_process_name (pname p) name, pentry := entry,
       exit_code := 0, address_space := 0, fds := replicate USER_PROCESS_FD_COUNT closed_fd\<rparr>)
       (k\<lparr>next_pid := next_pid k + 1, current_process_index := int i\<rparr>)"

definition allocate_process :: "u8 list \<Rightarrow> u32 \<Rightarrow> ('d, 'x) kernel_scheme \<Rightarrow> nat option \<times> ('d, 'x) kernel_scheme" where
  "allocate_process name entry k =
     (case find_process USER_PROCESS_UNUSED 0 (processes k) of
        Some i \<Rightarrow> (Some i, claim_process i name entry k)
      | None \<Rightarrow> (case find_process USER_PROCESS_EXITED 0 (processes k) of
                  Some i \<Rightarrow> (Some i, claim_process i name entry k)
                | None \<Rightarrow> (None, k)))"

definition user_process_count :: "('d, 'x) kernel_scheme \<Rightarrow> u32" where
  "user_process_count k = of_nat (length (filter (\<lambda>p. pstate p \<noteq> USER_PROCESS_UNUSED) (processes k)))"

fun visible_from :: "u32 \<Rightarrow> u32 \<Rightarrow> user_process list \<Rightarrow> user_process option" where
  "visible_from index visible [] = None"
| "visible_from index visible (p # ps) =
     (if pstate p = USER_PROCESS_UNUSED then visible_from index visible ps
      else if visible = index then Some p
      else visible_from index (visible + 1) ps)"

definition process_by_visible_index :: "u32 \<Rightarrow> ('d, 'x) kernel_scheme \<Rightarrow> user_process option" where
  "process_by_visible_index index k = visible_from index 0 (processes k)"

definition user_process_pid :: "u32 \<Rightarrow> ('d, 'x) kernel_scheme \<Rightarrow> u32" where
  "user_process_pid index k = (case process_by_visible_index index k of None \<Rightarrow> 0 | Some p \<Rightarrow> pid p)"

definition user_process_name :: "u32 \<Rightarrow> ('d, 'x) kernel_scheme \<Rightarrow> u8 list" where
  "user_process_name index k = (case process_by_visible_index index k of None \<Rightarrow> [] | Some p \<Rightarrow> cstr (pname p))"

definition user_process_state :: "u32 \<Rightarrow> ('d, 'x) kernel_scheme \<Rightarrow> string" where
  "user_process_state index k = (case process_by_visible_index index k of None \<Rightarrow> '''' | Some p \<Rightarrow> process_state_name (pstate p))"

definition user_process_exit_code :: "u32 \<Rightarrow> ('d, 'x) kernel_scheme \<Rightarrow> int" where
  "user_process_exit_code index k = (case process_by_visible_index index k of None \<Rightarrow> 0 | Some p \<Rightarrow> exit_code p)"

fun wait_from :: "u32 \<Rightarrow> user_process list \<Rightarrow> int" where
  "wait_from n [] = - 1"
| "wait_from n (p # ps) =
     (if pstate p \<noteq> USER_PROCESS_UNUSED \<and> pid p = n
      then if pstate p = USER_PROCESS_EXITED then exit_code p else - 2
      else wait_from n ps)"

definition user_process_wait_pid :: "u32 \<Rightarrow> ('d, 'x) kernel_scheme \<Rightarrow> int" where
  "user_process_wait_pid n k = wait_from n (processes k)"

definition reap :: "user_process \<Rightarrow> user_process" where
  "reap p = (if pstate p = USER_PROCESS_EXITED
     then p\<lparr>pstate := USER_PROCESS_UNUSED, pid := 0, pname := (pname p)[0 := 0], pentry := 0, exit_code := 0, address_space := 0\<rparr> else p)"

definition user_process_reap_exited :: "('d, 'x) kernel_scheme \<Rightarrow> u32 \<times> ('d, 'x) kernel_scheme" where
  "user_process_reap_exited k =
     (of_nat (length (filter (\<lambda>p. pstate p = USER_PROCESS_EXITED) (processes k))), k\<lparr>processes := map reap (processes k)\<rparr>)"

definition user_process_current_pid :: "('d, 'x) kernel_scheme \<Rightarrow> u32" where
  "user_process_current_pid k = (case current_process k of None \<Rightarrow> 0 | Some i \<Rightarrow> pid (processes k ! i))"

section \<open>File descriptors\<close>

fun find_closed :: "nat \<Rightarrow> user_fd list \<Rightarrow> nat option" where
  "find_closed fd [] = None"
| "find_closed fd (f # fs) = (if \<not> fd_open f then Some fd else find_closed (fd + 1) fs)"

definition upd_fd :: "nat \<Rightarrow> nat \<Rightarrow> (user_fd \<Rightarrow> user_fd) \<Rightarrow> ('d, 'x) kernel_scheme \<Rightarrow> ('d, 'x) kernel_scheme" where
  "upd_fd i fd f k = upd_process i (\<lambda>p. p\<lparr>fds := (fds p)[fd := f (fds p ! fd)]\<rparr>) k"

definition user_process_fd_open :: "u8 list \<Rightarrow> ('d, 'x) kernel_scheme \<Rightarrow> int \<times> ('d, 'x) kernel_scheme" where
  "user_process_fd_open path k =
     (case current_process k of
        None \<Rightarrow> (- 1, k)
      | Some i \<Rightarrow>
          (case diskfs_find_file (Some path) (kfs k) of
             None \<Rightarrow> (- 2, k)
           | Some file_index \<Rightarrow>
               (case find_closed 0 (fds (processes k ! i)) of
                  None \<Rightarrow> (- 3, k)
                | Some fd \<Rightarrow> (int fd, upd_fd i fd (\<lambda>_. \<lparr>fd_open = True, fd_file_index = of_nat file_index, fd_offset = 0\<rparr>) k))))"

definition fd_live :: "nat \<Rightarrow> u32 \<Rightarrow> ('d, 'x) kernel_scheme \<Rightarrow> bool" where
  "fd_live i fd k \<longleftrightarrow> unat fd < USER_PROCESS_FD_COUNT \<and> fd_open (fds (processes k ! i) ! unat fd)"

text \<open>The bytes the call stores at the start of the caller's buffer are part of the result.\<close>

definition user_process_fd_read :: "'d blockdev \<Rightarrow> u32 \<Rightarrow> bool \<Rightarrow> u32 \<Rightarrow> ('d, 'x) kernel_scheme \<Rightarrow> int \<times> u8 list \<times> ('d, 'x) kernel_scheme" where
  "user_process_fd_read bd fd buffer sz k =
     (case current_process k of
        None \<Rightarrow> (- 1, [], k)
      | Some i \<Rightarrow>
          if \<not> fd_live i fd k then (- 1, [], k)
          else let f = fds (processes k ! i) ! unat fd;
                   (ok, bytes, fs) = diskfs_read_index bd (fd_file_index f) (fd_offset f) buffer sz (kfs k);
                   k = k\<lparr>kfs := fs\<rparr>
               in if \<not> ok then (- 2, bytes, k)
                  else (int (length bytes), bytes, upd_fd i (unat fd) (\<lambda>f. f\<lparr>fd_offset := fd_offset f + of_nat (length bytes)\<rparr>) k))"

definition user_process_fd_close :: "u32 \<Rightarrow> ('d, 'x) kernel_scheme \<Rightarrow> int \<times> ('d, 'x) kernel_scheme" where
  "user_process_fd_close fd k =
     (case current_process k of
        None \<Rightarrow> (- 1, k)
      | Some i \<Rightarrow>
          if \<not> fd_live i fd k then (- 1, k)
          else (0, upd_fd i (unat fd) (\<lambda>f. f\<lparr>fd_open := False\<rparr>) k))"

definition user_process_close_all :: "('d, 'x) kernel_scheme \<Rightarrow> ('d, 'x) kernel_scheme" where
  "user_process_close_all k =
     (case current_process k of
        None \<Rightarrow> k
      | Some i \<Rightarrow> upd_process i (\<lambda>p. p\<lparr>fds := map (\<lambda>f. f\<lparr>fd_open := False\<rparr>) (fds p)\<rparr>) k)"

section \<open>Pages of a program\<close>

definition take_page :: "paging \<Rightarrow> (u32 \<times> paging) option" where
  "take_page st = do { (a, p) \<leftarrow> pmm_alloc_page (ppmm st); Some (a, st\<lparr>ppmm := p\<rparr>) }"

definition give_page :: "u32 \<Rightarrow> paging \<Rightarrow> paging option" where
  "give_page a st = do { p \<leftarrow> pmm_free_page a (ppmm st); Some (st\<lparr>ppmm := p\<rparr>) }"

fun give_pages :: "u32 list \<Rightarrow> paging \<Rightarrow> paging option" where
  "give_pages [] st = Some st"
| "give_pages (a # as) st = do { st \<leftarrow> give_page a st; give_pages as st }"

text \<open>The loop that fills \<open>image_pages\<close>; the flag is false when the allocator ran out of pages, and then the
  pages taken so far are returned.\<close>

fun take_pages :: "nat \<Rightarrow> u32 list \<Rightarrow> paging \<Rightarrow> (bool \<times> u32 list \<times> paging) option" where
  "take_pages 0 pages st = Some (True, pages, st)"
| "take_pages (Suc n) pages st =
     do { (a, st) \<leftarrow> take_page st;
          if a = 0 then Some (False, pages, st) else take_pages n (pages @ [a]) st }"

definition image_address :: "nat \<Rightarrow> u32" where
  "image_address i = USER_PROGRAM_BASE + of_nat i * PAGE_SIZE"

text \<open>The mapping loop returns the number of pages it mapped before the first failure.\<close>

fun map_pages :: "paging_layout \<Rightarrow> u32 \<Rightarrow> nat \<Rightarrow> u32 list \<Rightarrow> paging \<Rightarrow> (bool \<times> nat \<times> paging) option" where
  "map_pages L space i [] st = Some (True, i, st)"
| "map_pages L space i (a # as) st =
     do { (ok, st) \<leftarrow> paging_map_page_in_space L space (image_address i) a USER_PAGE_FLAGS st;
          if ok then map_pages L space (i + 1) as st else Some (False, i, st) }"

fun unmap_pages :: "u32 \<Rightarrow> nat \<Rightarrow> nat \<Rightarrow> paging \<Rightarrow> paging" where
  "unmap_pages space i 0 st = st"
| "unmap_pages space i (Suc n) st = unmap_pages space (i + 1) n (paging_unmap_page_in_space space (image_address i) st)"

fun release_pages :: "u32 \<Rightarrow> nat \<Rightarrow> u32 list \<Rightarrow> paging \<Rightarrow> paging option" where
  "release_pages space i [] st = Some st"
| "release_pages space i (a # as) st =
     do { st \<leftarrow> give_page a (paging_unmap_page_in_space space (image_address i) st); release_pages space (i + 1) as st }"

fun zero_bytes :: "nat \<Rightarrow> nat \<Rightarrow> mem \<Rightarrow> mem" where
  "zero_bytes a 0 m = m"
| "zero_bytes a (Suc n) m = zero_bytes (a + 1) n (m(a := 0))"

fun zero_pages :: "u32 list \<Rightarrow> mem \<Rightarrow> mem" where
  "zero_pages [] m = m"
| "zero_pages (a # as) m = zero_pages as (zero_bytes (unat a) 4096 m)"

fun store_image :: "u32 list \<Rightarrow> nat \<Rightarrow> u8 list \<Rightarrow> mem \<Rightarrow> mem" where
  "store_image pages i [] m = m"
| "store_image pages i (b # bs) m = store_image pages (i + 1) bs (m(unat (pages ! (i div 4096)) + i mod 4096 := b))"

section \<open>Running an image\<close>

text \<open>Each phase of \<open>run_loaded_image\<close> either hands its resources to the next one or takes them apart and
  returns the error code. The last phase enters the program and cleans up after it.\<close>

definition kpage :: "(paging \<Rightarrow> paging option) \<Rightarrow> ('d, 'x) kernel_scheme \<Rightarrow> ('d, 'x) kernel_scheme option" where
  "kpage f k = do { st \<leftarrow> f (kpaging k); Some (k\<lparr>kpaging := st\<rparr>) }"

definition abandon :: "paging_layout \<Rightarrow> u32 \<Rightarrow> u32 \<Rightarrow> paging \<Rightarrow> paging option" where
  "abandon L space stack_page st = do { st \<leftarrow> paging_destroy_address_space L space st; give_page stack_page st }"

definition enter_program :: "paging_layout \<Rightarrow> ('d, 'x) enter \<Rightarrow> u32 \<Rightarrow> u32 \<Rightarrow> u32 \<Rightarrow> u32 list \<Rightarrow> nat \<Rightarrow> ('d, 'x) kernel_scheme \<Rightarrow> (int \<times> ('d, 'x) kernel_scheme) option" where
  "enter_program L enter entry space stack_page pages process k =
     (let k = upd_process process (\<lambda>p. p\<lparr>address_space := space\<rparr>) k;
          k = k\<lparr>kpaging := paging_switch_address_space space (kpaging k)\<rparr>
      in do { (code, k) \<leftarrow> enter entry (USER_STACK_BASE + PAGE_SIZE) k;
              let k = k\<lparr>kpaging := paging_switch_address_space (paging_kernel_address_space L) (kpaging k)\<rparr>;
                  k = user_process_close_all (upd_process process (\<lambda>p. p\<lparr>exit_code := code, pstate := USER_PROCESS_EXITED\<rparr>) k)
              in do { k \<leftarrow> kpage (\<lambda>st. do { st \<leftarrow> give_page stack_page (paging_unmap_page_in_space space USER_STACK_BASE st);
                                           st \<leftarrow> release_pages space 0 pages st;
                                           paging_destroy_address_space L space st }) k;
                      Some (code, (upd_process process (\<lambda>p. p\<lparr>address_space := 0\<rparr>) k)\<lparr>current_process_index := - 1\<rparr>) } })"

definition start_program :: "paging_layout \<Rightarrow> ('d, 'x) enter \<Rightarrow> u8 list \<Rightarrow> u32 \<Rightarrow> u8 list \<Rightarrow> u32 \<Rightarrow> u32 \<Rightarrow> u32 \<Rightarrow> u32 list \<Rightarrow> ('d, 'x) kernel_scheme \<Rightarrow> (int \<times> ('d, 'x) kernel_scheme) option" where
  "start_program L enter name entry img image_size space stack_page pages k =
     (if length img < unat image_size then None
      else
      let m = store_image pages 0 (take (unat image_size) img) (zero_bytes (unat stack_page) 4096 (zero_pages pages (pmem (kpaging k))));
          k = k\<lparr>kpaging := (kpaging k)\<lparr>pmem := m\<rparr>\<rparr>
      in case allocate_process name entry k of
           (None, k) \<Rightarrow>
             do { k \<leftarrow> kpage (\<lambda>st. do { st \<leftarrow> release_pages space 0 pages (paging_unmap_page_in_space space USER_STACK_BASE st);
                                       abandon L space stack_page st }) k;
                  Some (- 25, k) }
         | (Some process, k) \<Rightarrow> enter_program L enter entry space stack_page pages process k)"

definition map_program :: "paging_layout \<Rightarrow> ('d, 'x) enter \<Rightarrow> u8 list \<Rightarrow> u32 \<Rightarrow> u8 list \<Rightarrow> u32 \<Rightarrow> u32 \<Rightarrow> u32 \<Rightarrow> u32 list \<Rightarrow> ('d, 'x) kernel_scheme \<Rightarrow> (int \<times> ('d, 'x) kernel_scheme) option" where
  "map_program L enter name entry img image_size space stack_page pages k =
     do { (ok, mapped, st) \<leftarrow> map_pages L space 0 pages (kpaging k);
          if \<not> ok
          then do { st \<leftarrow> give_pages pages (unmap_pages space 0 mapped st);
                    st \<leftarrow> abandon L space stack_page st;
                    Some (- 23, k\<lparr>kpaging := st\<rparr>) }
          else do { (ok, st) \<leftarrow> paging_map_page_in_space L space USER_STACK_BASE stack_page USER_PAGE_FLAGS st;
                    if \<not> ok
                    then do { st \<leftarrow> release_pages space 0 pages st;
                              st \<leftarrow> abandon L space stack_page st;
                              Some (- 24, k\<lparr>kpaging := st\<rparr>) }
                    else start_program L enter name entry img image_size space stack_page pages (k\<lparr>kpaging := st\<rparr>) } }"

definition run_loaded_image :: "paging_layout \<Rightarrow> ('d, 'x) enter \<Rightarrow> u8 list \<Rightarrow> u32 \<Rightarrow> u8 list \<Rightarrow> u32 \<Rightarrow> ('d, 'x) kernel_scheme \<Rightarrow> (int \<times> ('d, 'x) kernel_scheme) option" where
  "run_loaded_image L enter name entry img image_size k =
     (if entry < USER_PROGRAM_BASE \<or> entry \<ge> USER_PROGRAM_BASE + USER_IMAGE_SIZE \<or> image_size > USER_IMAGE_SIZE
      then Some (- 21, k)
      else do { (stack_page, st) \<leftarrow> take_page (kpaging k);
                (space, st) \<leftarrow> paging_create_address_space L st;
                if stack_page = 0 \<or> space = 0
                then do { st \<leftarrow> (if space \<noteq> 0 then paging_destroy_address_space L space st else Some st);
                          st \<leftarrow> (if stack_page \<noteq> 0 then give_page stack_page st else Some st);
                          Some (- 22, k\<lparr>kpaging := st\<rparr>) }
                else do { (ok, pages, st) \<leftarrow> take_pages USER_IMAGE_PAGES [] st;
                          if \<not> ok
                          then do { st \<leftarrow> give_pages pages st;
                                    st \<leftarrow> abandon L space stack_page st;
                                    Some (- 22, k\<lparr>kpaging := st\<rparr>) }
                          else map_program L enter name entry img image_size space stack_page pages (k\<lparr>kpaging := st\<rparr>) } })"

section \<open>Executable files\<close>

abbreviation (input) MEXE_MAGIC :: u32 where "MEXE_MAGIC \<equiv> 0x4558454D"

definition dec16 :: "u8 list \<Rightarrow> nat \<Rightarrow> u16" where
  "dec16 bs i = ucast (bs ! i) OR push_bit 8 (ucast (bs ! (i + 1)))"

record user_exec_header =
  mx_magic :: u32
  mx_entry_offset :: u32
  mx_image_size :: u32

definition user_exec_header_of :: "u8 list \<Rightarrow> user_exec_header" where
  "user_exec_header_of bs = \<lparr>mx_magic = dec32 bs 0, mx_entry_offset = dec32 bs 4, mx_image_size = dec32 bs 8\<rparr>"

definition run_mexe_program :: "paging_layout \<Rightarrow> ('d, 'x) enter \<Rightarrow> u8 list \<Rightarrow> u8 list \<Rightarrow> nat \<Rightarrow> ('d, 'x) kernel_scheme \<Rightarrow> (int \<times> ('d, 'x) kernel_scheme) option" where
  "run_mexe_program L enter name file file_size k =
     (if file_size < 16 then Some (- 10, k)
      else let h = user_exec_header_of file in
           if mx_magic h \<noteq> MEXE_MAGIC \<or> mx_entry_offset h \<ge> mx_image_size h \<or> mx_image_size h > USER_IMAGE_SIZE
           then Some (- 11, k)
           else if 16 + unat (mx_image_size h) > file_size then Some (- 12, k)
           else run_loaded_image L enter name (USER_PROGRAM_BASE + mx_entry_offset h) (drop 16 file) (mx_image_size h) k)"

record elf32_header =
  eh_ident :: "u8 list"
  eh_type :: u16
  eh_machine :: u16
  eh_version :: u32
  eh_entry :: u32
  eh_phoff :: u32
  eh_phentsize :: u16
  eh_phnum :: u16

definition elf32_header_of :: "u8 list \<Rightarrow> elf32_header" where
  "elf32_header_of bs = \<lparr>eh_ident = take 16 bs, eh_type = dec16 bs 16, eh_machine = dec16 bs 18, eh_version = dec32 bs 20,
     eh_entry = dec32 bs 24, eh_phoff = dec32 bs 28, eh_phentsize = dec16 bs 42, eh_phnum = dec16 bs 44\<rparr>"

record elf32_program_header =
  ph_type :: u32
  ph_offset :: u32
  ph_vaddr :: u32
  ph_filesz :: u32
  ph_memsz :: u32

definition elf32_program_header_at :: "u8 list \<Rightarrow> nat \<Rightarrow> elf32_program_header option" where
  "elf32_program_header_at bs i =
     (if i + 32 \<le> length bs
      then Some \<lparr>ph_type = dec32 bs i, ph_offset = dec32 bs (i + 4), ph_vaddr = dec32 bs (i + 8),
                 ph_filesz = dec32 bs (i + 16), ph_memsz = dec32 bs (i + 20)\<rparr>
      else None)"

fun copy_segment :: "u8 list \<Rightarrow> u32 \<Rightarrow> u32 \<Rightarrow> nat \<Rightarrow> nat \<Rightarrow> u8 list \<Rightarrow> u8 list option" where
  "copy_segment file offset destination j 0 img = Some img"
| "copy_segment file offset destination j (Suc n) img =
     (let from = unat (offset + of_nat j); dst = unat (destination + of_nat j) in
      if from < length file \<and> dst < length img
      then copy_segment file offset destination (j + 1) n (img[dst := file ! from])
      else None)"

text \<open>The loop over the program headers: an error code, or whether a segment was loaded and the image.\<close>

fun load_segments :: "u8 list \<Rightarrow> u32 \<Rightarrow> u32 \<Rightarrow> nat \<Rightarrow> nat \<Rightarrow> bool \<Rightarrow> u8 list \<Rightarrow> (int option \<times> bool \<times> u8 list) option" where
  "load_segments file file_size phoff i 0 loaded img = Some (None, loaded, img)"
| "load_segments file file_size phoff i (Suc n) loaded img =
     do { ph \<leftarrow> elf32_program_header_at file (unat phoff + i * 32);
          if ph_type ph \<noteq> 1 then load_segments file file_size phoff (i + 1) n loaded img
          else if ph_vaddr ph < USER_PROGRAM_BASE \<or> ph_vaddr ph + ph_memsz ph < ph_vaddr ph
                  \<or> ph_vaddr ph + ph_memsz ph > USER_PROGRAM_BASE + USER_IMAGE_SIZE
          then Some (Some (- 34), loaded, img)
          else if ph_offset ph + ph_filesz ph > file_size \<or> ph_filesz ph > ph_memsz ph
          then Some (Some (- 35), loaded, img)
          else do { img \<leftarrow> copy_segment file (ph_offset ph) (ph_vaddr ph - USER_PROGRAM_BASE) 0 (unat (ph_filesz ph)) img;
                    load_segments file file_size phoff (i + 1) n True img } }"

definition elf_header_error :: "elf32_header \<Rightarrow> u32 \<Rightarrow> int option" where
  "elf_header_error elf file_size =
     (if take 4 (eh_ident elf) \<noteq> [0x7F, 0x45, 0x4C, 0x46] then Some (- 31)
      else if eh_ident elf ! 4 \<noteq> 1 \<or> eh_ident elf ! 5 \<noteq> 1 \<or> eh_type elf \<noteq> 2 \<or> eh_machine elf \<noteq> 3
              \<or> eh_version elf \<noteq> 1 \<or> eh_phentsize elf \<noteq> 32 then Some (- 32)
      else if eh_phnum elf = 0 \<or> eh_phoff elf + ucast (eh_phnum elf) * 32 > file_size then Some (- 33)
      else if eh_entry elf < USER_PROGRAM_BASE \<or> eh_entry elf \<ge> USER_PROGRAM_BASE + USER_IMAGE_SIZE then Some (- 37)
      else None)"

definition run_elf_program :: "paging_layout \<Rightarrow> ('d, 'x) enter \<Rightarrow> u8 list \<Rightarrow> u8 list \<Rightarrow> nat \<Rightarrow> ('d, 'x) kernel_scheme \<Rightarrow> (int \<times> ('d, 'x) kernel_scheme) option" where
  "run_elf_program L enter name file file_size k =
     (if file_size < 52 then Some (- 30, k)
      else let elf = elf32_header_of file in
           case elf_header_error elf (of_nat file_size) of
             Some e \<Rightarrow> Some (e, k)
           | None \<Rightarrow>
               do { (err, loaded, img) \<leftarrow> load_segments file (of_nat file_size) (eh_phoff elf) 0 (unat (eh_phnum elf)) False
                                            (replicate (unat USER_IMAGE_SIZE) 0);
                    let k = k\<lparr>load_image := img\<rparr>
                    in case err of
                         Some e \<Rightarrow> Some (e, k)
                       | None \<Rightarrow> if \<not> loaded then Some (- 36, k)
                                 else run_loaded_image L enter name (eh_entry elf) img USER_IMAGE_SIZE k })"

definition usermode_run_program :: "paging_layout \<Rightarrow> ('d, 'x) enter \<Rightarrow> 'd blockdev \<Rightarrow> u8 list \<Rightarrow> ('d, 'x) kernel_scheme \<Rightarrow> (int \<times> ('d, 'x) kernel_scheme) option" where
  "usermode_run_program L enter bd name k =
     (case diskfs_read_file bd (Some name) (kfs k) of
        (None, fs) \<Rightarrow> Some (- 10, k\<lparr>kfs := fs\<rparr>)
      | (Some (file, file_size), fs) \<Rightarrow>
          let k = k\<lparr>kfs := fs\<rparr> in
          if file_size < 4 then Some (- 10, k)
          else if take 4 file = [0x7F, 0x45, 0x4C, 0x46] then run_elf_program L enter name file file_size k
          else run_mexe_program L enter name file file_size k)"

section \<open>The built-in test program\<close>

definition write_u32 :: "nat \<Rightarrow> u32 \<Rightarrow> u32 \<Rightarrow> mem \<Rightarrow> mem" where
  "write_u32 buffer offset v m =
     m(buffer + unat offset := ucast (v AND 0xFF), buffer + unat (offset + 1) := ucast (drop_bit 8 v AND 0xFF),
       buffer + unat (offset + 2) := ucast (drop_bit 16 v AND 0xFF), buffer + unat (offset + 3) := ucast (drop_bit 24 v AND 0xFF))"

definition test_message :: "u8 list" where
  "test_message = map (of_nat \<circ> of_char) (''Hello from ring 3 user mode via int 0x80.'' @ [CHR 0x0A])"

fun store_bytes :: "nat \<Rightarrow> u8 list \<Rightarrow> mem \<Rightarrow> mem" where
  "store_bytes a [] m = m"
| "store_bytes a (b # bs) m = store_bytes (a + 1) bs (m(a := b))"

definition test_code :: "u32 \<Rightarrow> mem \<Rightarrow> mem" where
  "test_code code_page m =
     (let c = unat code_page;
          m = store_bytes (c + 32) test_message m;
          m = write_u32 c 1 1 (m(c := 0xB8));
          m = write_u32 c 6 (code_page + 32) (m(c + 5 := 0xBB));
          m = write_u32 c 11 (of_nat (length test_message)) (m(c + 10 := 0xB9));
          m = m(c + 15 := 0xCD, c + 16 := 0x80);
          m = write_u32 c 18 2 (m(c + 17 := 0xB8));
          m = write_u32 c 23 42 (m(c + 22 := 0xBB))
      in m(c + 27 := 0xCD, c + 28 := 0x80, c + 29 := 0xEB, c + 30 := 0xFE))"

definition usermode_run_test :: "paging_layout \<Rightarrow> ('d, 'x) enter \<Rightarrow> ('d, 'x) kernel_scheme \<Rightarrow> (int \<times> ('d, 'x) kernel_scheme) option" where
  "usermode_run_test L enter k =
     do { (code_page, st) \<leftarrow> take_page (kpaging k);
          (stack_page, st) \<leftarrow> take_page st;
          if code_page = 0 \<or> stack_page = 0 then Some (- 1, k\<lparr>kpaging := st\<rparr>)
          else do { (ok, st) \<leftarrow> paging_map_page L code_page code_page USER_PAGE_FLAGS st;
                    if \<not> ok then Some (- 2, k\<lparr>kpaging := st\<rparr>)
                    else do { (ok, st) \<leftarrow> paging_map_page L stack_page stack_page USER_PAGE_FLAGS st;
                              if \<not> ok then Some (- 3, k\<lparr>kpaging := st\<rparr>)
                              else let m = zero_bytes (unat stack_page) 4096 (zero_bytes (unat code_page) 4096 (pmem st));
                                       st = st\<lparr>pmem := test_code code_page m\<rparr>
                                   in do { (code, k) \<leftarrow> enter code_page (stack_page + PAGE_SIZE) (k\<lparr>kpaging := st\<rparr>);
                                           (_, st) \<leftarrow> paging_map_page L code_page code_page 0x2 (kpaging k);
                                           (_, st) \<leftarrow> paging_map_page L stack_page stack_page 0x2 st;
                                           st \<leftarrow> give_page code_page st;
                                           st \<leftarrow> give_page stack_page st;
                                           Some (code, k\<lparr>kpaging := st\<rparr>) } } } }"

end
