(* ===== verification/Usermode_Run.thy ===== *)
theory Usermode_Run
  imports Usermode Diskfs_Alloc
begin

text \<open>The life of a program's pages. The invariant \<open>prog\<close> accounts for every page between the creation of the
  address space and its destruction; each step of \<open>run_loaded_image\<close> keeps it, so that every way through the
  loader, error or not, returns exactly the pages it took.\<close>

section \<open>Accounting for pages\<close>

text \<open>\<open>prog L U A s d R st\<close>: of the pages \<open>A\<close> that were free at the start, the space \<open>s\<close> with directory \<open>d\<close> has taken some
  as private pages, the loader holds \<open>R\<close>, and the rest is free. The held pages are none of the space's tables. The
  next part keeps the word behind the structure's page, which the code reads as a table slot, harmless. The last,
  \<open>home\<close>, says that the kernel's address space is the current one, and that its structure, whose first word holds
  the kernel's directory, lies outside the pages handed out.\<close>

definition kernel_words :: "paging_layout \<Rightarrow> nat set" where
  "kernel_words L = {unat (kernel_space L) div 4096, (unat (kernel_space L) + 3) div 4096}"

definition home :: "paging_layout \<Rightarrow> nat set \<Rightarrow> paging \<Rightarrow> bool" where
  "home L A st \<longleftrightarrow> kernel_words L \<inter> A = {} \<and> kernel_space L \<noteq> 0 \<and> kernel_page_directory L \<noteq> 0
     \<and> page_directory (pmem st) (kernel_space L) = kernel_page_directory L
     \<and> current_space st = kernel_space L \<and> cr3 st = kernel_page_directory L"

lemma kernel_directory_frame:
  assumes "same_except P m m'" "kernel_words L \<inter> P = {}"
  shows "page_directory m' (kernel_space L) = page_directory m (kernel_space L)"
  using load32_frame [OF assms(1), of "unat (kernel_space L)"] assms(2) by (simp add: page_directory_def kernel_words_def)

lemma home_frame:
  assumes "home L A st" "same_except P (pmem st) (pmem st')" "kernel_words L \<inter> P = {}" "current_space st' = current_space st" "cr3 st' = cr3 st"
  shows "home L A st'"
  using assms(1,4,5) kernel_directory_frame [OF assms(2,3)] by (simp add: home_def)

text \<open>Switching back to the kernel, after a program that wrote to none of the kernel's own words.\<close>

lemma home_switch:
  assumes "home L A st" "same_except P (pmem st) (pmem st')" "kernel_words L \<inter> P = {}"
  shows "home L A (paging_switch_address_space (kernel_space L) st')"
  using assms(1) kernel_directory_frame [OF assms(2,3)] by (simp add: home_def paging_switch_address_space_def)

lemma ensure_table_registers:
  assumes "ensure_table L s i flags st = Some (t, st')" shows "current_space st' = current_space st" "cr3 st' = cr3 st"
  using assms by (auto simp: ensure_table_def Let_def bind_eq_Some_conv split: if_splits)

lemma map_page_registers:
  assumes "paging_map_page_in_space L s va pa flags st = Some (ok, st')" shows "current_space st' = current_space st" "cr3 st' = cr3 st"
  using assms by (auto simp: paging_map_page_in_space_def Let_def bind_eq_Some_conv dest: ensure_table_registers split: if_splits)

lemma create_space_registers:
  assumes "paging_create_address_space L st = Some (s, st')" shows "current_space st' = current_space st" "cr3 st' = cr3 st"
  using assms by (auto simp: paging_create_address_space_def Let_def bind_eq_Some_conv split: if_splits)

lemma free_owned_registers:
  assumes "free_owned s i n st = Some st'" shows "current_space st' = current_space st" "cr3 st' = cr3 st"
  using assms by (induction s i n st rule: free_owned.induct) (auto simp: bind_eq_Some_conv split: if_splits)

lemma destroy_space_registers:
  assumes "paging_destroy_address_space L s st = Some st'" "current_space st \<noteq> s"
  shows "current_space st' = current_space st" "cr3 st' = cr3 st"
  using assms by (auto simp: paging_destroy_address_space_def Let_def bind_eq_Some_conv dest: free_owned_registers split: if_splits)

definition prog :: "paging_layout \<Rightarrow> nat set \<Rightarrow> nat set \<Rightarrow> u32 \<Rightarrow> u32 \<Rightarrow> nat set \<Rightarrow> paging \<Rightarrow> bool" where
  "prog L U A s d R st \<longleftrightarrow> space_ok L st s \<and> page_directory (pmem st) s = d \<and> pmm_inv U (ppmm st) \<and> A \<subseteq> U
     \<and> private_pages (pmem st) s \<union> avail (ppmm st) \<union> R = A \<and> R \<inter> avail (ppmm st) = {} \<and> R \<inter> ({pg s, pg d} \<union> tables (pmem st) d) = {}
     \<and> walk (pmem st) d 0x1000 \<noteq> 0
     \<and> (Suc (pg s) = pg d \<or> Suc (pg s) \<notin> A \<and> owned_table (pmem st) s 1023 = 0) \<and> home L A st"

lemma progD:
  assumes "prog L U A s d R st"
  shows "space_ok L st s" "page_directory (pmem st) s = d" "pmm_inv U (ppmm st)" "A \<subseteq> U" "private_pages (pmem st) s \<union> avail (ppmm st) \<union> R = A"
    "R \<inter> avail (ppmm st) = {}" "R \<inter> ({pg s, pg d} \<union> tables (pmem st) d) = {}" "walk (pmem st) d 0x1000 \<noteq> 0"
    "Suc (pg s) = pg d \<or> Suc (pg s) \<notin> A \<and> owned_table (pmem st) s 1023 = 0" "home L A st"
  using assms by (simp_all add: prog_def)

lemma private_sub:
  assumes "space_ok L st s" "d = page_directory (pmem st) s"
  shows "private_pages (pmem st) s \<subseteq> {pg s, pg d} \<union> tables (pmem st) d"
proof -
  note k = space_okD [OF assms(1) refl assms(2)]
  have "pg (owned_table (pmem st) s i) \<in> tables (pmem st) d" if "i < 1023" "owned_table (pmem st) s i \<noteq> 0" for i
    using k(12) [OF that] table_mem [of "pmem st" d i] that(1) pg_page_base [of "entry_at (pmem st) d i"] by simp
  then show ?thesis using assms(2) by (auto simp: private_pages_def)
qed

lemma slot_frame:
  assumes "same_except P m m'" "page_base s = s" "Suc (pg s) \<notin> P"
  shows "owned_table m' s 1023 = owned_table m s 1023"
proof -
  have "(unat s + 4096) div 4096 = Suc (pg s)" "(unat s + 4096 + 3) div 4096 = Suc (pg s)" using assms(2) by (auto simp: page_base_dvd dvd_def)
  then have "load32 m' (unat s + 4096) = load32 m (unat s + 4096)" using assms(3) by (intro load32_frame [OF assms(1)]) simp_all
  then show ?thesis by (simp add: owned_table_def add.commute)
qed

lemma prog_take:
  assumes "prog L U A s d R st"
  obtains (none) "take_page st = Some (0, st)" "avail (ppmm st) = {}"
  | (page) a st' where "take_page st = Some (a, st')" "a \<noteq> 0" "page_base a = a" "pg a \<notin> R" "prog L U A s d (insert (pg a) R) st'" "pmem st' = pmem st"
proof -
  note p = progD [OF assms]
  note k = space_okD [OF p(1) refl p(2) [symmetric]]
  show ?thesis
    using p(3)
  proof (cases rule: pmm_alloc_page_spec)
    case none
    then show ?thesis using that(1) by (simp add: take_page_def)
  next
    case (page a q)
    define st' where "st' = st\<lparr>ppmm := q\<rparr>"
    have st': "pmem st' = pmem st" "ppmm st' = q" by (simp_all add: st'_def)
    have av: "avail q \<subseteq> avail (ppmm st)" "pg a \<notin> avail q" "insert (pg a) (avail q) = avail (ppmm st)" using page(4,5) by auto
    have "space_ok L st' s"
      by (rule space_okI [OF st'(1) [symmetric] p(2) [symmetric] k(1-7)]) (use k(9-12) av(1) in \<open>auto simp: st'\<close>)
    moreover have "private_pages (pmem st) s \<union> avail q \<union> insert (pg a) R = A" using p(5) av(3) by auto
    moreover have "insert (pg a) R \<inter> avail q = {}" using p(6) av(1,2) by auto
    moreover have "insert (pg a) R \<inter> ({pg s, pg d} \<union> tables (pmem st) d) = {}" using p(7) page(4) k(9-11) by auto
    moreover have "home L A st'" using p(10) by (simp add: home_def st'_def)
    ultimately have "prog L U A s d (insert (pg a) R) st'" using p(2,4,8,9) page(6) by (simp add: prog_def st')
    moreover have "pg a \<notin> R" using p(6) page(4) by auto
    moreover have "take_page st = Some (a, st')" using page(1) by (simp add: take_page_def st'_def)
    ultimately show ?thesis using that(2) page(2,3) st'(1) by blast
  qed
qed

lemma prog_give:
  assumes "prog L U A s d R st" "pg a \<in> R" "page_base a = a"
  shows "\<exists>st'. give_page a st = Some st' \<and> prog L U A s d (R - {pg a}) st' \<and> pmem st' = pmem st"
proof -
  note p = progD [OF assms(1)]
  note k = space_okD [OF p(1) refl p(2) [symmetric]]
  have "pg a \<in> U" using assms(2) p(4,5) by auto
  then obtain q where q: "pmm_free_page a (ppmm st) = Some q" "avail q = insert (pg a) (avail (ppmm st))" "pmm_inv U q"
    using pmm_free_page_spec [OF p(3) assms(3)] by blast
  define st' where "st' = st\<lparr>ppmm := q\<rparr>"
  have st': "pmem st' = pmem st" "ppmm st' = q" by (simp_all add: st'_def)
  have f: "pg a \<noteq> pg s" "pg a \<noteq> pg d" "pg a \<notin> tables (pmem st) d" using p(7) assms(2) by auto
  have "space_ok L st' s"
    by (rule space_okI [OF st'(1) [symmetric] p(2) [symmetric] k(1-7)]) (use k(9-12) f q(2) in \<open>auto simp: st'\<close>)
  moreover have "private_pages (pmem st) s \<union> avail q \<union> (R - {pg a}) = A" using p(5) q(2) assms(2) by auto
  moreover have "(R - {pg a}) \<inter> avail q = {}" "(R - {pg a}) \<inter> ({pg s, pg d} \<union> tables (pmem st) d) = {}" using p(6,7) q(2) by auto
  moreover have "home L A st'" using p(10) by (simp add: home_def st'_def)
  ultimately have "prog L U A s d (R - {pg a}) st'" using p(2,4,8,9) q(3) by (simp add: prog_def st')
  then show ?thesis using q(1) st'(1) by (auto simp: give_page_def st'_def)
qed

text \<open>Mapping a page outside the first 4 MiB.\<close>

lemma prog_map:
  assumes "prog L U A s d R st" "0 < directory_index va" "directory_index va < 1023" "page_base flags = 0"
  shows "paging_map_page_in_space L s va pa flags st = Some (False, st)
    \<or> (\<exists>st'. paging_map_page_in_space L s va pa flags st = Some (True, st') \<and> prog L U A s d R st' \<and> owned_table (pmem st') s (directory_index va) \<noteq> 0
         \<and> (\<forall>vb. walk (pmem st') d vb = (if pg vb = pg va then page_base pa OR (vb AND (PAGE_SIZE - 1)) else walk (pmem st) d vb)))"
proof -
  note p = progD [OF assms(1)]
  note k = space_okD [OF p(1) refl p(2) [symmetric]]
  have ne: "pg 0x1000 \<noteq> pg va" using same_page_iff [of "0x1000" va] assms(2) by (simp add: directory_index_eq)
  from map_page_ok [OF p(1,3) assms(3,4) refl p(2) [symmetric], of pa] show ?thesis
  proof (elim disjE exE conjE)
    fix st'
    assume r: "paging_map_page_in_space L s va pa flags st = Some (True, st')" "space_ok L st' s" "pmm_inv U (ppmm st')"
      "avail (ppmm st') \<subseteq> avail (ppmm st)" "page_directory (pmem st') s = d"
      "private_pages (pmem st') s \<union> avail (ppmm st') = private_pages (pmem st) s \<union> avail (ppmm st)"
      "same_except (private_pages (pmem st) s \<union> avail (ppmm st)) (pmem st) (pmem st')" "tables (pmem st') d \<subseteq> tables (pmem st) d \<union> avail (ppmm st)"
      "owned_table (pmem st') s (directory_index va) \<noteq> 0"
      "\<forall>vb. walk (pmem st') d vb = (if pg vb = pg va then page_base pa OR (vb AND (PAGE_SIZE - 1)) else walk (pmem st) d vb)"
    have "Suc (pg s) = pg d \<or> Suc (pg s) \<notin> A \<and> owned_table (pmem st') s 1023 = 0"
      using p(9) slot_frame [OF r(7) k(3)] p(5) by auto
    moreover have "R \<inter> ({pg s, pg d} \<union> tables (pmem st') d) = {}" "R \<inter> avail (ppmm st') = {}" using p(6,7) r(4,8) by blast+
    moreover have "walk (pmem st') d 0x1000 \<noteq> 0" using r(10) ne p(8) by simp
    moreover have "home L A st'"
      using home_frame [OF p(10) r(7) _ map_page_registers [OF r(1)]] p(5,10) by (auto simp: home_def)
    ultimately have "prog L U A s d R st'" using r(2,3,5,6) p(4,5) by (simp add: prog_def)
    then show ?thesis using r(1,9,10) by blast
  qed simp
qed

lemma prog_unmap:
  assumes "prog L U A s d R st" "i = directory_index va" "0 < i" "i < 1023" "owned_table (pmem st) s i \<noteq> 0"
  shows "prog L U A s d R (paging_unmap_page_in_space s va st)" "owned_table (pmem (paging_unmap_page_in_space s va st)) s i \<noteq> 0"
proof -
  note p = progD [OF assms(1)]
  note k = space_okD [OF p(1) refl p(2) [symmetric]]
  define T where "T = owned_table (pmem st) s i"
  define m' where "m' = set_entry T (table_index va) 0 (pmem st)"
  have e: "present (entry_at (pmem st) d i)" "page_base (entry_at (pmem st) d i) = T" using k(12) [OF assms(4,5)] by (simp_all add: T_def)
  have st': "paging_unmap_page_in_space s va st = st\<lparr>pmem := m'\<rparr>"
    using e k(1,4) p(2) by (simp add: paging_unmap_page_in_space_def Let_def assms(2) [symmetric] m'_def)
  note S = set_private_entry [OF p(1) assms(4,5) T_def table_index_less [of va] refl p(2) [symmetric] m'_def]
  have "directory_index 0x1000 \<noteq> i" using assms(3) by (simp add: directory_index_eq)
  then have w: "walk m' d 0x1000 \<noteq> 0" using S(8) [of "0x1000"] p(8) by simp
  have "pg T \<in> A" using S(6) p(5) by auto
  then have "Suc (pg s) = pg d \<or> Suc (pg s) \<notin> A \<and> owned_table m' s 1023 = 0"
    using p(9) slot_frame [OF S(5) k(3)] by (metis singletonD)
  moreover have "kernel_words L \<inter> {pg T} = {}" using \<open>pg T \<in> A\<close> p(10) by (auto simp: home_def)
  then have "home L A (st\<lparr>pmem := m'\<rparr>)" using home_frame [OF p(10), of "{pg T}" "st\<lparr>pmem := m'\<rparr>"] S(5) by simp
  ultimately show "prog L U A s d R (paging_unmap_page_in_space s va st)" using p(3-7) S(1-4) w unfolding st' by (simp add: prog_def)
  show "owned_table (pmem (paging_unmap_page_in_space s va st)) s i \<noteq> 0" using S(7) [OF assms(4)] assms(5) by (simp add: st')
qed

text \<open>Writing to held pages, and to nothing else, leaves the space alone.\<close>

lemma prog_mem:
  assumes "prog L U A s d R st" "same_except R (pmem st) m'" "pmem st' = m'" "ppmm st' = ppmm st" "home L A st'"
  shows "prog L U A s d R st'" "walk m' d va = walk (pmem st) d va" "i < 1023 \<Longrightarrow> owned_table m' s i = owned_table (pmem st) s i"
proof -
  note p = progD [OF assms(1)]
  note k = space_okD [OF p(1) refl p(2) [symmetric]]
  have out: "pg s \<notin> R" "pg d \<notin> R" "tables (pmem st) d \<inter> R = {}" using p(7) by auto
  have es: "entry_at m' s j = entry_at (pmem st) s j" if "j < 1024" for j using entry_at_same_except [OF assms(2) k(3) that out(1)] .
  have ed: "entry_at m' d j = entry_at (pmem st) d j" if "j < 1024" for j using entry_at_same_except [OF assms(2) k(8) that out(2)] .
  show ow: "owned_table m' s i = owned_table (pmem st) s i" if "i < 1023" for i using that es by (simp add: owned_table_entry)
  have pd: "page_directory m' s = d" using es [of 0] p(2) by (simp add: page_directory_entry)
  show w: "walk m' d va = walk (pmem st) d va" for va using walk_frame [OF assms(2) k(8) out(2,3)] .
  have tb: "tables m' d = tables (pmem st) d" "dir_ok m' d"
    using tables_frame [OF assms(2) k(8) out(2)] dir_ok_frame [OF assms(2) k(8) out(2)] k(5) by simp_all
  have "space_ok L st' s"
    by (rule space_okI [OF assms(3) [symmetric] pd [symmetric] k(1-4) tb(2) k(6)]) (use k tb(1) ow ed assms(4) in auto)
  moreover have "private_pages m' s = private_pages (pmem st) s" unfolding private_pages_def pd p(2) using ow by (auto simp: image_iff)
  moreover have "Suc (pg s) = pg d \<or> Suc (pg s) \<notin> A \<and> owned_table m' s 1023 = 0"
    using p(9) slot_frame [OF assms(2) k(3)] p(5) by auto
  ultimately show "prog L U A s d R st'" using p(3-8) pd tb(1) w assms(3-5) by (simp add: prog_def)
qed

text \<open>The pages \<open>A\<close> are free and the kernel's address space is the one in use.\<close>

definition settled :: "paging_layout \<Rightarrow> nat set \<Rightarrow> nat set \<Rightarrow> paging \<Rightarrow> bool" where
  "settled L U A st \<longleftrightarrow> pmm_inv U (ppmm st) \<and> avail (ppmm st) = A \<and> current_space st = kernel_space L \<and> cr3 st = kernel_page_directory L"

lemma prog_destroy:
  assumes "prog L U A s d R st"
  shows "\<exists>st'. paging_destroy_address_space L s st = Some st' \<and> settled L U (A - R) st'"
proof -
  note p = progD [OF assms]
  note k = space_okD [OF p(1) refl p(2) [symmetric]]
  have "private_pages (pmem st) s \<subseteq> U" using p(4,5) by auto
  moreover have "page_base (owned_table (pmem st) s 1023) \<noteq> owned_table (pmem st) s 1023" if "owned_table (pmem st) s 1023 \<noteq> 0"
  proof -
    have "Suc (pg s) = pg d" using p(9) that by auto
    then have "unat s + 4096 = unat d" using unat_page_base [of s] unat_page_base [of d] k(3,8) by simp
    then have o: "owned_table (pmem st) s 1023 = entry_at (pmem st) d 0" by (simp add: owned_table_def entry_at_def add.commute)
    have "directory_index 0x1000 = 0" by (simp add: directory_index_eq)
    then have "present (entry_at (pmem st) d 0)" using p(8) by (auto simp: walk_def Let_def split: if_splits)
    then show ?thesis using not_present_page_base unfolding o by blast
  qed
  moreover have "private_pages (pmem st) s \<inter> R = {}" using private_sub [OF p(1) p(2) [symmetric]] p(7) by blast
  ultimately obtain st' where "paging_destroy_address_space L s st = Some st'" "pmm_inv U (ppmm st')" "avail (ppmm st') = A - R"
    using destroy_space_ok [OF p(1,3)] p(5,6) by fastforce
  then show ?thesis using destroy_space_registers [of L s st st'] k(2) p(10) by (auto simp: settled_def home_def)
qed

section \<open>The loops over pages\<close>

definition held :: "u32 list \<Rightarrow> bool" where
  "held pages \<longleftrightarrow> distinct (map pg pages) \<and> (\<forall>a \<in> set pages. page_base a = a \<and> a \<noteq> 0)"

abbreviation (input) pgs :: "u32 list \<Rightarrow> nat set" where "pgs pages \<equiv> (\<lambda>a. pg a) ` set pages"

lemma held_Cons: "held (a # as) \<longleftrightarrow> page_base a = a \<and> a \<noteq> 0 \<and> pg a \<notin> pgs as \<and> held as"
  by (auto simp: held_def)

lemma held_snoc: "held (as @ [a]) \<longleftrightarrow> page_base a = a \<and> a \<noteq> 0 \<and> pg a \<notin> pgs as \<and> held as"
  by (auto simp: held_def)

lemma take_pages_ok:
  assumes "prog L U A s d (pgs pages \<union> R) st" "held pages" "pgs pages \<inter> R = {}"
  shows "\<exists>ok pages' st'. take_pages n pages st = Some (ok, pages', st') \<and> prog L U A s d (pgs pages' \<union> R) st' \<and> held pages' \<and> pgs pages' \<inter> R = {}
     \<and> (ok \<longrightarrow> length pages' = length pages + n)"
  using assms
proof (induction n arbitrary: pages st)
  case (Suc n)
  from Suc.prems(1) show ?case
  proof (cases rule: prog_take)
    case none
    then show ?thesis using Suc.prems by auto
  next
    case (page a st')
    have 1: "prog L U A s d (pgs (pages @ [a]) \<union> R) st'" using page(5) by simp
    have 2: "held (pages @ [a])" using page(2-4) Suc.prems(2) by (simp add: held_snoc)
    have 3: "pgs (pages @ [a]) \<inter> R = {}" using page(4) Suc.prems(3) by auto
    have "take_pages (Suc n) pages st = take_pages n (pages @ [a]) st'" using page(1,2) by simp
    then show ?thesis using Suc.IH [OF 1 2 3] by (simp only: length_append list.size add.assoc) simp
  qed
qed auto

lemma give_pages_ok:
  assumes "prog L U A s d (pgs pages \<union> R) st" "held pages" "pgs pages \<inter> R = {}"
  shows "\<exists>st'. give_pages pages st = Some st' \<and> prog L U A s d R st'"
  using assms
proof (induction pages arbitrary: st)
  case (Cons a pages)
  have eq: "(pgs (a # pages) \<union> R) - {pg a} = pgs pages \<union> R" using Cons.prems(2,3) by (auto simp: held_Cons)
  obtain st1 where "give_page a st = Some st1" "prog L U A s d (pgs pages \<union> R) st1"
    using prog_give [OF Cons.prems(1), of a] Cons.prems(2) unfolding eq by (auto simp: held_Cons)
  then show ?case using Cons.IH [of st1] Cons.prems(2,3) by (auto simp: held_Cons)
qed simp

lemma image_address_facts:
  assumes "i < 16"
  shows "pg (image_address i) = 1024 + i" "directory_index (image_address i) = 1"
proof -
  have "unat (of_nat i :: u32) = i" using assms by (simp add: unsigned_of_nat take_bit_nat_eq_self_iff)
  then have "unat (image_address i) = 0x400000 + i * 4096" using assms by (simp add: image_address_def unat_word_ariths)
  then show "pg (image_address i) = 1024 + i" "directory_index (image_address i) = 1" using assms by (simp_all add: directory_index_eq)
qed

lemma stack_base_facts: "pg USER_STACK_BASE = 1040" "directory_index USER_STACK_BASE = 1"
  by (simp_all add: directory_index_eq)

lemma flags_base: "page_base USER_PAGE_FLAGS = 0"
  by (simp add: page_base_def)

text \<open>After the mapping loop the pages are visible one after the other.\<close>

definition seen_at :: "nat \<Rightarrow> u32 list \<Rightarrow> u32 \<Rightarrow> u32 \<Rightarrow> u32" where
  "seen_at i pages vb w = (if 1024 + i \<le> pg vb \<and> pg vb < 1024 + i + length pages then pages ! (pg vb - 1024 - i) OR (vb AND (PAGE_SIZE - 1)) else w)"

lemma seen_at_Nil: "seen_at i [] vb w = w"
  by (auto simp: seen_at_def)

lemma seen_at_Cons:
  assumes "page_base a = a"
  shows "seen_at (i + 1) pages vb (if pg vb = 1024 + i then page_base a OR (vb AND (PAGE_SIZE - 1)) else w) = seen_at i (a # pages) vb w"
proof -
  consider "pg vb < 1024 + i" | "pg vb = 1024 + i" | "1024 + i < pg vb" by linarith
  then show ?thesis
  proof cases
    case 3
    then have "pg vb - 1024 - i = Suc (pg vb - 1024 - (i + 1))" by linarith
    then have "(a # pages) ! (pg vb - 1024 - i) = pages ! (pg vb - 1024 - (i + 1))" by simp
    then show ?thesis using 3 by (simp add: seen_at_def)
  qed (simp_all add: seen_at_def assms)
qed

lemma map_pages_ok:
  assumes "prog L U A s d R st" "i + length pages \<le> 16" "\<forall>a \<in> set pages. page_base a = a" "0 < i \<longrightarrow> owned_table (pmem st) s 1 \<noteq> 0"
  shows "\<exists>ok n st'. map_pages L s i pages st = Some (ok, n, st') \<and> prog L U A s d R st' \<and> n \<le> 16 \<and> (0 < n \<longrightarrow> owned_table (pmem st') s 1 \<noteq> 0)
     \<and> (ok \<longrightarrow> n = i + length pages \<and> (\<forall>vb. walk (pmem st') d vb = seen_at i pages vb (walk (pmem st) d vb)))"
  using assms
proof (induction pages arbitrary: i st)
  case Nil
  then show ?case by (intro exI [of _ True] exI [of _ i] exI [of _ st]) (simp add: seen_at_Nil)
next
  case (Cons a pages)
  have i: "i < 16" using Cons.prems(2) by simp
  note f = image_address_facts [OF i]
  have di: "0 < directory_index (image_address i)" "directory_index (image_address i) < 1023" using f(2) by simp_all
  from prog_map [OF Cons.prems(1) di flags_base, of a] show ?case
  proof (elim disjE exE conjE)
    assume "paging_map_page_in_space L s (image_address i) a USER_PAGE_FLAGS st = Some (False, st)"
    then show ?case using Cons.prems(1,4) i by (intro exI [of _ False] exI [of _ i] exI [of _ st]) simp
  next
    fix st1
    assume r: "paging_map_page_in_space L s (image_address i) a USER_PAGE_FLAGS st = Some (True, st1)" "prog L U A s d R st1"
      "owned_table (pmem st1) s (directory_index (image_address i)) \<noteq> 0"
      "\<forall>vb. walk (pmem st1) d vb = (if pg vb = pg (image_address i) then page_base a OR (vb AND (PAGE_SIZE - 1)) else walk (pmem st) d vb)"
    obtain ok n st' where h: "map_pages L s (i + 1) pages st1 = Some (ok, n, st')" "prog L U A s d R st'" "n \<le> 16" "0 < n \<longrightarrow> owned_table (pmem st') s 1 \<noteq> 0"
      "ok \<longrightarrow> n = i + 1 + length pages \<and> (\<forall>vb. walk (pmem st') d vb = seen_at (i + 1) pages vb (walk (pmem st1) d vb))"
      using Cons.IH [OF r(2), of "i + 1"] Cons.prems(2,3) r(3) f(2) by auto
    have "seen_at (i + 1) pages vb (walk (pmem st1) d vb) = seen_at i (a # pages) vb (walk (pmem st) d vb)" for vb
      using seen_at_Cons [of a i pages vb "walk (pmem st) d vb"] Cons.prems(3) r(4) unfolding f(1) by simp
    then show ?case using r(1) h by (intro exI [of _ ok] exI [of _ n] exI [of _ st']) simp
  qed
qed

lemma unmap_pages_ok:
  assumes "prog L U A s d R st" "i + n \<le> 16" "0 < n \<longrightarrow> owned_table (pmem st) s 1 \<noteq> 0"
  shows "prog L U A s d R (unmap_pages s i n st)"
  using assms
proof (induction n arbitrary: i st)
  case (Suc n)
  have f: "1 = directory_index (image_address i)" using image_address_facts(2) [of i] Suc.prems(2) by simp
  have ow: "owned_table (pmem st) s 1 \<noteq> 0" using Suc.prems(3) by simp
  note un = prog_unmap [OF Suc.prems(1) f _ _ ow, simplified]
  show ?case using Suc.IH [OF un(1), of "i + 1"] un(2) Suc.prems(2) by simp
qed simp

lemma release_pages_ok:
  assumes "prog L U A s d (pgs pages \<union> R) st" "held pages" "pgs pages \<inter> R = {}" "i + length pages \<le> 16" "owned_table (pmem st) s 1 \<noteq> 0"
  shows "\<exists>st'. release_pages s i pages st = Some st' \<and> prog L U A s d R st'"
  using assms
proof (induction pages arbitrary: i st)
  case (Cons a pages)
  have f: "1 = directory_index (image_address i)" using image_address_facts(2) [of i] Cons.prems(4) by simp
  have un: "prog L U A s d (pgs (a # pages) \<union> R) (paging_unmap_page_in_space s (image_address i) st)"
    "owned_table (pmem (paging_unmap_page_in_space s (image_address i) st)) s 1 \<noteq> 0"
    using prog_unmap [OF Cons.prems(1) f _ _ Cons.prems(5)] by simp_all
  have eq: "(pgs (a # pages) \<union> R) - {pg a} = pgs pages \<union> R" using Cons.prems(2,3) by (auto simp: held_Cons)
  obtain st1 where "give_page a (paging_unmap_page_in_space s (image_address i) st) = Some st1" "prog L U A s d (pgs pages \<union> R) st1"
    "pmem st1 = pmem (paging_unmap_page_in_space s (image_address i) st)"
    using prog_give [OF un(1), of a] Cons.prems(2) unfolding eq by (auto simp: held_Cons)
  then show ?case using Cons.IH [of st1 "i + 1"] Cons.prems(2-4) un(2) by (auto simp: held_Cons)
qed simp

section \<open>The image in memory\<close>

abbreviation (input) byte_at :: "u32 list \<Rightarrow> nat \<Rightarrow> nat" where "byte_at pages x \<equiv> unat (pages ! (x div 4096)) + x mod 4096"

lemma zero_bytes_eq: "zero_bytes a n m = (\<lambda>x. if a \<le> x \<and> x < a + n then 0 else m x)"
  by (induction n arbitrary: a m) (auto simp: fun_eq_iff)

lemma page_byte:
  assumes "page_base a = a" "y < 4096" shows "(unat a + y) div 4096 = pg a"
proof -
  obtain k where "unat a = 4096 * k" using assms(1) by (auto simp: page_base_dvd)
  then show ?thesis using assms(2) by simp
qed

lemma zero_page_same_except:
  assumes "page_base a = a" shows "same_except {pg a} m (zero_bytes (unat a) 4096 m)"
proof -
  have in_page: "x div 4096 = pg a" if "unat a \<le> x \<and> x < unat a + 4096" for x
  proof -
    have "x - unat a < 4096" "unat a + (x - unat a) = x" using that by linarith+
    with page_byte [OF assms this(1)] show ?thesis by (simp only:)
  qed
  show ?thesis unfolding same_except_def zero_bytes_eq
  proof (intro allI impI)
    show "(if unat a \<le> x \<and> x < unat a + 4096 then 0 else m x) = m x" if "x div 4096 \<notin> {pg a}" for x
      by (rule if_not_P) (use in_page [of x] that in blast)
  qed
qed

lemma zero_pages_same:
  assumes "held pages" shows "same_except (pgs pages) m (zero_pages pages m)"
  using assms
proof (induction pages arbitrary: m)
  case (Cons a pages)
  then have h: "page_base a = a" "held pages" by (simp_all add: held_Cons)
  have "same_except (pgs (a # pages)) m (zero_pages pages (zero_bytes (unat a) 4096 m))"
    by (rule same_except_trans [OF same_except_mono [OF zero_page_same_except [OF h(1)]] same_except_mono [OF Cons.IH [OF h(2)]]]) auto
  then show ?case by (simp only: zero_pages.simps)
qed simp

lemma zero_pages_zero:
  assumes "held pages" "a \<in> set pages" "y < 4096" shows "zero_pages pages m (unat a + y) = 0"
  using assms(1,2)
proof (induction pages arbitrary: m)
  case (Cons b pages)
  let ?m = "zero_bytes (unat b) 4096 m"
  have h: "page_base b = b" "pg b \<notin> pgs pages" "held pages" using Cons.prems by (simp_all add: held_Cons)
  show ?case
  proof (cases "a \<in> set pages")
    case True
    then show ?thesis using Cons.IH [OF h(3) True, of ?m] by (simp only: zero_pages.simps)
  next
    case False
    then have "a = b" using Cons.prems(2) by simp
    then have "(unat a + y) div 4096 \<notin> pgs pages" using h(1,2) page_byte [OF h(1) assms(3)] by (simp only:) blast
    then have "zero_pages pages ?m (unat a + y) = ?m (unat a + y)" using zero_pages_same [OF h(3), of ?m] unfolding same_except_def by blast
    moreover have "?m (unat a + y) = 0" using \<open>a = b\<close> assms(3) by (simp add: zero_bytes_eq)
    ultimately show ?thesis by (simp only: zero_pages.simps)
  qed
qed simp

lemma byte_at_inject:
  assumes "held pages" "x < 4096 * length pages" "y < 4096 * length pages"
  shows "byte_at pages x = byte_at pages y \<longleftrightarrow> x = y"
proof
  assume e: "byte_at pages x = byte_at pages y"
  have l: "x div 4096 < length pages" "y div 4096 < length pages" using assms(2,3) by (simp_all add: less_mult_imp_div_less mult.commute)
  then have b: "page_base (pages ! (x div 4096)) = pages ! (x div 4096)" "page_base (pages ! (y div 4096)) = pages ! (y div 4096)"
    using assms(1) by (simp_all add: held_def)
  have "pg (pages ! (x div 4096)) = pg (pages ! (y div 4096))" using page_byte [OF b(1), of "x mod 4096"] page_byte [OF b(2), of "y mod 4096"] e by simp
  then have "map pg pages ! (x div 4096) = map pg pages ! (y div 4096)" using l by simp
  then have d: "x div 4096 = y div 4096" using assms(1) l by (simp add: held_def nth_eq_iff_index_eq del: nth_map)
  then show "x = y" using e by (metis add_left_cancel div_mult_mod_eq)
qed simp

lemma store_image_ok:
  assumes "held pages" "i + length bs \<le> 4096 * length pages"
  shows "same_except (pgs pages) m (store_image pages i bs m)
    \<and> (\<forall>x < 4096 * length pages. store_image pages i bs m (byte_at pages x) = (if i \<le> x \<and> x < i + length bs then bs ! (x - i) else m (byte_at pages x)))"
  using assms(2)
proof (induction bs arbitrary: i m)
  case (Cons b bs)
  let ?m = "m(byte_at pages i := b)"
  have i: "i < 4096 * length pages" using Cons.prems by simp
  then have "i div 4096 < length pages" by (simp add: less_mult_imp_div_less mult.commute)
  then have p: "pages ! (i div 4096) \<in> set pages" "page_base (pages ! (i div 4096)) = pages ! (i div 4096)" using assms(1) by (simp_all add: held_def)
  have "same_except (pgs pages) m ?m" using page_byte [OF p(2), of "i mod 4096"] p(1) by (auto simp: same_except_def)
  moreover have "same_except (pgs pages) ?m (store_image pages (Suc i) bs ?m) \<and> (\<forall>x < 4096 * length pages. store_image pages (Suc i) bs ?m (byte_at pages x) =
      (if Suc i \<le> x \<and> x < Suc i + length bs then bs ! (x - Suc i) else ?m (byte_at pages x)))" using Cons by simp
  moreover have "(if Suc i \<le> x \<and> x < Suc i + length bs then bs ! (x - Suc i) else ?m (byte_at pages x))
      = (if i \<le> x \<and> x < i + length (b # bs) then (b # bs) ! (x - i) else m (byte_at pages x))" if "x < 4096 * length pages" for x
    using byte_at_inject [OF assms(1) that i] by (cases "x < i"; cases "x = i") (simp_all add: nth_Cons' Suc_le_eq)
  ultimately show ?case using same_except_trans by simp
qed auto

lemma frame_or:
  assumes "page_base a = a" shows "unat (a OR (v AND (PAGE_SIZE - 1))) = unat a + unat v mod 4096"
proof -
  have m: "PAGE_SIZE - 1 = mask 12" by (simp add: mask_eq_exp_minus_1)
  have b: "v AND mask 12 = v mod 4096" by (simp add: take_bit_eq_mask [symmetric] take_bit_eq_mod)
  have "a AND (v AND mask 12) = 0"
  proof (rule bit_word_eqI)
    show "bit (a AND (v AND mask 12)) n = bit (0 :: u32) n" for n
      using bit_page_base [of a n] assms by (auto simp: bit_and_iff bit_mask_iff)
  qed
  then have "a OR (v AND mask 12) = a + v mod 4096" unfolding b [symmetric] by (simp add: disjunctive_add_eq_or)
  moreover have "unat a + unat v mod 4096 < 2 ^ LENGTH(32)"
  proof -
    obtain k where "unat a = 4096 * k" using assms by (auto simp: page_base_dvd)
    moreover have "unat a < 2 ^ 32" using unsigned_less [of a, where ?'a = nat] by simp
    moreover have "unat v mod 4096 < 4096" by simp
    ultimately show ?thesis by simp
  qed
  ultimately show ?thesis unfolding m by (simp add: unat_word_ariths unat_mod_distrib)
qed

section \<open>Running a program\<close>

text \<open>What a program finds when it starts: through the page tables the processor uses, its window of 64 KiB
  holds the image followed by zeros.\<close>

definition image_in_memory :: "u8 list \<Rightarrow> nat \<Rightarrow> paging \<Rightarrow> bool" where
  "image_in_memory img n st \<longleftrightarrow> (\<forall>x < 0x10000. walk (pmem st) (cr3 st) (USER_PROGRAM_BASE + of_nat x) \<noteq> 0
     \<and> pmem st (unat (walk (pmem st) (cr3 st) (USER_PROGRAM_BASE + of_nat x))) = (if x < n then img ! x else 0))"

text \<open>The frames behind the program's window and stack, and a program that writes to nothing else and exits.
  System calls may change the rest of the kernel's state, but not the page allocator. Nothing is asked of a
  program that is entered without its image in memory.\<close>

definition user_frames :: "paging \<Rightarrow> nat set" where
  "user_frames st = (\<lambda>va. pg (walk (pmem st) (cr3 st) va)) ` {va. 1024 \<le> pg va \<and> pg va \<le> 1040}"

definition exits_contained :: "('d, 'x) enter \<Rightarrow> u32 \<Rightarrow> u8 list \<Rightarrow> nat \<Rightarrow> bool" where
  "exits_contained enter entry img n \<longleftrightarrow> (\<forall>k. image_in_memory img n (kpaging k) \<longrightarrow>
     (\<exists>code k'. enter entry (USER_STACK_BASE + PAGE_SIZE) k = Some (code, k') \<and> ppmm (kpaging k') = ppmm (kpaging k)
        \<and> same_except (user_frames (kpaging k)) (pmem (kpaging k)) (pmem (kpaging k'))))"

lemma kpaging_upd_process [simp]: "kpaging (upd_process i f k) = kpaging k"
  by (simp add: upd_process_def)

lemma kpaging_close_all [simp]: "kpaging (user_process_close_all k) = kpaging k"
  by (simp add: user_process_close_all_def split: option.splits)

lemma kpaging_allocate [simp]: "allocate_process name entry k = (r, k') \<Longrightarrow> kpaging k' = kpaging k"
  by (auto simp: allocate_process_def claim_process_def split: option.splits)

lemma abandon_ok:
  assumes "prog L U A s d {pg a} st" "page_base a = a"
  shows "\<exists>st'. abandon L s a st = Some st' \<and> settled L U A st'"
proof -
  note p = progD [OF assms(1)]
  obtain st1 where st1: "paging_destroy_address_space L s st = Some st1" "pmm_inv U (ppmm st1)" "avail (ppmm st1) = A - {pg a}"
    "current_space st1 = kernel_space L" "cr3 st1 = kernel_page_directory L"
    using prog_destroy [OF assms(1)] by (auto simp: settled_def)
  have a: "pg a \<in> A" "pg a \<in> U" using p(4,5) by auto
  obtain q where "pmm_free_page a (ppmm st1) = Some q" "avail q = A" "pmm_inv U q"
    using pmm_free_page_spec [OF st1(2) assms(2) a(2)] st1(3) a(1) by (auto simp: insert_absorb)
  then show ?thesis using st1(1,4,5) by (simp add: abandon_def give_page_def settled_def)
qed

lemma release_abandon_ok:
  assumes "prog L U A s d (pgs pages \<union> {pg a}) st" "held (a # pages)" "length pages = 16" "owned_table (pmem st) s 1 \<noteq> 0"
  shows "\<exists>st1 st'. release_pages s 0 pages st = Some st1 \<and> abandon L s a st1 = Some st' \<and> settled L U A st'"
proof -
  have h: "held pages" "pgs pages \<inter> {pg a} = {}" "page_base a = a" using assms(2) by (auto simp: held_Cons)
  obtain st1 where "release_pages s 0 pages st = Some st1" "prog L U A s d {pg a} st1"
    using release_pages_ok [OF assms(1) h(1,2) _ assms(4), of 0] assms(3) by auto
  then show ?thesis using abandon_ok [OF _ h(3)] by blast
qed

lemma leave_ok:
  assumes "prog L U A s d (pgs pages \<union> {pg a}) st" "held (a # pages)" "length pages = 16" "owned_table (pmem st) s 1 \<noteq> 0"
  shows "\<exists>st1 st2 st'. give_page a (paging_unmap_page_in_space s USER_STACK_BASE st) = Some st1 \<and> release_pages s 0 pages st1 = Some st2
    \<and> paging_destroy_address_space L s st2 = Some st' \<and> settled L U A st'"
proof -
  let ?u = "paging_unmap_page_in_space s USER_STACK_BASE st"
  have h: "held pages" "pg a \<notin> pgs pages" "page_base a = a" using assms(2) by (auto simp: held_Cons)
  have un: "prog L U A s d (pgs pages \<union> {pg a}) ?u" "owned_table (pmem ?u) s 1 \<noteq> 0"
    using prog_unmap [OF assms(1) stack_base_facts(2) [symmetric] _ _ assms(4)] by simp_all
  have eq: "(pgs pages \<union> {pg a}) - {pg a} = pgs pages \<union> {}" using h(2) by auto
  obtain st1 where st1: "give_page a ?u = Some st1" "prog L U A s d (pgs pages \<union> {}) st1" "pmem st1 = pmem ?u"
    using prog_give [OF un(1), of a] h(3) unfolding eq by auto
  obtain st2 where st2: "release_pages s 0 pages st1 = Some st2" "prog L U A s d {} st2"
    using release_pages_ok [OF st1(2) h(1), of 0] assms(3) un(2) st1(3) by auto
  show ?thesis using st1(1) st2(1) prog_destroy [OF st2(2)] by auto
qed

text \<open>The state in which the program is entered.\<close>

definition window_ok :: "u32 \<Rightarrow> u32 list \<Rightarrow> u32 \<Rightarrow> mem \<Rightarrow> bool" where
  "window_ok d pages a m \<longleftrightarrow> (\<forall>vb. (1024 \<le> pg vb \<and> pg vb < 1040 \<longrightarrow> walk m d vb = pages ! (pg vb - 1024) OR (vb AND (PAGE_SIZE - 1)))
     \<and> (pg vb = 1040 \<longrightarrow> walk m d vb = a OR (vb AND (PAGE_SIZE - 1))))"

lemma pg_frame_or:
  assumes "page_base a = a" shows "pg (a OR (v AND (PAGE_SIZE - 1))) = pg a"
proof -
  have m: "PAGE_SIZE - 1 = mask 12" by (simp add: mask_eq_exp_minus_1)
  have "page_base (v AND mask 12) = 0" by (rule bit_word_eqI) (auto simp: bit_page_base bit_and_iff bit_mask_iff)
  then have "page_base (a OR (v AND mask 12)) = a" using assms by simp
  then show ?thesis unfolding m by (metis pg_page_base)
qed

lemma window_frames:
  assumes "window_ok d pages a (pmem st)" "cr3 st = d" "held (a # pages)" "length pages = 16"
  shows "user_frames st \<subseteq> pgs pages \<union> {pg a}"
proof -
  have "pg (walk (pmem st) d va) \<in> pgs pages \<union> {pg a}" if "1024 \<le> pg va" "pg va \<le> 1040" for va
  proof (cases "pg va = 1040")
    case True
    have "pg (a OR (va AND (PAGE_SIZE - 1))) = pg a" using assms(3) by (intro pg_frame_or) (simp add: held_Cons)
    then show ?thesis using assms(1) True unfolding window_ok_def by simp
  next
    case False
    let ?p = "pages ! (pg va - 1024)"
    have p: "?p \<in> set pages" using False that assms(4) by simp
    then have "pg (?p OR (va AND (PAGE_SIZE - 1))) = pg ?p" using assms(3) by (intro pg_frame_or) (simp add: held_def)
    moreover have "walk (pmem st) d va = ?p OR (va AND (PAGE_SIZE - 1))" using assms(1) False that unfolding window_ok_def by simp
    ultimately show ?thesis using p by (metis (no_types, lifting) UnI1 image_eqI)
  qed
  then show ?thesis using assms(2) by (auto simp: user_frames_def)
qed

lemma window_image:
  assumes w: "window_ok d pages a (pmem st)" and d: "cr3 st = d" and h: "held (a # pages)" "length pages = 16"
    and m: "\<forall>x < 0x10000. pmem st (byte_at pages x) = (if x < n then img ! x else 0)"
  shows "image_in_memory img n st"
  unfolding image_in_memory_def
proof (intro allI impI)
  fix x :: nat
  assume x: "x < 0x10000"
  let ?va = "USER_PROGRAM_BASE + of_nat x" and ?p = "pages ! (x div 4096)"
  have "unat (of_nat x :: u32) = x" using x by (simp add: unsigned_of_nat take_bit_nat_eq_self_iff)
  then have u: "unat ?va = 0x400000 + x" using x by (simp add: unat_word_ariths)
  have "(0x400000 + x) mod 4096 = x mod 4096" using mod_mult_self1 [of x 1024 4096] by (simp add: add.commute)
  with u have pgv: "pg ?va = 1024 + x div 4096" "unat ?va mod 4096 = x mod 4096" by simp_all
  have l: "x div 4096 < 16" using x by simp
  then have p: "page_base ?p = ?p" "?p \<noteq> 0" using h by (simp_all add: held_Cons held_def)
  have "1024 \<le> pg ?va \<and> pg ?va < 1040" "pg ?va - 1024 = x div 4096" using pgv(1) l by simp_all
  then have wk: "walk (pmem st) d ?va = ?p OR (?va AND (PAGE_SIZE - 1))" using w unfolding window_ok_def by metis
  have f: "unat (walk (pmem st) d ?va) = byte_at pages x" unfolding wk frame_or [OF p(1)] pgv(2) ..
  moreover have "unat ?p \<noteq> 0" using p(2) by (simp add: unat_eq_zero)
  ultimately have "walk (pmem st) d ?va \<noteq> 0" by (metis add_is_0 unat_0)
  then show "walk (pmem st) (cr3 st) ?va \<noteq> 0 \<and> pmem st (unat (walk (pmem st) (cr3 st) ?va)) = (if x < n then img ! x else 0)"
    using m x f by (simp add: d)
qed

lemma enter_program_ok:
  assumes p: "prog L U A s d (pgs pages \<union> {pg a}) (kpaging k)" and h: "held (a # pages)" "length pages = 16"
    and ow: "owned_table (pmem (kpaging k)) s 1 \<noteq> 0" and w: "window_ok d pages a (pmem (kpaging k))"
    and m: "\<forall>x < 0x10000. pmem (kpaging k) (byte_at pages x) = (if x < n then img ! x else 0)" and e: "exits_contained enter entry img n"
  shows "\<exists>code k'. enter_program L enter entry s a pages process k = Some (code, k') \<and> settled L U A (kpaging k')"
proof -
  note k = space_okD [OF progD(1) [OF p] refl progD(2) [OF p, symmetric]]
  define k1 where "k1 = (upd_process process (\<lambda>p. p\<lparr>address_space := s\<rparr>) k)\<lparr>kpaging := paging_switch_address_space s (kpaging k)\<rparr>"
  have k1: "pmem (kpaging k1) = pmem (kpaging k)" "ppmm (kpaging k1) = ppmm (kpaging k)" "cr3 (kpaging k1) = d"
    using progD(2) [OF p] k(1,4) by (simp_all add: k1_def paging_switch_address_space_def)
  have "image_in_memory img n (kpaging k1)" using window_image [of d pages a "kpaging k1"] w k1 h m by simp
  then obtain code k2 where k2: "enter entry (USER_STACK_BASE + PAGE_SIZE) k1 = Some (code, k2)" "ppmm (kpaging k2) = ppmm (kpaging k1)"
    "same_except (user_frames (kpaging k1)) (pmem (kpaging k1)) (pmem (kpaging k2))" using e unfolding exits_contained_def by blast
  define st3 where "st3 = paging_switch_address_space (paging_kernel_address_space L) (kpaging k2)"
  have "same_except (pgs pages \<union> {pg a}) (pmem (kpaging k)) (pmem (kpaging k2))"
    using same_except_mono [OF k2(3) window_frames [of d pages a "kpaging k1"]] w h k1 by simp
  note P = prog_mem [OF p this, of st3]
  have "kernel_words L \<inter> (pgs pages \<union> {pg a}) = {}" using progD(5,10) [OF p] by (auto simp: home_def)
  then have st3: "pmem st3 = pmem (kpaging k2)" "ppmm st3 = ppmm (kpaging k)" "home L A st3"
    using k2(2) k1(2) home_switch [OF progD(10) [OF p] \<open>same_except (pgs pages \<union> {pg a}) _ _\<close>] by (simp_all add: st3_def paging_kernel_address_space_def)
  have "prog L U A s d (pgs pages \<union> {pg a}) st3" "owned_table (pmem st3) s 1 \<noteq> 0" using P(1,3) [OF st3] ow st3(1) by simp_all
  from leave_ok [OF this(1) h this(2)] obtain st4 st5 st6 where
    l: "give_page a (paging_unmap_page_in_space s USER_STACK_BASE st3) = Some st4" "release_pages s 0 pages st4 = Some st5"
      "paging_destroy_address_space L s st5 = Some st6" "settled L U A st6" by blast
  show ?thesis
    unfolding enter_program_def Let_def using k2(1) l unfolding k1_def st3_def by (simp add: kpage_def)
qed

lemma same_exceptD: "same_except P m m' \<Longrightarrow> x div 4096 \<notin> P \<Longrightarrow> m' x = m x"
  by (simp add: same_except_def)

lemma loaded_memory:
  assumes h: "held (a # pages)" "length pages = 16" and n: "n \<le> 0x10000" "n \<le> length img"
    and m: "m = store_image pages 0 (take n img) (zero_bytes (unat a) 4096 (zero_pages pages m0))"
  shows "same_except (pgs pages \<union> {pg a}) m0 m" "x < 0x10000 \<Longrightarrow> m (byte_at pages x) = (if x < n then img ! x else 0)"
proof -
  let ?m1 = "zero_pages pages m0"
  let ?m2 = "zero_bytes (unat a) 4096 ?m1"
  have hp: "held pages" "page_base a = a" "pg a \<notin> pgs pages" using h(1) by (simp_all add: held_Cons)
  have len: "0 + length (take n img) \<le> 4096 * length pages" using n h(2) by simp
  note S = store_image_ok [OF hp(1) len, of ?m2]
  have s1: "same_except (pgs pages \<union> {pg a}) m0 ?m1" by (rule same_except_mono [OF zero_pages_same [OF hp(1)]]) (rule Un_upper1)
  have s2: "same_except (pgs pages \<union> {pg a}) ?m1 ?m2" by (rule same_except_mono [OF zero_page_same_except [OF hp(2)]]) (rule Un_upper2)
  have s3: "same_except (pgs pages \<union> {pg a}) ?m2 m" unfolding m by (rule same_except_mono [OF conjunct1 [OF S]]) (rule Un_upper1)
  show "same_except (pgs pages \<union> {pg a}) m0 m" by (rule same_except_trans [OF s1 same_except_trans [OF s2 s3]])
  show "m (byte_at pages x) = (if x < n then img ! x else 0)" if x: "x < 0x10000"
  proof -
    let ?p = "pages ! (x div 4096)"
    have "x div 4096 < length pages" using x h(2) by simp
    then have p: "?p \<in> set pages" "page_base ?p = ?p" using hp(1) by (simp_all add: held_def)
    have "(unat ?p + x mod 4096) div 4096 = pg ?p" by (rule page_byte [OF p(2)]) simp
    moreover have "pg ?p \<noteq> pg a"
    proof
      assume "pg ?p = pg a"
      then have "pg a \<in> pgs pages" using imageI [OF p(1), of "\<lambda>a. pg a"] by (simp only:)
      then show False using hp(3) by (simp only: not_True_eq_False)
    qed
    ultimately have "(unat ?p + x mod 4096) div 4096 \<notin> {pg a}" by (simp only: singleton_iff not_False_eq_True)
    then have "?m2 (byte_at pages x) = ?m1 (byte_at pages x)" by (rule same_exceptD [OF zero_page_same_except [OF hp(2)]])
    also have "\<dots> = 0" by (rule zero_pages_zero [OF hp(1) p(1)]) simp
    finally have z: "?m2 (byte_at pages x) = 0" .
    have "x < 4096 * length pages" using x h(2) by simp
    then have "m (byte_at pages x) = (if 0 \<le> x \<and> x < 0 + length (take n img) then take n img ! (x - 0) else ?m2 (byte_at pages x))"
      unfolding m by (rule conjunct2 [OF S, rule_format])
    then show ?thesis unfolding z using n by simp
  qed
qed

lemma start_program_ok:
  assumes p: "prog L U A s d (pgs pages \<union> {pg a}) (kpaging k)" and h: "held (a # pages)" "length pages = 16"
    and ow: "owned_table (pmem (kpaging k)) s 1 \<noteq> 0" and w: "window_ok d pages a (pmem (kpaging k))"
    and n: "unat image_size \<le> 0x10000" "unat image_size \<le> length img" and e: "exits_contained enter entry img (unat image_size)"
  shows "\<exists>code k'. start_program L enter name entry img image_size s a pages k = Some (code, k') \<and> settled L U A (kpaging k')"
proof -
  define m where "m = store_image pages 0 (take (unat image_size) img) (zero_bytes (unat a) 4096 (zero_pages pages (pmem (kpaging k))))"
  define k1 where "k1 = k\<lparr>kpaging := (kpaging k)\<lparr>pmem := m\<rparr>\<rparr>"
  note M = loaded_memory [OF h n m_def]
  have "kernel_words L \<inter> (pgs pages \<union> {pg a}) = {}" using progD(5,10) [OF p] by (auto simp: home_def)
  then have k1: "pmem (kpaging k1) = m" "ppmm (kpaging k1) = ppmm (kpaging k)" "home L A (kpaging k1)"
    using home_frame [OF progD(10) [OF p], of "pgs pages \<union> {pg a}" "kpaging k1"] M(1) by (simp_all add: k1_def)
  note P = prog_mem [OF p M(1) k1]
  have ow1: "owned_table (pmem (kpaging k1)) s 1 \<noteq> 0" using P(3) [of 1] ow k1(1) by simp
  have w1: "window_ok d pages a (pmem (kpaging k1))" using w P(2) unfolding window_ok_def k1(1) by simp
  obtain r k2 where al: "allocate_process name entry k1 = (r, k2)" by fastforce
  then have kp: "kpaging k2 = kpaging k1" by simp
  have start: "start_program L enter name entry img image_size s a pages k =
      (case r of None \<Rightarrow> do { k \<leftarrow> kpage (\<lambda>st. do { st \<leftarrow> release_pages s 0 pages (paging_unmap_page_in_space s USER_STACK_BASE st); abandon L s a st }) k2; Some (- 25, k) }
       | Some process \<Rightarrow> enter_program L enter entry s a pages process k2)"
    unfolding start_program_def Let_def m_def [symmetric] k1_def [symmetric] using n(2) al by (simp split: option.splits)
  show ?thesis
  proof (cases r)
    case None
    let ?u = "paging_unmap_page_in_space s USER_STACK_BASE (kpaging k1)"
    have "prog L U A s d (pgs pages \<union> {pg a}) ?u" "owned_table (pmem ?u) s 1 \<noteq> 0"
      using prog_unmap [OF P(1) stack_base_facts(2) [symmetric] _ _ ow1] by simp_all
    from release_abandon_ok [OF this(1) h this(2)] show ?thesis using None start kp by (auto simp: kpage_def)
  next
    case (Some process)
    have "\<forall>x < 0x10000. pmem (kpaging k2) (byte_at pages x) = (if x < unat image_size then img ! x else 0)" using M(2) by (simp add: kp k1)
    then show ?thesis using enter_program_ok [of L U A s d pages a k2, OF _ h _ _ _ e, of process] P(1) ow1 w1 kp start Some by simp
  qed
qed

lemma map_program_ok:
  assumes p: "prog L U A s d (pgs pages \<union> {pg a}) (kpaging k)" and h: "held (a # pages)" "length pages = 16"
    and n: "unat image_size \<le> 0x10000" "unat image_size \<le> length img" and e: "exits_contained enter entry img (unat image_size)"
  shows "\<exists>code k'. map_program L enter name entry img image_size s a pages k = Some (code, k') \<and> settled L U A (kpaging k')"
proof -
  have hp: "held pages" "page_base a = a" "pgs pages \<inter> {pg a} = {}" using h(1) by (auto simp: held_Cons)
  have len: "0 + length pages \<le> 16" "\<forall>b \<in> set pages. page_base b = b" using h(2) hp(1) by (simp_all add: held_def)
  from map_pages_ok [OF p len] obtain ok i st1 where mp: "map_pages L s 0 pages (kpaging k) = Some (ok, i, st1)" "prog L U A s d (pgs pages \<union> {pg a}) st1" "i \<le> 16"
    "0 < i \<longrightarrow> owned_table (pmem st1) s 1 \<noteq> 0"
    "ok \<longrightarrow> i = 0 + length pages \<and> (\<forall>vb. walk (pmem st1) d vb = seen_at 0 pages vb (walk (pmem (kpaging k)) d vb))" by auto
  show ?thesis
  proof (cases ok)
    case False
    have "0 + i \<le> 16" using mp(3) by simp
    from unmap_pages_ok [OF mp(2) this mp(4)] obtain st2 where "give_pages pages (unmap_pages s 0 i st1) = Some st2" "prog L U A s d {pg a} st2"
      using give_pages_ok [OF _ hp(1,3)] by blast
    then show ?thesis using abandon_ok [OF _ hp(2)] False mp(1) by (fastforce simp: map_program_def)
  next
    case True
    have ow: "owned_table (pmem st1) s 1 \<noteq> 0" using mp(4,5) True h(2) by simp
    have di: "0 < directory_index USER_STACK_BASE" "directory_index USER_STACK_BASE < 1023" using stack_base_facts(2) by simp_all
    from prog_map [OF mp(2) di flags_base, of a] show ?thesis
    proof (elim disjE exE conjE)
      assume "paging_map_page_in_space L s USER_STACK_BASE a USER_PAGE_FLAGS st1 = Some (False, st1)"
      then show ?thesis using release_abandon_ok [OF mp(2) h ow] True mp(1) by (auto simp: map_program_def)
    next
      fix st2
      assume r: "paging_map_page_in_space L s USER_STACK_BASE a USER_PAGE_FLAGS st1 = Some (True, st2)" "prog L U A s d (pgs pages \<union> {pg a}) st2"
        "owned_table (pmem st2) s (directory_index USER_STACK_BASE) \<noteq> 0"
        "\<forall>vb. walk (pmem st2) d vb = (if pg vb = pg USER_STACK_BASE then page_base a OR (vb AND (PAGE_SIZE - 1)) else walk (pmem st1) d vb)"
      have "window_ok d pages a (pmem st2)"
        using r(4) mp(5) True h(2) hp(2) unfolding stack_base_facts(1) window_ok_def seen_at_def by simp
      then show ?thesis using start_program_ok [of L U A s d pages a "k\<lparr>kpaging := st2\<rparr>", OF _ h _ _ n e, of name] r(1-3) stack_base_facts(2) True mp(1)
        by (simp add: map_program_def)
    qed
  qed
qed

lemma kernel_ok_mono:
  assumes "kernel_ok L st" "pmem st' = pmem st" "avail (ppmm st') \<subseteq> avail (ppmm st)"
  shows "kernel_ok L st'"
  using assms by (auto simp: kernel_ok_def Let_def)

lemma create_prog:
  assumes K: "kernel_ok L st" and inv: "pmm_inv U (ppmm st)" and low: "walk (pmem st) (kernel_page_directory L) 0x1000 \<noteq> 0"
    and A: "A = insert (pg a) (avail (ppmm st))" "A \<subseteq> U" and a: "pg a \<notin> avail (ppmm st)" "\<forall>q < pg a. q \<notin> A"
      "pg a \<notin> tables (pmem st) (kernel_page_directory L)"
    and c: "paging_create_address_space L st = Some (s, st1)" "s \<noteq> 0" and h: "home L A st" "\<forall>q \<in> A. Suc q \<notin> kernel_words L"
  shows "\<exists>d. prog L U A s d {pg a} st1"
proof -
  let ?kd = "kernel_page_directory L"
  obtain d where d: "page_directory (pmem st1) s = d" "\<And>j. j < 1024 \<Longrightarrow> entry_at (pmem st1) d j = entry_at (pmem st) ?kd j"
    "pg d = Suc (pg s) \<and> owned_table (pmem st1) s 1023 = entry_at (pmem st) ?kd 0 \<or> Suc (pg s) \<notin> avail (ppmm st) \<and> owned_table (pmem st1) s 1023 = 0"
    using create_entries [OF K inv c] by metis
  have C: "space_ok L st1 s" "pmm_inv U (ppmm st1)" "private_pages (pmem st1) s \<subseteq> avail (ppmm st)"
    "avail (ppmm st1) = avail (ppmm st) - private_pages (pmem st1) s" "\<forall>va. paging_get_physical_in_space s va st1 = walk (pmem st) ?kd va"
    "same_except (insert (Suc (pg s)) (private_pages (pmem st1) s)) (pmem st) (pmem st1)"
    using create_space_ok [OF K inv] c by auto
  have tb: "tables (pmem st1) d = tables (pmem st) ?kd" unfolding tables_def using d(2) by (intro image_cong) auto
  have sd: "pg s \<in> avail (ppmm st)" "pg d \<in> avail (ppmm st)" using C(3) private_pages_self(1,2) [where m = "pmem st1" and s = s] d(1) by auto
  have "walk (pmem st1) d 0x1000 \<noteq> 0" using spec [OF C(5), of "0x1000"] low d(1) by (simp add: get_physical_walk split: if_splits)
  moreover have "Suc (pg s) \<noteq> pg a"
  proof -
    have "\<not> pg s < pg a" using a(2) sd(1) A(1) by blast
    then show ?thesis by linarith
  qed
  moreover have "private_pages (pmem st1) s \<union> avail (ppmm st1) \<union> {pg a} = A" using A(1) C(3,4) by blast
  moreover have "{pg a} \<inter> avail (ppmm st1) = {}" "{pg a} \<inter> ({pg s, pg d} \<union> tables (pmem st1) d) = {}"
    using a(1,3) sd C(4) tb by auto
  moreover have "kernel_words L \<inter> insert (Suc (pg s)) (private_pages (pmem st1) s) = {}"
    using h C(3) sd(1) A(1) by (auto simp: home_def)
  then have "home L A st1" by (rule home_frame [OF h(1) C(6) _ create_space_registers [OF c(1)]])
  ultimately have "prog L U A s d {pg a} st1" using C(1,2) d(1,3) A unfolding prog_def by auto
  then show ?thesis ..
qed

lemma stack_taken:
  assumes K: "kernel_ok L st" and inv: "pmm_inv U (ppmm st)"
  obtains (none) "take_page st = Some (0, st)" "avail (ppmm st) = {}"
  | (page) a st1 where "take_page st = Some (a, st1)" "a \<noteq> 0" "page_base a = a" "kernel_ok L st1" "pmm_inv U (ppmm st1)" "pmem st1 = pmem st"
      "avail (ppmm st) = insert (pg a) (avail (ppmm st1))" "pg a \<notin> avail (ppmm st1)" "\<forall>q < pg a. q \<notin> avail (ppmm st)"
      "pg a \<notin> tables (pmem st1) (kernel_page_directory L)"
  using inv
proof (cases rule: pmm_alloc_page_spec)
  case none
  then show ?thesis using that(1) by (simp add: take_page_def)
next
  case (page a p)
  define st1 where "st1 = st\<lparr>ppmm := p\<rparr>"
  have st1: "pmem st1 = pmem st" "ppmm st1 = p" by (simp_all add: st1_def)
  have av: "avail (ppmm st) = insert (pg a) (avail (ppmm st1))" "pg a \<notin> avail (ppmm st1)" using page(4,5) st1(2) by auto
  then have "kernel_ok L st1" by (intro kernel_ok_mono [OF K st1(1)]) blast
  moreover have "pg a \<notin> tables (pmem st1) (kernel_page_directory L)" using K page(4) unfolding st1(1) kernel_ok_def Let_def by blast
  moreover have "take_page st = Some (a, st1)" using page(1) by (simp add: take_page_def st1_def)
  moreover have "pmm_inv U (ppmm st1)" using page(6) st1(2) by simp
  ultimately show ?thesis using that(2) page(2,3,7) st1(1) av by blast
qed

lemma run_after_create:
  assumes p: "prog L U A s d {pg a} st" and a: "page_base a = a" "a \<noteq> 0"
    and n: "unat image_size \<le> 0x10000" "unat image_size \<le> length img" and e: "exits_contained enter entry img (unat image_size)"
  shows "\<exists>code k'. do { (ok, pages, st) \<leftarrow> take_pages USER_IMAGE_PAGES [] st;
            if \<not> ok then do { st \<leftarrow> give_pages pages st; st \<leftarrow> abandon L s a st; Some (- 22, k\<lparr>kpaging := st\<rparr>) }
            else map_program L enter name entry img image_size s a pages (k\<lparr>kpaging := st\<rparr>) } = Some (code, k') \<and> settled L U A (kpaging k')"
proof -
  have "prog L U A s d (pgs [] \<union> {pg a}) st" "held []" "pgs [] \<inter> {pg a} = {}" using p by (simp_all add: held_def)
  from take_pages_ok [OF this, of 16] obtain ok pages st1 where t: "take_pages 16 [] st = Some (ok, pages, st1)" "prog L U A s d (pgs pages \<union> {pg a}) st1"
    "held pages" "pgs pages \<inter> {pg a} = {}" "ok \<longrightarrow> length pages = length ([] :: u32 list) + 16" by blast
  show ?thesis
  proof (cases ok)
    case False
    obtain st2 where g: "give_pages pages st1 = Some st2" "prog L U A s d {pg a} st2" using give_pages_ok [OF t(2,3,4)] by blast
    obtain st3 where "abandon L s a st2 = Some st3" "settled L U A st3" using abandon_ok [OF g(2) a(1)] by blast
    then show ?thesis using t(1) False g(1) by simp
  next
    case True
    have h: "held (a # pages)" "length pages = 16" using t(3,4,5) True a by (auto simp: held_Cons)
    have "prog L U A s d (pgs pages \<union> {pg a}) (kpaging (k\<lparr>kpaging := st1\<rparr>))" using t(2) by simp
    from map_program_ok [OF this h n e, of name] show ?thesis using t(1) True by simp
  qed
qed

section \<open>When the program is entered\<close>

text \<open>A loader that could only enter the program with its image in place: any other entry is a failure. Whatever
  the loader does with this restricted entry it does with the real one.\<close>

definition only_prepared :: "u8 list \<Rightarrow> nat \<Rightarrow> ('d, 'x) enter \<Rightarrow> ('d, 'x) enter" where
  "only_prepared img n enter = (\<lambda>entry sp k. if image_in_memory img n (kpaging k) then enter entry sp k else None)"

lemma option_mono:
  "Option.bind x f = Some r \<Longrightarrow> (\<And>a. f a = Some r \<Longrightarrow> g a = Some r) \<Longrightarrow> Option.bind x g = Some r"
  "(case p of (a, b) \<Rightarrow> f2 a b) = Some r \<Longrightarrow> (\<And>a b. f2 a b = Some r \<Longrightarrow> g2 a b = Some r) \<Longrightarrow> (case p of (a, b) \<Rightarrow> g2 a b) = Some r"
  "(if c then y else z) = Some r \<Longrightarrow> (y = Some r \<Longrightarrow> y' = Some r) \<Longrightarrow> (z = Some r \<Longrightarrow> z' = Some r) \<Longrightarrow> (if c then y' else z') = Some r"
  "(case v of None \<Rightarrow> n | Some a \<Rightarrow> s a) = Some r \<Longrightarrow> (n = Some r \<Longrightarrow> n' = Some r) \<Longrightarrow> (\<And>a. s a = Some r \<Longrightarrow> s' a = Some r)
     \<Longrightarrow> (case v of None \<Rightarrow> n' | Some a \<Rightarrow> s' a) = Some r"
  by (cases x, simp_all) (cases p, simp, cases c, simp_all, cases v, simp_all)

lemma enter_program_mono:
  assumes "enter_program L (only_prepared img n enter) entry s a pages process k = Some r"
  shows "enter_program L enter entry s a pages process k = Some r"
proof -
  have "Option.bind x f = Some r \<Longrightarrow> x = None \<or> x = x' \<Longrightarrow> Option.bind x' f = Some r" for x x' :: "(int \<times> ('a, 'b) kernel_scheme) option" and f
    by auto
  then show ?thesis using assms unfolding enter_program_def Let_def only_prepared_def by simp
qed

lemma start_program_mono:
  assumes "start_program L (only_prepared img n enter) name entry bs sz s a pages k = Some r"
  shows "start_program L enter name entry bs sz s a pages k = Some r"
  using assms unfolding start_program_def Let_def by (elim option_mono) (assumption | erule enter_program_mono)+

lemma map_program_mono:
  assumes "map_program L (only_prepared img n enter) name entry bs sz s a pages k = Some r"
  shows "map_program L enter name entry bs sz s a pages k = Some r"
  using assms unfolding map_program_def by (elim option_mono) (assumption | erule start_program_mono)+

lemma run_loaded_image_mono:
  assumes "run_loaded_image L (only_prepared img n enter) name entry bs sz k = Some r"
  shows "run_loaded_image L enter name entry bs sz k = Some r"
  using assms unfolding run_loaded_image_def by (elim option_mono) (assumption | erule map_program_mono)+

lemma exits_contained_prepared: "exits_contained enter entry img n \<Longrightarrow> exits_contained (only_prepared img n enter) entry img n"
  by (simp add: exits_contained_def only_prepared_def)

lemma run_loaded_image_settled:
  assumes K: "kernel_ok L (kpaging k)" and inv: "pmm_inv U (ppmm (kpaging k))" and low: "walk (pmem (kpaging k)) (kernel_page_directory L) 0x1000 \<noteq> 0"
    and h: "home L (avail (ppmm (kpaging k))) (kpaging k)" "\<forall>q \<in> avail (ppmm (kpaging k)). Suc q \<notin> kernel_words L"
    and img: "unat image_size \<le> length img" and e: "exits_contained enter entry img (unat image_size)"
  shows "\<exists>code k'. run_loaded_image L enter name entry img image_size k = Some (code, k') \<and> settled L U (avail (ppmm (kpaging k))) (kpaging k')"
proof (cases "entry < USER_PROGRAM_BASE \<or> entry \<ge> USER_PROGRAM_BASE + USER_IMAGE_SIZE \<or> image_size > USER_IMAGE_SIZE")
  case True
  then show ?thesis using inv h(1) by (simp add: run_loaded_image_def settled_def home_def)
next
  case False
  then have n: "unat image_size \<le> 0x10000" by (auto simp: word_le_nat_alt word_less_nat_alt)
  note run = run_loaded_image_def [of L enter name entry img image_size k, unfolded if_not_P [OF False]]
  have reg: "current_space (kpaging k) = kernel_space L" "cr3 (kpaging k) = kernel_page_directory L" using h(1) by (simp_all add: home_def)
  from K inv show ?thesis
  proof (cases rule: stack_taken)
    case none
    obtain st' where c: "paging_create_address_space L (kpaging k) = Some (0, st')" "avail (ppmm st') = avail (ppmm (kpaging k))" "pmm_inv U (ppmm st')"
      using create_space_ok [OF K inv] none(2) private_pages_self(1) by blast
    then show ?thesis using none(1) create_space_registers [OF c(1)] reg unfolding run by (simp add: settled_def)
  next
    case (page a st1)
    have U: "avail (ppmm (kpaging k)) \<subseteq> U" using avail_usable [OF inv] .
    have st1: "home L (avail (ppmm (kpaging k))) st1" using h(1) page(1) by (auto simp: take_page_def bind_eq_Some_conv home_def)
    obtain s st2 where c: "paging_create_address_space L st1 = Some (s, st2)" "s = 0 \<longrightarrow> avail (ppmm st2) = avail (ppmm st1) \<and> pmm_inv U (ppmm st2)"
      using create_space_ok [OF page(4,5)] by (metis space_okD(1))
    show ?thesis
    proof (cases "s = 0")
      case True
      then have st2: "avail (ppmm st2) = avail (ppmm st1)" "pmm_inv U (ppmm st2)" using c(2) by simp_all
      have "pg a \<in> U" using U page(7) by blast
      then obtain q where "pmm_free_page a (ppmm st2) = Some q" "avail q = avail (ppmm (kpaging k))" "pmm_inv U q"
        using pmm_free_page_spec [OF st2(2) page(3)] st2(1) page(7) by auto
      then show ?thesis using page(1,2) c(1) True create_space_registers [OF c(1)] st1 unfolding run
        by (simp add: give_page_def settled_def home_def)
    next
      case False
      have "walk (pmem st1) (kernel_page_directory L) 0x1000 \<noteq> 0" using low page(6) by simp
      then obtain d where p: "prog L U (avail (ppmm (kpaging k))) s d {pg a} st2"
        using create_prog [OF page(4,5) _ page(7) U page(8,9,10) c(1) False st1 h(2)] by blast
      from run_after_create [OF p page(3,2) n img e, of k name] show ?thesis
        using page(1,2) c(1) False unfolding run by simp
    qed
  qed
qed

section \<open>Theorems\<close>

text \<open>C7. Running a program returns exactly the pages it took and leaves the kernel's address space in use: whatever
  happens between the allocation of the stack and the exit of the program - an entry point or size out of range, no
  page left for the space, the image or a table, a full process table, or a normal exit - \<open>run_loaded_image\<close> ends, the
  same pages are free as before, and the current space and CR3 are the kernel's. The result is the same when the
  entry to ring 3 is allowed only with the image, padded with zeros, visible at its base through CR3, so the loader
  never enters the program otherwise. Of a program entered that way it is assumed that it exits and writes to its
  own pages only; the kernel's space is current at the start and its structure lies outside, and not directly
  behind, the free pages.\<close>

theorem program_returns_pages:
  assumes "kernel_ok L (kpaging k)" "pmm_inv U (ppmm (kpaging k))" "walk (pmem (kpaging k)) (kernel_page_directory L) 0x1000 \<noteq> 0"
    "home L (avail (ppmm (kpaging k))) (kpaging k)" "\<forall>q \<in> avail (ppmm (kpaging k)). Suc q \<notin> kernel_words L"
    "unat image_size \<le> length img" "exits_contained enter entry img (unat image_size)"
  shows "\<exists>code k'. run_loaded_image L enter name entry img image_size k = Some (code, k')
     \<and> pmm_inv U (ppmm (kpaging k')) \<and> avail (ppmm (kpaging k')) = avail (ppmm (kpaging k))
     \<and> current_space (kpaging k') = kernel_space L \<and> cr3 (kpaging k') = kernel_page_directory L
     \<and> run_loaded_image L (only_prepared img (unat image_size) enter) name entry img image_size k = Some (code, k')"
  using run_loaded_image_settled [OF assms(1-6) exits_contained_prepared [OF assms(7)]] run_loaded_image_mono
  unfolding settled_def by blast

definition unused_process :: user_process where
  "unused_process = \<lparr>pid = 0, pstate = USER_PROCESS_UNUSED, pname = replicate USER_PROCESS_NAME_SIZE 0, pentry = 0, exit_code = 0, address_space = 0,
     fds = replicate USER_PROCESS_FD_COUNT closed_fd\<rparr>"

definition boot_kernel :: "drive kernel" where
  "boot_kernel = \<lparr>kpaging = boot_paging, kfs = blank_fs, ksched = cold_sched, ktimer = \<lparr>ticks = 0, configured_frequency = 100\<rparr>, next_pid = 1,
     processes = replicate USER_PROCESS_COUNT unused_process, current_process_index = - 1, load_image = replicate 65536 0\<rparr>"

lemma boot_home:
  "home boot_layout (avail (ppmm boot_paging)) boot_paging" "\<forall>q \<in> avail (ppmm boot_paging). Suc q \<notin> kernel_words boot_layout"
proof -
  have w: "kernel_words boot_layout = {96}" by (simp add: kernel_words_def boot_layout_def)
  have A: "avail (ppmm boot_paging) = {256..<1024}" by (simp add: boot_paging_ok(2) boot_pmm_ok(3))
  show "\<forall>q \<in> avail (ppmm boot_paging). Suc q \<notin> kernel_words boot_layout" by (simp add: w A)
  show "home boot_layout (avail (ppmm boot_paging)) boot_paging"
    unfolding home_def w A boot_paging_ok(4,7,8) by (simp add: boot_layout_def)
qed

theorem program_returns_pages_witness:
  "\<exists>code k'. run_loaded_image boot_layout (\<lambda>_ _ k. Some (42, k)) [0x61] 0x400000 [0xEB, 0xFE] 2 boot_kernel = Some (code, k')
     \<and> pmm_inv {256..<1024} (ppmm (kpaging k')) \<and> avail (ppmm (kpaging k')) = avail (ppmm (kpaging boot_kernel))
     \<and> current_space (kpaging k') = kernel_space boot_layout \<and> cr3 (kpaging k') = kernel_page_directory boot_layout
     \<and> run_loaded_image boot_layout (only_prepared [0xEB, 0xFE] (unat (2 :: u32)) (\<lambda>_ _ k. Some (42, k))) [0x61] 0x400000 [0xEB, 0xFE] 2 boot_kernel
         = Some (code, k')"
proof (rule program_returns_pages)
  show "exits_contained (\<lambda>_ _ k. Some (42, k)) 0x400000 [0xEB, 0xFE] (unat (2 :: u32))" by (simp add: exits_contained_def)
qed (simp_all add: boot_kernel_def boot_paging_ok(3,5) boot_inv low_memory_def boot_home)

end
