(* ===== verification/Usermode_Elf.thy ===== *)
theory Usermode_Elf
  imports Usermode_Run
begin

text \<open>The loader of ELF files against a reference on lists: segments of the file laid over a zeroed image, with
  the bounds checked on natural numbers. The two agree unless the sum of a segment's offset and size wraps
  around, and then the loader reads outside the file.\<close>

section \<open>Reference\<close>

definition overlay :: "u8 list \<Rightarrow> elf32_program_header \<Rightarrow> u8 list \<Rightarrow> u8 list" where
  "overlay file ph img =
     (let dst = unat (ph_vaddr ph) - 0x400000; n = unat (ph_filesz ph)
      in take dst img @ take n (drop (unat (ph_offset ph)) file) @ drop (dst + n) img)"

definition in_window :: "elf32_program_header \<Rightarrow> bool" where
  "in_window ph \<longleftrightarrow> 0x400000 \<le> unat (ph_vaddr ph) \<and> unat (ph_vaddr ph) + unat (ph_memsz ph) \<le> 0x410000"

definition in_file :: "nat \<Rightarrow> elf32_program_header \<Rightarrow> bool" where
  "in_file file_size ph \<longleftrightarrow> unat (ph_offset ph) + unat (ph_filesz ph) \<le> file_size \<and> ph_filesz ph \<le> ph_memsz ph"

fun load_spec :: "u8 list \<Rightarrow> nat \<Rightarrow> elf32_program_header list \<Rightarrow> bool \<Rightarrow> u8 list \<Rightarrow> int option \<times> bool \<times> u8 list" where
  "load_spec file file_size [] loaded img = (None, loaded, img)"
| "load_spec file file_size (ph # phs) loaded img =
     (if ph_type ph \<noteq> 1 then load_spec file file_size phs loaded img
      else if \<not> in_window ph then (Some (- 34), loaded, img)
      else if \<not> in_file file_size ph then (Some (- 35), loaded, img)
      else load_spec file file_size phs True (overlay file ph img))"

definition program_headers :: "u8 list \<Rightarrow> u32 \<Rightarrow> nat \<Rightarrow> nat \<Rightarrow> elf32_program_header list" where
  "program_headers file phoff i n = map (\<lambda>j. the (elf32_program_header_at file (unat phoff + j * 32))) [i..<i + n]"

definition offsets_fit :: "elf32_program_header list \<Rightarrow> bool" where
  "offsets_fit phs \<longleftrightarrow> list_all (\<lambda>ph. ph_offset ph \<le> ph_offset ph + ph_filesz ph) phs"

section \<open>The loop of one segment\<close>

lemma copy_segment_ok:
  assumes "unat offset + j + n \<le> length file" "unat destination + j + n \<le> length img" "length file < 2 ^ 32" "length img < 2 ^ 32"
  shows "copy_segment file offset destination j n img =
    Some (take (unat destination + j) img @ take n (drop (unat offset + j) file) @ drop (unat destination + j + n) img)"
  using assms
proof (induction n arbitrary: j img)
  case (Suc n)
  let ?from = "unat offset + j" and ?dst = "unat destination + j"
  have j: "unat (of_nat j :: u32) = j" using Suc.prems by (simp add: unsigned_of_nat take_bit_nat_eq_self_iff)
  have f: "unat (offset + of_nat j) = ?from" "unat (destination + of_nat j) = ?dst" using Suc.prems j by (simp_all add: unat_word_ariths)
  have l: "?from < length file" "?dst < length img" using Suc.prems by simp_all
  let ?img = "img[?dst := file ! ?from]"
  have "copy_segment file offset destination (Suc j) n ?img =
      Some (take (unat destination + Suc j) ?img @ take n (drop (unat offset + Suc j) file) @ drop (unat destination + Suc j + n) ?img)"
    using Suc.prems by (intro Suc.IH) simp_all
  moreover have "take (unat destination + Suc j) ?img = take ?dst img @ [file ! ?from]"
    using l(2) take_Suc_conv_app_nth [of ?dst ?img] by simp
  moreover have "take (Suc n) (drop ?from file) = file ! ?from # take n (drop (unat offset + Suc j) file)"
    using l(1) by (simp add: Cons_nth_drop_Suc [symmetric])
  moreover have "drop (unat destination + Suc j + n) ?img = drop (?dst + Suc n) img" by (simp add: drop_update_cancel)
  ultimately show ?case using l f by (simp add: Let_def)
qed simp

lemma window_words:
  "ph_vaddr ph < USER_PROGRAM_BASE \<or> ph_vaddr ph + ph_memsz ph < ph_vaddr ph \<or> ph_vaddr ph + ph_memsz ph > USER_PROGRAM_BASE + USER_IMAGE_SIZE
     \<longleftrightarrow> \<not> in_window ph"
proof -
  define v n where "v = unat (ph_vaddr ph)" and "n = unat (ph_memsz ph)"
  have b: "v < 4294967296" "n < 4294967296"
    using unsigned_less [of "ph_vaddr ph", where ?'a = nat] unsigned_less [of "ph_memsz ph", where ?'a = nat] by (simp_all add: v_def n_def)
  have "unat (ph_vaddr ph + ph_memsz ph) = (if v + n < 4294967296 then v + n else v + n - 4294967296)"
    using unat_plus_if' [of "ph_vaddr ph" "ph_memsz ph"] by (simp add: v_def n_def)
  then show ?thesis using b unfolding in_window_def word_less_nat_alt v_def [symmetric] n_def [symmetric] by auto
qed

lemma file_words:
  assumes "unat (ph_offset ph) + unat (ph_filesz ph) < 2 ^ 32" "file_size < 2 ^ 32"
  shows "ph_offset ph + ph_filesz ph > of_nat file_size \<or> ph_filesz ph > ph_memsz ph \<longleftrightarrow> \<not> in_file file_size ph"
proof -
  have "unat (ph_offset ph + ph_filesz ph) = unat (ph_offset ph) + unat (ph_filesz ph)" using assms(1) by (simp add: unat_word_ariths)
  moreover have "unat (of_nat file_size :: u32) = file_size" using assms(2) by (simp add: unsigned_of_nat take_bit_nat_eq_self_iff)
  ultimately show ?thesis by (auto simp: in_file_def word_less_nat_alt word_le_nat_alt)
qed

lemma program_headers_Suc:
  "program_headers file phoff i (Suc n) = the (elf32_program_header_at file (unat phoff + i * 32)) # program_headers file phoff (i + 1) n"
  unfolding program_headers_def by (simp add: upt_conv_Cons del: upt_Suc)

lemma overlay_length: "in_window ph \<Longrightarrow> in_file file_size ph \<Longrightarrow> file_size \<le> length file \<Longrightarrow> length img = 0x10000 \<Longrightarrow> length (overlay file ph img) = 0x10000"
  by (auto simp: overlay_def Let_def in_window_def in_file_def word_le_nat_alt)

lemma load_segments_spec:
  assumes "unat phoff + (i + n) * 32 \<le> file_size" "file_size \<le> length file" "length file < 2 ^ 32" "length img = 0x10000"
    "offsets_fit (program_headers file phoff i n)"
  shows "load_segments file (of_nat file_size) phoff i n loaded img = Some (load_spec file file_size (program_headers file phoff i n) loaded img)"
  using assms
proof (induction n arbitrary: i loaded img)
  case 0
  then show ?case by (simp add: program_headers_def)
next
  case (Suc n)
  define ph where "ph = the (elf32_program_header_at file (unat phoff + i * 32))"
  have "unat phoff + i * 32 + 32 \<le> length file" using Suc.prems(1,2) by simp
  then have at: "elf32_program_header_at file (unat phoff + i * 32) = Some ph" by (simp add: ph_def elf32_program_header_at_def)
  have hs: "program_headers file phoff i (Suc n) = ph # program_headers file phoff (i + 1) n" by (simp add: program_headers_Suc ph_def)
  have fit: "unat (ph_offset ph) + unat (ph_filesz ph) < 2 ^ 32" "offsets_fit (program_headers file phoff (i + 1) n)"
    using Suc.prems(5) unfolding hs by (simp_all add: offsets_fit_def no_wrap)
  have size: "file_size < 2 ^ 32" using Suc.prems(2,3) by simp
  have IH: "load_segments file (of_nat file_size) phoff (i + 1) n loaded' img' =
      Some (load_spec file file_size (program_headers file phoff (i + 1) n) loaded' img')" if "length img' = 0x10000" for loaded' img'
    using Suc.prems(1-3) fit(2) that by (intro Suc.IH) simp_all
  have copy: "copy_segment file (ph_offset ph) (ph_vaddr ph - USER_PROGRAM_BASE) 0 (unat (ph_filesz ph)) img = Some (overlay file ph img)"
    if "in_window ph" "in_file file_size ph"
  proof -
    have v: "unat (ph_vaddr ph - USER_PROGRAM_BASE) = unat (ph_vaddr ph) - 0x400000"
      using that(1) by (simp add: in_window_def unat_sub word_le_nat_alt)
    then show ?thesis using that Suc.prems(2-4) unfolding in_window_def in_file_def
      by (subst copy_segment_ok) (auto simp: overlay_def Let_def word_le_nat_alt)
  qed
  show ?case
  proof (cases "ph_type ph = 1 \<and> in_window ph \<and> in_file file_size ph")
    case True
    then show ?thesis using copy IH overlay_length [of ph file_size "file" img] Suc.prems(2,4) window_words [of ph] file_words [OF fit(1) size]
      unfolding hs by (simp add: at)
  next
    case False
    then show ?thesis using IH [OF Suc.prems(4)] window_words [of ph] file_words [OF fit(1) size] unfolding hs by (auto simp: at)
  qed
qed

lemma load_segments_wraps:
  assumes ph: "elf32_program_header_at file (unat phoff + i * 32) = Some ph" "ph_type ph = 1" "in_window ph" "ph_filesz ph \<le> ph_memsz ph"
    and "ph_offset ph + ph_filesz ph \<le> file_size" "0 < ph_filesz ph" "length file \<le> unat (ph_offset ph)"
  shows "load_segments file file_size phoff i (Suc n) loaded img = None"
proof -
  have "0 < unat (ph_filesz ph)" using assms(6) by (simp add: word_less_nat_alt)
  then obtain j where "unat (ph_filesz ph) = Suc j" using gr0_implies_Suc by blast
  then have "copy_segment file (ph_offset ph) (ph_vaddr ph - USER_PROGRAM_BASE) 0 (unat (ph_filesz ph)) img = None"
    using assms(7) by (simp add: not_less [symmetric])
  then show ?thesis using ph assms(5) window_words [of ph] by (auto simp: not_less)
qed

section \<open>Theorems\<close>

text \<open>C8. The ELF loader implements the reference: for a file whose header passes the checks and whose sums do not
  wrap around, \<open>run_elf_program\<close> never reads or writes out of bounds, gives the error code of the first bad
  segment, and otherwise runs the image that results from laying the segments of the file, in order, over zeros.\<close>

theorem elf_load_exact:
  assumes "52 \<le> file_size" "file_size \<le> length file" "length file < 2 ^ 32" "elf = elf32_header_of file"
    "elf_header_error elf (of_nat file_size) = None" "eh_phoff elf \<le> eh_phoff elf + ucast (eh_phnum elf) * 32"
    "phs = program_headers file (eh_phoff elf) 0 (unat (eh_phnum elf))" "offsets_fit phs"
  shows "run_elf_program L enter name file file_size k =
     (case load_spec file file_size phs False (replicate 0x10000 0) of
        (Some e, _, img) \<Rightarrow> Some (e, k\<lparr>load_image := img\<rparr>)
      | (None, loaded, img) \<Rightarrow>
          if \<not> loaded then Some (- 36, k\<lparr>load_image := img\<rparr>)
          else run_loaded_image L enter name (eh_entry elf) img USER_IMAGE_SIZE (k\<lparr>load_image := img\<rparr>))"
proof -
  have b: "unat (eh_phnum elf) < 65536" using unsigned_less [of "eh_phnum elf", where ?'a = nat] by simp
  then have "unat (ucast (eh_phnum elf) :: u32) = unat (eh_phnum elf)" by (simp add: unsigned_ucast_eq take_bit_nat_eq_self)
  then have u: "unat (ucast (eh_phnum elf) * 32 :: u32) = unat (eh_phnum elf) * 32" using b by (simp add: unat_word_ariths)
  have "unat (of_nat file_size :: u32) = file_size" using assms(2,3) by (simp add: unsigned_of_nat take_bit_nat_eq_self_iff)
  moreover have "eh_phoff elf + ucast (eh_phnum elf) * 32 \<le> of_nat file_size"
    using assms(5) by (auto simp: elf_header_error_def not_less split: if_splits)
  moreover have "unat (eh_phoff elf + ucast (eh_phnum elf) * 32) = unat (eh_phoff elf) + unat (eh_phnum elf) * 32"
    using assms(6) u unfolding no_wrap by (simp add: unat_word_ariths)
  ultimately have "unat (eh_phoff elf) + (0 + unat (eh_phnum elf)) * 32 \<le> file_size" by (simp add: word_le_nat_alt)
  from load_segments_spec [OF this assms(2,3) _ assms(8) [unfolded assms(7)], of "replicate 0x10000 0" False]
  have "load_segments file (of_nat file_size) (eh_phoff elf) 0 (unat (eh_phnum elf)) False (replicate 0x10000 0)
      = Some (load_spec file file_size phs False (replicate 0x10000 0))" by (simp add: assms(7))
  moreover have "unat USER_IMAGE_SIZE = 0x10000" by simp
  ultimately show ?thesis unfolding run_elf_program_def Let_def assms(4) [symmetric] using assms(1,5)
    by (simp split: prod.splits option.splits)
qed

text \<open>A file with one segment of two bytes, and one whose segment starts 16 bytes before the end of the address
  space.\<close>

definition elf_sample :: "u32 \<Rightarrow> u32 \<Rightarrow> u8 list" where
  "elf_sample offset sz = [0x7F, 0x45, 0x4C, 0x46, 1, 1, 1, 0, 0, 0, 0, 0, 0, 0, 0, 0, 2, 0, 3, 0, 1, 0, 0, 0, 0, 0, 0x40, 0, 52, 0, 0, 0, 0, 0, 0, 0,
     0, 0, 0, 0, 52, 0, 32, 0, 1, 0, 0, 0, 0, 0, 0, 0, 1, 0, 0, 0] @ u32_bytes offset @ [0, 0, 0x40, 0, 0, 0, 0x40, 0] @ u32_bytes sz @ u32_bytes sz
     @ [7, 0, 0, 0, 0, 0x10, 0, 0, 0xEB, 0xFE]"

lemma elf_sample_header:
  "elf_header_error (elf32_header_of (elf_sample offset sz)) 86 = None" "eh_phoff (elf32_header_of (elf_sample offset sz)) = 52"
  "eh_phnum (elf32_header_of (elf_sample offset sz)) = 1" "eh_entry (elf32_header_of (elf_sample offset sz)) = 0x400000" "length (elf_sample offset sz) = 86"
  by (simp_all add: elf_header_error_def elf32_header_of_def elf_sample_def dec16_def dec32_def le32_def u32_bytes_def)

lemma elf_sample_segment:
  "elf32_program_header_at (elf_sample 84 2) 52 = Some \<lparr>ph_type = 1, ph_offset = 84, ph_vaddr = 0x400000, ph_filesz = 2, ph_memsz = 2\<rparr>"
  "elf32_program_header_at (elf_sample 0xFFFFFFF0 0x20) 52 = Some \<lparr>ph_type = 1, ph_offset = 0xFFFFFFF0, ph_vaddr = 0x400000, ph_filesz = 0x20, ph_memsz = 0x20\<rparr>"
  by (simp_all add: elf32_program_header_at_def elf_sample_def dec32_def le32_def u32_bytes_def)

theorem elf_load_exact_witness:
  "run_elf_program boot_layout (\<lambda>_ _ k. Some (42, k)) [0x61] (elf_sample 84 2) 86 boot_kernel =
     (case load_spec (elf_sample 84 2) 86 [\<lparr>ph_type = 1, ph_offset = 84, ph_vaddr = 0x400000, ph_filesz = 2, ph_memsz = 2\<rparr>] False (replicate 0x10000 0) of
        (Some e, _, img) \<Rightarrow> Some (e, boot_kernel\<lparr>load_image := img\<rparr>)
      | (None, loaded, img) \<Rightarrow>
          if \<not> loaded then Some (- 36, boot_kernel\<lparr>load_image := img\<rparr>)
          else run_loaded_image boot_layout (\<lambda>_ _ k. Some (42, k)) [0x61] (eh_entry (elf32_header_of (elf_sample 84 2))) img USER_IMAGE_SIZE
            (boot_kernel\<lparr>load_image := img\<rparr>))"
 
proof (rule elf_load_exact [OF _ _ _ refl])
  show "[\<lparr>ph_type = 1, ph_offset = 84, ph_vaddr = 0x400000, ph_filesz = 2, ph_memsz = 2\<rparr>] =
      program_headers (elf_sample 84 2) (eh_phoff (elf32_header_of (elf_sample 84 2))) 0 (unat (eh_phnum (elf32_header_of (elf_sample 84 2))))"
    by (simp add: program_headers_def elf_sample_header elf_sample_segment)
qed (simp_all add: elf_sample_header offsets_fit_def)

text \<open>A segment whose offset and size wrap around passes the loader's check and makes it read outside the
  file: the sum of the two is compared with the size of the file after it has wrapped.\<close>

theorem elf_offset_wraps:
  assumes "52 \<le> file_size" "elf_header_error (elf32_header_of file) (of_nat file_size) = None"
    "elf32_program_header_at file (unat (eh_phoff (elf32_header_of file))) = Some ph" "ph_type ph = 1" "in_window ph" "ph_filesz ph \<le> ph_memsz ph"
    "ph_offset ph + ph_filesz ph \<le> of_nat file_size" "0 < ph_filesz ph" "length file \<le> unat (ph_offset ph)"
  shows "run_elf_program L enter name file file_size k = None"
proof -
  let ?elf = "elf32_header_of file"
  have "eh_phnum ?elf \<noteq> 0" using assms(2) by (auto simp: elf_header_error_def split: if_splits)
  then obtain n where n: "unat (eh_phnum ?elf) = Suc n" using not0_implies_Suc by (metis unat_eq_zero)
  have at: "elf32_program_header_at file (unat (eh_phoff ?elf) + 0 * 32) = Some ph" using assms(3) by simp
  show ?thesis using load_segments_wraps [OF at assms(4-9)] assms(1,2) unfolding run_elf_program_def Let_def n by simp
qed

theorem elf_offset_wraps_witness:
  "run_elf_program boot_layout (\<lambda>_ _ k. Some (42, k)) [0x61] (elf_sample 0xFFFFFFF0 0x20) 86 boot_kernel = None"
  by (rule elf_offset_wraps [where ph = "\<lparr>ph_type = 1, ph_offset = 0xFFFFFFF0, ph_vaddr = 0x400000, ph_filesz = 0x20, ph_memsz = 0x20\<rparr>"])
    (simp_all add: elf_sample_header elf_sample_segment in_window_def)

end
