(* ===== verification/Usermode_Table.thy ===== *)
theory Usermode_Table
  imports Usermode_Run
begin

text \<open>The invariant of the process table over every order of starting, exiting, reaping and file operations, and
  what waiting for a process returns.\<close>

section \<open>Invariant\<close>

definition process_ok :: "user_process \<Rightarrow> bool" where
  "process_ok p \<longleftrightarrow> length (pname p) = USER_PROCESS_NAME_SIZE \<and> 0 \<in> set (pname p) \<and> length (fds p) = USER_PROCESS_FD_COUNT"

definition live_process :: "user_process \<Rightarrow> bool" where
  "live_process p \<longleftrightarrow> pstate p \<noteq> USER_PROCESS_UNUSED"

definition pids_ok :: "u32 \<Rightarrow> user_process list \<Rightarrow> bool" where
  "pids_ok next ps \<longleftrightarrow> (\<forall>i < length ps. live_process (ps ! i) \<longrightarrow> 0 < pid (ps ! i) \<and> pid (ps ! i) < next
     \<and> (\<forall>j < length ps. live_process (ps ! j) \<longrightarrow> pid (ps ! j) = pid (ps ! i) \<longrightarrow> j = i))"

definition table_inv :: "('d, 'x) kernel_scheme \<Rightarrow> bool" where
  "table_inv k \<longleftrightarrow> length (processes k) = USER_PROCESS_COUNT \<and> (\<forall>p \<in> set (processes k). process_ok p)
     \<and> - 1 \<le> current_process_index k \<and> current_process_index k < int USER_PROCESS_COUNT \<and> 0 < next_pid k \<and> pids_ok (next_pid k) (processes k)"

text \<open>The operations on the table, in any order. A process is started while process numbers last.\<close>

inductive table_step :: "'d blockdev \<Rightarrow> ('d, 'x) kernel_scheme \<Rightarrow> ('d, 'x) kernel_scheme \<Rightarrow> bool" for bd where
  start: "next_pid k + 1 \<noteq> 0 \<Longrightarrow> allocate_process name entry k = (r, k') \<Longrightarrow> table_step bd k k'"
| space: "i < USER_PROCESS_COUNT \<Longrightarrow> table_step bd k (upd_process i (\<lambda>p. p\<lparr>address_space := s\<rparr>) k)"
| exit: "i < USER_PROCESS_COUNT \<Longrightarrow> pstate (processes k ! i) = USER_PROCESS_RUNNING
    \<Longrightarrow> table_step bd k (upd_process i (\<lambda>p. p\<lparr>exit_code := c, pstate := USER_PROCESS_EXITED\<rparr>) k)"
| leave: "table_step bd k (k\<lparr>current_process_index := - 1\<rparr>)"
| reap: "user_process_reap_exited k = (n, k') \<Longrightarrow> table_step bd k k'"
| fd_open: "user_process_fd_open path k = (r, k') \<Longrightarrow> table_step bd k k'"
| fd_read: "user_process_fd_read bd fd buffer sz k = (r, bytes, k') \<Longrightarrow> table_step bd k k'"
| fd_close: "user_process_fd_close fd k = (r, k') \<Longrightarrow> table_step bd k k'"
| close_all: "table_step bd k (user_process_close_all k)"

section \<open>Preservation\<close>

lemma copy_name_from_ok:
  "i < length dst \<Longrightarrow> length dst = 32 \<Longrightarrow> length (copy_name_from dst i src) = 32 \<and> 0 \<in> set (copy_name_from dst i src)"
proof (induction dst i src rule: copy_name_from.induct)
  case (1 dst i)
  then show ?case by (metis copy_name_from.simps(1) length_list_update set_update_memI)
next
  case (2 dst i c src)
  then show ?case by (auto simp: set_update_memI)
qed

lemma upd_process_fields [simp]: "next_pid (upd_process i f k) = next_pid k" "current_process_index (upd_process i f k) = current_process_index k"
  "processes (upd_process i f k) = (processes k)[i := f (processes k ! i)]" "kfs (upd_process i f k) = kfs k"
  by (simp_all add: upd_process_def)

text \<open>A change that keeps a process well-formed, its number and whether it is live.\<close>

lemma pids_ok_update:
  assumes "pids_ok n ps" "i < length ps" "pid p = pid (ps ! i)" "live_process p \<longrightarrow> live_process (ps ! i)"
  shows "pids_ok n (ps[i := p])"
  using assms by (auto simp: pids_ok_def nth_list_update split: if_splits)

lemma pids_ok_new:
  assumes "pids_ok n ps" "0 < n" "n < n'" "pid p = n"
  shows "pids_ok n' (ps[i := p])"
  unfolding pids_ok_def
proof (intro allI impI conjI)
  fix a assume a: "a < length (ps[i := p])" "live_process (ps[i := p] ! a)"
  have old: "0 < pid (ps ! b) \<and> pid (ps ! b) < n" if "b < length ps" "live_process (ps ! b)" for b using assms(1) that by (simp add: pids_ok_def)
  show "0 < pid (ps[i := p] ! a)" "pid (ps[i := p] ! a) < n'" using a old [of a] assms(2-4) by (cases "a = i"; auto)+
  fix b assume b: "b < length (ps[i := p])" "live_process (ps[i := p] ! b)" "pid (ps[i := p] ! b) = pid (ps[i := p] ! a)"
  show "b = a"
  proof (cases "a = i \<or> b = i")
    case True
    then show ?thesis using a b old [of a] old [of b] assms(4) by (metis length_list_update nth_list_update_eq nth_list_update_neq less_irrefl)
  next
    case False
    then show ?thesis using a b assms(1) by (simp add: pids_ok_def)
  qed
qed

lemma table_inv_upd:
  assumes "table_inv k" "i < USER_PROCESS_COUNT" "\<And>p. process_ok p \<Longrightarrow> process_ok (f p)" "pid (f (processes k ! i)) = pid (processes k ! i)"
    "live_process (f (processes k ! i)) \<longrightarrow> live_process (processes k ! i)"
  shows "table_inv (upd_process i f k)"
  using assms pids_ok_update [of "next_pid k" "processes k" i "f (processes k ! i)"]
  by (auto simp: table_inv_def dest: set_update_subset_insert [THEN subsetD])

lemma table_inv_frame:
  "table_inv (k\<lparr>kfs := fs\<rparr>) = table_inv k" "table_inv (k\<lparr>current_process_index := - 1\<rparr>) \<longleftrightarrow> table_inv (k\<lparr>current_process_index := 0\<rparr>)"
  by (simp_all add: table_inv_def)

lemma find_process_ok: "find_process s i ps = Some j \<Longrightarrow> i \<le> j \<and> j < i + length ps \<and> pstate (ps ! (j - i)) = s"
  by (induction s i ps rule: find_process.induct) (auto split: if_splits simp: nth_Cons' Suc_diff_Suc)

lemma claim_inv:
  assumes inv: "table_inv k" and i: "i < USER_PROCESS_COUNT" and n: "next_pid k + 1 \<noteq> 0"
  shows "table_inv (claim_process i name entry k)"
proof -
  let ?p = "(\<lambda>p. p\<lparr>pid := next_pid k, pstate := USER_PROCESS_RUNNING, pname := copy_process_name (pname p) name, pentry := entry,
       exit_code := 0, address_space := 0, fds := replicate USER_PROCESS_FD_COUNT closed_fd\<rparr>) (processes k ! i)"
  have lt: "next_pid k < next_pid k + 1" using unatSuc [of "next_pid k"] n by (simp add: add.commute word_less_nat_alt)
  have "process_ok ?p"
    using inv i copy_name_from_ok [of 0 "pname (processes k ! i)" name] by (auto simp: table_inv_def process_ok_def copy_process_name_def)
  moreover have "pids_ok (next_pid k + 1) ((processes k)[i := ?p])"
    using inv lt by (intro pids_ok_new [of "next_pid k"]) (simp_all add: table_inv_def)
  moreover have "0 < next_pid k + 1" using lt by (metis word_gt_0 word_le_less_eq not_less_iff_gr_or_eq)
  ultimately show ?thesis
    using inv i set_update_subset_insert [of "processes k" i ?p] by (auto simp: table_inv_def claim_process_def)
qed

lemma reap_ok: "process_ok p \<Longrightarrow> process_ok (reap p)" "live_process (reap p) \<Longrightarrow> reap p = p"
  by (auto simp: reap_def process_ok_def live_process_def set_update_memI)

lemma reap_inv:
  assumes "table_inv k" shows "table_inv (k\<lparr>processes := map reap (processes k)\<rparr>)"
proof -
  have "pids_ok (next_pid k) (map reap (processes k))" unfolding pids_ok_def
  proof (intro allI impI conjI)
    fix i assume i: "i < length (map reap (processes k))" "live_process (map reap (processes k) ! i)"
    then have p: "map reap (processes k) ! i = processes k ! i" "live_process (processes k ! i)" using reap_ok(2) [of "processes k ! i"] by auto
    then show "0 < pid (map reap (processes k) ! i)" "pid (map reap (processes k) ! i) < next_pid k" using assms i by (auto simp: table_inv_def pids_ok_def)
    fix j assume "j < length (map reap (processes k))" "live_process (map reap (processes k) ! j)" "pid (map reap (processes k) ! j) = pid (map reap (processes k) ! i)"
    then show "j = i" using assms i p reap_ok(2) [of "processes k ! j"] by (auto simp: table_inv_def pids_ok_def)
  qed
  then show ?thesis using assms reap_ok(1) by (auto simp: table_inv_def)
qed

lemma current_process_bound: "current_process k = Some i \<Longrightarrow> i < USER_PROCESS_COUNT"
  by (auto simp: current_process_def split: if_splits)

lemma upd_fd_inv: "table_inv k \<Longrightarrow> i < USER_PROCESS_COUNT \<Longrightarrow> table_inv (upd_fd i fd f k)"
  unfolding upd_fd_def by (rule table_inv_upd) (auto simp: process_ok_def live_process_def)

lemma find_process_bound: "table_inv k \<Longrightarrow> find_process s 0 (processes k) = Some i \<Longrightarrow> i < USER_PROCESS_COUNT"
  using find_process_ok [of s 0 "processes k" i] by (simp add: table_inv_def)

lemma allocate_inv:
  assumes "table_inv k" "next_pid k + 1 \<noteq> 0" "allocate_process name entry k = (r, k')"
  shows "table_inv k'"
proof -
  have claim: "table_inv (claim_process i name entry k)" if "find_process s 0 (processes k) = Some i" for s i
    by (rule claim_inv [OF assms(1) find_process_bound [OF assms(1) that] assms(2)])
  show ?thesis
  proof (cases "find_process USER_PROCESS_UNUSED 0 (processes k)")
    case None
    then show ?thesis using assms(1,3) claim [of USER_PROCESS_EXITED]
      by (cases "find_process USER_PROCESS_EXITED 0 (processes k)") (auto simp: allocate_process_def)
  qed (use assms(3) claim in \<open>auto simp: allocate_process_def\<close>)
qed

lemma fd_open_inv:
  assumes "table_inv k" "user_process_fd_open path k = (r, k')" shows "table_inv k'"
proof (cases "current_process k")
  case (Some i)
  show ?thesis
  proof (cases "diskfs_find_file (Some path) (kfs k)")
    case n: (Some n)
    show ?thesis using assms Some n upd_fd_inv [OF assms(1) current_process_bound [OF Some]]
      by (cases "find_closed 0 (fds (processes k ! i))") (auto simp: user_process_fd_open_def)
  qed (use assms Some in \<open>simp add: user_process_fd_open_def\<close>)
qed (use assms in \<open>simp add: user_process_fd_open_def\<close>)

lemma fd_read_inv:
  assumes "table_inv k" "user_process_fd_read bd fd buffer sz k = (r, bytes, k')" shows "table_inv k'"
proof (cases "current_process k")
  case (Some i)
  obtain ok bs fs where d: "diskfs_read_index bd (fd_file_index (fds (processes k ! i) ! unat fd)) (fd_offset (fds (processes k ! i) ! unat fd)) buffer sz (kfs k) = (ok, bs, fs)"
    by (metis prod_cases3)
  have "table_inv (k\<lparr>kfs := fs\<rparr>)" using assms(1) table_inv_frame(1) by blast
  note inv = this upd_fd_inv [OF this current_process_bound [OF Some]]
  show ?thesis
  proof (cases "fd_live i fd k")
    case True
    then show ?thesis using assms(2) Some d inv by (cases ok) (auto simp: user_process_fd_read_def Let_def)
  qed (use assms Some in \<open>simp add: user_process_fd_read_def\<close>)
qed (use assms in \<open>simp add: user_process_fd_read_def\<close>)

lemma fd_close_inv:
  assumes "table_inv k" "user_process_fd_close fd k = (r, k')" shows "table_inv k'"
proof (cases "current_process k")
  case (Some i)
  then show ?thesis using assms upd_fd_inv [OF assms(1) current_process_bound [OF Some]]
    by (cases "fd_live i fd k") (auto simp: user_process_fd_close_def)
qed (use assms in \<open>simp add: user_process_fd_close_def\<close>)

lemma close_all_inv:
  assumes "table_inv k" shows "table_inv (user_process_close_all k)"
proof (cases "current_process k")
  case (Some i)
  have "table_inv (upd_process i (\<lambda>p. p\<lparr>fds := map (\<lambda>f. f\<lparr>fd_open := False\<rparr>) (fds p)\<rparr>) k)"
    by (rule table_inv_upd [OF assms current_process_bound [OF Some]]) (simp_all add: process_ok_def live_process_def)
  then show ?thesis using Some by (simp add: user_process_close_all_def)
qed (use assms in \<open>simp add: user_process_close_all_def\<close>)

lemma table_step_inv: "table_step bd k k' \<Longrightarrow> table_inv k \<Longrightarrow> table_inv k'"
proof (induction rule: table_step.induct)
  case (space i k s)
  then show ?case by (intro table_inv_upd) (simp_all add: process_ok_def live_process_def)
next
  case (exit i k c)
  then show ?case by (intro table_inv_upd) (simp_all add: process_ok_def live_process_def)
next
  case (leave k)
  then show ?case by (simp add: table_inv_def)
next
  case (reap k n k')
  then show ?case using reap_inv unfolding user_process_reap_exited_def by blast
qed (blast intro: allocate_inv fd_open_inv fd_read_inv fd_close_inv close_all_inv)+

lemma table_steps_inv: "(table_step bd)\<^sup>*\<^sup>* k k' \<Longrightarrow> table_inv k \<Longrightarrow> table_inv k'"
  by (induction rule: rtranclp_induct) (auto intro: table_step_inv)

lemma wait_from_ok:
  "i < length ps \<Longrightarrow> live_process (ps ! i) \<Longrightarrow> (\<forall>j < i. live_process (ps ! j) \<longrightarrow> pid (ps ! j) \<noteq> pid (ps ! i)) \<Longrightarrow>
     wait_from (pid (ps ! i)) ps = (if pstate (ps ! i) = USER_PROCESS_EXITED then exit_code (ps ! i) else - 2)"
proof (induction ps arbitrary: i)
  case (Cons p ps)
  show ?case
  proof (cases i)
    case 0
    then show ?thesis using Cons.prems(2) by (simp add: live_process_def)
  next
    case (Suc j)
    then have "\<not> (live_process p \<and> pid p = pid (ps ! j))" using Cons.prems(3) by auto
    moreover have "\<forall>l < j. live_process (ps ! l) \<longrightarrow> pid (ps ! l) \<noteq> pid (ps ! j)" using Cons.prems(3) Suc by auto
    ultimately show ?thesis using Cons.IH [of j] Cons.prems(1,2) Suc by (auto simp: live_process_def)
  qed
qed simp

lemma boot_table_inv: "table_inv boot_kernel"
  by (simp add: table_inv_def boot_kernel_def unused_process_def process_ok_def pids_ok_def live_process_def)

section \<open>Theorems\<close>

text \<open>C26. The process table stays well-formed, with process numbers that are never shared: in every state reached
  from a well-formed one by starting, exiting, reaping and file operations in any order, every name is terminated
  within its array, every process has its eight descriptors, the index of the current process is valid or -1, the
  numbers of live processes are positive and pairwise different, and waiting for the number of a live process
  returns that very process's exit code, or -2 while it runs.\<close>

theorem process_table_invariant:
  assumes "(table_step bd)\<^sup>*\<^sup>* k k'" "table_inv k"
  shows "table_inv k' \<and> (\<forall>i < USER_PROCESS_COUNT. live_process (processes k' ! i) \<longrightarrow>
     user_process_wait_pid (pid (processes k' ! i)) k' = (if pstate (processes k' ! i) = USER_PROCESS_EXITED then exit_code (processes k' ! i) else - 2))"
proof -
  have inv: "table_inv k'" using table_steps_inv [OF assms] .
  then have "user_process_wait_pid (pid (processes k' ! i)) k' = (if pstate (processes k' ! i) = USER_PROCESS_EXITED then exit_code (processes k' ! i) else - 2)"
    if "i < USER_PROCESS_COUNT" "live_process (processes k' ! i)" for i
    unfolding user_process_wait_pid_def
  proof (intro wait_from_ok allI impI)
    show "pid (processes k' ! j) \<noteq> pid (processes k' ! i)" if j: "j < i" "live_process (processes k' ! j)" for j
    proof
      assume "pid (processes k' ! j) = pid (processes k' ! i)"
      then have "j = i" using inv j that \<open>i < USER_PROCESS_COUNT\<close> \<open>live_process (processes k' ! i)\<close> by (simp add: table_inv_def pids_ok_def)
      then show False using j(1) by simp
    qed
  qed (use that inv in \<open>simp_all add: table_inv_def\<close>)
  then show ?thesis using inv by blast
qed

lemma boot_kernel_fields: "processes boot_kernel = replicate USER_PROCESS_COUNT unused_process" "next_pid boot_kernel = 1"
  by (simp_all add: boot_kernel_def)

theorem process_table_invariant_witness:
  "\<exists>k'. (table_step (ata_dev drive_ports))\<^sup>*\<^sup>* boot_kernel k' \<and> pid (processes k' ! 0) = 1 \<and> user_process_wait_pid 1 k' = 7"
proof -
  define k1 where "k1 = claim_process 0 [0x61] 0x400000 boot_kernel"
  define k2 where "k2 = upd_process 0 (\<lambda>p. p\<lparr>exit_code := 7, pstate := USER_PROCESS_EXITED\<rparr>) k1"
  have first: "find_process USER_PROCESS_UNUSED 0 (processes boot_kernel) = Some 0"
    by (simp add: boot_kernel_fields unused_process_def numeral_eq_Suc)
  have s1: "table_step (ata_dev drive_ports) boot_kernel k1"
    by (rule table_step.start [where name = "[0x61]" and entry = "0x400000" and r = "Some 0"])
      (simp add: boot_kernel_fields, simp add: allocate_process_def first k1_def)
  have p1: "length (processes k1) = 8" "pstate (processes k1 ! 0) = USER_PROCESS_RUNNING" "pid (processes k1 ! 0) = 1"
    by (simp_all add: k1_def claim_process_def boot_kernel_fields)
  then have s2: "table_step (ata_dev drive_ports) k1 k2" unfolding k2_def by (intro table_step.exit) simp_all
  have p2: "pid (processes k2 ! 0) = 1" "pstate (processes k2 ! 0) = USER_PROCESS_EXITED" "exit_code (processes k2 ! 0) = 7"
    using p1 by (simp_all add: k2_def)
  have steps: "(table_step (ata_dev drive_ports))\<^sup>*\<^sup>* boot_kernel k2" using s1 s2 by (meson rtranclp.rtrancl_refl rtranclp.rtrancl_into_rtrancl)
  have "user_process_wait_pid (pid (processes k2 ! 0)) k2 = (if pstate (processes k2 ! 0) = USER_PROCESS_EXITED then exit_code (processes k2 ! 0) else - 2)"
    using conjunct2 [OF process_table_invariant [OF steps boot_table_inv]] p2(2) by (simp add: live_process_def)
  then show ?thesis using steps p2 by (intro exI [of _ k2]) simp
qed

end
