(* ===== verification/Graphics.thy ===== *)
theory Graphics
  imports Prelude
begin

text \<open>Drawing on linear framebuffers, \<open>src/kernel/graphics/graphics.c\<close>. A surface describes a rectangle of
  pixels of 1, 2, 3 or 4 bytes in memory; the operations change that memory and leave the surface alone. A
  surface pointer that may be null is an option. Pointer arithmetic wraps at 32 bits; a pixel access reads
  or writes its bytes from there on. Loop counters that run from zero to a 32-bit bound are natural numbers.\<close>

section \<open>Surfaces\<close>

type_synonym graphics_pixel_format = u32

abbreviation (input) GRAPHICS_PIXEL_FORMAT_INDEXED8 :: graphics_pixel_format where "GRAPHICS_PIXEL_FORMAT_INDEXED8 \<equiv> 0"
abbreviation (input) GRAPHICS_PIXEL_FORMAT_XRGB8888 :: graphics_pixel_format where "GRAPHICS_PIXEL_FORMAT_XRGB8888 \<equiv> 3"
abbreviation (input) BOOT_GRAPHICS_MAGIC :: u32 where "BOOT_GRAPHICS_MAGIC \<equiv> 0x31465847"

record boot_graphics_info =
  bg_magic :: u32
  bg_framebuffer :: u32
  bg_pitch :: u32
  bg_width :: u16
  bg_height :: u16
  bg_bits_per_pixel :: u8
  bg_pixel_format :: u8
  bg_mode :: u16

record graphics_surface =
  spixels :: u32
  swidth :: u32
  sheight :: u32
  spitch :: u32
  sbpp :: u32
  sformat :: graphics_pixel_format

record graphics =
  primary_surface :: graphics_surface
  primary_surface_ready :: bool

definition graphics_initialize :: "boot_graphics_info option \<Rightarrow> graphics \<Rightarrow> graphics" where
  "graphics_initialize boot_graphics g =
     g\<lparr>primary_surface := (case boot_graphics of
         Some b \<Rightarrow> (if bg_magic b = BOOT_GRAPHICS_MAGIC \<and> bg_framebuffer b \<noteq> 0 \<and> bg_width b \<noteq> 0 \<and> bg_height b \<noteq> 0 \<and> bg_pitch b \<noteq> 0
           then \<lparr>spixels = bg_framebuffer b, swidth = ucast (bg_width b), sheight = ucast (bg_height b), spitch = bg_pitch b,
                  sbpp = ucast (bg_bits_per_pixel b), sformat = ucast (bg_pixel_format b)\<rparr>
           else \<lparr>spixels = 0xA0000, swidth = 320, sheight = 200, spitch = 320, sbpp = 8, sformat = GRAPHICS_PIXEL_FORMAT_INDEXED8\<rparr>)
       | None \<Rightarrow> \<lparr>spixels = 0xA0000, swidth = 320, sheight = 200, spitch = 320, sbpp = 8, sformat = GRAPHICS_PIXEL_FORMAT_INDEXED8\<rparr>),
       primary_surface_ready := True\<rparr>"

definition bytes_per_pixel :: "graphics_surface \<Rightarrow> u32" where
  "bytes_per_pixel s = (sbpp s + 7) div 8"

definition surface_valid :: "graphics_surface \<Rightarrow> bool" where
  "surface_valid s \<longleftrightarrow> spixels s \<noteq> 0 \<and> swidth s \<noteq> 0 \<and> sheight s \<noteq> 0 \<and> spitch s \<ge> swidth s * bytes_per_pixel s \<and>
     (sbpp s = 8 \<or> sbpp s = 16 \<or> sbpp s = 24 \<or> sbpp s = 32)"

fun graphics_surface_is_valid :: "graphics_surface option \<Rightarrow> bool" where
  "graphics_surface_is_valid None = False"
| "graphics_surface_is_valid (Some s) = surface_valid s"

definition graphics_primary_available :: "graphics \<Rightarrow> bool" where
  "graphics_primary_available g = primary_surface_ready g"

definition graphics_primary_surface :: "graphics \<Rightarrow> graphics_surface option" where
  "graphics_primary_surface g = (if primary_surface_ready g then Some (primary_surface g) else None)"

definition graphics_primary_surface_mut :: "graphics \<Rightarrow> graphics_surface option" where
  "graphics_primary_surface_mut g = (if primary_surface_ready g then Some (primary_surface g) else None)"

definition graphics_set_primary_surface :: "graphics_surface option \<Rightarrow> graphics \<Rightarrow> graphics" where
  "graphics_set_primary_surface surface g = (case surface of
     None \<Rightarrow> g\<lparr>primary_surface_ready := False\<rparr>
   | Some s \<Rightarrow> if \<not> surface_valid s then g\<lparr>primary_surface_ready := False\<rparr>
       else g\<lparr>primary_surface := s, primary_surface_ready := True\<rparr>)"

section \<open>Colours and pixels\<close>

definition palette :: "u32 list" where
  "palette = [0x000000, 0x0000AA, 0x00AA00, 0x00AAAA, 0xAA0000, 0xAA00AA, 0xAA5500, 0xAAAAAA,
     0x555555, 0x5555FF, 0x55FF55, 0x55FFFF, 0xFF5555, 0xFF55FF, 0xFFFF55, 0xFFFFFF]"

definition palette_color :: "u32 \<Rightarrow> u32" where
  "palette_color color = (if color < 16 then palette ! unat color else color)"

definition color_to_rgb565 :: "u32 \<Rightarrow> u16" where
  "color_to_rgb565 color =
     (let color = palette_color color; r = drop_bit 16 color AND 0xFF; g = drop_bit 8 color AND 0xFF; b = color AND 0xFF
      in ucast (push_bit 11 (drop_bit 3 r) OR push_bit 5 (drop_bit 2 g) OR drop_bit 3 b))"

definition store16 :: "mem \<Rightarrow> nat \<Rightarrow> u16 \<Rightarrow> mem" where
  "store16 m a v = m(a := ucast v, a + 1 := ucast (drop_bit 8 v))"

definition load16 :: "mem \<Rightarrow> nat \<Rightarrow> u16" where
  "load16 m a = ucast (m a) OR push_bit 8 (ucast (m (a + 1)))"

definition store24 :: "mem \<Rightarrow> nat \<Rightarrow> u32 \<Rightarrow> mem" where
  "store24 m a v = m(a := ucast (v AND 0xFF), a + 1 := ucast (drop_bit 8 v AND 0xFF), a + 2 := ucast (drop_bit 16 v AND 0xFF))"

definition pixel_pointer :: "graphics_surface \<Rightarrow> u32 \<Rightarrow> u32 \<Rightarrow> u32" where
  "pixel_pointer s x y = spixels s + y * spitch s + x * bytes_per_pixel s"

definition put_pixel :: "graphics_surface \<Rightarrow> u32 \<Rightarrow> u32 \<Rightarrow> u32 \<Rightarrow> mem \<Rightarrow> mem" where
  "put_pixel s x y color m =
     (if \<not> surface_valid s \<or> x \<ge> swidth s \<or> y \<ge> sheight s then m
      else let pixel = unat (pixel_pointer s x y) in
        if sbpp s = 32 then store32 m pixel (palette_color color)
        else if sbpp s = 24 then store24 m pixel (palette_color color)
        else if sbpp s = 16 then store16 m pixel (color_to_rgb565 color)
        else m(pixel := ucast color))"

fun graphics_put_pixel :: "graphics_surface option \<Rightarrow> u32 \<Rightarrow> u32 \<Rightarrow> u32 \<Rightarrow> mem \<Rightarrow> mem" where
  "graphics_put_pixel None x y color m = m"
| "graphics_put_pixel (Some s) x y color m = put_pixel s x y color m"

definition get_pixel :: "graphics_surface \<Rightarrow> u32 \<Rightarrow> u32 \<Rightarrow> mem \<Rightarrow> u32" where
  "get_pixel s x y m =
     (if \<not> surface_valid s \<or> x \<ge> swidth s \<or> y \<ge> sheight s then 0
      else let pixel = unat (pixel_pointer s x y) in
        if sbpp s = 32 then load32 m pixel
        else if sbpp s = 24 then ucast (m pixel) OR push_bit 8 (ucast (m (pixel + 1))) OR push_bit 16 (ucast (m (pixel + 2)))
        else if sbpp s = 16 then ucast (load16 m pixel)
        else ucast (m pixel))"

fun graphics_get_pixel :: "graphics_surface option \<Rightarrow> u32 \<Rightarrow> u32 \<Rightarrow> mem \<Rightarrow> u32" where
  "graphics_get_pixel None x y m = 0"
| "graphics_get_pixel (Some s) x y m = get_pixel s x y m"

section \<open>Rectangles\<close>

definition fill_row :: "graphics_surface \<Rightarrow> u32 \<Rightarrow> u32 \<Rightarrow> u32 \<Rightarrow> mem \<Rightarrow> mem" where
  "fill_row s color pixel width m =
     (if sbpp s = 32 then fold (\<lambda>col m. store32 m (unat (pixel + 4 * of_nat col)) (palette_color color)) [0..<unat width] m
      else if sbpp s = 16 then fold (\<lambda>col m. store16 m (unat (pixel + 2 * of_nat col)) (color_to_rgb565 color)) [0..<unat width] m
      else if sbpp s = 8 then fold (\<lambda>col m. m(unat (pixel + of_nat col) := ucast color)) [0..<unat width] m
      else fold (\<lambda>col m. store24 m (unat (pixel + of_nat col * 3)) (palette_color color)) [0..<unat width] m)"

definition fill_rect :: "graphics_surface \<Rightarrow> u32 \<Rightarrow> u32 \<Rightarrow> u32 \<Rightarrow> u32 \<Rightarrow> u32 \<Rightarrow> mem \<Rightarrow> mem" where
  "fill_rect s x y width height color m =
     (if \<not> surface_valid s \<or> x \<ge> swidth s \<or> y \<ge> sheight s then m
      else let width = (if x + width > swidth s then swidth s - x else width);
               height = (if y + height > sheight s then sheight s - y else height)
        in fold (\<lambda>row. fill_row s color (pixel_pointer s x (y + of_nat row)) width) [0..<unat height] m)"

fun graphics_fill_rect :: "graphics_surface option \<Rightarrow> u32 \<Rightarrow> u32 \<Rightarrow> u32 \<Rightarrow> u32 \<Rightarrow> u32 \<Rightarrow> mem \<Rightarrow> mem" where
  "graphics_fill_rect None x y width height color m = m"
| "graphics_fill_rect (Some s) x y width height color m = fill_rect s x y width height color m"

fun graphics_clear :: "graphics_surface option \<Rightarrow> u32 \<Rightarrow> mem \<Rightarrow> mem" where
  "graphics_clear None color m = m"
| "graphics_clear (Some s) color m =
     (if \<not> surface_valid s then m else graphics_fill_rect (Some s) 0 0 (swidth s) (sheight s) color m)"

definition graphics_draw_rect :: "graphics_surface option \<Rightarrow> u32 \<Rightarrow> u32 \<Rightarrow> u32 \<Rightarrow> u32 \<Rightarrow> u32 \<Rightarrow> mem \<Rightarrow> mem" where
  "graphics_draw_rect surface x y width height color m =
     (if width = 0 \<or> height = 0 then m
      else graphics_fill_rect surface (x + width - 1) y 1 height color
        (graphics_fill_rect surface x y 1 height color
          (graphics_fill_rect surface x (y + height - 1) width 1 color
            (graphics_fill_rect surface x y width 1 color m))))"

section \<open>Copies between surfaces\<close>

text \<open>The word loop stops at the last multiple of four; for counts up to \<open>2 ^ 32 - 4\<close> its counter does not wrap.\<close>

function copy_words :: "nat \<Rightarrow> nat \<Rightarrow> nat \<Rightarrow> nat \<Rightarrow> mem \<Rightarrow> nat \<times> mem" where
  "copy_words dst src i count m =
     (if i + 4 \<le> count then copy_words dst src (i + 4) count (store32 m (dst + i) (load32 m (src + i))) else (i, m))"
  by pat_completeness auto
termination by (relation "measure (\<lambda>(_, _, i, count, _). count - i)") auto

declare copy_words.simps [simp del]

definition graphics_copy_bytes :: "nat \<Rightarrow> nat \<Rightarrow> nat \<Rightarrow> mem \<Rightarrow> mem" where
  "graphics_copy_bytes dst src count m =
     (case copy_words dst src 0 count m of (i, m) \<Rightarrow> fold (\<lambda>i m. m(dst + i := m (src + i))) [i..<count] m)"

definition copy_row :: "graphics_surface \<Rightarrow> graphics_surface \<Rightarrow> u32 \<Rightarrow> u32 \<Rightarrow> u32 \<Rightarrow> mem \<Rightarrow> mem" where
  "copy_row dst src x y width m =
     graphics_copy_bytes (unat (spixels dst + y * spitch dst + x * bytes_per_pixel dst))
       (unat (spixels src + y * spitch src + x * bytes_per_pixel dst)) (unat (width * bytes_per_pixel dst)) m"

definition copy_pixels :: "graphics_surface \<Rightarrow> graphics_surface \<Rightarrow> u32 \<Rightarrow> u32 \<Rightarrow> u32 \<Rightarrow> mem \<Rightarrow> mem" where
  "copy_pixels dst src x y width m =
     fold (\<lambda>col m. put_pixel dst (x + of_nat col) y (get_pixel src (x + of_nat col) y m) m) [0..<unat width] m"

definition copy_rows :: "graphics_surface \<Rightarrow> graphics_surface \<Rightarrow> u32 \<Rightarrow> u32 \<Rightarrow> u32 \<Rightarrow> u32 \<Rightarrow> mem \<Rightarrow> mem" where
  "copy_rows dst src x y width height m =
     (if sbpp dst = sbpp src \<and> sformat dst = sformat src
      then fold (\<lambda>row. copy_row dst src x (y + of_nat row) width) [0..<unat height] m
      else fold (\<lambda>row. copy_pixels dst src x (y + of_nat row) width) [0..<unat height] m)"

definition blit :: "graphics_surface \<Rightarrow> graphics_surface \<Rightarrow> mem \<Rightarrow> mem" where
  "blit dst src m =
     (if \<not> surface_valid dst \<or> \<not> surface_valid src then m
      else copy_rows dst src 0 0 (if swidth dst < swidth src then swidth dst else swidth src)
        (if sheight dst < sheight src then sheight dst else sheight src) m)"

fun graphics_blit :: "graphics_surface option \<Rightarrow> graphics_surface option \<Rightarrow> mem \<Rightarrow> mem" where
  "graphics_blit (Some dst) (Some src) m = blit dst src m"
| "graphics_blit _ _ m = m"

definition blit_rect :: "graphics_surface \<Rightarrow> graphics_surface \<Rightarrow> u32 \<Rightarrow> u32 \<Rightarrow> u32 \<Rightarrow> u32 \<Rightarrow> mem \<Rightarrow> mem" where
  "blit_rect dst src x y width height m =
     (if \<not> surface_valid dst \<or> \<not> surface_valid src \<or> x \<ge> swidth dst \<or> y \<ge> sheight dst \<or> x \<ge> swidth src \<or> y \<ge> sheight src then m
      else let max_width = (if swidth dst < swidth src then swidth dst else swidth src);
               max_height = (if sheight dst < sheight src then sheight dst else sheight src)
        in copy_rows dst src x y (if x + width > max_width then max_width - x else width)
             (if y + height > max_height then max_height - y else height) m)"

fun graphics_blit_rect :: "graphics_surface option \<Rightarrow> graphics_surface option \<Rightarrow> u32 \<Rightarrow> u32 \<Rightarrow> u32 \<Rightarrow> u32 \<Rightarrow> mem \<Rightarrow> mem" where
  "graphics_blit_rect (Some dst) (Some src) x y width height m = blit_rect dst src x y width height m"
| "graphics_blit_rect _ _ x y width height m = m"

section \<open>Text\<close>

definition glyph_digits :: "u8 list list" where
  "glyph_digits =
    [[0x0E, 0x11, 0x13, 0x15, 0x19, 0x11, 0x0E], [0x04, 0x0C, 0x04, 0x04, 0x04, 0x04, 0x0E], [0x0E, 0x11, 0x01, 0x02, 0x04, 0x08, 0x1F],
     [0x1E, 0x01, 0x01, 0x0E, 0x01, 0x01, 0x1E], [0x02, 0x06, 0x0A, 0x12, 0x1F, 0x02, 0x02], [0x1F, 0x10, 0x10, 0x1E, 0x01, 0x01, 0x1E],
     [0x0E, 0x10, 0x10, 0x1E, 0x11, 0x11, 0x0E], [0x1F, 0x01, 0x02, 0x04, 0x08, 0x08, 0x08], [0x0E, 0x11, 0x11, 0x0E, 0x11, 0x11, 0x0E],
     [0x0E, 0x11, 0x11, 0x0F, 0x01, 0x01, 0x0E]]"

definition glyph_letters :: "u8 list list" where
  "glyph_letters =
    [[0x0E, 0x11, 0x11, 0x1F, 0x11, 0x11, 0x11], [0x1E, 0x11, 0x11, 0x1E, 0x11, 0x11, 0x1E], [0x0E, 0x11, 0x10, 0x10, 0x10, 0x11, 0x0E],
     [0x1E, 0x11, 0x11, 0x11, 0x11, 0x11, 0x1E], [0x1F, 0x10, 0x10, 0x1E, 0x10, 0x10, 0x1F], [0x1F, 0x10, 0x10, 0x1E, 0x10, 0x10, 0x10],
     [0x0E, 0x11, 0x10, 0x17, 0x11, 0x11, 0x0F], [0x11, 0x11, 0x11, 0x1F, 0x11, 0x11, 0x11], [0x0E, 0x04, 0x04, 0x04, 0x04, 0x04, 0x0E],
     [0x07, 0x02, 0x02, 0x02, 0x12, 0x12, 0x0C], [0x11, 0x12, 0x14, 0x18, 0x14, 0x12, 0x11], [0x10, 0x10, 0x10, 0x10, 0x10, 0x10, 0x1F],
     [0x11, 0x1B, 0x15, 0x15, 0x11, 0x11, 0x11], [0x11, 0x19, 0x15, 0x13, 0x11, 0x11, 0x11], [0x0E, 0x11, 0x11, 0x11, 0x11, 0x11, 0x0E],
     [0x1E, 0x11, 0x11, 0x1E, 0x10, 0x10, 0x10], [0x0E, 0x11, 0x11, 0x11, 0x15, 0x12, 0x0D], [0x1E, 0x11, 0x11, 0x1E, 0x14, 0x12, 0x11],
     [0x0F, 0x10, 0x10, 0x0E, 0x01, 0x01, 0x1E], [0x1F, 0x04, 0x04, 0x04, 0x04, 0x04, 0x04], [0x11, 0x11, 0x11, 0x11, 0x11, 0x11, 0x0E],
     [0x11, 0x11, 0x11, 0x11, 0x11, 0x0A, 0x04], [0x11, 0x11, 0x11, 0x15, 0x15, 0x15, 0x0A], [0x11, 0x11, 0x0A, 0x04, 0x0A, 0x11, 0x11],
     [0x11, 0x11, 0x0A, 0x04, 0x04, 0x04, 0x04], [0x1F, 0x01, 0x02, 0x04, 0x08, 0x10, 0x1F]]"

definition byte_of :: "char \<Rightarrow> u8" where
  "byte_of c = of_nat (of_char c)"

definition glyph_symbol :: "u8 \<Rightarrow> u32 \<Rightarrow> u8" where
  "glyph_symbol c row =
    (if c = byte_of CHR '' '' then 0x00
     else if c = byte_of CHR ''.'' then (if row = 6 then 0x04 else 0x00)
     else if c = byte_of CHR '','' then (if row = 5 then 0x04 else if row = 6 then 0x08 else 0x00)
     else if c = byte_of CHR '':'' then (if row = 2 \<or> row = 5 then 0x04 else 0x00)
     else if c = byte_of CHR '';'' then (if row = 2 then 0x04 else if row = 5 then 0x04 else if row = 6 then 0x08 else 0x00)
     else if c = byte_of CHR ''-'' then (if row = 3 then 0x1F else 0x00)
     else if c = byte_of CHR ''_'' then (if row = 6 then 0x1F else 0x00)
     else if c = byte_of CHR ''/'' then push_bit (4 - (if row > 4 then 4 else unat row)) 0x01
     else if c = 0x5C then push_bit (if row > 4 then 4 else unat row) 0x01
     else if c = byte_of CHR ''>'' then (if row = 1 then 0x08 else if row = 2 then 0x04 else if row = 3 then 0x02 else if row = 4 then 0x04 else if row = 5 then 0x08 else 0x00)
     else if c = byte_of CHR ''<'' then (if row = 1 then 0x02 else if row = 2 then 0x04 else if row = 3 then 0x08 else if row = 4 then 0x04 else if row = 5 then 0x02 else 0x00)
     else if c = byte_of CHR ''['' then (if row = 0 \<or> row = 6 then 0x0E else 0x08)
     else if c = byte_of CHR '']'' then (if row = 0 \<or> row = 6 then 0x0E else 0x02)
     else if c = byte_of CHR ''('' then (if row = 0 then 0x02 else if row = 6 then 0x02 else 0x04)
     else if c = byte_of CHR '')'' then (if row = 0 then 0x08 else if row = 6 then 0x08 else 0x04)
     else if c = byte_of CHR ''+'' then (if row = 3 then 0x0E else if row = 2 \<or> row = 4 then 0x04 else 0x00)
     else if c = byte_of CHR ''='' then (if row = 2 \<or> row = 4 then 0x1F else 0x00)
     else if c = byte_of CHR ''*'' then (if row = 1 \<or> row = 5 then 0x15 else if row = 2 \<or> row = 4 then 0x0E else if row = 3 then 0x1F else 0x00)
     else if c = byte_of CHR ''!'' then (if row < 5 then 0x04 else if row = 6 then 0x04 else 0x00)
     else if c = byte_of CHR ''?'' then (if row = 0 then 0x0E else if row = 1 then 0x11 else if row = 2 then 0x01 else if row = 3 then 0x02 else if row = 5 then 0x04 else 0x00)
     else if c = 0x27 then (if row < 2 then 0x04 else 0x00)
     else if c = 0x22 then (if row < 2 then 0x0A else 0x00)
     else (if row = 0 \<or> row = 6 then 0x1F else 0x11))"

definition glyph_row :: "u8 \<Rightarrow> u32 \<Rightarrow> u8" where
  "glyph_row c row =
    (let c = (if c \<ge> byte_of CHR ''a'' \<and> c \<le> byte_of CHR ''z'' then c - byte_of CHR ''a'' + byte_of CHR ''A'' else c)
     in if row \<ge> 7 then 0
        else if c \<ge> byte_of CHR ''0'' \<and> c \<le> byte_of CHR ''9'' then glyph_digits ! unat (c - byte_of CHR ''0'') ! unat row
        else if c \<ge> byte_of CHR ''A'' \<and> c \<le> byte_of CHR ''Z'' then glyph_letters ! unat (c - byte_of CHR ''A'') ! unat row
        else glyph_symbol c row)"

definition char_color :: "u8 \<Rightarrow> u32 \<Rightarrow> u32 \<Rightarrow> nat \<Rightarrow> nat \<Rightarrow> u32" where
  "char_color c fg bg col row = (if col < 5 \<and> row < 7 \<and> drop_bit (4 - col) (glyph_row c (of_nat row)) AND 1 \<noteq> 0 then fg else bg)"

definition graphics_draw_char :: "graphics_surface option \<Rightarrow> u32 \<Rightarrow> u32 \<Rightarrow> u8 \<Rightarrow> u32 \<Rightarrow> u32 \<Rightarrow> mem \<Rightarrow> mem" where
  "graphics_draw_char surface x y c fg bg m =
     fold (\<lambda>row. fold (\<lambda>col. graphics_put_pixel surface (x + of_nat col) (y + of_nat row) (char_color c fg bg col row)) [0..<6]) [0..<8] m"

fun graphics_draw_string :: "graphics_surface option \<Rightarrow> u32 \<Rightarrow> u32 \<Rightarrow> u8 list \<Rightarrow> u32 \<Rightarrow> u32 \<Rightarrow> mem \<Rightarrow> mem" where
  "graphics_draw_string surface x y [] fg bg m = m"
| "graphics_draw_string surface x y (c # text) fg bg m =
     (if c = 0 then m else graphics_draw_string surface (x + 6) y text fg bg (graphics_draw_char surface x y c fg bg m))"

section \<open>Self test\<close>

definition test_surface :: "u32 \<Rightarrow> graphics_surface" where
  "test_surface test_pixels = \<lparr>spixels = test_pixels, swidth = 64, sheight = 48, spitch = 64 * 4, sbpp = 32, sformat = GRAPHICS_PIXEL_FORMAT_XRGB8888\<rparr>"

definition graphics_self_test :: "u32 \<Rightarrow> mem \<Rightarrow> bool \<times> mem" where
  "graphics_self_test test_pixels m =
     (let surface = Some (test_surface test_pixels);
          m = graphics_clear surface 0x00102030 m;
          m = graphics_fill_rect surface 4 5 20 10 0x00AA3300 m;
          m = graphics_draw_rect surface 2 3 30 20 0x0000CC66 m
      in (load32 m (unat test_pixels) = 0x00102030 \<and> load32 m (unat test_pixels + 4 * (5 * 64 + 4)) = 0x00AA3300 \<and>
          load32 m (unat test_pixels + 4 * (3 * 64 + 2)) = 0x0000CC66 \<and> load32 m (unat test_pixels + 4 * (22 * 64 + 31)) = 0x0000CC66, m))"

end
