(* ===== verification/Graphics_Draw.thy ===== *)
theory Graphics_Draw
  imports Graphics
begin

text \<open>What the drawing operations of \<open>src/kernel/graphics/graphics.c\<close> show. Pixels of a well-formed surface are disjoint groups
  of bytes; a drawing operation is a picture laid over the surface (\<open>painted\<close>), pictures compose, and the rectangle, frame,
  character and string operations are proved to paint the picture they should, clipped to the surface.\<close>

section \<open>Pixels as disjoint groups of bytes\<close>

abbreviation (input) bpp :: "graphics_surface \<Rightarrow> nat" where "bpp s \<equiv> unat (bytes_per_pixel s)"

text \<open>A surface whose rows are as long as its pixels need, without the wrap-around of the 32-bit product in the
  validity check, and whose last row ends inside the address space.\<close>

definition surface_ok :: "graphics_surface \<Rightarrow> bool" where
  "surface_ok s \<longleftrightarrow> surface_valid s \<and> unat (swidth s) * bpp s \<le> unat (spitch s) \<and>
     unat (spixels s) + unat (sheight s) * unat (spitch s) \<le> 2 ^ 32"

definition pix :: "graphics_surface \<Rightarrow> nat \<Rightarrow> nat \<Rightarrow> nat" where
  "pix s x y = unat (spixels s) + y * unat (spitch s) + x * bpp s"

definition on_surface :: "graphics_surface \<Rightarrow> nat \<Rightarrow> nat \<Rightarrow> bool" where
  "on_surface s x y \<longleftrightarrow> x < unat (swidth s) \<and> y < unat (sheight s)"

definition footprint :: "graphics_surface \<Rightarrow> nat set" where
  "footprint s = {pix s x y + k | x y k. on_surface s x y \<and> k < bpp s}"

definition pixel_bytes :: "graphics_surface \<Rightarrow> u32 \<Rightarrow> nat \<Rightarrow> u8" where
  "pixel_bytes s color k = (if sbpp s = 32 \<or> sbpp s = 24 then ucast (drop_bit (8 * k) (palette_color color))
     else if sbpp s = 16 then ucast (drop_bit (8 * k) (color_to_rgb565 color)) else ucast color)"

definition decode :: "graphics_surface \<Rightarrow> (nat \<Rightarrow> u8) \<Rightarrow> u32" where
  "decode s b = (if sbpp s = 32 then le32 (b 0) (b 1) (b 2) (b 3) else if sbpp s = 24 then le32 (b 0) (b 1) (b 2) 0
     else if sbpp s = 16 then le32 (b 0) (b 1) 0 0 else le32 (b 0) 0 0 0)"

text \<open>The colours by arithmetic on channels. The sixteen standard colours have bits for blue, green, red and brightness:
  a channel is \<open>0xAA\<close> when its bit is set, plus \<open>0x55\<close> for the bright ones, and dark yellow is the usual brown.\<close>

definition standard_color :: "nat \<Rightarrow> nat" where
  "standard_color i =
     (let channel = (\<lambda>b. (if odd (i div b) then 0xAA else 0) + (if odd (i div 8) then 0x55 else 0))
      in channel 4 * 65536 + (if i = 6 then 0x55 else channel 2) * 256 + channel 1)"

definition rgb_value :: "graphics_surface \<Rightarrow> nat \<Rightarrow> u32" where
  "rgb_value s n = of_nat (if sbpp s = 32 then n else if sbpp s = 24 then n mod 2 ^ 24
     else if sbpp s = 16 then (n div 65536 mod 256 div 8) * 2048 + (n div 256 mod 256 div 4) * 32 + n mod 256 div 8 else n mod 256)"

text \<open>The value of a pixel that is given a colour: below 16 it is one of the standard colours, except on 8-bit surfaces,
  where it is the palette index itself.\<close>

definition pixel_value :: "graphics_surface \<Rightarrow> u32 \<Rightarrow> u32" where
  "pixel_value s color = rgb_value s (if unat color < 16 \<and> sbpp s \<in> {16, 24, 32} then standard_color (unat color) else unat color)"

definition write_bytes :: "nat \<Rightarrow> nat \<Rightarrow> (nat \<Rightarrow> u8) \<Rightarrow> mem \<Rightarrow> mem" where
  "write_bytes a n b m = (\<lambda>i. if a \<le> i \<and> i < a + n then b (i - a) else m i)"

lemma bpp_cases:
  assumes "surface_valid s"
  obtains "sbpp s = 8" "bpp s = 1" | "sbpp s = 16" "bpp s = 2" | "sbpp s = 24" "bpp s = 3" | "sbpp s = 32" "bpp s = 4"
  using assms by (auto simp: surface_valid_def bytes_per_pixel_def)

lemma or_push_bit: "unat (b :: u32) < 2 ^ n \<Longrightarrow> push_bit n a OR b = push_bit n a + b"
proof -
  assume "unat b < 2 ^ n"
  then have "take_bit n (unat b) = unat b" by (simp add: take_bit_nat_eq_self)
  then have "unat (take_bit n b) = unat b" by (simp add: unsigned_take_bit_eq)
  then have b: "take_bit n b = b" by (simp only: word_unat_eq_iff)
  have "push_bit n a AND b = 0"
    by (rule bit_word_eqI, subst b [symmetric]) (auto simp: bit_simps)
  then show ?thesis by (simp add: disjunctive_add_eq_or)
qed

lemma standard_palette: "color < 16 \<Longrightarrow> unat (palette ! unat color) = standard_color (unat color)" for color :: u32
proof -
  assume "color < 16"
  then have "unat color \<in> {0, 1, 2, 3, 4, 5, 6, 7, 8, 9, 10, 11, 12, 13, 14, 15}" unfolding word_less_nat_alt insert_iff empty_iff by simp presburger
  then show ?thesis by (elim insertE emptyE) (simp_all add: palette_def standard_color_def)
qed

lemma byte_of: "unat (drop_bit k (v :: u32) AND 0xFF) = unat v div 2 ^ k mod 256"
proof -
  have "(0xFF :: u32) = mask 8" by (simp add: mask_eq_exp_minus_1)
  then show ?thesis
    by (simp only: take_bit_eq_mask [symmetric] unsigned_take_bit_eq unsigned_drop_bit_eq) (simp add: take_bit_eq_mod drop_bit_eq_div)
qed

lemma unat_rgb565:
  "unat (color_to_rgb565 color) = (let n = unat (palette_color color) in
     (n div 65536 mod 256 div 8) * 2048 + (n div 256 mod 256 div 4) * 32 + n mod 256 div 8)"
proof -
  define n where "n = unat (palette_color color)"
  define r g b where "r = drop_bit 3 (drop_bit 16 (palette_color color) AND 0xFF)" and "g = drop_bit 2 (drop_bit 8 (palette_color color) AND 0xFF)"
    and "b = drop_bit 3 (palette_color color AND 0xFF)"
  have u: "unat r = n div 65536 mod 256 div 8" "unat g = n div 256 mod 256 div 4" "unat b = n mod 256 div 8"
    using byte_of [of 16 "palette_color color"] byte_of [of 8 "palette_color color"] byte_of [of 0 "palette_color color"]
    by (simp_all add: r_def g_def b_def n_def drop_bit_eq_div unat_div)
  have lt: "unat r < 32" "unat g < 64" "unat b < 32" using u by (simp_all add: less_mult_imp_div_less)
  have p: "unat (push_bit 11 r) = unat r * 2048" "unat (push_bit 5 g) = unat g * 32" using lt by (simp_all add: push_bit_eq_mult unat_word_ariths)
  have s: "unat (push_bit 5 g + b) = unat g * 32 + unat b" using lt p by (simp add: unat_word_ariths)
  have "push_bit 11 r OR push_bit 5 g OR b = push_bit 11 r + (push_bit 5 g + b)"
    using or_push_bit [of b 5 g] or_push_bit [of "push_bit 5 g + b" 11 r] lt s by simp
  then have "unat (push_bit 11 r OR push_bit 5 g OR b) = unat r * 2048 + (unat g * 32 + unat b)" using lt p s by (simp add: unat_word_ariths)
  moreover have "color_to_rgb565 color = ucast (push_bit 11 r OR push_bit 5 g OR b)" by (simp add: color_to_rgb565_def Let_def r_def g_def b_def)
  ultimately have "unat (color_to_rgb565 color) = unat r * 2048 + (unat g * 32 + unat b)"
    using lt by (simp add: unsigned_ucast_eq take_bit_nat_eq_self)
  then show ?thesis by (simp add: u n_def Let_def)
qed

lemma pixel_value_code:
  assumes "surface_valid s"
  shows "pixel_value s color = (if sbpp s = 32 then palette_color color else if sbpp s = 24 then palette_color color AND 0xFFFFFF
     else if sbpp s = 16 then ucast (color_to_rgb565 color) else color AND 0xFF)"
proof -
  have p: "(if unat color < 16 then standard_color (unat color) else unat color) = unat (palette_color color)"
    using standard_palette [of color] by (simp add: palette_color_def word_less_nat_alt)
  have m: "(0xFFFFFF :: u32) = mask 24" "(0xFF :: u32) = mask 8" by (simp_all add: mask_eq_exp_minus_1)
  have t: "of_nat (unat v mod 2 ^ k) = v AND mask k" for k and v :: u32
    unfolding take_bit_eq_mask [symmetric] take_bit_eq_mod [symmetric] take_bit_of_nat [symmetric] by simp
  have u: "of_nat (unat w) = (ucast w :: u32)" for w :: u16 by (simp add: unsigned_ucast_eq word_unat_eq_iff)
  from assms show ?thesis
    using p t [of "palette_color color" 24] t [of color 8] unat_rgb565 [of color] u [of "color_to_rgb565 color"] unfolding m
    by (cases rule: bpp_cases) (simp_all add: pixel_value_def rgb_value_def Let_def)
qed

lemma surface_okD:
  assumes "surface_ok s"
  shows "surface_valid s" "0 < bpp s" "unat (swidth s) * bpp s \<le> unat (spitch s)"
    "unat (spixels s) + unat (sheight s) * unat (spitch s) \<le> 2 ^ 32"
  using assms by (auto simp: surface_ok_def elim: bpp_cases)

lemma pixel_in_row: "x < w \<Longrightarrow> k < B \<Longrightarrow> x * B + k < w * B" for x :: nat
proof -
  assume x: "x < w" and k: "k < B"
  have "x * B + k < Suc x * B" using k by simp
  also have "\<dots> \<le> w * B" using x by (intro mult_le_mono1) simp
  finally show ?thesis .
qed

lemma pix_inject:
  assumes ok: "surface_ok s" and p: "on_surface s x y" "k < bpp s" and q: "on_surface s x' y'" "k' < bpp s"
    and eq: "pix s x y + k = pix s x' y' + k'"
  shows "x = x' \<and> y = y' \<and> k = k'"
proof -
  define P B where "P = unat (spitch s)" and "B = bpp s"
  have a: "x * B + k < P" "x' * B + k' < P"
    using pixel_in_row [of x "unat (swidth s)" k B] pixel_in_row [of x' "unat (swidth s)" k' B] p q surface_okD(3) [OF ok]
    unfolding on_surface_def B_def P_def by linarith+
  have e: "y * P + (x * B + k) = y' * P + (x' * B + k')" using eq by (simp add: pix_def P_def B_def)
  have y: "y = y'" using arg_cong [OF e, of "\<lambda>n. n div P"] a by simp
  then have e': "x * B + k = x' * B + k'" using e by simp
  have "k < B" "k' < B" using p(2) q(2) by (simp_all add: B_def)
  then have "x = x'" using arg_cong [OF e', of "\<lambda>n. n div B"] by simp
  then show ?thesis using y e' by simp
qed

lemma pix_less:
  assumes "surface_ok s" "on_surface s x y" "k < bpp s"
  shows "pix s x y + k < unat (spixels s) + unat (sheight s) * unat (spitch s)"
proof -
  have "x * bpp s + k < unat (spitch s)"
    using pixel_in_row [of x "unat (swidth s)" k "bpp s"] assms surface_okD(3) [OF assms(1)] by (simp add: on_surface_def)
  then have "y * unat (spitch s) + (x * bpp s + k) < unat (sheight s) * unat (spitch s)"
    using assms(2) pixel_in_row [of y "unat (sheight s)" _ "unat (spitch s)"] by (simp add: on_surface_def)
  then show ?thesis by (simp add: pix_def)
qed

lemma pointer_exact:
  fixes p y P x b :: u32
  assumes "unat p + unat y * unat P + unat x * unat b < 2 ^ 32"
  shows "unat (p + y * P + x * b) = unat p + unat y * unat P + unat x * unat b"
proof -
  have y: "unat (y * P) = unat y * unat P" and x: "unat (x * b) = unat x * unat b"
    using assms unat_mult_lem [of y P] unat_mult_lem [of x b] by simp_all
  have "unat (p + y * P) = unat p + unat y * unat P" using assms unat_add_lem [of p "y * P"] by (simp add: y)
  then show ?thesis using assms unat_add_lem [of "p + y * P" "x * b"] by (simp add: x)
qed

lemma pixel_pointer_pix:
  assumes "surface_ok s" "on_surface s (unat x) (unat y)"
  shows "unat (pixel_pointer s x y) = pix s (unat x) (unat y)"
  using pix_less [OF assms surface_okD(2) [OF assms(1)]] surface_okD(4) [OF assms(1)]
  by (simp add: pixel_pointer_def pix_def pointer_exact)

lemma column_pointer:
  assumes "surface_ok s" "on_surface s (unat x + col) (unat y)"
  shows "unat (pixel_pointer s x y + of_nat col * bytes_per_pixel s) = pix s (unat x + col) (unat y)"
proof -
  have "unat x + col < unat (swidth s)" using assms(2) by (simp add: on_surface_def)
  then have c: "unat x + col < 2 ^ 32" using unat_u32_less [of "swidth s"] by (simp del: unat_u32_less)
  then have "unat (x + of_nat col) = unat x + col" by (simp add: unat_word_ariths unsigned_of_nat take_bit_nat_eq_self)
  then show ?thesis
    using pixel_pointer_pix [of s "x + of_nat col" y] assms by (simp add: pixel_pointer_def algebra_simps)
qed

lemma write_bytes_step: "(write_bytes a n b m)(a + n := b n) = write_bytes a (Suc n) b m"
  by (auto simp: write_bytes_def fun_eq_iff less_Suc_eq)

lemma write_bytes_empty: "write_bytes a 0 b m = m"
  by (auto simp: write_bytes_def fun_eq_iff)

lemma write_bytes_small:
  "write_bytes a (Suc 0) b m = m(a := b 0)"
  "write_bytes a 2 b m = m(a := b 0, a + 1 := b 1)"
  "write_bytes a 3 b m = m(a := b 0, a + 1 := b 1, a + 2 := b 2)"
  "write_bytes a 4 b m = m(a := b 0, a + 1 := b 1, a + 2 := b 2, a + 3 := b 3)"
  using write_bytes_step [of a 0 b m] write_bytes_step [of a 1 b m] write_bytes_step [of a 2 b m] write_bytes_step [of a 3 b m]
  by (simp_all add: write_bytes_empty numeral_2_eq_2 numeral_3_eq_3 numeral_eq_Suc)

lemma ucast_and_FF: "ucast ((v :: u32) AND 0xFF) = (ucast v :: u8)"
proof -
  have "ucast (v AND mask 8) = (ucast v :: u8)" by (rule bit_word_eqI) (simp add: bit_simps)
  then show ?thesis by (simp add: mask_eq_exp_minus_1)
qed

lemma write_pixel:
  assumes "surface_valid s"
  shows "write_bytes a (bpp s) (pixel_bytes s color) m =
    (if sbpp s = 32 then store32 m a (palette_color color) else if sbpp s = 24 then store24 m a (palette_color color)
     else if sbpp s = 16 then store16 m a (color_to_rgb565 color) else m(a := ucast color))"
  using assms
  by (cases rule: bpp_cases) (simp_all add: write_bytes_small pixel_bytes_def store32_def store24_def store16_def ucast_and_FF)

lemma put_pixel_write:
  assumes "surface_ok s"
  shows "put_pixel s x y color m = (if on_surface s (unat x) (unat y)
    then write_bytes (pix s (unat x) (unat y)) (bpp s) (pixel_bytes s color) m else m)"
  using assms surface_okD(1) [OF assms]
  by (simp add: put_pixel_def write_pixel pixel_pointer_pix on_surface_def word_le_nat_alt Let_def)

lemma get_pixel_decode:
  assumes "surface_ok s" "on_surface s (unat x) (unat y)"
  shows "get_pixel s x y m = decode s (\<lambda>k. m (pix s (unat x) (unat y) + k))"
proof -
  have "ucast b0 OR push_bit 8 (ucast b1) OR push_bit 16 (ucast b2) = le32 b0 b1 b2 0" for b0 b1 b2 by (simp add: le32_def)
  moreover have "ucast (ucast b0 OR push_bit 8 (ucast b1) :: u16) = le32 b0 b1 0 0" for b0 b1
    by (rule bit_word_eqI) (auto simp: bit_simps bit_le32 dest: bit_imp_le_length)
  moreover have "ucast b0 = le32 b0 0 0 0" for b0 by (simp add: le32_def)
  ultimately show ?thesis
    using assms surface_okD(1) [OF assms(1)]
    by (simp add: get_pixel_def pixel_pointer_pix decode_def load32_def load16_def on_surface_def word_le_nat_alt Let_def)
qed

lemma le32_parts:
  "le32 (ucast v) (ucast (drop_bit 8 v)) (ucast (drop_bit 16 v)) 0 = v AND mask 24"
  "le32 (ucast w) (ucast (drop_bit 8 w)) 0 0 = ucast (w :: u16)"
  "le32 (ucast v) 0 0 0 = v AND mask 8"
proof -
  show "le32 (ucast v) (ucast (drop_bit 8 v)) (ucast (drop_bit 16 v)) 0 = v AND mask 24"
    by (rule bit_word_eqI) (auto simp: bit_le32 bit_simps)
  show "le32 (ucast w) (ucast (drop_bit 8 w)) 0 0 = ucast (w :: u16)"
    by (rule bit_word_eqI) (auto simp add: bit_le32 bit_simps dest: bit_imp_le_length)
  show "le32 (ucast v) 0 0 0 = v AND mask 8"
    by (rule bit_word_eqI) (auto simp: bit_le32 bit_simps)
qed

lemma decode_pixel_bytes:
  assumes "surface_valid s"
  shows "decode s (pixel_bytes s color) = pixel_value s color"
proof -
  have m: "(0xFFFFFF :: u32) = mask 24" "(0xFF :: u32) = mask 8" by (simp_all add: mask_eq_exp_minus_1)
  show ?thesis using assms
    by (cases rule: bpp_cases) (simp_all add: decode_def pixel_bytes_def pixel_value_code [OF assms] le32_parts m)
qed

section \<open>Pictures\<close>

text \<open>What an operation does to a surface, as a picture: \<open>painted s f m m'\<close> says that the memory \<open>m'\<close> shows the colour
  \<open>f x y\<close> at every pixel of the surface where there is one, and is \<open>m\<close> everywhere else, outside the surface
  included.\<close>

type_synonym picture = "nat \<Rightarrow> nat \<Rightarrow> u32 option"

definition painted :: "graphics_surface \<Rightarrow> picture \<Rightarrow> mem \<Rightarrow> mem \<Rightarrow> bool" where
  "painted s f m m' \<longleftrightarrow>
     (\<forall>x y k. on_surface s x y \<longrightarrow> k < bpp s \<longrightarrow>
        m' (pix s x y + k) = (case f x y of None \<Rightarrow> m (pix s x y + k) | Some c \<Rightarrow> pixel_bytes s c k)) \<and>
     (\<forall>i. i \<notin> footprint s \<longrightarrow> m' i = m i)"

definition shade :: "(nat \<Rightarrow> nat \<Rightarrow> bool) \<Rightarrow> (nat \<Rightarrow> nat \<Rightarrow> u32) \<Rightarrow> picture" where
  "shade A f = (\<lambda>x y. if A x y then Some (f x y) else None)"

definition over :: "picture \<Rightarrow> picture \<Rightarrow> picture" where
  "over f g = (\<lambda>x y. case g x y of None \<Rightarrow> f x y | Some c \<Rightarrow> Some c)"

lemma painted_refl: "painted s (\<lambda>x y. None) m m"
  by (simp add: painted_def)

lemma painted_trans:
  assumes "painted s f m m'" "painted s g m' m''"
  shows "painted s (over f g) m m''"
  using assms unfolding painted_def over_def by (auto split: option.splits)

lemma painted_shade_trans:
  assumes "painted s (shade A f) m m'" "painted s (shade B f) m' m''"
  shows "painted s (shade (\<lambda>x y. A x y \<or> B x y) f) m m''"
proof -
  have "over (shade A f) (shade B f) = shade (\<lambda>x y. A x y \<or> B x y) f" by (auto simp: over_def shade_def fun_eq_iff)
  then show ?thesis using painted_trans [OF assms] by simp
qed

lemma painted_cong:
  assumes "painted s f m m'" "\<And>x y. on_surface s x y \<Longrightarrow> f x y = g x y"
  shows "painted s g m m'"
  using assms unfolding painted_def by auto

lemma painted_fold:
  assumes "\<And>i m. i \<in> set xs \<Longrightarrow> painted s (shade (A i) f) m (op i m)"
  shows "painted s (shade (\<lambda>x y. \<exists>i\<in>set xs. A i x y) f) m (fold op xs m)"
  using assms
proof (induction xs arbitrary: m)
  case Nil
  then show ?case using painted_refl by (simp add: shade_def)
next
  case (Cons a xs)
  have "painted s (shade (A a) f) m (op a m)" using Cons.prems by simp
  moreover have "painted s (shade (\<lambda>x y. \<exists>i\<in>set xs. A i x y) f) (op a m) (fold op xs (op a m))" using Cons by simp
  ultimately show ?case using painted_shade_trans by fastforce
qed

lemma painted_pixel:
  assumes "surface_ok s" "on_surface s x y" "\<And>x' y'. A x' y' \<longleftrightarrow> x' = x \<and> y' = y" "f x y = color"
  shows "painted s (shade A f) m (write_bytes (pix s x y) (bpp s) (pixel_bytes s color) m)"
proof -
  define a n where "a = pix s x y" and "n = bpp s"
  have "write_bytes a n (pixel_bytes s color) m (pix s x' y' + k) =
      (case shade A f x' y' of None \<Rightarrow> m (pix s x' y' + k) | Some c \<Rightarrow> pixel_bytes s c k)"
    if p: "on_surface s x' y'" "k < n" for x' y' k
  proof (cases "a \<le> pix s x' y' + k \<and> pix s x' y' + k < a + n")
    case True
    then obtain k' where k': "pix s x' y' + k = a + k'" "k' < n" by (metis le_Suc_ex nat_add_left_cancel_less)
    then have "x' = x" "y' = y" "k = k'" using pix_inject [OF assms(1) p(1) _ assms(2), of k k'] p(2) by (simp_all add: a_def n_def)
    then show ?thesis using True assms(3,4) k' by (simp add: write_bytes_def shade_def)
  next
    case False
    then have "\<not> (x' = x \<and> y' = y)" using p(2) by (auto simp: a_def)
    then have "shade A f x' y' = None" using assms(3) by (auto simp: shade_def)
    then show ?thesis using False by (auto simp: write_bytes_def)
  qed
  moreover have "write_bytes a n (pixel_bytes s color) m i = m i" if "i \<notin> footprint s" for i
  proof -
    have "\<not> (a \<le> i \<and> i < a + n)"
    proof
      assume "a \<le> i \<and> i < a + n"
      then obtain k where "i = a + k" "k < n" by (metis le_Suc_ex nat_add_left_cancel_less)
      then show False using that assms(2) by (auto simp: footprint_def a_def n_def)
    qed
    then show ?thesis by (auto simp: write_bytes_def)
  qed
  ultimately show ?thesis by (simp add: painted_def a_def n_def)
qed

lemma painted_put_pixel:
  assumes "surface_ok s" "\<And>x' y'. on_surface s x' y' \<Longrightarrow> A x' y' \<longleftrightarrow> x' = unat x \<and> y' = unat y" "f (unat x) (unat y) = color"
  shows "painted s (shade A f) m (put_pixel s x y color m)"
proof (cases "on_surface s (unat x) (unat y)")
  case True
  have "painted s (shade (\<lambda>x' y'. x' = unat x \<and> y' = unat y) f) m (put_pixel s x y color m)"
    unfolding put_pixel_write [OF assms(1)] if_P [OF True] by (rule painted_pixel [OF assms(1) True]) (simp_all add: assms(3))
  then show ?thesis by (rule painted_cong) (simp add: shade_def assms(2))
next
  case False
  have "painted s (\<lambda>x y. None) m (put_pixel s x y color m)"
    using painted_refl False by (simp add: put_pixel_write [OF assms(1)])
  then show ?thesis by (rule painted_cong) (use False in \<open>auto simp: shade_def assms(2)\<close>)
qed

lemma fill_row_columns:
  assumes "surface_valid s"
  shows "fill_row s color pixel width m =
    fold (\<lambda>col. write_bytes (unat (pixel + of_nat col * bytes_per_pixel s)) (bpp s) (pixel_bytes s color)) [0..<unat width] m"
  using assms unfolding write_pixel [OF assms]
  by (cases rule: bpp_cases) (simp_all add: fill_row_def bytes_per_pixel_def mult.commute)

text \<open>A row of the given width is painted in one colour.\<close>

lemma painted_fill_row:
  assumes "surface_ok s" "unat y < unat (sheight s)" "unat x + unat width \<le> unat (swidth s)"
  shows "painted s (shade (\<lambda>x' y'. unat x \<le> x' \<and> x' < unat x + unat width \<and> y' = unat y) (\<lambda>_ _. color)) m
    (fill_row s color (pixel_pointer s x y) width m)"
proof -
  have "painted s (shade (\<lambda>x' y'. x' = unat x + col \<and> y' = unat y) (\<lambda>_ _. color)) m
      (write_bytes (unat (pixel_pointer s x y + of_nat col * bytes_per_pixel s)) (bpp s) (pixel_bytes s color) m)"
    if "col \<in> set [0..<unat width]" for col m
  proof -
    have "on_surface s (unat x + col) (unat y)" using that assms(2,3) by (simp add: on_surface_def)
    then show ?thesis unfolding column_pointer [OF assms(1) \<open>on_surface s (unat x + col) (unat y)\<close>]
      by (intro painted_pixel assms(1)) auto
  qed
  from painted_fold [where xs = "[0..<unat width]" and A = "\<lambda>col x' y'. x' = unat x + col \<and> y' = unat y" and op = "\<lambda>col. write_bytes (unat (pixel_pointer s x y + of_nat col * bytes_per_pixel s)) (bpp s) (pixel_bytes s color)", OF this]
  have "painted s (shade (\<lambda>x' y'. \<exists>col\<in>set [0..<unat width]. x' = unat x + col \<and> y' = unat y) (\<lambda>_ _. color)) m
      (fill_row s color (pixel_pointer s x y) width m)"
    by (simp add: fill_row_columns [OF surface_okD(1) [OF assms(1)]])
  then show ?thesis
  proof (rule painted_cong)
    fix x' y'
    have "(\<exists>col\<in>set [0..<unat width]. x' = unat x + col \<and> y' = unat y) = (unat x \<le> x' \<and> x' < unat x + unat width \<and> y' = unat y)"
      by (auto intro!: bexI [of _ "x' - unat x"])
    then show "shade (\<lambda>x' y'. \<exists>col\<in>set [0..<unat width]. x' = unat x + col \<and> y' = unat y) (\<lambda>_ _. color) x' y' =
      shade (\<lambda>x' y'. unat x \<le> x' \<and> x' < unat x + unat width \<and> y' = unat y) (\<lambda>_ _. color) x' y'" by (simp add: shade_def)
  qed
qed

text \<open>The clipped extent of a rectangle that starts on the surface.\<close>

lemma clip_exact:
  fixes x w W :: u32
  assumes "unat x + unat w < 2 ^ 32" "unat x < unat W"
  shows "unat (if x + w > W then W - x else w) = (if unat x + unat w > unat W then unat W - unat x else unat w)"
proof -
  have "unat (x + w) = unat x + unat w" using assms(1) by (simp add: unat_word_ariths)
  moreover have "unat (W - x) = unat W - unat x" using assms(2) by (intro unat_sub) (simp add: word_le_nat_alt)
  ultimately show ?thesis by (simp add: word_less_nat_alt)
qed

definition in_rect :: "nat \<Rightarrow> nat \<Rightarrow> nat \<Rightarrow> nat \<Rightarrow> nat \<Rightarrow> nat \<Rightarrow> bool" where
  "in_rect x y w h x' y' \<longleftrightarrow> x \<le> x' \<and> x' < x + w \<and> y \<le> y' \<and> y' < y + h"

lemma painted_fill_rect:
  assumes ok: "surface_ok s" and nw: "unat x + unat width < 2 ^ 32" "unat y + unat height < 2 ^ 32"
  shows "painted s (shade (in_rect (unat x) (unat y) (unat width) (unat height)) (\<lambda>_ _. color)) m (fill_rect s x y width height color m)"
proof (cases "on_surface s (unat x) (unat y)")
  case True
  define w h where "w = (if x + width > swidth s then swidth s - x else width)" and "h = (if y + height > sheight s then sheight s - y else height)"
  have xy: "unat x < unat (swidth s)" "unat y < unat (sheight s)" using True by (simp_all add: on_surface_def)
  have w: "unat w = min (unat width) (unat (swidth s) - unat x)" and h: "unat h = min (unat height) (unat (sheight s) - unat y)"
    using clip_exact [OF nw(1) xy(1)] clip_exact [OF nw(2) xy(2)] by (simp_all add: w_def h_def)
  have "painted s (shade (\<lambda>x' y'. unat x \<le> x' \<and> x' < unat x + unat w \<and> y' = unat y + row) (\<lambda>_ _. color)) m
      (fill_row s color (pixel_pointer s x (y + of_nat row)) w m)" if "row \<in> set [0..<unat h]" for row m
  proof -
    have r: "unat y + row < unat (sheight s)" using that h xy by (simp add: less_diff_conv)
    then have "unat (y + of_nat row) = unat y + row" using unat_u32_less [of "sheight s"]
      by (simp add: unat_word_ariths unsigned_of_nat take_bit_nat_eq_self del: unat_u32_less)
    then show ?thesis using painted_fill_row [OF ok, of "y + of_nat row" x w color m] r w xy by simp
  qed
  from painted_fold [where xs = "[0..<unat h]" and A = "\<lambda>row x' y'. unat x \<le> x' \<and> x' < unat x + unat w \<and> y' = unat y + row" and op = "\<lambda>row. fill_row s color (pixel_pointer s x (y + of_nat row)) w", OF this]
  have "painted s (shade (\<lambda>x' y'. \<exists>row\<in>set [0..<unat h]. unat x \<le> x' \<and> x' < unat x + unat w \<and> y' = unat y + row) (\<lambda>_ _. color)) m (fill_rect s x y width height color m)"
    using surface_okD(1) [OF ok] xy by (simp add: fill_rect_def word_le_nat_alt w_def h_def Let_def)
  then show ?thesis
  proof (rule painted_cong)
    fix x' y' assume "on_surface s x' y'"
    then have "x' < unat (swidth s)" "y' < unat (sheight s)" by (simp_all add: on_surface_def)
    then have "(\<exists>row\<in>set [0..<unat h]. unat x \<le> x' \<and> x' < unat x + unat w \<and> y' = unat y + row) = in_rect (unat x) (unat y) (unat width) (unat height) x' y'"
      unfolding in_rect_def w h by (auto intro!: bexI [of _ "y' - unat y"])
    then show "shade (\<lambda>x' y'. \<exists>row\<in>set [0..<unat h]. unat x \<le> x' \<and> x' < unat x + unat w \<and> y' = unat y + row) (\<lambda>_ _. color) x' y' =
      shade (in_rect (unat x) (unat y) (unat width) (unat height)) (\<lambda>_ _. color) x' y'" by (simp add: shade_def)
  qed
next
  case False
  then have "painted s (\<lambda>x y. None) m (fill_rect s x y width height color m)"
    using painted_refl by (auto simp: fill_rect_def on_surface_def word_le_nat_alt not_less)
  then show ?thesis by (rule painted_cong) (use False in \<open>auto simp: shade_def in_rect_def on_surface_def\<close>)
qed

lemma decode_cong:
  assumes "surface_ok s" "\<And>k. k < bpp s \<Longrightarrow> b1 k = b2 k"
  shows "decode s b1 = decode s b2"
  using surface_okD(1) [OF assms(1)] by (cases rule: bpp_cases) (simp_all add: decode_def assms(2))

lemma painted_get_pixel:
  assumes "surface_ok s" "painted s f m m'" "on_surface s (unat x) (unat y)"
  shows "get_pixel s x y m' = (case f (unat x) (unat y) of None \<Rightarrow> get_pixel s x y m | Some c \<Rightarrow> pixel_value s c)"
proof -
  define a where "a = pix s (unat x) (unat y)"
  have "m' (a + k) = (case f (unat x) (unat y) of None \<Rightarrow> m (a + k) | Some c \<Rightarrow> pixel_bytes s c k)" if "k < bpp s" for k
    using assms(2,3) that unfolding painted_def a_def by auto
  then have "decode s (\<lambda>k. m' (a + k)) = decode s (\<lambda>k. case f (unat x) (unat y) of None \<Rightarrow> m (a + k) | Some c \<Rightarrow> pixel_bytes s c k)"
    by (rule decode_cong [OF assms(1)])
  then show ?thesis
    unfolding get_pixel_decode [OF assms(1,3)] a_def [symmetric]
    by (cases "f (unat x) (unat y)") (simp_all add: decode_pixel_bytes [OF surface_okD(1) [OF assms(1)]])
qed

section \<open>Properties of the drawing operations\<close>

text \<open>C13. Filling a rectangle whose right and lower edges do not pass \<open>2 ^ 32\<close> gives exactly the pixels of the rectangle that lie
  on the surface the colour: one of the sixteen standard colours for a number below 16 (the number itself on an 8-bit
  surface), the RGB value otherwise, in the channel widths of the pixel format. Every other pixel of the surface and
  every byte outside it, the gaps between the rows included, is unchanged.\<close>

theorem fill_rect_exact:
  assumes "surface_ok s" "unat x + unat width < 2 ^ 32" "unat y + unat height < 2 ^ 32"
    "m' = graphics_fill_rect (Some s) x y width height color m"
  shows "(\<forall>px py. on_surface s (unat px) (unat py) \<longrightarrow> graphics_get_pixel (Some s) px py m' =
       (if in_rect (unat x) (unat y) (unat width) (unat height) (unat px) (unat py) then pixel_value s color
        else graphics_get_pixel (Some s) px py m)) \<and> (\<forall>i. i \<notin> footprint s \<longrightarrow> m' i = m i)"
proof -
  have p: "painted s (shade (in_rect (unat x) (unat y) (unat width) (unat height)) (\<lambda>_ _. color)) m m'"
    using painted_fill_rect [OF assms(1-3)] assms(4) by simp
  then show ?thesis using painted_get_pixel [OF assms(1) p] by (auto simp: shade_def painted_def)
qed

theorem fill_rect_exact_witness:
  "graphics_get_pixel (Some (test_surface 0x200000)) 63 7 (graphics_fill_rect (Some (test_surface 0x200000)) 60 5 20 10 12 (\<lambda>_. 0)) = 0xFF5555"
proof -
  have ok: "surface_ok (test_surface 0x200000)" by (simp add: surface_ok_def surface_valid_def test_surface_def bytes_per_pixel_def)
  have "on_surface (test_surface 0x200000) (unat (63 :: u32)) (unat (7 :: u32))" by (simp add: on_surface_def test_surface_def)
  then show ?thesis using fill_rect_exact [OF ok _ _ refl, of 60 20 5 10 12 "\<lambda>_. 0"]
    by (simp add: in_rect_def pixel_value_def rgb_value_def standard_color_def test_surface_def)
qed

text \<open>The clipping sum wraps: a width that reaches past \<open>2 ^ 32\<close> is not clipped, and the fill runs through the whole memory.\<close>

lemma fold_write: "fold (\<lambda>i m. m(g i := v)) xs m a = (if a \<in> g ` set xs then v else m a)"
  by (induction xs arbitrary: m) auto

lemma all_but_one_address:
  "i \<in> (\<lambda>col. unat (p + of_nat col :: u32)) ` set [0..<unat (- 1 :: u32)] \<longleftrightarrow> i < 2 ^ 32 \<and> i \<noteq> unat (p - 1)"
proof
  assume "i \<in> (\<lambda>col. unat (p + of_nat col :: u32)) ` set [0..<unat (- 1 :: u32)]"
  then obtain col where col: "i = unat (p + of_nat col)" "col < unat (- 1 :: u32)" by (auto simp del: unsigned_minus_1_eq_mask)
  have u: "unat (of_nat col :: u32) = col" using less_trans [OF col(2) unsigned_less] by (simp add: unsigned_of_nat take_bit_nat_eq_self)
  have "of_nat col \<noteq> (- 1 :: u32)" using col(2) u by (metis less_irrefl)
  then show "i < 2 ^ 32 \<and> i \<noteq> unat (p - 1)" using col(1) by (auto simp: word_unat_eq_iff [symmetric] add_eq_0_iff2)
next
  assume i: "i < 2 ^ 32 \<and> i \<noteq> unat (p - 1)"
  define d where "d = (of_nat i :: u32) - p"
  have "unat (of_nat i :: u32) = i" using i by (simp add: unsigned_of_nat take_bit_nat_eq_self)
  then have a: "i = unat (p + d)" by (simp add: d_def)
  then have "d \<noteq> - 1" using i by auto
  then have "unat d < unat (- 1 :: u32)" by (metis word_less_nat_alt word_order.not_eq_extremum)
  then show "i \<in> (\<lambda>col. unat (p + of_nat col :: u32)) ` set [0..<unat (- 1 :: u32)]"
    using a by (intro image_eqI [of _ _ "unat d"]) (simp_all del: unsigned_minus_1_eq_mask)
qed

theorem fill_rect_wraps:
  assumes "surface_ok s" "sbpp s = 8" "swidth s > 1" "y < sheight s"
  shows "fill_rect s 1 y (- 1) 1 color m = (\<lambda>i. if i < 2 ^ 32 \<and> i \<noteq> pix s 0 (unat y) then ucast color else m i)"
proof -
  define p where "p = pixel_pointer s 1 y"
  have h: "\<not> y + 1 > sheight s" using inc_le [OF assms(4)] by simp
  have v: "surface_valid s" by (rule surface_okD(1) [OF assms(1)])
  have "fill_rect s 1 y (- 1) 1 color m = fill_row s color p (- 1) m"
    using assms(3,4) h v by (simp add: fill_rect_def p_def Let_def flip: not_less)
  also have "\<dots> = fold (\<lambda>col m. m(unat (p + of_nat col) := ucast color)) [0..<unat (- 1 :: u32)] m"
    unfolding fill_row_def assms(2) by simp
  also have "\<dots> = (\<lambda>i. if i < 2 ^ 32 \<and> i \<noteq> unat (p - 1) then ucast color else m i)"
    unfolding fun_eq_iff fold_write all_but_one_address by simp
  also have "unat (p - 1) = pix s 0 (unat y)"
    using pixel_pointer_pix [OF assms(1), of 0 y] assms(2,3,4)
    by (simp add: p_def pixel_pointer_def bytes_per_pixel_def on_surface_def word_less_nat_alt)
  finally show ?thesis .
qed

lemma painted_draw_char:
  assumes "surface_ok s" "unat x + 6 \<le> 2 ^ 32" "unat y + 8 \<le> 2 ^ 32"
  shows "painted s (shade (in_rect (unat x) (unat y) 6 8) (\<lambda>x' y'. char_color c fg bg (x' - unat x) (y' - unat y))) m
    (graphics_draw_char (Some s) x y c fg bg m)"
proof -
  let ?f = "\<lambda>x' y'. char_color c fg bg (x' - unat x) (y' - unat y)"
  let ?put = "\<lambda>row col. graphics_put_pixel (Some s) (x + of_nat col) (y + of_nat row) (char_color c fg bg col row)"
  have px: "painted s (shade (\<lambda>x' y'. x' = unat x + col \<and> y' = unat y + row) ?f) m (?put row col m)"
    if "col \<in> set [0..<6]" "row \<in> set [0..<8]" for row col m
  proof -
    have "unat (x + of_nat col) = unat x + col" "unat (y + of_nat row) = unat y + row"
      using that assms(2,3) by (simp_all add: unat_word_ariths unsigned_of_nat take_bit_nat_eq_self)
    then show ?thesis using painted_put_pixel [OF assms(1), of "\<lambda>x' y'. x' = unat x + col \<and> y' = unat y + row" "x + of_nat col" "y + of_nat row" ?f] by simp
  qed
  have "painted s (shade (\<lambda>x' y'. \<exists>col\<in>set [0..<6]. x' = unat x + col \<and> y' = unat y + row) ?f) m (fold (?put row) [0..<6] m)"
    if "row \<in> set [0..<8]" for row m
    by (rule painted_fold [where A = "\<lambda>col x' y'. x' = unat x + col \<and> y' = unat y + row"]) (rule px [OF _ that])
  then have "painted s (shade (\<lambda>x' y'. \<exists>row\<in>set [0..<8]. \<exists>col\<in>set [0..<6]. x' = unat x + col \<and> y' = unat y + row) ?f) m
      (fold (\<lambda>row. fold (?put row) [0..<6]) [0..<8] m)"
    by (rule painted_fold [where A = "\<lambda>row x' y'. \<exists>col\<in>set [0..<6]. x' = unat x + col \<and> y' = unat y + row"])
  then have "painted s (shade (\<lambda>x' y'. \<exists>row\<in>set [0..<8]. \<exists>col\<in>set [0..<6]. x' = unat x + col \<and> y' = unat y + row) ?f) m
      (graphics_draw_char (Some s) x y c fg bg m)" unfolding graphics_draw_char_def .
  then show ?thesis
  proof (rule painted_cong)
    fix x' y'
    have "(\<exists>row\<in>set [0..<8]. \<exists>col\<in>set [0..<6]. x' = unat x + col \<and> y' = unat y + row) = in_rect (unat x) (unat y) 6 8 x' y'"
    proof
      assume r: "in_rect (unat x) (unat y) 6 8 x' y'"
      then show "\<exists>row\<in>set [0..<8]. \<exists>col\<in>set [0..<6]. x' = unat x + col \<and> y' = unat y + row"
        by (intro bexI [of _ "y' - unat y"] bexI [of _ "x' - unat x"]) (simp_all add: in_rect_def less_diff_conv2 del: upt_rec_numeral)
    qed (auto simp: in_rect_def simp del: upt_rec_numeral)
    then show "shade (\<lambda>x' y'. \<exists>row\<in>set [0..<8]. \<exists>col\<in>set [0..<6]. x' = unat x + col \<and> y' = unat y + row) ?f x' y' =
      shade (in_rect (unat x) (unat y) 6 8) ?f x' y'" by (simp only: shade_def)
  qed
qed

text \<open>A string is a row of cells of 6 by 8 pixels.\<close>

definition text_color :: "u8 list \<Rightarrow> u32 \<Rightarrow> u32 \<Rightarrow> nat \<Rightarrow> nat \<Rightarrow> u32" where
  "text_color text fg bg col row = char_color (text ! (col div 6)) fg bg (col mod 6) row"

lemma painted_draw_string:
  assumes "surface_ok s" "unat x + 6 * length cs < 2 ^ 32" "unat y + 8 \<le> 2 ^ 32" "0 \<notin> set cs"
  shows "painted s (shade (in_rect (unat x) (unat y) (6 * length cs) 8) (\<lambda>x' y'. text_color cs fg bg (x' - unat x) (y' - unat y))) m
    (graphics_draw_string (Some s) x y (cs @ 0 # rest) fg bg m)"
  using assms(2,4)
proof (induction cs arbitrary: x m)
  case Nil
  have "painted s (\<lambda>x y. None) m (graphics_draw_string (Some s) x y ([] @ 0 # rest) fg bg m)" using painted_refl by simp
  then show ?case by (rule painted_cong) (simp add: shade_def in_rect_def)
next
  case (Cons c cs)
  have x: "unat (x + 6) = unat x + 6" using Cons.prems(1) by (simp add: unat_word_ariths)
  have "painted s (shade (in_rect (unat x) (unat y) 6 8) (\<lambda>x' y'. char_color c fg bg (x' - unat x) (y' - unat y))) m
      (graphics_draw_char (Some s) x y c fg bg m)" using Cons.prems(1) by (intro painted_draw_char assms(1,3)) simp
  moreover have "painted s (shade (in_rect (unat x + 6) (unat y) (6 * length cs) 8) (\<lambda>x' y'. text_color cs fg bg (x' - (unat x + 6)) (y' - unat y)))
      (graphics_draw_char (Some s) x y c fg bg m) (graphics_draw_string (Some s) x y ((c # cs) @ 0 # rest) fg bg m)"
    using Cons.IH [of "x + 6" "graphics_draw_char (Some s) x y c fg bg m"] Cons.prems x by simp
  ultimately show ?case
  proof (rule painted_cong [OF painted_trans])
    fix x' y'
    have t: "text_color (c # cs) fg bg (6 + j) r = text_color cs fg bg j r" for j r
    proof -
      have "(6 + j) div 6 = Suc (j div 6)" by simp
      then show ?thesis unfolding text_color_def by simp
    qed
    consider "x' < unat x + 6" | j where "x' = unat x + 6 + j" by (metis le_Suc_ex not_less)
    then show "over (shade (in_rect (unat x) (unat y) 6 8) (\<lambda>x' y'. char_color c fg bg (x' - unat x) (y' - unat y)))
        (shade (in_rect (unat x + 6) (unat y) (6 * length cs) 8) (\<lambda>x' y'. text_color cs fg bg (x' - (unat x + 6)) (y' - unat y))) x' y' =
      shade (in_rect (unat x) (unat y) (6 * length (c # cs)) 8) (\<lambda>x' y'. text_color (c # cs) fg bg (x' - unat x) (y' - unat y)) x' y'"
    proof cases
      case 1
      then show ?thesis by (auto simp: over_def shade_def in_rect_def text_color_def)
    next
      case 2
      then have e: "x' - unat x = 6 + j" "x' - (unat x + 6) = j" by simp_all
      show ?thesis unfolding over_def shade_def in_rect_def e t using 2 by auto
    qed
  qed
qed

lemma painted_draw_rect:
  assumes "surface_ok s" "width \<noteq> 0" "height \<noteq> 0" "unat x + unat width < 2 ^ 32" "unat y + unat height < 2 ^ 32"
  shows "painted s (shade (\<lambda>x' y'. in_rect (unat x) (unat y) (unat width) (unat height) x' y' \<and>
      (x' = unat x \<or> x' + 1 = unat x + unat width \<or> y' = unat y \<or> y' + 1 = unat y + unat height)) (\<lambda>_ _. color)) m
    (graphics_draw_rect (Some s) x y width height color m)"
proof -
  have p: "0 < unat width" "0 < unat height" using assms(2,3) by (simp_all add: unat_gt_0)
  have r: "unat (x + width - 1) = unat x + unat width - 1" "unat (y + height - 1) = unat y + unat height - 1"
    using assms(4,5) p by (simp_all add: unat_minus_one unat_word_ariths unat_gt_0 [symmetric])
  have d: "graphics_draw_rect (Some s) x y width height color m = graphics_fill_rect (Some s) (x + width - 1) y 1 height color
      (graphics_fill_rect (Some s) x y 1 height color (graphics_fill_rect (Some s) x (y + height - 1) width 1 color
        (graphics_fill_rect (Some s) x y width 1 color m)))" using assms(2,3) by (simp add: graphics_draw_rect_def)
  let ?P = "\<lambda>A. painted s (shade A (\<lambda>_ _. color))"
  have "?P (in_rect (unat x) (unat y) (unat width) 1) m1 (graphics_fill_rect (Some s) x y width 1 color m1)" for m1
    using painted_fill_rect [OF assms(1), of x width y 1] assms(4,5) p by simp
  moreover have "?P (in_rect (unat x) (unat y + unat height - 1) (unat width) 1) m1 (graphics_fill_rect (Some s) x (y + height - 1) width 1 color m1)" for m1
    using painted_fill_rect [OF assms(1), of x width "y + height - 1" 1] assms(4,5) p r by simp
  moreover have "?P (in_rect (unat x) (unat y) 1 (unat height)) m1 (graphics_fill_rect (Some s) x y 1 height color m1)" for m1
    using painted_fill_rect [OF assms(1), of x 1 y height] assms(4,5) p by simp
  moreover have "?P (in_rect (unat x + unat width - 1) (unat y) 1 (unat height)) m1 (graphics_fill_rect (Some s) (x + width - 1) y 1 height color m1)" for m1
    using painted_fill_rect [OF assms(1), of "x + width - 1" 1 y height] assms(4,5) p r by simp
  ultimately have "?P (\<lambda>x' y'. ((in_rect (unat x) (unat y) (unat width) 1 x' y' \<or> in_rect (unat x) (unat y + unat height - 1) (unat width) 1 x' y')
      \<or> in_rect (unat x) (unat y) 1 (unat height) x' y') \<or> in_rect (unat x + unat width - 1) (unat y) 1 (unat height) x' y') m
    (graphics_draw_rect (Some s) x y width height color m)"
    unfolding d by (intro painted_shade_trans)
  then show ?thesis by (rule painted_cong) (use p in \<open>auto simp: shade_def in_rect_def\<close>)
qed

text \<open>The self test passes wherever its buffer lies: the three drawing calls leave the four probed pixels in the
  colours the test expects.\<close>

theorem self_test_passes:
  assumes "test_pixels \<noteq> 0" "unat test_pixels + 4 * 64 * 48 \<le> 2 ^ 32"
  shows "fst (graphics_self_test test_pixels m)"
proof -
  define s where "s = test_surface test_pixels"
  have f [simp]: "spixels s = test_pixels" "swidth s = 64" "sheight s = 48" "spitch s = 256" "sbpp s = 32" by (simp_all add: s_def test_surface_def)
  have bp [simp]: "bytes_per_pixel s = 4" by (simp add: bytes_per_pixel_def)
  have ok: "surface_ok s" using assms by (simp add: surface_ok_def surface_valid_def)
  define m1 m2 m3 where "m1 = graphics_clear (Some s) 0x00102030 m" and "m2 = graphics_fill_rect (Some s) 4 5 20 10 0x00AA3300 m1"
    and "m3 = graphics_draw_rect (Some s) 2 3 30 20 0x0000CC66 m2"
  have "painted s (shade (in_rect 0 0 64 48) (\<lambda>_ _. 0x00102030)) m m1"
    using painted_fill_rect [OF ok, of 0 64 0 48] surface_okD(1) [OF ok] by (simp add: m1_def)
  moreover have "painted s (shade (in_rect 4 5 20 10) (\<lambda>_ _. 0x00AA3300)) m1 m2"
    using painted_fill_rect [OF ok, of 4 20 5 10] by (simp add: m2_def)
  moreover have "painted s (shade (\<lambda>x' y'. in_rect 2 3 30 20 x' y' \<and> (x' = 2 \<or> x' + 1 = 32 \<or> y' = 3 \<or> y' + 1 = 23)) (\<lambda>_ _. 0x0000CC66)) m2 m3"
    using painted_draw_rect [OF ok, of 30 20 2 3] by (simp add: m3_def)
  ultimately have p: "painted s (over (over (shade (in_rect 0 0 64 48) (\<lambda>_ _. 0x00102030)) (shade (in_rect 4 5 20 10) (\<lambda>_ _. 0x00AA3300)))
      (shade (\<lambda>x' y'. in_rect 2 3 30 20 x' y' \<and> (x' = 2 \<or> x' + 1 = 32 \<or> y' = 3 \<or> y' + 1 = 23)) (\<lambda>_ _. 0x0000CC66))) m m3"
    by (intro painted_trans)
  have g: "get_pixel s x y m3 = load32 m3 (unat test_pixels + 4 * (unat y * 64 + unat x))" if "on_surface s (unat x) (unat y)" for x y
  proof -
    have "pix s (unat x) (unat y) = unat test_pixels + 4 * (unat y * 64 + unat x)" by (simp add: pix_def)
    then show ?thesis by (simp add: get_pixel_decode [OF ok that] decode_def load32_def)
  qed
  have on: "on_surface s 0 0" "on_surface s 4 5" "on_surface s 2 3" "on_surface s 31 22" by (simp_all add: on_surface_def)
  note v = painted_get_pixel [OF ok p, unfolded over_def shade_def in_rect_def pixel_value_code [OF surface_okD(1) [OF ok]] palette_color_def]
  have "load32 m3 (unat test_pixels) = 0x00102030" using v [of 0 0] g [of 0 0] on(1) by simp
  moreover have "load32 m3 (unat test_pixels + 4 * (5 * 64 + 4)) = 0x00AA3300" using v [of 4 5] g [of 4 5] on(2) by simp
  moreover have "load32 m3 (unat test_pixels + 4 * (3 * 64 + 2)) = 0x0000CC66" using v [of 2 3] g [of 2 3] on(3) by simp
  moreover have "load32 m3 (unat test_pixels + 4 * (22 * 64 + 31)) = 0x0000CC66" using v [of 31 22] g [of 31 22] on(4) by simp
  ultimately show ?thesis by (simp add: graphics_self_test_def Let_def m1_def m2_def m3_def s_def)
qed

theorem self_test_passes_witness: "fst (graphics_self_test 0x100000 (\<lambda>_. 0))"
  by (rule self_test_passes) simp_all

end
