(* ===== verification/Graphics_Copy.thy ===== *)
theory Graphics_Copy
  imports Graphics_Draw
begin

text \<open>Copies between surfaces: the word-wise copy of a row is a byte-wise copy when source and destination are apart, and the
  copy of a rectangle transfers exactly its pixels.\<close>

section \<open>Copies\<close>

lemma copy_words_write:
  assumes "i \<le> count" "\<And>j. j < count \<Longrightarrow> \<not> (dst \<le> src + j \<and> src + j < dst + count)"
  shows "\<exists>k \<le> count. copy_words dst src i count (write_bytes dst i (\<lambda>j. m (src + j)) m) = (k, write_bytes dst k (\<lambda>j. m (src + j)) m)"
  using assms
proof (induction "count - i" arbitrary: i rule: less_induct)
  case less
  let ?w = "\<lambda>n. write_bytes dst n (\<lambda>j. m (src + j)) m"
  show ?case
  proof (cases "i + 4 \<le> count")
    case True
    have r: "?w i (src + i + d) = m (src + (i + d))" if "d < 4" for d
      using less.prems(2) [of "i + d"] True that by (auto simp: write_bytes_def add.assoc)
    have "load32 (?w i) (src + i) = le32 (m (src + i)) (m (src + (i + 1))) (m (src + (i + 2))) (m (src + (i + 3)))"
      using r [of 0] r [of 1] r [of 2] r [of 3] unfolding load32_def by simp
    then have "store32 (?w i) (dst + i) (load32 (?w i) (src + i)) =
        (?w i)(dst + i := m (src + i), dst + (i + 1) := m (src + (i + 1)), dst + (i + 2) := m (src + (i + 2)), dst + (i + 3) := m (src + (i + 3)))"
      by (simp add: store32_def add.assoc)
    also have "\<dots> = ?w (i + 4)"
      unfolding write_bytes_def fun_eq_iff
    proof
      fix a
      show "((\<lambda>a. if dst \<le> a \<and> a < dst + i then m (src + (a - dst)) else m a)
          (dst + i := m (src + i), dst + (i + 1) := m (src + (i + 1)), dst + (i + 2) := m (src + (i + 2)), dst + (i + 3) := m (src + (i + 3)))) a =
        (if dst \<le> a \<and> a < dst + (i + 4) then m (src + (a - dst)) else m a)"
      proof (cases "dst \<le> a")
        case True
        then obtain e where e: "a = dst + e" by (metis le_Suc_ex)
        consider "e < i" | "e = i" | "e = i + 1" | "e = i + 2" | "e = i + 3" | "i + 4 \<le> e" by linarith
        then show ?thesis unfolding e by cases simp_all
      qed simp
    qed
    finally have "store32 (?w i) (dst + i) (load32 (?w i) (src + i)) = ?w (i + 4)" .
    then show ?thesis using less.hyps [of "i + 4"] less.prems True by (simp add: copy_words.simps [of _ _ i])
  next
    case False
    then show ?thesis using less.prems(1) by (auto simp: copy_words.simps [of _ _ i])
  qed
qed

lemma copy_bytes_write:
  assumes "\<And>j. j < count \<Longrightarrow> \<not> (dst \<le> src + j \<and> src + j < dst + count)"
  shows "graphics_copy_bytes dst src count m = write_bytes dst count (\<lambda>j. m (src + j)) m"
proof -
  let ?w = "\<lambda>n. write_bytes dst n (\<lambda>j. m (src + j)) m"
  obtain k where k: "k \<le> count" "copy_words dst src 0 count m = (k, ?w k)"
    using copy_words_write [OF _ assms, of 0] by (auto simp: write_bytes_empty)
  have "fold (\<lambda>i m. m(dst + i := m (src + i))) [k..<k + n] (?w k) = ?w (k + n)" if "k + n \<le> count" for n
    using that
  proof (induction n)
    case (Suc n)
    have "?w (k + n) (src + (k + n)) = m (src + (k + n))" using assms [of "k + n"] Suc.prems by (auto simp: write_bytes_def)
    then show ?case using Suc write_bytes_step [of dst "k + n" "\<lambda>j. m (src + j)" m] by (simp del: fun_upd_apply)
  qed simp
  from this [of "count - k"] k show ?thesis by (simp add: graphics_copy_bytes_def)
qed

text \<open>Copying rows from a region of memory to one apart from it.\<close>

lemma fold_copy_rows:
  assumes src: "\<And>r j. r < h \<Longrightarrow> j < n \<Longrightarrow> src r + j \<notin> D" and dst: "\<And>r j. r < h \<Longrightarrow> j < n \<Longrightarrow> dst r + j \<in> D"
    and inj: "\<And>r j r' j'. r < h \<Longrightarrow> r' < h \<Longrightarrow> j < n \<Longrightarrow> j' < n \<Longrightarrow> dst r + j = dst r' + j' \<Longrightarrow> r = r' \<and> j = j'"
    and k: "k \<le> h" and m': "m' = fold (\<lambda>r m. write_bytes (dst r) n (\<lambda>j. m (src r + j)) m) [0..<k] m"
  shows "(\<forall>r j. r < k \<longrightarrow> j < n \<longrightarrow> m' (dst r + j) = m (src r + j)) \<and> (\<forall>i. (\<forall>r j. r < k \<longrightarrow> j < n \<longrightarrow> i \<noteq> dst r + j) \<longrightarrow> m' i = m i)"
  using k m'
proof (induction k arbitrary: m')
  case (Suc k)
  define m1 where "m1 = fold (\<lambda>r m. write_bytes (dst r) n (\<lambda>j. m (src r + j)) m) [0..<k] m"
  have IH: "\<And>r j. r < k \<Longrightarrow> j < n \<Longrightarrow> m1 (dst r + j) = m (src r + j)" "\<And>i. (\<And>r j. r < k \<Longrightarrow> j < n \<Longrightarrow> i \<noteq> dst r + j) \<Longrightarrow> m1 i = m i"
    using Suc.IH [OF _ m1_def] Suc.prems(1) by auto
  have m': "m' = write_bytes (dst k) n (\<lambda>j. m1 (src k + j)) m1" using Suc.prems(2) by (simp add: m1_def)
  have keep: "m1 (src k + j) = m (src k + j)" if "j < n" for j
  proof (rule IH(2))
    fix r j' assume "r < k" "j' < n"
    then have "dst r + j' \<in> D" using dst Suc.prems(1) by simp
    moreover have "src k + j \<notin> D" using src Suc.prems(1) that by simp
    ultimately show "src k + j \<noteq> dst r + j'" by metis
  qed
  have new: "m' (dst k + j) = m (src k + j)" if "j < n" for j using keep [OF that] that by (simp add: m' write_bytes_def)
  have old: "m' i = m1 i" if "\<And>j. j < n \<Longrightarrow> i \<noteq> dst k + j" for i
  proof -
    have "\<not> (dst k \<le> i \<and> i < dst k + n)" using that by (metis le_Suc_ex nat_add_left_cancel_less)
    then show ?thesis unfolding m' write_bytes_def by auto
  qed
  have "m' (dst r + j) = m (src r + j)" if r: "r < Suc k" "j < n" for r j
  proof (cases "r = k")
    case False
    then have "r < k" using r by simp
    then have "m' (dst r + j) = m1 (dst r + j)" using old inj [of r k j] Suc.prems(1) r(2) by fastforce
    then show ?thesis using IH(1) [OF \<open>r < k\<close> r(2)] by simp
  qed (use new r in simp)
  moreover have "m' i = m i" if "\<And>r j. r < Suc k \<Longrightarrow> j < n \<Longrightarrow> i \<noteq> dst r + j" for i
    using old [of i] IH(2) [of i] that by simp
  ultimately show ?case by blast
qed simp

lemma pix_row:
  "pix s (x + a) y + k = pix s x y + (a * bpp s + k)"
  by (simp add: pix_def algebra_simps)

lemma pixel_of_offset:
  assumes "0 < B" "j < w * B"
  obtains a k where "j = a * B + k" "a < w" "k < (B :: nat)"
proof
  show "j = j div B * B + j mod B" by simp
  show "j mod B < B" using assms(1) by simp
  show "j div B < w" using assms(2) by (simp add: less_mult_imp_div_less)
qed

text \<open>A rectangle inside both surfaces, as byte ranges.\<close>

lemma row_bytes:
  assumes ok: "surface_ok s" and w: "x + w \<le> unat (swidth s)" and r: "y + r < unat (sheight s)" and j: "j < w * bpp s"
  shows "pix s x (y + r) + j \<in> footprint s" "\<exists>a<w. \<exists>k<bpp s. pix s x (y + r) + j = pix s (x + a) (y + r) + k"
proof -
  obtain a k where a: "j = a * bpp s + k" "a < w" "k < bpp s" using pixel_of_offset [OF surface_okD(2) [OF ok] j] .
  then have e: "pix s x (y + r) + j = pix s (x + a) (y + r) + k" by (simp add: pix_row)
  then show "\<exists>a<w. \<exists>k<bpp s. pix s x (y + r) + j = pix s (x + a) (y + r) + k" using a by blast
  have "on_surface s (x + a) (y + r)" using w r a(2) by (simp add: on_surface_def)
  then show "pix s x (y + r) + j \<in> footprint s" unfolding footprint_def e using a(3) by blast
qed

lemma copy_row_write:
  assumes ok: "surface_ok d" "surface_ok s" and b: "bytes_per_pixel d = bytes_per_pixel s" and apart: "footprint d \<inter> footprint s = {}"
    and fit: "unat x + unat w \<le> unat (swidth d)" "unat x + unat w \<le> unat (swidth s)" "unat y < unat (sheight d)" "unat y < unat (sheight s)"
  shows "copy_row d s x y w m = write_bytes (pix d (unat x) (unat y)) (unat w * bpp d) (\<lambda>j. m (pix s (unat x) (unat y) + j)) m"
proof -
  have "unat w * bpp d \<le> unat (swidth d) * bpp d" using fit(1) by (intro mult_le_mono1) simp
  also have "\<dots> < 2 ^ 32" using surface_okD(3) [OF ok(1)] unat_u32_less [of "spitch d"] by (simp del: unat_u32_less)
  finally have n: "unat (w * bytes_per_pixel d) = unat w * bpp d" using unat_mult_lem [of w "bytes_per_pixel d"] by simp
  show ?thesis
  proof (cases "w = 0")
    case True
    then show ?thesis by (simp add: copy_row_def copy_bytes_write write_bytes_empty)
  next
    case False
    then have "on_surface d (unat x) (unat y)" "on_surface s (unat x) (unat y)" using fit unat_gt_0 [of w] by (auto simp: on_surface_def)
    then have "unat (pixel_pointer d x y) = pix d (unat x) (unat y)" "unat (pixel_pointer s x y) = pix s (unat x) (unat y)"
      by (simp_all add: pixel_pointer_pix ok)
    then have "copy_row d s x y w m = graphics_copy_bytes (pix d (unat x) (unat y)) (pix s (unat x) (unat y)) (unat w * bpp d) m"
      using b by (simp add: copy_row_def pixel_pointer_def n [unfolded b])
    moreover have "\<not> (pix d (unat x) (unat y) \<le> pix s (unat x) (unat y) + j \<and> pix s (unat x) (unat y) + j < pix d (unat x) (unat y) + unat w * bpp d)"
      if "j < unat w * bpp d" for j
    proof
      assume a: "pix d (unat x) (unat y) \<le> pix s (unat x) (unat y) + j \<and> pix s (unat x) (unat y) + j < pix d (unat x) (unat y) + unat w * bpp d"
      then obtain j' where j': "pix s (unat x) (unat y) + j = pix d (unat x) (unat y) + j'" "j' < unat w * bpp d" by (metis le_Suc_ex nat_add_left_cancel_less)
      have "pix s (unat x) (unat y) + j \<in> footprint s" using row_bytes(1) [OF ok(2) fit(2), of "unat y" 0 j] fit that b by simp
      moreover have "pix d (unat x) (unat y) + j' \<in> footprint d" using row_bytes(1) [OF ok(1) fit(1), of "unat y" 0 j'] fit j'(2) by simp
      ultimately show False using apart j'(1) by auto
    qed
    ultimately show ?thesis by (simp add: copy_bytes_write)
  qed
qed

text \<open>The copied pixels of a byte-wise copy of a rectangle.\<close>

lemma copy_rows_exact:
  assumes ok: "surface_ok d" "surface_ok s" and fmt: "sbpp d = sbpp s" "sformat d = sformat s"
    and apart: "footprint d \<inter> footprint s = {}"
    and fit: "unat x + unat w \<le> unat (swidth d)" "unat x + unat w \<le> unat (swidth s)" "unat y + unat h \<le> unat (sheight d)" "unat y + unat h \<le> unat (sheight s)"
    and m': "m' = copy_rows d s x y w h m"
  shows "(\<forall>px py k. in_rect (unat x) (unat y) (unat w) (unat h) px py \<longrightarrow> k < bpp d \<longrightarrow> m' (pix d px py + k) = m (pix s px py + k)) \<and>
    (\<forall>i. (\<forall>px py k. in_rect (unat x) (unat y) (unat w) (unat h) px py \<longrightarrow> k < bpp d \<longrightarrow> i \<noteq> pix d px py + k) \<longrightarrow> m' i = m i)"
proof -
  define X Y W H n where "X = unat x" and "Y = unat y" and "W = unat w" and "H = unat h" and "n = W * bpp d"
  have b: "bytes_per_pixel d = bytes_per_pixel s" using fmt by (simp add: bytes_per_pixel_def)
  have fd: "X + W \<le> unat (swidth d)" "\<And>r. r < H \<Longrightarrow> Y + r < unat (sheight d)" and fs: "X + W \<le> unat (swidth s)" "\<And>r. r < H \<Longrightarrow> Y + r < unat (sheight s)"
    using fit by (auto simp: X_def Y_def W_def H_def)
  have D: "pix d X (Y + r) + j \<in> footprint d" if "r < H" "j < n" for r j using row_bytes(1) [OF ok(1) fd(1)] fd(2) that by (simp add: n_def)
  have S: "pix s X (Y + r) + j \<notin> footprint d" if "r < H" "j < n" for r j
    using row_bytes(1) [OF ok(2) fs(1), of Y r j] fs(2) that apart b by (auto simp: n_def)
  have I: "r = r' \<and> j = j'" if rj: "r < H" "r' < H" "j < n" "j' < n" and e: "pix d X (Y + r) + j = pix d X (Y + r') + j'" for r j r' j'
  proof -
    obtain a k where a: "a < W" "k < bpp d" "pix d X (Y + r) + j = pix d (X + a) (Y + r) + k"
      using row_bytes(2) [OF ok(1) fd(1) fd(2)] rj by (metis n_def)
    obtain a' k' where a': "a' < W" "k' < bpp d" "pix d X (Y + r') + j' = pix d (X + a') (Y + r') + k'"
      using row_bytes(2) [OF ok(1) fd(1) fd(2)] rj by (metis n_def)
    have "on_surface d (X + a) (Y + r)" "on_surface d (X + a') (Y + r')" using a a' fd rj by (simp_all add: on_surface_def)
    then have "Y + r = Y + r'" using pix_inject [OF ok(1), of "X + a" "Y + r" k "X + a'" "Y + r'" k'] a a' e by auto
    then show ?thesis using e by simp
  qed
  have row: "copy_row d s x (y + of_nat r) w m1 = write_bytes (pix d X (Y + r)) n (\<lambda>j. m1 (pix s X (Y + r) + j)) m1" if "r \<in> set [0..<H]" for r m1
  proof -
    have r: "r < H" using that by simp
    then have "unat (y + of_nat r) = Y + r" using fd(2) [OF r] unat_u32_less [of "sheight d"]
      by (simp add: unat_word_ariths unsigned_of_nat take_bit_nat_eq_self Y_def del: unat_u32_less)
    then show ?thesis using copy_row_write [OF ok b apart fit(1,2), of "y + of_nat r" m1] fd(2) [OF r] fs(2) [OF r] by (simp add: X_def W_def n_def)
  qed
  have "copy_rows d s x y w h m = fold (\<lambda>r m. write_bytes (pix d X (Y + r)) n (\<lambda>j. m (pix s X (Y + r) + j)) m) [0..<H] m"
    unfolding copy_rows_def if_P [OF conjI [OF fmt]] H_def [symmetric] by (rule fold_cong) (simp_all add: row fun_eq_iff)
  then have "m' = fold (\<lambda>r m. write_bytes (pix d X (Y + r)) n (\<lambda>j. m (pix s X (Y + r) + j)) m) [0..<H] m" using m' by simp
  then have F: "(\<forall>r j. r < H \<longrightarrow> j < n \<longrightarrow> m' (pix d X (Y + r) + j) = m (pix s X (Y + r) + j)) \<and>
      (\<forall>i. (\<forall>r j. r < H \<longrightarrow> j < n \<longrightarrow> i \<noteq> pix d X (Y + r) + j) \<longrightarrow> m' i = m i)"
    by (intro fold_copy_rows [where D = "footprint d" and h = H] S D I order_refl)
  have off: "\<exists>r<H. \<exists>j<n. pix d px py + k = pix d X (Y + r) + j \<and> pix s px py + k = pix s X (Y + r) + j"
    if p: "in_rect X Y W H px py" "k < bpp d" for px py k
  proof (intro exI conjI)
    obtain a r where e: "px = X + a" "py = Y + r" using p(1) by (metis in_rect_def le_Suc_ex)
    show "py - Y < H" "(px - X) * bpp d + k < n" using p pixel_in_row [of a W k "bpp d"] by (auto simp: in_rect_def e n_def)
    show "pix d px py + k = pix d X (Y + (py - Y)) + ((px - X) * bpp d + k)" "pix s px py + k = pix s X (Y + (py - Y)) + ((px - X) * bpp d + k)"
      using b by (simp_all add: e pix_row)
  qed
  have inside: "\<exists>px py k. in_rect X Y W H px py \<and> k < bpp d \<and> pix d X (Y + r) + j = pix d px py + k" if rj: "r < H" "j < n" for r j
  proof -
    obtain a k where "a < W" "k < bpp d" "pix d X (Y + r) + j = pix d (X + a) (Y + r) + k"
      using row_bytes(2) [OF ok(1) fd(1) fd(2) [OF rj(1)], of j] rj(2) by (auto simp: n_def)
    moreover have "in_rect X Y W H (X + a) (Y + r)" using calculation(1) rj(1) by (simp add: in_rect_def)
    ultimately show ?thesis by blast
  qed
  show ?thesis unfolding X_def [symmetric] Y_def [symmetric] W_def [symmetric] H_def [symmetric]
  proof (intro conjI allI impI)
    show "m' (pix d px py + k) = m (pix s px py + k)" if "in_rect X Y W H px py" "k < bpp d" for px py k
      using off [OF that] F by metis
    show "m' i = m i" if "\<forall>px py k. in_rect X Y W H px py \<longrightarrow> k < bpp d \<longrightarrow> i \<noteq> pix d px py + k" for i
      using inside F that by metis
  qed
qed

text \<open>C14. Copying a rectangle, whose right and lower edges do not pass \<open>2 ^ 32\<close>, between two surfaces of one depth and format in separate memory shows in the destination exactly the
  source's pixels of the rectangle, clipped to both surfaces; every other pixel of the destination and every byte outside
  it, the source included, is unchanged.\<close>

theorem blit_rect_exact:
  assumes "surface_ok d" "surface_ok s" "sbpp d = sbpp s" "sformat d = sformat s" "footprint d \<inter> footprint s = {}"
    "unat x + unat width < 2 ^ 32" "unat y + unat height < 2 ^ 32" "m' = graphics_blit_rect (Some d) (Some s) x y width height m"
  shows "(\<forall>px py. on_surface d (unat px) (unat py) \<longrightarrow> graphics_get_pixel (Some d) px py m' =
       (if in_rect (unat x) (unat y) (unat width) (unat height) (unat px) (unat py) \<and> on_surface s (unat px) (unat py)
        then graphics_get_pixel (Some s) px py m else graphics_get_pixel (Some d) px py m)) \<and> (\<forall>i. i \<notin> footprint d \<longrightarrow> m' i = m i)"
proof (cases "on_surface d (unat x) (unat y) \<and> on_surface s (unat x) (unat y)")
  case True
  define W H where "W = (if swidth d < swidth s then swidth d else swidth s)" and "H = (if sheight d < sheight s then sheight d else sheight s)"
  have U: "unat W = min (unat (swidth d)) (unat (swidth s))" "unat H = min (unat (sheight d)) (unat (sheight s))"
    by (simp_all add: W_def H_def word_less_nat_alt)
  have xy: "unat x < unat W" "unat y < unat H" using True by (simp_all add: on_surface_def U)
  define w h where "w = (if x + width > W then W - x else width)" and "h = (if y + height > H then H - y else height)"
  have w: "unat w = min (unat width) (unat W - unat x)" and h: "unat h = min (unat height) (unat H - unat y)"
    using clip_exact [OF assms(6) xy(1)] clip_exact [OF assms(7) xy(2)] by (simp_all add: w_def h_def)
  have "m' = copy_rows d s x y w h m"
    using assms(8) True surface_okD(1) [OF assms(1)] surface_okD(1) [OF assms(2)]
    by (simp add: blit_rect_def Let_def on_surface_def W_def [symmetric] H_def [symmetric] w_def [symmetric] h_def [symmetric] flip: word_less_nat_alt not_less)
  moreover have "unat x + unat w \<le> unat (swidth d)" "unat x + unat w \<le> unat (swidth s)" "unat y + unat h \<le> unat (sheight d)" "unat y + unat h \<le> unat (sheight s)"
    using xy unfolding w h U by linarith+
  ultimately have C: "\<And>px py k. in_rect (unat x) (unat y) (unat w) (unat h) px py \<Longrightarrow> k < bpp d \<Longrightarrow> m' (pix d px py + k) = m (pix s px py + k)"
      "\<And>i. (\<And>px py k. in_rect (unat x) (unat y) (unat w) (unat h) px py \<Longrightarrow> k < bpp d \<Longrightarrow> i \<noteq> pix d px py + k) \<Longrightarrow> m' i = m i"
    using copy_rows_exact [OF assms(1-5)] by auto
  have r: "in_rect (unat x) (unat y) (unat w) (unat h) px py \<longleftrightarrow> in_rect (unat x) (unat y) (unat width) (unat height) px py \<and> on_surface d px py \<and> on_surface s px py"
    for px py using xy unfolding in_rect_def on_surface_def w h U by auto
  have "graphics_get_pixel (Some d) px py m' = (if in_rect (unat x) (unat y) (unat w) (unat h) (unat px) (unat py)
      then graphics_get_pixel (Some s) px py m else graphics_get_pixel (Some d) px py m)" if p: "on_surface d (unat px) (unat py)" for px py
  proof (cases "in_rect (unat x) (unat y) (unat w) (unat h) (unat px) (unat py)")
    case True
    then have s: "on_surface s (unat px) (unat py)" using r by blast
    have "decode d (\<lambda>k. m' (pix d (unat px) (unat py) + k)) = decode d (\<lambda>k. m (pix s (unat px) (unat py) + k))"
      by (rule decode_cong [OF assms(1)]) (rule C(1) [OF True])
    also have "\<dots> = decode s (\<lambda>k. m (pix s (unat px) (unat py) + k))" using assms(3) by (simp add: decode_def)
    finally show ?thesis using True by (simp add: get_pixel_decode [OF assms(1) p] get_pixel_decode [OF assms(2) s])
  next
    case False
    have "decode d (\<lambda>k. m' (pix d (unat px) (unat py) + k)) = decode d (\<lambda>k. m (pix d (unat px) (unat py) + k))"
    proof (rule decode_cong [OF assms(1)], rule C(2))
      fix k qx qy k' assume "k < bpp d" "k' < bpp d" and q: "in_rect (unat x) (unat y) (unat w) (unat h) qx qy"
      then show "pix d (unat px) (unat py) + k \<noteq> pix d qx qy + k'"
        using pix_inject [OF assms(1) p, of k qx qy k'] r [of qx qy] False by blast
    qed
    then show ?thesis using False by (simp add: get_pixel_decode [OF assms(1) p])
  qed
  moreover have "m' i = m i" if "i \<notin> footprint d" for i
    using C(2) [of i] r that unfolding footprint_def by blast
  ultimately show ?thesis by (simp add: r)
next
  case False
  then have "m' = m" using assms(8) by (auto simp: blit_rect_def on_surface_def word_le_nat_alt not_less)
  then show ?thesis using False by (auto simp: in_rect_def on_surface_def)
qed

definition frame_surface :: "u32 \<Rightarrow> graphics_surface" where
  "frame_surface p = \<lparr>spixels = p, swidth = 16, sheight = 8, spitch = 16, sbpp = 8, sformat = GRAPHICS_PIXEL_FORMAT_INDEXED8\<rparr>"

theorem blit_rect_exact_witness:
  "graphics_get_pixel (Some (frame_surface 0x1000)) 3 2
     (graphics_blit_rect (Some (frame_surface 0x1000)) (Some (frame_surface 0x2000)) 2 1 4 4 (\<lambda>i. if i = 0x2023 then 7 else 0)) = 7"
proof -
  have ok: "surface_ok (frame_surface 0x1000)" "surface_ok (frame_surface 0x2000)"
    by (simp_all add: surface_ok_def surface_valid_def frame_surface_def bytes_per_pixel_def)
  have b: "bpp (frame_surface p) = 1" for p by (simp add: bytes_per_pixel_def frame_surface_def)
  have on: "on_surface (frame_surface 0x1000) (unat (3 :: u32)) (unat (2 :: u32))" "on_surface (frame_surface 0x2000) (unat (3 :: u32)) (unat (2 :: u32))"
    by (simp_all add: on_surface_def frame_surface_def)
  have "footprint (frame_surface 0x1000) \<subseteq> {..<0x1080}" "footprint (frame_surface 0x2000) \<subseteq> {0x2000..}"
    using pix_less [OF ok(1)] by (auto simp: footprint_def pix_def frame_surface_def b)
  then have "footprint (frame_surface 0x1000) \<inter> footprint (frame_surface 0x2000) = {}" by fastforce
  from blit_rect_exact [OF ok _ _ this _ _ refl, of 2 4 1 4 "\<lambda>i. if i = 0x2023 then 7 else 0"]
  have "\<forall>px py. on_surface (frame_surface 0x1000) (unat px) (unat py) \<longrightarrow> graphics_get_pixel (Some (frame_surface 0x1000)) px py
      (graphics_blit_rect (Some (frame_surface 0x1000)) (Some (frame_surface 0x2000)) 2 1 4 4 (\<lambda>i. if i = 0x2023 then 7 else 0)) =
      (if in_rect 2 1 4 4 (unat px) (unat py) \<and> on_surface (frame_surface 0x2000) (unat px) (unat py)
       then graphics_get_pixel (Some (frame_surface 0x2000)) px py (\<lambda>i. if i = 0x2023 then 7 else 0)
       else graphics_get_pixel (Some (frame_surface 0x1000)) px py (\<lambda>i. if i = 0x2023 then 7 else 0))"
    by (simp add: frame_surface_def)
  from this [rule_format, OF on(1)] on(2) show ?thesis
    by (simp add: in_rect_def get_pixel_def surface_valid_def bytes_per_pixel_def pixel_pointer_def Let_def frame_surface_def)
qed

end
