(* ===== verification/Console.thy ===== *)
theory Console
  imports Graphics_Draw
begin

text \<open>The text console, \<open>src/kernel/drivers/video/vga.c\<close>: 24 rows of 53 character cells with a colour each, drawn through the
  graphics operations on the primary surface. The cell arrays are functions of the row and the column; every access of the
  code is inside the arrays. The state carries the memory that holds the framebuffer. The console is shown to keep the
  screen in step with its cells and to be a window on the last 24 lines of everything written.\<close>

section \<open>Model\<close>

abbreviation (input) VGA_WIDTH :: nat where "VGA_WIDTH \<equiv> 53"
abbreviation (input) VGA_HEIGHT :: nat where "VGA_HEIGHT \<equiv> 24"
abbreviation (input) VGA_COLOR_BLACK :: u8 where "VGA_COLOR_BLACK \<equiv> 0"
abbreviation (input) VGA_COLOR_LIGHT_GREY :: u8 where "VGA_COLOR_LIGHT_GREY \<equiv> 7"
abbreviation (input) VGA_COLOR_LIGHT_CYAN :: u8 where "VGA_COLOR_LIGHT_CYAN \<equiv> 11"
abbreviation (input) VGA_COLOR_LIGHT_RED :: u8 where "VGA_COLOR_LIGHT_RED \<equiv> 12"

record console =
  terminal_row :: nat
  terminal_column :: nat
  terminal_color :: u8
  terminal_chars :: "nat \<Rightarrow> nat \<Rightarrow> u8"
  terminal_colors :: "nat \<Rightarrow> nat \<Rightarrow> u8"
  video :: mem

definition vga_entry_color :: "u8 \<Rightarrow> u8 \<Rightarrow> u8" where
  "vga_entry_color fg bg = fg OR push_bit 4 bg"

definition vga_entry :: "u8 \<Rightarrow> u8 \<Rightarrow> u16" where
  "vga_entry uc color = ucast uc OR push_bit 8 (ucast color)"

definition color_to_graphics :: "u8 \<Rightarrow> u32" where
  "color_to_graphics color = (let c = color AND 0x0F in
     if c = 1 then 1 else if c = 2 then 2 else if c = 3 then 3 else if c = 4 then 4 else if c = 5 then 5 else if c = 6 then 6
     else if c = 7 then 7 else if c = 8 then 8 else if c = 9 then 9 else if c = 10 then 10 else if c = 11 then 11
     else if c = 12 then 12 else if c = 13 then 13 else if c = 14 then 14 else if c = 15 then 15 else 0)"

definition terminal_draw_cell :: "graphics \<Rightarrow> nat \<Rightarrow> nat \<Rightarrow> console \<Rightarrow> console" where
  "terminal_draw_cell g x y t = (case graphics_primary_surface_mut g of
     None \<Rightarrow> t
   | Some s \<Rightarrow> t\<lparr>video := graphics_draw_char (Some s) (of_nat x * 6) (of_nat y * 8) (terminal_chars t y x)
       (color_to_graphics (terminal_colors t y x)) 0 (video t)\<rparr>)"

definition set_cell :: "nat \<Rightarrow> nat \<Rightarrow> u8 \<Rightarrow> u8 \<Rightarrow> console \<Rightarrow> console" where
  "set_cell x y c color t = t\<lparr>terminal_chars := (terminal_chars t)(y := (terminal_chars t y)(x := c)),
     terminal_colors := (terminal_colors t)(y := (terminal_colors t y)(x := color))\<rparr>"

definition terminal_putentryat :: "graphics \<Rightarrow> u8 \<Rightarrow> u8 \<Rightarrow> nat \<Rightarrow> nat \<Rightarrow> console \<Rightarrow> console" where
  "terminal_putentryat g c color x y t =
     (if x \<ge> VGA_WIDTH \<or> y \<ge> VGA_HEIGHT then t else terminal_draw_cell g x y (set_cell x y c color t))"

definition scroll_cell :: "graphics \<Rightarrow> nat \<Rightarrow> nat \<Rightarrow> console \<Rightarrow> console" where
  "scroll_cell g y x t = terminal_draw_cell g x (y - 1) (set_cell x (y - 1) (terminal_chars t y x) (terminal_colors t y x) t)"

definition terminal_scroll :: "graphics \<Rightarrow> console \<Rightarrow> console" where
  "terminal_scroll g t =
     (fold (\<lambda>x t. terminal_putentryat g 32 (terminal_color t) x (VGA_HEIGHT - 1) t) [0..<VGA_WIDTH]
       (fold (\<lambda>y. fold (scroll_cell g y) [0..<VGA_WIDTH]) [1..<VGA_HEIGHT] t))\<lparr>terminal_row := VGA_HEIGHT - 1\<rparr>"

definition next_row :: "graphics \<Rightarrow> console \<Rightarrow> console" where
  "next_row g t = (let t = t\<lparr>terminal_column := 0, terminal_row := terminal_row t + 1\<rparr>
     in if terminal_row t = VGA_HEIGHT then terminal_scroll g t else t)"

definition terminal_putchar :: "graphics \<Rightarrow> u8 \<Rightarrow> console \<Rightarrow> console" where
  "terminal_putchar g c t =
     (if c = 8 then
        if terminal_column t > 0 then
          let t = t\<lparr>terminal_column := terminal_column t - 1\<rparr>
          in terminal_putentryat g 32 (terminal_color t) (terminal_column t) (terminal_row t) t
        else t
      else if c = 10 then next_row g t
      else
        let t = terminal_putentryat g c (terminal_color t) (terminal_column t) (terminal_row t) t;
            t = t\<lparr>terminal_column := terminal_column t + 1\<rparr>
        in if terminal_column t = VGA_WIDTH then next_row g t else t)"

definition terminal_clear :: "graphics \<Rightarrow> console \<Rightarrow> console" where
  "terminal_clear g t =
     t\<lparr>video := (case graphics_primary_surface_mut g of None \<Rightarrow> video t | Some s \<Rightarrow> graphics_clear (Some s) 0 (video t)),
       terminal_chars := (\<lambda>y x. if y < VGA_HEIGHT \<and> x < VGA_WIDTH then 32 else terminal_chars t y x),
       terminal_colors := (\<lambda>y x. if y < VGA_HEIGHT \<and> x < VGA_WIDTH then terminal_color t else terminal_colors t y x),
       terminal_row := 0, terminal_column := 0\<rparr>"

definition terminal_initialize :: "graphics \<Rightarrow> console \<Rightarrow> console" where
  "terminal_initialize g t =
     terminal_clear g (t\<lparr>terminal_row := 0, terminal_column := 0, terminal_color := vga_entry_color VGA_COLOR_LIGHT_GREY VGA_COLOR_BLACK\<rparr>)"

definition terminal_set_color :: "u8 \<Rightarrow> console \<Rightarrow> console" where
  "terminal_set_color color t = t\<lparr>terminal_color := color\<rparr>"

definition terminal_write :: "graphics \<Rightarrow> u8 list \<Rightarrow> console \<Rightarrow> console" where
  "terminal_write g data t = fold (terminal_putchar g) data t"

text \<open>A string is the bytes up to its terminating zero.\<close>

definition terminal_writestring :: "graphics \<Rightarrow> u8 list \<Rightarrow> console \<Rightarrow> console" where
  "terminal_writestring g data t = terminal_write g (takeWhile (\<lambda>c. c \<noteq> 0) data) t"

section \<open>The screen shows the cells\<close>

definition cell_color :: "console \<Rightarrow> nat \<Rightarrow> nat \<Rightarrow> u32" where
  "cell_color t px py = char_color (terminal_chars t (py div 8) (px div 6)) (color_to_graphics (terminal_colors t (py div 8) (px div 6))) 0 (px mod 6) (py mod 8)"

definition cell_shown :: "graphics_surface \<Rightarrow> console \<Rightarrow> nat \<Rightarrow> nat \<Rightarrow> bool" where
  "cell_shown s t x y \<longleftrightarrow> (\<forall>px py k. on_surface s px py \<longrightarrow> px div 6 = x \<longrightarrow> py div 8 = y \<longrightarrow> k < bpp s \<longrightarrow>
     video t (pix s px py + k) = pixel_bytes s (cell_color t px py) k)"

definition screen_shown :: "graphics_surface \<Rightarrow> console \<Rightarrow> bool" where
  "screen_shown s t \<longleftrightarrow> (\<forall>x < VGA_WIDTH. \<forall>y < VGA_HEIGHT. cell_shown s t x y)"

definition cursor_ok :: "console \<Rightarrow> bool" where
  "cursor_ok t \<longleftrightarrow> terminal_row t < VGA_HEIGHT \<and> terminal_column t < VGA_WIDTH"

text \<open>The primary surface is present and well formed.\<close>

definition primary :: "graphics \<Rightarrow> graphics_surface \<Rightarrow> bool" where
  "primary g s \<longleftrightarrow> graphics_primary_surface_mut g = Some s \<and> surface_ok s"

lemma in_cell: "in_rect (x * 6) (y * 8) 6 8 px py \<longleftrightarrow> px div 6 = x \<and> py div 8 = y"
proof -
  have "x * 6 \<le> px \<and> px < x * 6 + 6 \<longleftrightarrow> px div 6 = x" "y * 8 \<le> py \<and> py < y * 8 + 8 \<longleftrightarrow> py div 8 = y" by linarith+
  then show ?thesis by (auto simp: in_rect_def)
qed

lemma draw_cell_painted:
  assumes "primary g s" "x < VGA_WIDTH" "y < VGA_HEIGHT"
  shows "painted s (shade (\<lambda>px py. px div 6 = x \<and> py div 8 = y) (cell_color t)) (video t) (video (terminal_draw_cell g x y t))"
proof -
  have u: "unat (of_nat x * 6 :: u32) = x * 6" "unat (of_nat y * 8 :: u32) = y * 8"
    using assms(2,3) by (simp_all add: unat_word_ariths unsigned_of_nat take_bit_nat_eq_self)
  let ?f = "\<lambda>px py. char_color (terminal_chars t y x) (color_to_graphics (terminal_colors t y x)) 0 (px - x * 6) (py - y * 8)"
  have "painted s (shade (in_rect (x * 6) (y * 8) 6 8) ?f) (video t) (video (terminal_draw_cell g x y t))"
    using painted_draw_char [of s "of_nat x * 6" "of_nat y * 8"] assms u by (simp add: primary_def terminal_draw_cell_def)
  then show ?thesis
  proof (rule painted_cong)
    fix px py
    show "shade (in_rect (x * 6) (y * 8) 6 8) ?f px py = shade (\<lambda>px py. px div 6 = x \<and> py div 8 = y) (cell_color t) px py"
      by (auto simp: shade_def in_cell cell_color_def minus_div_mult_eq_mod)
  qed
qed

lemma draw_cell_fields [simp]:
  "terminal_chars (terminal_draw_cell g x y t) = terminal_chars t" "terminal_colors (terminal_draw_cell g x y t) = terminal_colors t"
  "terminal_row (terminal_draw_cell g x y t) = terminal_row t" "terminal_column (terminal_draw_cell g x y t) = terminal_column t"
  "terminal_color (terminal_draw_cell g x y t) = terminal_color t"
  by (simp_all add: terminal_draw_cell_def split: option.splits)

lemma cell_color_draw [simp]: "cell_color (terminal_draw_cell g x y t) = cell_color t"
  by (simp add: cell_color_def fun_eq_iff)

text \<open>Storing a cell and drawing it keeps every other cell shown and shows the new one.\<close>

lemma set_cell_shown:
  assumes "primary g s" "x < VGA_WIDTH" "y < VGA_HEIGHT" "screen_shown s t"
  shows "screen_shown s (terminal_draw_cell g x y (set_cell x y c color t))"
  unfolding screen_shown_def cell_shown_def
proof (intro allI impI)
  define t' where "t' = set_cell x y c color t"
  fix x' y' px py k assume b: "x' < VGA_WIDTH" "y' < VGA_HEIGHT" and p: "on_surface s px py" "px div 6 = x'" "py div 8 = y'" "k < bpp s"
  have d: "video (terminal_draw_cell g x y t') (pix s px py + k) =
      (case shade (\<lambda>px py. px div 6 = x \<and> py div 8 = y) (cell_color t') px py of None \<Rightarrow> video t' (pix s px py + k) | Some c \<Rightarrow> pixel_bytes s c k)"
    using draw_cell_painted [OF assms(1-3), of t'] p unfolding painted_def by blast
  have "video t (pix s px py + k) = pixel_bytes s (cell_color t px py) k"
    using assms(4) b p unfolding screen_shown_def cell_shown_def by blast
  then show "video (terminal_draw_cell g x y (set_cell x y c color t)) (pix s px py + k) =
      pixel_bytes s (cell_color (terminal_draw_cell g x y (set_cell x y c color t)) px py) k"
    unfolding t'_def [symmetric] d
    by (cases "px div 6 = x \<and> py div 8 = y") (auto simp: shade_def t'_def set_cell_def cell_color_def)
qed

lemma putentryat_shown:
  assumes "primary g s" "screen_shown s t"
  shows "screen_shown s (terminal_putentryat g c color x y t)"
  using set_cell_shown [OF assms(1) _ _ assms(2)] assms(2) by (simp add: terminal_putentryat_def)

lemma fold_invariant: "(\<And>i t. i \<in> set xs \<Longrightarrow> P t \<Longrightarrow> P (f i t)) \<Longrightarrow> P t \<Longrightarrow> P (fold f xs t)"
  by (induction xs arbitrary: t) auto

lemma screen_shown_fields [simp]:
  "screen_shown s (t\<lparr>terminal_row := r\<rparr>) = screen_shown s t" "screen_shown s (t\<lparr>terminal_column := c\<rparr>) = screen_shown s t"
  "screen_shown s (t\<lparr>terminal_color := cl\<rparr>) = screen_shown s t"
  by (simp_all add: screen_shown_def cell_shown_def cell_color_def)

lemma scroll_shown:
  assumes "primary g s" "screen_shown s t"
  shows "screen_shown s (terminal_scroll g t)"
proof -
  define t1 where "t1 = fold (\<lambda>y. fold (scroll_cell g y) [0..<VGA_WIDTH]) [1..<VGA_HEIGHT] t"
  have "screen_shown s t1" unfolding t1_def using assms(2)
    by (intro fold_invariant [of _ "screen_shown s"]) (auto simp: scroll_cell_def simp del: upt_rec_numeral intro!: set_cell_shown [OF assms(1)])
  then have "screen_shown s (fold (\<lambda>x t. terminal_putentryat g 32 (terminal_color t) x (VGA_HEIGHT - 1) t) [0..<VGA_WIDTH] t1)"
    by (intro fold_invariant [of _ "screen_shown s"] putentryat_shown [OF assms(1)])
  then show ?thesis by (simp add: terminal_scroll_def t1_def del: upt_rec_numeral)
qed

lemma putentryat_fields [simp]:
  "terminal_row (terminal_putentryat g c color x y t) = terminal_row t" "terminal_column (terminal_putentryat g c color x y t) = terminal_column t"
  "terminal_color (terminal_putentryat g c color x y t) = terminal_color t"
  by (simp_all add: terminal_putentryat_def set_cell_def)

lemma scroll_cell_fields [simp]:
  "terminal_row (scroll_cell g y x t) = terminal_row t" "terminal_column (scroll_cell g y x t) = terminal_column t"
  "terminal_color (scroll_cell g y x t) = terminal_color t"
  by (simp_all add: scroll_cell_def set_cell_def)

lemma fold_keeps: "(\<And>i t. f (g i t) = f t) \<Longrightarrow> f (fold g xs t) = f t"
  by (induction xs arbitrary: t) auto

lemma scroll_fields [simp]: "terminal_row (terminal_scroll g t) = VGA_HEIGHT - 1" "terminal_column (terminal_scroll g t) = terminal_column t"
  by (simp_all add: terminal_scroll_def fold_keeps [of terminal_column] del: upt_rec_numeral)

lemma next_row_ok: "cursor_ok t \<Longrightarrow> cursor_ok (next_row g t)"
  by (auto simp: cursor_ok_def next_row_def Let_def)

lemma next_row_shown: "primary g s \<Longrightarrow> screen_shown s t \<Longrightarrow> screen_shown s (next_row g t)"
  by (simp add: next_row_def Let_def scroll_shown)

lemma putchar_ok: "cursor_ok t \<Longrightarrow> cursor_ok (terminal_putchar g c t)"
  unfolding terminal_putchar_def cursor_ok_def next_row_def Let_def by auto

lemma putchar_shown:
  assumes "primary g s" "screen_shown s t"
  shows "screen_shown s (terminal_putchar g c t)"
  using assms unfolding terminal_putchar_def Let_def
  by (simp add: next_row_shown putentryat_shown)

lemma clear_ok: "cursor_ok (terminal_clear g t)"
  by (simp add: cursor_ok_def terminal_clear_def)

lemma set_color_ok: "cursor_ok (t\<lparr>terminal_color := color\<rparr>) = cursor_ok t"
  by (simp add: cursor_ok_def)

lemma blank_color: "char_color 32 fg 0 col row = 0"
  by (simp add: char_color_def glyph_row_def glyph_symbol_def byte_of_def Let_def)

lemma clear_shown:
  assumes "primary g s"
  shows "screen_shown s (terminal_clear g t)"
proof -
  have ok: "surface_ok s" and pr: "graphics_primary_surface_mut g = Some s" using assms by (simp_all add: primary_def)
  have "unat (0 :: u32) + unat w < 2 ^ 32" for w :: u32 using unat_u32_less [of w] by (simp del: unat_u32_less)
  from painted_fill_rect [OF ok this this]
  have "painted s (shade (in_rect 0 0 (unat (swidth s)) (unat (sheight s))) (\<lambda>_ _. 0)) (video t) (video (terminal_clear g t))"
    using pr surface_okD(1) [OF ok] by (simp add: terminal_clear_def)
  then have v: "video (terminal_clear g t) (pix s px py + k) = pixel_bytes s 0 k" if "on_surface s px py" "k < bpp s" for px py k
    using that by (simp add: painted_def shade_def in_rect_def on_surface_def)
  have "cell_color (terminal_clear g t) px py = 0" if "px div 6 < VGA_WIDTH" "py div 8 < VGA_HEIGHT" for px py
    using that by (simp add: cell_color_def terminal_clear_def blank_color)
  then show ?thesis unfolding screen_shown_def cell_shown_def by (auto simp: v)
qed

datatype console_op = Write "u8 list" | Write_string "u8 list" | Set_color u8 | Clear

fun console_step :: "graphics \<Rightarrow> console_op \<Rightarrow> console \<Rightarrow> console" where
  "console_step g (Write data) t = terminal_write g data t"
| "console_step g (Write_string data) t = terminal_writestring g data t"
| "console_step g (Set_color color) t = terminal_set_color color t"
| "console_step g Clear t = terminal_clear g t"

lemma console_step_shown:
  assumes "primary g s" "cursor_ok t \<and> screen_shown s t"
  shows "cursor_ok (console_step g p t) \<and> screen_shown s (console_step g p t)"
proof -
  have w: "cursor_ok (terminal_write g data t) \<and> screen_shown s (terminal_write g data t)" for data
    unfolding terminal_write_def
    by (rule fold_invariant [of _ "\<lambda>t. cursor_ok t \<and> screen_shown s t"]) (use assms putchar_ok putchar_shown in auto)
  show ?thesis using w assms
    by (cases p) (auto simp: terminal_writestring_def terminal_set_color_def clear_shown clear_ok set_color_ok)
qed

text \<open>C16. Whatever is written to the console after its initialisation, in whatever colours and with whatever clears in between,
  the framebuffer shows exactly the cells the console holds, every pixel of every cell, and the cursor is on the screen.\<close>

theorem console_shows_cells:
  assumes "primary g s" "t' = fold (console_step g) ps (terminal_initialize g t)"
  shows "cursor_ok t' \<and> (\<forall>px py. on_surface s (unat px) (unat py) \<longrightarrow> unat px < 6 * VGA_WIDTH \<longrightarrow> unat py < 8 * VGA_HEIGHT \<longrightarrow>
    graphics_get_pixel (Some s) px py (video t') = pixel_value s (cell_color t' (unat px) (unat py)))"
proof -
  have ok: "surface_ok s" using assms(1) by (simp add: primary_def)
  have "cursor_ok (terminal_initialize g t) \<and> screen_shown s (terminal_initialize g t)"
    by (simp add: terminal_initialize_def clear_shown [OF assms(1)] clear_ok)
  then have inv: "cursor_ok t' \<and> screen_shown s t'" unfolding assms(2)
    by (intro fold_invariant [of _ "\<lambda>t. cursor_ok t \<and> screen_shown s t"] console_step_shown [OF assms(1)])
  have "graphics_get_pixel (Some s) px py (video t') = pixel_value s (cell_color t' (unat px) (unat py))"
    if p: "on_surface s (unat px) (unat py)" "unat px < 6 * VGA_WIDTH" "unat py < 8 * VGA_HEIGHT" for px py
  proof -
    have "unat px div 6 < VGA_WIDTH" "unat py div 8 < VGA_HEIGHT" using p(2,3) by linarith+
    then have "video t' (pix s (unat px) (unat py) + k) = pixel_bytes s (cell_color t' (unat px) (unat py)) k" if "k < bpp s" for k
      using inv p(1) that unfolding screen_shown_def cell_shown_def by blast
    then have "decode s (\<lambda>k. video t' (pix s (unat px) (unat py) + k)) = decode s (pixel_bytes s (cell_color t' (unat px) (unat py)))"
      by (rule decode_cong [OF ok])
    then show ?thesis by (simp add: get_pixel_decode [OF ok p(1)] decode_pixel_bytes [OF surface_okD(1) [OF ok]])
  qed
  then show ?thesis using inv by blast
qed

definition blank_console :: console where
  "blank_console = \<lparr>terminal_row = 0, terminal_column = 0, terminal_color = 0, terminal_chars = (\<lambda>_ _. 0), terminal_colors = (\<lambda>_ _. 0), video = (\<lambda>_. 0)\<rparr>"

theorem console_shows_cells_witness:
  "primary \<lparr>primary_surface = test_surface 0x200000, primary_surface_ready = True\<rparr> (test_surface 0x200000)
   \<and> cursor_ok (fold (console_step \<lparr>primary_surface = test_surface 0x200000, primary_surface_ready = True\<rparr>) [Write [65, 10], Set_color 12, Write_string [66, 0]]
       (terminal_initialize \<lparr>primary_surface = test_surface 0x200000, primary_surface_ready = True\<rparr> blank_console))"
proof -
  have "primary \<lparr>primary_surface = test_surface 0x200000, primary_surface_ready = True\<rparr> (test_surface 0x200000)"
    by (simp add: primary_def graphics_primary_surface_mut_def surface_ok_def surface_valid_def test_surface_def bytes_per_pixel_def)
  then show ?thesis using console_shows_cells [OF _ refl] by blast
qed

section \<open>The console as a window on a transcript\<close>

text \<open>The specification of a text console: all the lines ever written, of 53 characters each, and a column in the last one.\<close>

type_synonym transcript = "u8 list list \<times> nat"

definition blank_line :: "u8 list" where
  "blank_line = replicate VGA_WIDTH 32"

fun transcript_put :: "u8 \<Rightarrow> transcript \<Rightarrow> transcript" where
  "transcript_put c (lines, col) =
     (if c = 8 then if col > 0 then (butlast lines @ [(last lines)[col - 1 := 32]], col - 1) else (lines, col)
      else if c = 10 then (lines @ [blank_line], 0)
      else let lines = butlast lines @ [(last lines)[col := c]]
        in if col + 1 = VGA_WIDTH then (lines @ [blank_line], 0) else (lines, col + 1))"

definition window :: "u8 list list \<Rightarrow> u8 list list" where
  "window lines = drop (length lines - VGA_HEIGHT) lines @ replicate (VGA_HEIGHT - length lines) blank_line"

fun shows_transcript :: "console \<Rightarrow> transcript \<Rightarrow> bool" where
  "shows_transcript t (lines, col) \<longleftrightarrow> lines \<noteq> [] \<and> (\<forall>l \<in> set lines. length l = VGA_WIDTH) \<and> col < VGA_WIDTH \<and>
     terminal_column t = col \<and> terminal_row t = min (length lines) VGA_HEIGHT - 1 \<and>
     (\<forall>y < VGA_HEIGHT. \<forall>x < VGA_WIDTH. terminal_chars t y x = window lines ! y ! x)"

lemma window_last: "lines \<noteq> [] \<Longrightarrow> window lines ! (min (length lines) VGA_HEIGHT - 1) = last lines"
  by (auto simp: window_def nth_append last_conv_nth min_def)

lemma window_butlast:
  assumes "lines \<noteq> []"
  shows "window (butlast lines @ [l]) = (window lines)[min (length lines) VGA_HEIGHT - 1 := l]"
proof -
  obtain ls k where e: "lines = ls @ [k]" using assms by (metis append_butlast_last_id)
  show ?thesis by (auto simp: e window_def list_update_append min_def Suc_diff_le split: nat.splits)
qed

lemma window_snoc:
  "window (lines @ [blank_line]) = (if length lines < VGA_HEIGHT then window lines else tl (window lines) @ [blank_line])"
proof (cases "length lines < VGA_HEIGHT")
  case True
  then have "VGA_HEIGHT - length lines = Suc (VGA_HEIGHT - Suc (length lines))" by simp
  then show ?thesis using True by (simp add: window_def)
next
  case False
  then have "Suc (length lines) - VGA_HEIGHT = Suc (length lines - VGA_HEIGHT)" by simp
  then show ?thesis using False by (simp add: window_def drop_Suc tl_drop)
qed

lemma length_window: "length (window lines) = VGA_HEIGHT"
  by (simp add: window_def)

lemma putentryat_chars:
  assumes "x < VGA_WIDTH" "y < VGA_HEIGHT"
  shows "terminal_chars (terminal_putentryat g c color x y t) = (terminal_chars t)(y := (terminal_chars t y)(x := c))"
  using assms by (simp add: terminal_putentryat_def set_cell_def)

lemma scroll_row_chars:
  assumes "0 < y"
  shows "terminal_chars (fold (scroll_cell g y) [0..<n] t) =
    (terminal_chars t)(y - 1 := (\<lambda>x. if x < n then terminal_chars t y x else terminal_chars t (y - 1) x))"
proof (induction n)
  case (Suc n)
  have "y \<noteq> y - 1" using assms by simp
  then show ?case using Suc by (auto simp: scroll_cell_def set_cell_def fun_eq_iff)
qed simp

lemma scroll_rows_chars:
  "terminal_chars (fold (\<lambda>y. fold (scroll_cell g y) [0..<VGA_WIDTH]) [1..<Suc n] t) y x =
     (if y < n \<and> x < VGA_WIDTH then terminal_chars t (Suc y) x else terminal_chars t y x)"
proof (induction n arbitrary: y x)
  case (Suc n)
  define t1 where "t1 = fold (\<lambda>y. fold (scroll_cell g y) [0..<VGA_WIDTH]) [1..<Suc n] t"
  have "fold (\<lambda>y. fold (scroll_cell g y) [0..<VGA_WIDTH]) [1..<Suc (Suc n)] t = fold (scroll_cell g (Suc n)) [0..<VGA_WIDTH] t1"
    by (simp add: t1_def del: upt_rec_numeral)
  then have "terminal_chars (fold (\<lambda>y. fold (scroll_cell g y) [0..<VGA_WIDTH]) [1..<Suc (Suc n)] t) =
      (terminal_chars t1)(n := (\<lambda>x. if x < VGA_WIDTH then terminal_chars t1 (Suc n) x else terminal_chars t1 n x))"
    using scroll_row_chars [of "Suc n" g VGA_WIDTH t1] by (simp only: diff_Suc_1 zero_less_Suc simp_thms)
  then show ?case using Suc.IH [folded t1_def] by (simp only: fun_upd_apply) auto
qed simp

lemma blank_row_chars:
  "n \<le> VGA_WIDTH \<Longrightarrow> terminal_chars (fold (\<lambda>x t. terminal_putentryat g 32 (terminal_color t) x 23 t) [0..<n] t) y x =
     (if y = 23 \<and> x < n then 32 else terminal_chars t y x)"
  by (induction n arbitrary: y x) (auto simp: putentryat_chars less_Suc_eq)

lemma scroll_chars:
  assumes "y < VGA_HEIGHT" "x < VGA_WIDTH"
  shows "terminal_chars (terminal_scroll g t) y x = (if y < 23 then terminal_chars t (Suc y) x else 32)"
proof -
  define t1 where "t1 = fold (\<lambda>y. fold (scroll_cell g y) [0..<VGA_WIDTH]) [1..<VGA_HEIGHT] t"
  have "terminal_chars t1 y x = (if y < 23 then terminal_chars t (Suc y) x else terminal_chars t y x)"
    using scroll_rows_chars [of g 23 t y x] assms by (simp add: t1_def eval_nat_numeral del: upt_Suc upt_rec_numeral)
  moreover have "terminal_chars (terminal_scroll g t) = terminal_chars (fold (\<lambda>x t. terminal_putentryat g 32 (terminal_color t) x 23 t) [0..<VGA_WIDTH] t1)"
    by (simp add: terminal_scroll_def t1_def del: upt_rec_numeral)
  ultimately show ?thesis using assms blank_row_chars [OF order_refl, of g t1 y x] by (simp only:) auto
qed

text \<open>A new line appears below the last one, or pushes the window down.\<close>

lemma shows_next_row:
  assumes "shows_transcript t (lines, col)"
  shows "shows_transcript (next_row g t) (lines @ [blank_line], 0)"
proof -
  have b: "length blank_line = VGA_WIDTH" "x < VGA_WIDTH \<Longrightarrow> blank_line ! x = 32" for x by (simp_all add: blank_line_def)
  have r: "terminal_row t = min (length lines) VGA_HEIGHT - 1" "lines \<noteq> []" using assms by auto
  have c: "terminal_chars t y x = window lines ! y ! x" if "y < VGA_HEIGHT" "x < VGA_WIDTH" for x y using assms that by auto
  show ?thesis
  proof (cases "length lines < VGA_HEIGHT")
    case True
    then have "terminal_row t + 1 = length lines" using r by (cases lines) auto
    then have "next_row g t = t\<lparr>terminal_column := 0, terminal_row := length lines\<rparr>" using True by (simp add: next_row_def Let_def)
    then show ?thesis using True assms b by (auto simp: window_snoc)
  next
    case False
    then have e: "terminal_row t + 1 = VGA_HEIGHT" using r by simp
    define t1 where "t1 = t\<lparr>terminal_column := 0, terminal_row := VGA_HEIGHT\<rparr>"
    have n: "next_row g t = terminal_scroll g t1" using e by (simp add: next_row_def Let_def t1_def)
    have "terminal_chars (terminal_scroll g t1) y x = (tl (window lines) @ [blank_line]) ! y ! x" if "y < VGA_HEIGHT" "x < VGA_WIDTH" for y x
      using that c by (auto simp: scroll_chars t1_def nth_append nth_tl length_window b)
    then show ?thesis using False assms b unfolding n by (auto simp: window_snoc t1_def)
  qed
qed

lemma shows_put_cell:
  assumes "shows_transcript t (lines, col)" "col' < VGA_WIDTH" "x < VGA_WIDTH"
  shows "shows_transcript ((terminal_putentryat g c color x (terminal_row t) t)\<lparr>terminal_column := col'\<rparr>) (butlast lines @ [(last lines)[x := c]], col')"
proof -
  define r where "r = min (length lines) VGA_HEIGHT - 1"
  have ne: "lines \<noteq> []" and row: "terminal_row t = r" and wf: "\<forall>l \<in> set lines. length l = VGA_WIDTH"
    using assms(1) by (auto simp: r_def)
  have ch: "terminal_chars t y x = window lines ! y ! x" if "y < VGA_HEIGHT" "x < VGA_WIDTH" for x y using assms(1) that by auto
  have rh: "r < VGA_HEIGHT" unfolding r_def by linarith
  have ll: "length (last lines) = VGA_WIDTH" using ne wf by simp
  have w: "window (butlast lines @ [(last lines)[x := c]]) = (window lines)[r := (last lines)[x := c]]" using window_butlast [OF ne] by (simp add: r_def)
  have "((terminal_chars t)(r := (terminal_chars t r)(x := c))) y x' = (window lines)[r := (last lines)[x := c]] ! y ! x'"
    if y: "y < VGA_HEIGHT" "x' < VGA_WIDTH" for y x'
  proof (cases "y = r")
    case True
    then show ?thesis using y ch ll rh window_last [OF ne] by (auto simp: length_window nth_list_update r_def)
  next
    case False
    then show ?thesis using y ch by simp
  qed
  moreover have "\<forall>l \<in> set (butlast lines @ [(last lines)[x := c]]). length l = VGA_WIDTH" using wf ll by (auto dest: in_set_butlastD)
  moreover have "length (butlast lines @ [(last lines)[x := c]]) = length lines" using ne by simp
  ultimately show ?thesis using assms(2) by (simp add: putentryat_chars [OF assms(3) rh] row w del: fun_upd_apply) (simp add: r_def)
qed

lemma shows_put:
  assumes "shows_transcript t a"
  shows "shows_transcript (terminal_putchar g c t) (transcript_put c a)"
proof (cases a)
  case (Pair lines col)
  have s: "shows_transcript t (lines, col)" using assms Pair by simp
  then have col: "terminal_column t = col" "col < VGA_WIDTH" by simp_all
  show ?thesis
  proof (cases "c = 8 \<or> c = 10")
    case True
    then show ?thesis
    proof
      assume c: "c = 8"
      have e: "terminal_putentryat g 32 cl x y (t\<lparr>terminal_column := k\<rparr>) = (terminal_putentryat g 32 cl x y t)\<lparr>terminal_column := k\<rparr>" for cl x y k
        by (simp add: terminal_putentryat_def terminal_draw_cell_def set_cell_def split: option.splits)
      show ?thesis using shows_put_cell [OF s, of "col - 1" "col - 1" g 32 "terminal_color t"] s col c
        by (cases "col = 0") (simp_all add: Pair terminal_putchar_def Let_def e del: shows_transcript.simps)
    qed (use shows_next_row [OF s] Pair in \<open>simp add: terminal_putchar_def del: shows_transcript.simps\<close>)
  next
    case False
    define t1 where "t1 = terminal_putentryat g c (terminal_color t) col (terminal_row t) t"
    have p: "terminal_putchar g c t = (if col + 1 = VGA_WIDTH then next_row g (t1\<lparr>terminal_column := col + 1\<rparr>) else t1\<lparr>terminal_column := col + 1\<rparr>)"
      using False col by (simp add: terminal_putchar_def Let_def t1_def)
    have n: "next_row g (t1\<lparr>terminal_column := k\<rparr>) = next_row g t1" for k by (simp add: next_row_def Let_def)
    have "shows_transcript (t1\<lparr>terminal_column := k\<rparr>) (butlast lines @ [(last lines)[col := c]], k)" if "k < VGA_WIDTH" for k
      using shows_put_cell [OF s that col(2)] by (simp add: t1_def del: shows_transcript.simps)
    note k = this [of "col + 1"] shows_next_row [OF this [of 0], of g, unfolded n]
    show ?thesis using k False col(2)
      by (cases "col + 1 = VGA_WIDTH") (simp_all add: p n Pair Let_def del: shows_transcript.simps)
  qed
qed

text \<open>C15. The console shows the last 24 lines of everything written since it was cleared: writing bytes, with line wrap, new
  lines, backspace and scrolling, changes the cells as it changes the transcript.\<close>

theorem console_refines_transcript:
  "shows_transcript (terminal_write g data (terminal_clear g t)) (fold transcript_put data ([blank_line], 0))"
proof -
  have "shows_transcript (terminal_clear g t) ([blank_line], 0)"
    by (auto simp: terminal_clear_def window_def blank_line_def nth_append nth_Cons')
  then show ?thesis unfolding terminal_write_def
  proof (induction data rule: rev_induct)
    case (snoc c data)
    then show ?case using shows_put by (simp del: shows_transcript.simps)
  qed simp
qed

end
