(* ===== verification/Descriptors.thy ===== *)
theory Descriptors
  imports Prelude
begin

text \<open>Segment and interrupt descriptors and the interrupt controllers: \<open>src/arch/x86/gdt.c\<close> and the tables and controller
  protocol of \<open>src/arch/x86/interrupts/idt.c\<close>. Addresses of static objects and of the assembly stubs are
  parameters; loading a descriptor-table or task register is a field of the state. The two 8259 controllers behind the ports
  are modelled after their data sheet, so that the sequence of commands can be checked against what it should achieve.\<close>

section \<open>Segments: model\<close>

abbreviation (input) KERNEL_DATA_SELECTOR :: u32 where "KERNEL_DATA_SELECTOR \<equiv> 0x10"
abbreviation (input) USER_CODE_SELECTOR :: u32 where "USER_CODE_SELECTOR \<equiv> 0x1B"
abbreviation (input) USER_DATA_SELECTOR :: u32 where "USER_DATA_SELECTOR \<equiv> 0x23"
abbreviation (input) TSS_STACK_SIZE :: u32 where "TSS_STACK_SIZE \<equiv> 4096"
abbreviation (input) sizeof_tss :: u32 where "sizeof_tss \<equiv> 104"

record gdt_entry =
  g_limit_low :: u16
  g_base_low :: u16
  g_base_middle :: u8
  g_access :: u8
  g_granularity :: u8
  g_base_high :: u8

record tss_entry =
  tss_prev_tss :: u32
  tss_esp0 :: u32
  tss_ss0 :: u32
  tss_esp1 :: u32
  tss_ss1 :: u32
  tss_esp2 :: u32
  tss_ss2 :: u32
  tss_cr3 :: u32
  tss_eip :: u32
  tss_eflags :: u32
  tss_eax :: u32
  tss_ecx :: u32
  tss_edx :: u32
  tss_ebx :: u32
  tss_esp :: u32
  tss_ebp :: u32
  tss_esi :: u32
  tss_edi :: u32
  tss_es :: u32
  tss_cs :: u32
  tss_ss :: u32
  tss_ds :: u32
  tss_fs :: u32
  tss_gs :: u32
  tss_ldt :: u32
  tss_trap :: u16
  tss_iomap_base :: u16

record segment_layout =
  gdt_address :: u32
  tss_address :: u32
  tss_stack :: u32

record segments =
  gdt :: "gdt_entry list"
  gdt_descriptor :: "u16 \<times> u32"
  tss :: tss_entry
  gdtr :: "u16 \<times> u32"
  task_register :: u16

definition gdt_set_gate :: "nat \<Rightarrow> u32 \<Rightarrow> u32 \<Rightarrow> u8 \<Rightarrow> u8 \<Rightarrow> segments \<Rightarrow> segments" where
  "gdt_set_gate index base limit access granularity st =
     st\<lparr>gdt := (gdt st)[index := \<lparr>g_limit_low = ucast (limit AND 0xFFFF), g_base_low = ucast (base AND 0xFFFF),
       g_base_middle = ucast (drop_bit 16 base AND 0xFF), g_access = access,
       g_granularity = ucast (drop_bit 16 limit AND 0x0F) OR (granularity AND 0xF0), g_base_high = ucast (drop_bit 24 base AND 0xFF)\<rparr>]\<rparr>"

definition zero_tss :: tss_entry where
  "zero_tss = \<lparr>tss_prev_tss = 0, tss_esp0 = 0, tss_ss0 = 0, tss_esp1 = 0, tss_ss1 = 0, tss_esp2 = 0, tss_ss2 = 0, tss_cr3 = 0, tss_eip = 0,
     tss_eflags = 0, tss_eax = 0, tss_ecx = 0, tss_edx = 0, tss_ebx = 0, tss_esp = 0, tss_ebp = 0, tss_esi = 0, tss_edi = 0, tss_es = 0,
     tss_cs = 0, tss_ss = 0, tss_ds = 0, tss_fs = 0, tss_gs = 0, tss_ldt = 0, tss_trap = 0, tss_iomap_base = 0\<rparr>"

definition tss_initialize :: "segment_layout \<Rightarrow> segments \<Rightarrow> segments" where
  "tss_initialize L st = st\<lparr>tss := zero_tss\<lparr>tss_ss0 := KERNEL_DATA_SELECTOR, tss_esp0 := tss_stack L + TSS_STACK_SIZE, tss_cs := USER_CODE_SELECTOR,
     tss_ss := USER_DATA_SELECTOR, tss_ds := USER_DATA_SELECTOR, tss_es := USER_DATA_SELECTOR, tss_fs := USER_DATA_SELECTOR,
     tss_gs := USER_DATA_SELECTOR, tss_iomap_base := ucast sizeof_tss\<rparr>\<rparr>"

definition tss_set_kernel_stack :: "u32 \<Rightarrow> segments \<Rightarrow> segments" where
  "tss_set_kernel_stack stack st = st\<lparr>tss := (tss st)\<lparr>tss_esp0 := stack\<rparr>\<rparr>"

definition gdt_flush :: "segments \<Rightarrow> segments" where
  "gdt_flush st = st\<lparr>gdtr := gdt_descriptor st\<rparr>"

definition tss_flush :: "segments \<Rightarrow> segments" where
  "tss_flush st = st\<lparr>task_register := 0x28\<rparr>"

definition gdt_initialize :: "segment_layout \<Rightarrow> segments \<Rightarrow> segments" where
  "gdt_initialize L st =
     (let st = st\<lparr>gdt_descriptor := (6 * 8 - 1, gdt_address L)\<rparr>;
          st = gdt_set_gate 0 0 0 0 0 st;
          st = gdt_set_gate 1 0 0xFFFFF 0x9A 0xCF st;
          st = gdt_set_gate 2 0 0xFFFFF 0x92 0xCF st;
          st = gdt_set_gate 3 0 0xFFFFF 0xFA 0xCF st;
          st = gdt_set_gate 4 0 0xFFFFF 0xF2 0xCF st;
          st = tss_initialize L st;
          st = gdt_set_gate 5 (tss_address L) (sizeof_tss - 1) 0x89 0x40 st
      in tss_flush (gdt_flush st))"

section \<open>Segments: what the processor reads\<close>

definition segment_base :: "gdt_entry \<Rightarrow> u32" where
  "segment_base e = ucast (g_base_low e) OR push_bit 16 (ucast (g_base_middle e)) OR push_bit 24 (ucast (g_base_high e))"

definition segment_limit :: "gdt_entry \<Rightarrow> u32" where
  "segment_limit e = (let l = ucast (g_limit_low e) OR push_bit 16 (ucast (g_granularity e) AND 0xF)
     in if bit (g_granularity e) 7 then push_bit 12 l OR 0xFFF else l)"

definition privilege :: "gdt_entry \<Rightarrow> u8" where
  "privilege e = drop_bit 5 (g_access e) AND 3"

lemma masks32: "(0xFF :: u32) = mask 8" "(0xFFFF :: u32) = mask 16" "(0xF :: u32) = mask 4"
  by (simp_all add: mask_eq_exp_minus_1)

lemma segment_base_gate:
  "segment_base \<lparr>g_limit_low = l, g_base_low = ucast (base AND 0xFFFF), g_base_middle = ucast (drop_bit 16 base AND 0xFF),
     g_access = a, g_granularity = gr, g_base_high = ucast (drop_bit 24 base AND 0xFF)\<rparr> = base"
proof (rule bit_word_eqI)
  fix n assume "n < LENGTH(32)"
  then have "n < 32" by simp
  then consider "n < 16" | "16 \<le> n" "n < 24" | "24 \<le> n" "n < 32" by linarith
  then show "bit (segment_base \<lparr>g_limit_low = l, g_base_low = ucast (base AND 0xFFFF), g_base_middle = ucast (drop_bit 16 base AND 0xFF),
      g_access = a, g_granularity = gr, g_base_high = ucast (drop_bit 24 base AND 0xFF)\<rparr>) n = bit base n"
    unfolding segment_base_def masks32 by cases (auto simp: bit_simps)
qed

text \<open>C36. The descriptor table the kernel loads is what its privilege separation rests on: selectors 0x08 and 0x10 are flat 4 GiB
  code and data segments of ring 0, 0x1B and 0x23 the same of ring 3, the null descriptor is empty, and selector 0x28
  describes the task state segment at its address, which takes a switch to ring 0 to the top of its own stack.\<close>

theorem gdt_segments:
  assumes "length (gdt st) = 6" "st' = gdt_initialize L st"
  shows "(\<forall>i \<in> {1, 2, 3, 4}. segment_base (gdt st' ! i) = 0 \<and> segment_limit (gdt st' ! i) = 0xFFFFFFFF)
    \<and> map privilege (gdt st') = [0, 0, 0, 3, 3, 0]
    \<and> map g_access (gdt st') = [0, 0x9A, 0x92, 0xFA, 0xF2, 0x89]
    \<and> segment_base (gdt st' ! 5) = tss_address L \<and> segment_limit (gdt st' ! 5) = 103
    \<and> gdtr st' = (47, gdt_address L) \<and> task_register st' = 5 * 8
    \<and> tss_ss0 (tss st') = 2 * 8 \<and> tss_esp0 (tss st') = tss_stack L + 4096"
proof -
  obtain a b c d e f where g: "gdt st = [a, b, c, d, e, f]"
    using assms(1) by (auto simp: length_Suc_conv numeral_eq_Suc)
  have five: "segment_base (gdt st' ! 5) = tss_address L" unfolding assms(2) gdt_initialize_def Let_def
    by (simp add: gdt_set_gate_def tss_initialize_def gdt_flush_def tss_flush_def g segment_base_gate)
  have "(\<forall>i \<in> {1, 2, 3, 4}. segment_base (gdt st' ! i) = 0 \<and> segment_limit (gdt st' ! i) = 0xFFFFFFFF)
      \<and> map privilege (gdt st') = [0, 0, 0, 3, 3, 0] \<and> map g_access (gdt st') = [0, 0x9A, 0x92, 0xFA, 0xF2, 0x89] \<and> segment_limit (gdt st' ! 5) = 103"
    unfolding assms(2) gdt_initialize_def Let_def
    by (simp add: gdt_set_gate_def tss_initialize_def gdt_flush_def tss_flush_def g segment_base_def privilege_def segment_limit_def
        take_bit_eq_mod bit_iff_odd drop_bit_eq_div push_bit_eq_mult)
  then show ?thesis using five unfolding assms(2) gdt_initialize_def Let_def
    by (simp add: gdt_set_gate_def tss_initialize_def gdt_flush_def tss_flush_def)
qed

definition boot_segments :: segments where
  "boot_segments = \<lparr>gdt = replicate 6 \<lparr>g_limit_low = 0, g_base_low = 0, g_base_middle = 0, g_access = 0, g_granularity = 0, g_base_high = 0\<rparr>,
     gdt_descriptor = (0, 0), tss = zero_tss, gdtr = (0, 0), task_register = 0\<rparr>"

theorem gdt_segments_witness:
  "gdtr (gdt_initialize \<lparr>gdt_address = 0x20000, tss_address = 0x20040, tss_stack = 0x21000\<rparr> boot_segments) = (47, 0x20000)"
  using gdt_segments [of boot_segments, OF _ refl, of "\<lparr>gdt_address = 0x20000, tss_address = 0x20040, tss_stack = 0x21000\<rparr>"]
  by (simp add: boot_segments_def)

section \<open>Interrupt gates and controllers: model\<close>

abbreviation (input) IDT_ENTRIES :: nat where "IDT_ENTRIES \<equiv> 256"
abbreviation (input) IDT_KERNEL_CODE_SELECTOR :: u16 where "IDT_KERNEL_CODE_SELECTOR \<equiv> 0x08"
abbreviation (input) IDT_INTERRUPT_GATE :: u8 where "IDT_INTERRUPT_GATE \<equiv> 0x8E"
abbreviation (input) PIC1_COMMAND :: u16 where "PIC1_COMMAND \<equiv> 0x20"
abbreviation (input) PIC1_DATA :: u16 where "PIC1_DATA \<equiv> 0x21"
abbreviation (input) PIC2_COMMAND :: u16 where "PIC2_COMMAND \<equiv> 0xA0"
abbreviation (input) PIC2_DATA :: u16 where "PIC2_DATA \<equiv> 0xA1"
abbreviation (input) PIC_EOI :: u8 where "PIC_EOI \<equiv> 0x20"

record idt_entry =
  i_base_low :: u16
  i_selector :: u16
  i_always_zero :: u8
  i_flags :: u8
  i_base_high :: u16

record idt_state =
  idt :: "idt_entry list"
  idt_descriptor :: "u16 \<times> u32"
  idtr :: "u16 \<times> u32"

definition idt_set_gate :: "u8 \<Rightarrow> u32 \<Rightarrow> u16 \<Rightarrow> u8 \<Rightarrow> idt_state \<Rightarrow> idt_state" where
  "idt_set_gate index base selector flags st =
     st\<lparr>idt := (idt st)[unat index := \<lparr>i_base_low = ucast (base AND 0xFFFF), i_selector = selector, i_always_zero = 0, i_flags = flags,
       i_base_high = ucast (drop_bit 16 base AND 0xFFFF)\<rparr>]\<rparr>"

definition pic_remap :: "'h ports \<Rightarrow> 'h \<Rightarrow> 'h" where
  "pic_remap P h =
     (let (master_mask, h) = inb P PIC1_DATA h; (slave_mask, h) = inb P PIC2_DATA h;
          h = outb P PIC1_COMMAND 0x11 h; h = outb P PIC2_COMMAND 0x11 h;
          h = outb P PIC1_DATA 0x20 h; h = outb P PIC2_DATA 0x28 h;
          h = outb P PIC1_DATA 0x04 h; h = outb P PIC2_DATA 0x02 h;
          h = outb P PIC1_DATA 0x01 h; h = outb P PIC2_DATA 0x01 h;
          h = outb P PIC1_DATA master_mask h
      in outb P PIC2_DATA slave_mask h)"

definition pic_send_eoi :: "'h ports \<Rightarrow> u32 \<Rightarrow> 'h \<Rightarrow> 'h" where
  "pic_send_eoi P int_no h =
     (let h = (if int_no \<ge> 40 then outb P PIC2_COMMAND PIC_EOI h else h)
      in if int_no \<ge> 32 then outb P PIC1_COMMAND PIC_EOI h else h)"

definition irq_set_mask :: "'h ports \<Rightarrow> u8 \<Rightarrow> 'h \<Rightarrow> 'h" where
  "irq_set_mask P irq_line h =
     (let port = (if irq_line < 8 then PIC1_DATA else PIC2_DATA); line = (if irq_line < 8 then irq_line else irq_line - 8);
          (v, h) = inb P port h
      in outb P port (v OR push_bit (unat line) 1) h)"

definition irq_clear_mask :: "'h ports \<Rightarrow> u8 \<Rightarrow> 'h \<Rightarrow> 'h" where
  "irq_clear_mask P irq_line h =
     (let port = (if irq_line < 8 then PIC1_DATA else PIC2_DATA); line = (if irq_line < 8 then irq_line else irq_line - 8);
          (v, h) = inb P port h
      in outb P port (v AND NOT (push_bit (unat line) 1)) h)"

definition idt_initialize :: "'h ports \<Rightarrow> (nat \<Rightarrow> u32) \<Rightarrow> u32 \<Rightarrow> idt_state \<times> 'h \<Rightarrow> idt_state \<times> 'h" where
  "idt_initialize P isr idt_address = (\<lambda>(st, h).
     (let st = fold (\<lambda>i. idt_set_gate (of_nat i) 0 IDT_KERNEL_CODE_SELECTOR 0) [0..<IDT_ENTRIES] st;
          st = fold (\<lambda>i. idt_set_gate (of_nat i) (isr i) IDT_KERNEL_CODE_SELECTOR IDT_INTERRUPT_GATE) [0..<48] st;
          st = idt_set_gate 128 (isr 128) IDT_KERNEL_CODE_SELECTOR 0xEE st;
          h = pic_remap P h;
          h = fold (\<lambda>irq. irq_set_mask P (of_nat irq)) [0..<16] h;
          h = irq_clear_mask P 12 (irq_clear_mask P 2 (irq_clear_mask P 1 (irq_clear_mask P 0 h)));
          st = st\<lparr>idt_descriptor := (256 * 8 - 1, idt_address)\<rparr>
      in (st\<lparr>idtr := idt_descriptor st\<rparr>, h)))"

section \<open>The 8259 controllers\<close>

text \<open>A controller counts the initialisation words it still expects after a command with bit 4 set: the second gives its vector
  base, and after the last one the data port is its interrupt mask, which the first word has cleared.\<close>

record pic =
  expects :: nat
  vector_base :: u8
  imr :: u8
  acknowledged :: nat

definition pic_command :: "u8 \<Rightarrow> pic \<Rightarrow> pic" where
  "pic_command v p = (if bit v 4 then p\<lparr>expects := 3, imr := 0\<rparr> else if v = PIC_EOI then p\<lparr>acknowledged := acknowledged p + 1\<rparr> else p)"

definition pic_data :: "u8 \<Rightarrow> pic \<Rightarrow> pic" where
  "pic_data v p = (if expects p = 0 then p\<lparr>imr := v\<rparr> else if expects p = 3 then p\<lparr>vector_base := v, expects := 2\<rparr> else p\<lparr>expects := expects p - 1\<rparr>)"

definition pic_outb :: "u16 \<Rightarrow> u8 \<Rightarrow> pic \<times> pic \<Rightarrow> pic \<times> pic" where
  "pic_outb port v = (\<lambda>(m, s). if port = PIC1_COMMAND then (pic_command v m, s) else if port = PIC1_DATA then (pic_data v m, s)
     else if port = PIC2_COMMAND then (m, pic_command v s) else if port = PIC2_DATA then (m, pic_data v s) else (m, s))"

definition pic_inb :: "u16 \<Rightarrow> pic \<times> pic \<Rightarrow> u8 \<times> pic \<times> pic" where
  "pic_inb port = (\<lambda>(m, s). (if port = PIC1_DATA then imr m else if port = PIC2_DATA then imr s else 0xFF, (m, s)))"

definition pic_ports :: "(pic \<times> pic) ports" where
  "pic_ports = \<lparr>inb = pic_inb, outb = pic_outb, inw = \<lambda>_ h. (0, h), outw = \<lambda>_ _ h. h\<rparr>"

definition gate_offset :: "idt_entry \<Rightarrow> u32" where
  "gate_offset e = ucast (i_base_low e) OR push_bit 16 (ucast (i_base_high e))"

definition ready :: "pic \<Rightarrow> bool" where
  "ready p \<longleftrightarrow> expects p = 0"

definition open_lines :: "pic \<Rightarrow> pic \<Rightarrow> nat list" where
  "open_lines m s = filter (\<lambda>l. \<not> (if l < 8 then bit (imr m) l else bit (imr s) (l - 8))) [0..<16]"

lemma pic_ports_simps: "inb pic_ports = pic_inb" "outb pic_ports = pic_outb"
  by (simp_all add: pic_ports_def)

lemma pic_remap_ready:
  "ready m \<Longrightarrow> ready s \<Longrightarrow> pic_remap pic_ports (m, s) = (m\<lparr>vector_base := 0x20\<rparr>, s\<lparr>vector_base := 0x28\<rparr>)"
  by (cases m; cases s) (simp add: pic_remap_def pic_ports_simps pic_inb_def pic_outb_def pic_command_def pic_data_def ready_def Let_def bit_iff_odd)

lemma set_all_masks:
  assumes "ready m" "ready s"
  shows "fold (\<lambda>irq. irq_set_mask pic_ports (of_nat irq)) [0..<16] (m, s) = (m\<lparr>imr := 0xFF\<rparr>, s\<lparr>imr := 0xFF\<rparr>)"
proof -
  have "- 1 = (0xFF :: u8)" by simp
  then have o: "v OR 0xFF = 0xFF" for v :: u8 by (metis or_minus_numerals bit.disj_one_right)
  show ?thesis using assms
    by (cases m; cases s)
      (simp add: o or.assoc upt_rec irq_set_mask_def pic_ports_simps pic_inb_def pic_outb_def pic_data_def ready_def Let_def)
qed

lemma gate_offset_gate:
  "gate_offset \<lparr>i_base_low = ucast (base AND 0xFFFF), i_selector = sel, i_always_zero = z, i_flags = f, i_base_high = ucast (drop_bit 16 base AND 0xFFFF)\<rparr> = base"
  unfolding gate_offset_def masks32 by (rule bit_word_eqI) (auto simp: bit_simps)

lemma fold_gates:
  assumes "n \<le> 256" "length (idt st) = 256" "k < 256"
  shows "idt (fold (\<lambda>i. idt_set_gate (of_nat i) (b i) sel fl) [0..<n] st) ! k =
      (if k < n then \<lparr>i_base_low = ucast (b k AND 0xFFFF), i_selector = sel, i_always_zero = 0, i_flags = fl,
         i_base_high = ucast (drop_bit 16 (b k) AND 0xFFFF)\<rparr> else idt st ! k)
    \<and> length (idt (fold (\<lambda>i. idt_set_gate (of_nat i) (b i) sel fl) [0..<n] st)) = 256"
  using assms(1)
proof (induction n)
  case (Suc n)
  then have u: "unat (of_nat n :: u8) = n" by (simp add: unsigned_of_nat take_bit_nat_eq_self)
  show ?case using Suc assms(2,3) by (auto simp: idt_set_gate_def u nth_list_update less_Suc_eq)
qed (use assms in simp)

text \<open>C37. Initialising the interrupts installs for the 32 exceptions, the 16 hardware lines and the system call a present gate into
  kernel code at the address of its stub, the system call alone open to ring 3, and leaves every other gate absent; the two
  controllers are moved to vectors 32 and 40 and let through exactly the timer, the keyboard, the cascade and the mouse.\<close>

theorem interrupts_initialized:
  assumes "length (idt st) = 256" "ready m" "ready s" "(st', m', s') = idt_initialize pic_ports isr idt_address (st, (m, s))"
  shows "(\<forall>i < 256. let e = idt st' ! i in
       if i < 48 \<or> i = 128 then gate_offset e = isr i \<and> i_selector e = 0x08 \<and> i_flags e = (if i = 128 then 0xEE else 0x8E)
       else \<not> bit (i_flags e) 7)
    \<and> idtr st' = (2047, idt_address) \<and> ready m' \<and> ready s' \<and> vector_base m' = 32 \<and> vector_base s' = 40
    \<and> open_lines m' s' = [0, 1, 2, 12]"
proof -
  define st1 where "st1 = fold (\<lambda>i. idt_set_gate (of_nat i) 0 IDT_KERNEL_CODE_SELECTOR 0) [0..<IDT_ENTRIES] st"
  define st2 where "st2 = fold (\<lambda>i. idt_set_gate (of_nat i) (isr i) IDT_KERNEL_CODE_SELECTOR IDT_INTERRUPT_GATE) [0..<48] st1"
  have 1: "length (idt st1) = 256" "\<And>i. i < 256 \<Longrightarrow> i_flags (idt st1 ! i) = 0"
    using fold_gates [where n = 256 and st = st and b = "\<lambda>_. 0"] fold_gates [where n = 256 and st = st and b = "\<lambda>_. 0" and k = 0] assms(1) by (auto simp: st1_def simp del: upt_rec_numeral)
  have 2: "length (idt st2) = 256" "\<And>i. i < 48 \<Longrightarrow> gate_offset (idt st2 ! i) = isr i \<and> i_selector (idt st2 ! i) = 8 \<and> i_flags (idt st2 ! i) = 0x8E"
    "\<And>i. 48 \<le> i \<Longrightarrow> i < 256 \<Longrightarrow> i_flags (idt st2 ! i) = 0"
    using fold_gates [where n = 48 and st = st1 and b = isr] fold_gates [where n = 48 and st = st1 and b = isr and k = 0] 1 by (auto simp: st2_def gate_offset_gate simp del: upt_rec_numeral)
  have r: "ready (m\<lparr>vector_base := 0x20\<rparr>)" "ready (s\<lparr>vector_base := 0x28\<rparr>)" using assms(2,3) by (simp_all add: ready_def)
  have st': "st' = (idt_set_gate 128 (isr 128) 8 0xEE st2)\<lparr>idt_descriptor := (2047, idt_address), idtr := (2047, idt_address)\<rparr>"
    and h': "(m', s') = irq_clear_mask pic_ports 12 (irq_clear_mask pic_ports 2 (irq_clear_mask pic_ports 1 (irq_clear_mask pic_ports 0
        (m\<lparr>vector_base := 0x20, imr := 0xFF\<rparr>, s\<lparr>vector_base := 0x28, imr := 0xFF\<rparr>))))"
    using assms(4) by (simp_all add: idt_initialize_def Let_def pic_remap_ready [OF assms(2,3)] set_all_masks [OF r] st1_def [symmetric] st2_def [symmetric]
        del: upt_rec_numeral) 
  have ms: "m' = m\<lparr>vector_base := 0x20, imr := 0xF8\<rparr>" "s' = s\<lparr>vector_base := 0x28, imr := 0xEF\<rparr>"
    using h' assms(2,3) by (simp_all add: irq_clear_mask_def pic_ports_simps pic_inb_def pic_outb_def pic_data_def ready_def Let_def)
  then have "open_lines m' s' = [0, 1, 2, 12]" by (simp add: open_lines_def upt_rec bit_iff_odd)
  moreover have "let e = idt st' ! i in if i < 48 \<or> i = 128 then gate_offset e = isr i \<and> i_selector e = 0x08 \<and> i_flags e = (if i = 128 then 0xEE else 0x8E)
       else \<not> bit (i_flags e) 7" if "i < 256" for i
    using 2 that by (auto simp: st' idt_set_gate_def Let_def gate_offset_gate nth_list_update not_less)
  ultimately show ?thesis using assms(2,3) by (simp add: st' ready_def ms)
qed

definition reset_pic :: pic where
  "reset_pic = \<lparr>expects = 0, vector_base = 8, imr = 0xFB, acknowledged = 0\<rparr>"

definition reset_idt :: idt_state where
  "reset_idt = \<lparr>idt = replicate 256 \<lparr>i_base_low = 0, i_selector = 0, i_always_zero = 0, i_flags = 0, i_base_high = 0\<rparr>, idt_descriptor = (0, 0), idtr = (0, 0)\<rparr>"

theorem interrupts_initialized_witness:
  "idtr (fst (idt_initialize pic_ports (\<lambda>i. 0x100000 + of_nat i * 16) 0x30000 (reset_idt, (reset_pic, reset_pic)))) = (2047, 0x30000)"
proof -
  obtain st' m' s' where e: "(st', m', s') = idt_initialize pic_ports (\<lambda>i. 0x100000 + of_nat i * 16) 0x30000 (reset_idt, (reset_pic, reset_pic))"
    by (metis prod_cases3)
  have "ready reset_pic" "length (idt reset_idt) = 256" by (simp_all add: reset_pic_def ready_def reset_idt_def)
  then show ?thesis using interrupts_initialized [OF _ _ _ e] e [symmetric] by simp
qed
end
