(* ===== verification/Syscall.thy ===== *)
theory Syscall
  imports Usermode_Run
begin

text \<open>System calls: \<open>src/kernel/core/syscall.c\<close>. The handler reads its arguments from the saved registers, checks the
  buffers against the page tables, and dispatches to the process table, the file system, the scheduler and the
  timer. Text written by a process is kept as the list of bytes handed to the screen and the serial port; opening
  a desktop application is the parameter \<open>gui_open\<close> on a state of its own.

  The kernel follows a user pointer through the page tables in use: \<open>mmu\<close> is the processor's translation, and an
  access to an unmapped page is \<open>None\<close>. The theorems show that the check of a buffer's two ends is enough for every
  byte between them, and that it does not keep a process away from the kernel's own pages.\<close>

section \<open>State\<close>

record interrupt_frame =
  f_gs :: u32
  f_fs :: u32
  f_es :: u32
  f_ds :: u32
  f_edi :: u32
  f_esi :: u32
  f_ebp :: u32
  f_esp :: u32
  f_ebx :: u32
  f_edx :: u32
  f_ecx :: u32
  f_eax :: u32
  f_int_no :: u32
  f_err_code :: u32
  f_eip :: u32
  f_cs :: u32
  f_eflags :: u32
  f_useresp :: u32
  f_userss :: u32

record ('d, 'g) syscalls =
  sys_kernel :: "'d kernel"
  sys_output :: "u8 list"
  sys_gui :: 'g
  syscall_yield_count :: u32
  usermode_exit_code :: u32

section \<open>User memory\<close>

definition mmu :: "paging \<Rightarrow> u32 \<Rightarrow> nat option" where
  "mmu st va =
     (let e = entry_at (pmem st) (cr3 st) (directory_index va) in
      if \<not> present e then None
      else let t = entry_at (pmem st) (page_base e) (table_index va) in
           if \<not> present t then None else Some (unat (page_base t OR (va AND (PAGE_SIZE - 1)))))"

fun load_user :: "paging \<Rightarrow> u32 \<Rightarrow> nat \<Rightarrow> u8 list option" where
  "load_user st ptr 0 = Some []"
| "load_user st ptr (Suc n) = do { a \<leftarrow> mmu st ptr; bs \<leftarrow> load_user st (ptr + 1) n; Some (pmem st a # bs) }"

fun store_user :: "paging \<Rightarrow> u32 \<Rightarrow> u8 list \<Rightarrow> paging option" where
  "store_user st ptr [] = Some st"
| "store_user st ptr (b # bs) = do { a \<leftarrow> mmu st ptr; store_user (st\<lparr>pmem := (pmem st)(a := b)\<rparr>) (ptr + 1) bs }"

definition user_buffer_is_valid :: "u32 \<Rightarrow> u32 \<Rightarrow> paging \<Rightarrow> bool" where
  "user_buffer_is_valid ptr sz st \<longleftrightarrow>
     (if ptr = 0 \<or> sz = 0 \<or> sz > 4096 then False
      else if ptr + sz < ptr then False
      else paging_get_physical ptr st \<noteq> 0 \<and> paging_get_physical (ptr + sz - 1) st \<noteq> 0)"

definition copy_from_user :: "u32 \<Rightarrow> u32 \<Rightarrow> paging \<Rightarrow> u8 list option" where
  "copy_from_user src sz st = load_user st src (unat sz)"

section \<open>The handler\<close>

abbreviation (input) MYOS_SYSCALL_WRITE :: u32 where "MYOS_SYSCALL_WRITE \<equiv> 1"
abbreviation (input) MYOS_SYSCALL_EXIT :: u32 where "MYOS_SYSCALL_EXIT \<equiv> 2"
abbreviation (input) MYOS_SYSCALL_YIELD :: u32 where "MYOS_SYSCALL_YIELD \<equiv> 3"
abbreviation (input) MYOS_SYSCALL_UPTIME :: u32 where "MYOS_SYSCALL_UPTIME \<equiv> 4"
abbreviation (input) MYOS_SYSCALL_OPEN :: u32 where "MYOS_SYSCALL_OPEN \<equiv> 5"
abbreviation (input) MYOS_SYSCALL_READ :: u32 where "MYOS_SYSCALL_READ \<equiv> 6"
abbreviation (input) MYOS_SYSCALL_CLOSE :: u32 where "MYOS_SYSCALL_CLOSE \<equiv> 7"
abbreviation (input) MYOS_SYSCALL_GETPID :: u32 where "MYOS_SYSCALL_GETPID \<equiv> 8"
abbreviation (input) MYOS_SYSCALL_WAITPID :: u32 where "MYOS_SYSCALL_WAITPID \<equiv> 9"
abbreviation (input) MYOS_SYSCALL_WRITEFILE :: u32 where "MYOS_SYSCALL_WRITEFILE \<equiv> 10"
abbreviation (input) MYOS_SYSCALL_GUI_OPEN :: u32 where "MYOS_SYSCALL_GUI_OPEN \<equiv> 11"

type_synonym ('d, 'g) handled = "(interrupt_frame \<times> ('d, 'g) syscalls) option"

definition paging_of :: "('d, 'g) syscalls \<Rightarrow> paging" where
  "paging_of s = kpaging (sys_kernel s)"

definition set_eax :: "u32 \<Rightarrow> interrupt_frame \<Rightarrow> interrupt_frame" where
  "set_eax v frame = frame\<lparr>f_eax := v\<rparr>"

definition syscall_write :: "u8 list \<Rightarrow> ('d, 'g) syscalls \<Rightarrow> ('d, 'g) syscalls" where
  "syscall_write data s = s\<lparr>sys_output := sys_output s @ data\<rparr>"

definition handle_write :: "interrupt_frame \<Rightarrow> ('d, 'g) syscalls \<Rightarrow> ('d, 'g) handled" where
  "handle_write frame s =
     (if user_buffer_is_valid (f_ebx frame) (f_ecx frame) (paging_of s)
      then do { data \<leftarrow> load_user (paging_of s) (f_ebx frame) (unat (f_ecx frame));
                Some (set_eax (f_ecx frame) frame, syscall_write data s) }
      else Some (set_eax (- 1) frame, s))"

text \<open>Names take at most 31 bytes on the handler's stack.\<close>

definition name_is_valid :: "u32 \<Rightarrow> u32 \<Rightarrow> ('d, 'g) syscalls \<Rightarrow> bool" where
  "name_is_valid ptr sz s \<longleftrightarrow> \<not> (\<not> user_buffer_is_valid ptr sz (paging_of s) \<or> sz = 0 \<or> sz \<ge> 32)"

definition handle_open :: "interrupt_frame \<Rightarrow> ('d, 'g) syscalls \<Rightarrow> ('d, 'g) handled" where
  "handle_open frame s =
     (if \<not> name_is_valid (f_ebx frame) (f_ecx frame) s then Some (set_eax (- 1) frame, s)
      else do { name \<leftarrow> copy_from_user (f_ebx frame) (f_ecx frame) (paging_of s);
                let (r, k) = user_process_fd_open (name @ [0]) (sys_kernel s)
                in Some (set_eax (of_int r) frame, s\<lparr>sys_kernel := k\<rparr>) })"

definition handle_read :: "'d blockdev \<Rightarrow> interrupt_frame \<Rightarrow> ('d, 'g) syscalls \<Rightarrow> ('d, 'g) handled" where
  "handle_read bd frame s =
     (if \<not> user_buffer_is_valid (f_ecx frame) (f_edx frame) (paging_of s) then Some (set_eax (- 1) frame, s)
      else let (r, bytes, k) = user_process_fd_read bd (f_ebx frame) (f_ecx frame \<noteq> 0) (f_edx frame) (sys_kernel s)
           in do { st \<leftarrow> store_user (kpaging k) (f_ecx frame) bytes;
                   Some (set_eax (of_int r) frame, s\<lparr>sys_kernel := k\<lparr>kpaging := st\<rparr>\<rparr>) })"

definition handle_writefile :: "'d blockdev \<Rightarrow> interrupt_frame \<Rightarrow> ('d, 'g) syscalls \<Rightarrow> ('d, 'g) handled" where
  "handle_writefile bd frame s =
     (if \<not> name_is_valid (f_ebx frame) (f_ecx frame) s \<or> \<not> user_buffer_is_valid (f_edx frame) (f_esi frame) (paging_of s)
      then Some (set_eax (- 1) frame, s)
      else do { name \<leftarrow> copy_from_user (f_ebx frame) (f_ecx frame) (paging_of s);
                data \<leftarrow> load_user (paging_of s) (f_edx frame) (unat (f_esi frame));
                (ok, fs) \<leftarrow> diskfs_write_file bd (Some (name @ [0])) (Some data) (f_esi frame) (kfs (sys_kernel s));
                Some (set_eax (if ok then 0 else - 2) frame, s\<lparr>sys_kernel := (sys_kernel s)\<lparr>kfs := fs\<rparr>\<rparr>) })"

definition syscall_handle :: "'d blockdev \<Rightarrow> (u32 \<Rightarrow> 'g \<Rightarrow> int \<times> 'g) \<Rightarrow> u32 \<Rightarrow> interrupt_frame \<Rightarrow> ('d, 'g) syscalls \<Rightarrow> ('d, 'g) handled" where
  "syscall_handle bd gui_open usermode_return_from_exit frame s =
     (if f_eax frame = MYOS_SYSCALL_WRITE then handle_write frame s
      else if f_eax frame = MYOS_SYSCALL_EXIT
      then Some (frame\<lparr>f_eip := usermode_return_from_exit, f_cs := 0x08, f_eflags := 0x202\<rparr>, s\<lparr>usermode_exit_code := f_ebx frame\<rparr>)
      else if f_eax frame = MYOS_SYSCALL_YIELD
      then Some (set_eax 0 frame, s\<lparr>syscall_yield_count := syscall_yield_count s + 1,
                   sys_kernel := (sys_kernel s)\<lparr>ksched := scheduler_request_reschedule (ksched (sys_kernel s))\<rparr>\<rparr>)
      else if f_eax frame = MYOS_SYSCALL_UPTIME then Some (set_eax (timer_uptime_seconds (ktimer (sys_kernel s))) frame, s)
      else if f_eax frame = MYOS_SYSCALL_OPEN then handle_open frame s
      else if f_eax frame = MYOS_SYSCALL_READ then handle_read bd frame s
      else if f_eax frame = MYOS_SYSCALL_CLOSE
      then let (r, k) = user_process_fd_close (f_ebx frame) (sys_kernel s) in Some (set_eax (of_int r) frame, s\<lparr>sys_kernel := k\<rparr>)
      else if f_eax frame = MYOS_SYSCALL_GETPID then Some (set_eax (user_process_current_pid (sys_kernel s)) frame, s)
      else if f_eax frame = MYOS_SYSCALL_WAITPID
      then Some (set_eax (of_int (user_process_wait_pid (f_ebx frame) (sys_kernel s))) frame, s)
      else if f_eax frame = MYOS_SYSCALL_WRITEFILE then handle_writefile bd frame s
      else if f_eax frame = MYOS_SYSCALL_GUI_OPEN
      then let (r, g) = gui_open (f_ebx frame) (sys_gui s) in Some (set_eax (of_int r) frame, s\<lparr>sys_gui := g\<rparr>)
      else Some (set_eax (- 255) frame, s))"

section \<open>Buffers\<close>

lemma walk_mmu: "walk (pmem st) (cr3 st) va = (case mmu st va of None \<Rightarrow> 0 | Some a \<Rightarrow> of_nat a)"
  by (simp add: walk_def mmu_def Let_def)

lemma mmu_same_page: "pg va = pg vb \<Longrightarrow> mmu st va = None \<longleftrightarrow> mmu st vb = None"
  unfolding same_page_iff by (simp add: mmu_def Let_def)

definition space_in_use :: "paging \<Rightarrow> bool" where
  "space_in_use st \<longleftrightarrow> page_directory (pmem st) (current_space st) = cr3 st"

lemma get_physical_mapped: "space_in_use st \<Longrightarrow> paging_get_physical va st \<noteq> 0 \<Longrightarrow> mmu st va \<noteq> None"
  using walk_mmu [of st va] by (cases "mmu st va") (auto simp: paging_get_physical_def get_physical_walk space_in_use_def split: if_splits)

text \<open>A buffer of at most a page's length touches no page but those of its two ends.\<close>

lemma two_pages:
  fixes a i n :: nat
  assumes "i < n" "n \<le> 4096" shows "(a + i) div 4096 = a div 4096 \<or> (a + i) div 4096 = (a + n - 1) div 4096"
proof -
  have "a div 4096 \<le> (a + i) div 4096" "(a + i) div 4096 \<le> (a + n - 1) div 4096" "(a + n - 1) div 4096 \<le> (a + 4096) div 4096"
    using assms by (intro div_le_mono; simp)+
  then show ?thesis by (simp only: div_add_self2) linarith
qed

lemma buffer_mapped:
  assumes "user_buffer_is_valid ptr sz st" "space_in_use st" "i < unat sz"
  shows "mmu st (ptr + of_nat i) \<noteq> None"
proof -
  have v: "sz \<noteq> 0" "sz \<le> 4096" "ptr \<le> ptr + sz" "mmu st ptr \<noteq> None" "mmu st (ptr + sz - 1) \<noteq> None"
    using assms(1) get_physical_mapped [OF assms(2)] by (auto simp: user_buffer_is_valid_def not_less split: if_splits)
  define a n where "a = unat ptr" and "n = unat sz"
  have n: "i < n" "n \<le> 4096" "a + n < 4294967296" using assms(3) v(2) v(3) [unfolded no_wrap] by (simp_all add: a_def n_def word_le_nat_alt)
  have "unat (of_nat i :: u32) = i" using n by (simp add: unsigned_of_nat take_bit_nat_eq_self)
  then have u1: "unat (ptr + of_nat i) = a + i" using n by (simp add: unat_word_ariths a_def [symmetric])
  have "unat (ptr + sz) = a + n" using n by (simp add: unat_word_ariths a_def [symmetric] n_def [symmetric])
  moreover have "ptr + sz \<noteq> 0" using calculation n by (metis add_is_0 not_less_zero unat_0)
  ultimately have u2: "unat (ptr + sz - 1) = a + n - 1" by (metis unat_minus_one)
  have "pg (ptr + of_nat i) = pg ptr \<or> pg (ptr + of_nat i) = pg (ptr + sz - 1)"
    unfolding u1 u2 a_def [symmetric] by (rule two_pages [OF n(1,2)])
  then show ?thesis using v(4,5) mmu_same_page by metis
qed

lemma load_user_ok:
  "(\<forall>i < n. mmu st (ptr + of_nat i) \<noteq> None) \<Longrightarrow> \<exists>bs. load_user st ptr n = Some bs \<and> length bs = n
     \<and> (\<forall>i < n. bs ! i = pmem st (the (mmu st (ptr + of_nat i))))"
proof (induction n arbitrary: ptr)
  case (Suc n)
  have m: "mmu st ptr \<noteq> None" using Suc.prems [rule_format, of 0] by simp
  have "mmu st (ptr + 1 + of_nat i) \<noteq> None" if "i < n" for i using Suc.prems [rule_format, of "Suc i"] that by (simp add: add.assoc)
  then obtain bs where bs: "load_user st (ptr + 1) n = Some bs" "length bs = n" "\<forall>i < n. bs ! i = pmem st (the (mmu st (ptr + 1 + of_nat i)))"
    using Suc.IH by blast
  then have "\<forall>i < Suc n. (pmem st (the (mmu st ptr)) # bs) ! i = pmem st (the (mmu st (ptr + of_nat i)))"
    by (auto simp: nth_Cons' less_Suc_eq_0_disj add.assoc)
  then show ?case using m bs by auto
qed simp

section \<open>Theorems\<close>

text \<open>C9. Checking the two ends of a buffer is enough: for a buffer that passes the check, of whatever length up to
  4096 and wherever it starts, the write system call reads every byte through a mapped page, hands exactly the
  bytes in memory to the screen and returns their number; any other buffer is refused with -1 and no effect.\<close>

theorem syscall_write_exact:
  assumes "space_in_use (paging_of s)" "f_eax frame = MYOS_SYSCALL_WRITE"
  shows "syscall_handle bd gui_open ret frame s =
     (if user_buffer_is_valid (f_ebx frame) (f_ecx frame) (paging_of s)
      then Some (set_eax (f_ecx frame) frame,
                 syscall_write (map (\<lambda>i. pmem (paging_of s) (the (mmu (paging_of s) (f_ebx frame + of_nat i)))) [0..<unat (f_ecx frame)]) s)
      else Some (set_eax (- 1) frame, s))"
proof (cases "user_buffer_is_valid (f_ebx frame) (f_ecx frame) (paging_of s)")
  case True
  obtain bs where bs: "load_user (paging_of s) (f_ebx frame) (unat (f_ecx frame)) = Some bs" "length bs = unat (f_ecx frame)"
    "\<forall>i < unat (f_ecx frame). bs ! i = pmem (paging_of s) (the (mmu (paging_of s) (f_ebx frame + of_nat i)))"
    using load_user_ok buffer_mapped [OF True assms(1)] by blast
  then have "bs = map (\<lambda>i. pmem (paging_of s) (the (mmu (paging_of s) (f_ebx frame + of_nat i)))) [0..<unat (f_ecx frame)]"
    by (intro nth_equalityI) simp_all
  then show ?thesis using True bs(1) assms(2) by (simp add: syscall_handle_def handle_write_def)
qed (simp add: assms(2) syscall_handle_def handle_write_def)

definition idle_frame :: interrupt_frame where
  "idle_frame = \<lparr>f_gs = 0x23, f_fs = 0x23, f_es = 0x23, f_ds = 0x23, f_edi = 0, f_esi = 0, f_ebp = 0, f_esp = 0, f_ebx = 0, f_edx = 0, f_ecx = 0,
     f_eax = 0, f_int_no = 128, f_err_code = 0, f_eip = 0x400000, f_cs = 0x1B, f_eflags = 0x202, f_useresp = 0x411000, f_userss = 0x23\<rparr>"

definition boot_syscalls :: "(drive, unit) syscalls" where
  "boot_syscalls = \<lparr>sys_kernel = boot_kernel, sys_output = [], sys_gui = (), syscall_yield_count = 0, usermode_exit_code = 0\<rparr>"

lemma boot_syscalls_paging: "paging_of boot_syscalls = boot_paging"
  by (simp add: paging_of_def boot_syscalls_def boot_kernel_def)

lemma boot_space_in_use: "space_in_use boot_paging"
  by (simp add: space_in_use_def boot_paging_ok(4,7,8))

lemma boot_get_physical: "paging_get_physical va boot_paging = (if low_memory va \<or> framebuffer_range 0xFD000000 0xFD400000 va then va else 0)"
  using boot_paging_ok(4,5,7) by (simp add: paging_get_physical_def get_physical_walk boot_layout_def)

theorem syscall_write_exact_witness:
  "user_buffer_is_valid 0x1FFE 5 boot_paging \<and> syscall_handle (ata_dev drive_ports) (\<lambda>_ g. (0, g)) 0 (idle_frame\<lparr>f_eax := 1, f_ebx := 0x1FFE, f_ecx := 5\<rparr>) boot_syscalls =
     Some (set_eax 5 (idle_frame\<lparr>f_eax := 1, f_ebx := 0x1FFE, f_ecx := 5\<rparr>),
       syscall_write (map (\<lambda>i. pmem boot_paging (the (mmu boot_paging (0x1FFE + of_nat i)))) [0..<5]) boot_syscalls)"
proof -
  have v: "user_buffer_is_valid 0x1FFE 5 boot_paging" by (simp add: user_buffer_is_valid_def boot_get_physical low_memory_def)
  then show ?thesis
    using syscall_write_exact [of boot_syscalls "idle_frame\<lparr>f_eax := 1, f_ebx := 0x1FFE, f_ecx := 5\<rparr>" "ata_dev drive_ports" "\<lambda>_ g. (0, g)" 0]
    by (simp add: boot_syscalls_paging boot_space_in_use del: upt_rec_numeral)
qed

text \<open>The check of user buffers lets kernel memory through: in the space of a new process every nonzero address
  of the first 128 MiB that the kernel maps to itself passes as a buffer, and a byte stored through it, as the read
  system call does, lands in the kernel's own memory at that address.\<close>

theorem user_buffer_reaches_kernel:
  assumes "kernel_ok L st" "pmm_inv U (ppmm st)" "paging_create_address_space L st = Some (s, st1)" "s \<noteq> 0"
    "va \<noteq> 0" "unat va < 2 ^ 27" "walk (pmem st) (kernel_page_directory L) va = va" "st2 = paging_switch_address_space s st1"
  shows "user_buffer_is_valid va 1 st2 \<and> store_user st2 va [b] = Some (st2\<lparr>pmem := (pmem st2)(unat va := b)\<rparr>)"
proof -
  have C: "space_ok L st1 s" "paging_get_physical_in_space s va st1 = va" using create_space_ok [OF assms(1,2)] assms(3,4,7) by auto
  define d where "d = page_directory (pmem st1) s"
  have d: "d \<noteq> 0" using space_okD(4) [OF C(1) refl d_def] .
  have st2: "pmem st2 = pmem st1" "current_space st2 = s" "cr3 st2 = d" using assms(4,8) d by (simp_all add: paging_switch_address_space_def d_def)
  have w: "walk (pmem st2) (cr3 st2) va = va" using C(2) assms(4) d by (simp add: get_physical_walk st2 d_def)
  then obtain a where a: "mmu st2 va = Some a" "of_nat a = va" using walk_mmu [of st2 va] assms(5) by (cases "mmu st2 va") auto
  have "a < 2 ^ 32" using a(1) unsigned_less [where ?'a = nat] by (auto simp: mmu_def Let_def split: if_splits)
  then have "a = unat va" using a(2) by (auto simp: unsigned_of_nat take_bit_nat_eq_self)
  moreover have "\<not> va + 1 < va" using no_wrap [of va 1] assms(6) by (simp add: not_less)
  moreover have "paging_get_physical va st2 = va" using w assms(4) d by (simp add: paging_get_physical_def get_physical_walk st2 d_def)
  ultimately show ?thesis using a(1) assms(5) by (simp add: user_buffer_is_valid_def)
qed

theorem user_buffer_reaches_kernel_witness:
  "kernel_page_directory boot_layout = 0x10000 \<and> user_buffer_is_valid 0x10000 1 (paging_switch_address_space first_space first_paging)
     \<and> store_user (paging_switch_address_space first_space first_paging) 0x10000 [0] =
       Some ((paging_switch_address_space first_space first_paging)\<lparr>pmem := (pmem (paging_switch_address_space first_space first_paging))(unat (0x10000 :: u32) := 0)\<rparr>)"
proof -
  have k: "kernel_page_directory boot_layout = 0x10000" by (simp add: boot_layout_def)
  have w: "walk (pmem boot_paging) (kernel_page_directory boot_layout) 0x10000 = 0x10000" by (simp add: boot_paging_ok(5) low_memory_def)
  show ?thesis using user_buffer_reaches_kernel [OF boot_paging_ok(3) boot_inv first_space_ok(1) first_space_nonzero _ _ w refl, of 0] k by simp
qed

end
