(* ===== verification/Interrupts.thy ===== *)
theory Interrupts
  imports Descriptors Syscall Keyboard Mouse
begin

text \<open>Interrupt dispatch, \<open>src/arch/x86/interrupts/idt.c\<close>: the handler the assembly stubs call with the saved registers. It routes
  system calls, the keyboard, the mouse and the timer to their components, acknowledges the hardware lines at the
  controllers, and reports any other interrupt and stops. The result is the registers to return to, or the halted machine;
  \<open>None\<close> is a page fault inside a system call. Text goes to the screen and the serial line together, as in the
  system-call model.\<close>

section \<open>Model\<close>

record ('d, 'g, 'h) machine =
  msys :: "('d, 'g) syscalls"
  mkeyboard :: keyboard
  mmouse :: mouse
  mports :: 'h
  mcolor :: u8
  mcr2 :: u32

datatype ('d, 'g, 'h) outcome = Resume u32 interrupt_frame "('d, 'g, 'h) machine" | Halted "('d, 'g, 'h) machine"

definition exception_names :: "string list" where
  "exception_names = [''Divide Error'', ''Debug'', ''Non-maskable Interrupt'', ''Breakpoint'', ''Overflow'', ''Bound Range Exceeded'', ''Invalid Opcode'',
     ''Device Not Available'', ''Double Fault'', ''Coprocessor Segment Overrun'', ''Invalid TSS'', ''Segment Not Present'', ''Stack-Segment Fault'',
     ''General Protection Fault'', ''Page Fault'', ''Reserved'', ''x87 Floating-Point Exception'', ''Alignment Check'', ''Machine Check'',
     ''SIMD Floating-Point Exception'', ''Virtualization Exception'', ''Control Protection Exception'', ''Reserved'', ''Reserved'', ''Reserved'',
     ''Reserved'', ''Reserved'', ''Reserved'', ''Hypervisor Injection Exception'', ''VMM Communication Exception'', ''Security Exception'', ''Reserved'']"

definition diagnostics_write :: "u8 list \<Rightarrow> ('d, 'g, 'h) machine \<Rightarrow> ('d, 'g, 'h) machine" where
  "diagnostics_write data st = st\<lparr>msys := (msys st)\<lparr>sys_output := sys_output (msys st) @ cstr data\<rparr>\<rparr>"

definition diagnostics_write_hex :: "string \<Rightarrow> u32 \<Rightarrow> ('d, 'g, 'h) machine \<Rightarrow> ('d, 'g, 'h) machine" where
  "diagnostics_write_hex name value st = diagnostics_write [10] (diagnostics_write (u32_to_hex value) (diagnostics_write (Diskfs.ascii name) st))"

definition print_exception_diagnostics :: "interrupt_frame \<Rightarrow> ('d, 'g, 'h) machine \<Rightarrow> ('d, 'g, 'h) machine" where
  "print_exception_diagnostics frame st =
     (let name = (if f_int_no frame < 32 then exception_names ! unat (f_int_no frame) else ''Unknown'');
          st = st\<lparr>mcolor := 12 OR push_bit 4 0\<rparr>;
          st = diagnostics_write ([10] @ Diskfs.ascii ''KERNEL PANIC: CPU exception'' @ [10]) st;
          st = diagnostics_write (Diskfs.ascii ''Exception: '') st;
          st = diagnostics_write (Diskfs.ascii name) st;
          st = diagnostics_write [10] st;
          st = diagnostics_write_hex ''INT='' (f_int_no frame) st;
          st = diagnostics_write_hex ''ERR='' (f_err_code frame) st;
          st = diagnostics_write_hex ''EIP='' (f_eip frame) st;
          st = diagnostics_write_hex ''CS='' (f_cs frame) st;
          st = diagnostics_write_hex ''EFLAGS='' (f_eflags frame) st;
          st = (if f_int_no frame = 14 then diagnostics_write_hex ''CR2='' (mcr2 st) st else st);
          st = diagnostics_write_hex ''EAX='' (f_eax frame) st;
          st = diagnostics_write_hex ''EBX='' (f_ebx frame) st;
          st = diagnostics_write_hex ''ECX='' (f_ecx frame) st;
          st = diagnostics_write_hex ''EDX='' (f_edx frame) st;
          st = diagnostics_write_hex ''ESI='' (f_esi frame) st;
          st = diagnostics_write_hex ''EDI='' (f_edi frame) st;
          st = diagnostics_write_hex ''EBP='' (f_ebp frame) st;
          st = diagnostics_write_hex ''ESP='' (f_esp frame) st
      in diagnostics_write (Diskfs.ascii ''System halted.'' @ [10]) st)"

definition eoi :: "'h ports \<Rightarrow> u32 \<Rightarrow> ('d, 'g, 'h) machine \<Rightarrow> ('d, 'g, 'h) machine" where
  "eoi P int_no st = st\<lparr>mports := pic_send_eoi P int_no (mports st)\<rparr>"

definition upd_kernel :: "('d kernel \<Rightarrow> 'd kernel) \<Rightarrow> ('d, 'g, 'h) machine \<Rightarrow> ('d, 'g, 'h) machine" where
  "upd_kernel f st = st\<lparr>msys := (msys st)\<lparr>sys_kernel := f (sys_kernel (msys st))\<rparr>\<rparr>"

definition keyboard_irq :: "'h ports \<Rightarrow> ('d, 'g, 'h) machine \<Rightarrow> ('d, 'g, 'h) machine" where
  "keyboard_irq P st = (let (scancode, h) = inb P 0x60 (mports st) in st\<lparr>mports := h, mkeyboard := keyboard_handle_interrupt scancode (mkeyboard st)\<rparr>)"

definition mouse_irq :: "'h ports \<Rightarrow> ('d, 'g, 'h) machine \<Rightarrow> ('d, 'g, 'h) machine" where
  "mouse_irq P st = (let (data, h) = inb P 0x60 (mports st) in st\<lparr>mports := h, mmouse := mouse_handle_interrupt data (mmouse st)\<rparr>)"

definition tick_irq :: "('d, 'g, 'h) machine \<Rightarrow> ('d, 'g, 'h) machine" where
  "tick_irq st = upd_kernel (\<lambda>k. let (tm, s) = timer_handle_interrupt (ktimer k, ksched k) in k\<lparr>ktimer := tm, ksched := s\<rparr>) st"

definition interrupt_dispatch :: "'d blockdev \<Rightarrow> (u32 \<Rightarrow> 'g \<Rightarrow> int \<times> 'g) \<Rightarrow> u32 \<Rightarrow> 'h ports \<Rightarrow> u32 \<Rightarrow> interrupt_frame
    \<Rightarrow> ('d, 'g, 'h) machine \<Rightarrow> ('d, 'g, 'h) outcome option" where
  "interrupt_dispatch bd gui_open usermode_return_from_exit P address frame st =
     (if f_int_no frame = 128
      then do { (frame, s) \<leftarrow> syscall_handle bd gui_open usermode_return_from_exit frame (msys st); Some (Resume address frame (st\<lparr>msys := s\<rparr>)) }
      else if f_int_no frame = 33 then Some (Resume address frame (eoi P (f_int_no frame) (keyboard_irq P st)))
      else if f_int_no frame = 44 then Some (Resume address frame (eoi P (f_int_no frame) (mouse_irq P st)))
      else if f_int_no frame = 32
      then let st = eoi P (f_int_no frame) (tick_irq st);
               (address', s) = scheduler_schedule_from_interrupt address (ksched (sys_kernel (msys st)))
           in Some (Resume address' frame (upd_kernel (\<lambda>k. k\<lparr>ksched := s\<rparr>) st))
      else if f_int_no frame \<ge> 32 \<and> f_int_no frame \<le> 47 then Some (Resume address frame (eoi P (f_int_no frame) st))
      else Some (Halted (print_exception_diagnostics frame st)))"

section \<open>Properties\<close>

subsection \<open>A simulated interrupt controller and keyboard port\<close>

text \<open>The two cascaded controllers keep the lines in service; the non-specific end-of-interrupt command, 0x20 at port 0x20 or
  0xA0, ends the one of highest priority, the lowest line. Reading port 0x60 takes the next byte of the devices.\<close>

record irq_hardware =
  in_service1 :: u8
  in_service2 :: u8
  ps2_bytes :: "u8 list"

definition end_highest :: "u8 \<Rightarrow> u8" where
  "end_highest w = w AND (w - 1)"

definition irq_ports :: "irq_hardware ports" where
  "irq_ports = \<lparr>inb = (\<lambda>p h. if p = 0x60 then (case ps2_bytes h of [] \<Rightarrow> (0, h) | b # bs \<Rightarrow> (b, h\<lparr>ps2_bytes := bs\<rparr>)) else (0, h)),
     outb = (\<lambda>p v h. if v = 0x20 \<and> p = 0x20 then h\<lparr>in_service1 := end_highest (in_service1 h)\<rparr>
                     else if v = 0x20 \<and> p = 0xA0 then h\<lparr>in_service2 := end_highest (in_service2 h)\<rparr> else h),
     inw = (\<lambda>_ h. (0, h)), outw = (\<lambda>_ _ h. h)\<rparr>"

definition idle_hardware :: irq_hardware where
  "idle_hardware = \<lparr>in_service1 = 0, in_service2 = 0, ps2_bytes = []\<rparr>"

text \<open>An interrupt on a line: the line goes into service, the slave's lines through line 2 of the master, and the keyboard
  and the mouse offer a byte.\<close>

definition raise_line :: "nat \<Rightarrow> u8 \<Rightarrow> irq_hardware \<Rightarrow> irq_hardware" where
  "raise_line line b h = h\<lparr>in_service1 := in_service1 h OR push_bit (if line < 8 then line else 2) 1,
     in_service2 := (if line < 8 then in_service2 h else in_service2 h OR push_bit (line - 8) 1),
     ps2_bytes := (if line = 1 \<or> line = 12 then ps2_bytes h @ [b] else ps2_bytes h)\<rparr>"

record irq_event =
  ev_line :: nat
  ev_byte :: u8
  ev_address :: u32
  ev_frame :: interrupt_frame

definition event_frame :: "irq_event \<Rightarrow> interrupt_frame" where
  "event_frame e = (ev_frame e)\<lparr>f_int_no := 32 + of_nat (ev_line e)\<rparr>"

text \<open>A run of interrupts, which fails unless every one returns with the registers it saved and, the timer's apart, to where it
  came from.\<close>

fun run_irqs :: "'d blockdev \<Rightarrow> (u32 \<Rightarrow> 'g \<Rightarrow> int \<times> 'g) \<Rightarrow> u32 \<Rightarrow> irq_event list \<Rightarrow> ('d, 'g, irq_hardware) machine \<Rightarrow> ('d, 'g, irq_hardware) machine option" where
  "run_irqs bd gui ret [] st = Some st"
| "run_irqs bd gui ret (e # es) st =
     (case interrupt_dispatch bd gui ret irq_ports (ev_address e) (event_frame e) (st\<lparr>mports := raise_line (ev_line e) (ev_byte e) (mports st)\<rparr>) of
        Some (Resume address frame st') \<Rightarrow>
          (if frame = event_frame e \<and> (ev_line e \<noteq> 0 \<longrightarrow> address = ev_address e) then run_irqs bd gui ret es st' else None)
      | _ \<Rightarrow> None)"

definition line_bytes :: "nat \<Rightarrow> irq_event list \<Rightarrow> u8 list" where
  "line_bytes l es = map ev_byte (filter (\<lambda>e. ev_line e = l) es)"

definition timer_addresses :: "irq_event list \<Rightarrow> u32 list" where
  "timer_addresses es = map ev_address (filter (\<lambda>e. ev_line e = 0) es)"

text \<open>What one event does to the machine.\<close>

definition served :: "irq_event \<Rightarrow> ('d, 'g, 'h) machine \<Rightarrow> ('d, 'g, 'h) machine" where
  "served e st =
     (if ev_line e = 1 then st\<lparr>mkeyboard := keyboard_handle_interrupt (ev_byte e) (mkeyboard st)\<rparr>
      else if ev_line e = 12 then st\<lparr>mmouse := mouse_handle_interrupt (ev_byte e) (mmouse st)\<rparr>
      else if ev_line e = 0
      then upd_kernel (\<lambda>k. let (tm, s) = snd (timer_irq (ev_address e) (ktimer k, ksched k)) in k\<lparr>ktimer := tm, ksched := s\<rparr>) st
      else st)"

lemma less_8: "(n :: nat) < 8 \<Longrightarrow> n = 0 \<or> n = 1 \<or> n = 2 \<or> n = 3 \<or> n = 4 \<or> n = 5 \<or> n = 6 \<or> n = 7"
  by linarith

lemma end_highest_line: "n < 8 \<Longrightarrow> end_highest (push_bit n 1) = 0"
  by (drule less_8) (auto simp: end_highest_def)

lemma unat_line:
  assumes "line < 16" shows "unat (32 + of_nat line :: u32) = 32 + line"
proof -
  have "unat (of_nat line :: u32) = line" using assms by (simp add: unsigned_of_nat take_bit_nat_eq_self_iff)
  then show ?thesis using assms by (simp add: unat_word_ariths)
qed

lemma acknowledged:
  assumes "line < 16"
  shows "pic_send_eoi irq_ports (32 + of_nat line)
     \<lparr>in_service1 = push_bit (if line < 8 then line else 2) 1, in_service2 = (if line < 8 then 0 else push_bit (line - 8) 1), ps2_bytes = []\<rparr> = idle_hardware"
proof -
  have "40 \<le> (32 + of_nat line :: u32) \<longleftrightarrow> 8 \<le> line" "32 \<le> (32 + of_nat line :: u32)" 
    using unat_line [OF assms] by (simp_all add: word_le_nat_alt)
  then show ?thesis using assms end_highest_line [of line] end_highest_line [of 2] end_highest_line [of "line - 8"]
    by (auto simp: pic_send_eoi_def irq_ports_def idle_hardware_def)
qed

lemma irq_served:
  assumes "ev_line e < 16" "mports st = idle_hardware"
  shows "\<exists>address. interrupt_dispatch bd gui ret irq_ports (ev_address e) (event_frame e) (st\<lparr>mports := raise_line (ev_line e) (ev_byte e) (mports st)\<rparr>)
      = Some (Resume address (event_frame e) (served e st)) \<and> (ev_line e \<noteq> 0 \<longrightarrow> address = ev_address e)"
proof -
  obtain n :: u32 where n_def: "32 + of_nat (ev_line e) = n" by simp
  have u: "unat n = 32 + ev_line e" using unat_line [OF assms(1)] by (simp only: n_def)
  have n: "n \<noteq> 128" "n = 33 \<longleftrightarrow> ev_line e = 1" "n = 44 \<longleftrightarrow> ev_line e = 12" "n = 32 \<longleftrightarrow> ev_line e = 0" "32 \<le> n" "n \<le> 47"
    using u assms(1) by (auto simp: word_le_nat_alt word_unat_eq_iff)
  have f: "f_int_no (event_frame e) = n" by (simp add: event_frame_def n_def)
  have st: "st\<lparr>mports := idle_hardware\<rparr> = st" using assms(2) by (cases st) simp
  note ack = acknowledged [OF assms(1), unfolded n_def]
  consider "ev_line e = 1" | "ev_line e = 12" | "ev_line e = 0" | "ev_line e \<noteq> 0" "ev_line e \<noteq> 1" "ev_line e \<noteq> 12" by blast
  then show ?thesis
  proof cases
    case 1
    then show ?thesis using ack st unfolding interrupt_dispatch_def f
      by (simp add: n served_def keyboard_irq_def eoi_def irq_ports_def raise_line_def assms(2) idle_hardware_def)
  next
    case 2
    then show ?thesis using ack st unfolding interrupt_dispatch_def f
      by (simp add: n served_def mouse_irq_def eoi_def irq_ports_def raise_line_def assms(2) idle_hardware_def)
  next
    case 3
    then show ?thesis using ack st unfolding interrupt_dispatch_def f
      by (auto simp: n served_def tick_irq_def eoi_def raise_line_def assms(2) idle_hardware_def upd_kernel_def timer_irq_def
          timer_handle_interrupt_def Let_def split: prod.splits)
  next
    case 4
    then show ?thesis using ack st unfolding interrupt_dispatch_def f
      by (cases "ev_line e < 8") (simp_all add: n served_def eoi_def raise_line_def assms(2) idle_hardware_def)
  qed
qed

lemma run_irqs_served:
  assumes "\<forall>e \<in> set es. ev_line e < 16" "mports st = idle_hardware"
  shows "run_irqs bd gui ret es st = Some (fold served es st)"
  using assms
proof (induction es arbitrary: st)
  case (Cons e es)
  obtain a where a: "interrupt_dispatch bd gui ret irq_ports (ev_address e) (event_frame e) (st\<lparr>mports := raise_line (ev_line e) (ev_byte e) (mports st)\<rparr>)
      = Some (Resume a (event_frame e) (served e st))" "ev_line e \<noteq> 0 \<longrightarrow> a = ev_address e"
    using irq_served [of e st bd gui ret] Cons.prems by auto
  have "mports (served e st) = idle_hardware" using Cons.prems(2) by (simp add: served_def upd_kernel_def)
  then show ?case using Cons.IH [of "served e st"] Cons.prems(1) a by simp
qed simp

lemma fold_served:
  "mports (fold served es st) = mports st"
  "mkeyboard (fold served es st) = fold keyboard_handle_interrupt (line_bytes 1 es) (mkeyboard st)"
  "mmouse (fold served es st) = fold mouse_handle_interrupt (line_bytes 12 es) (mmouse st)"
  by (induction es arbitrary: st) (simp_all add: served_def upd_kernel_def line_bytes_def)

lemma fold_served_kernel:
  assumes "x = (ktimer (sys_kernel (msys st)), ksched (sys_kernel (msys st)))"
  shows "msys (fold served es st) = (let (tm, s) = fold (\<lambda>a x. snd (timer_irq a x)) (timer_addresses es) x
     in (msys st)\<lparr>sys_kernel := (sys_kernel (msys st))\<lparr>ktimer := tm, ksched := s\<rparr>\<rparr>)"
  using assms
proof (induction es arbitrary: st x)
  case (Cons e es)
  let ?x = "if ev_line e = 0 then snd (timer_irq (ev_address e) x) else x"
  have "?x = (ktimer (sys_kernel (msys (served e st))), ksched (sys_kernel (msys (served e st))))"
    using Cons.prems by (simp add: served_def upd_kernel_def Let_def split: prod.splits)
  note IH = Cons.IH [OF this]
  have "(msys (served e st))\<lparr>sys_kernel := (sys_kernel (msys (served e st)))\<lparr>ktimer := tm, ksched := s\<rparr>\<rparr>
      = (msys st)\<lparr>sys_kernel := (sys_kernel (msys st))\<lparr>ktimer := tm, ksched := s\<rparr>\<rparr>" for tm s
    by (simp add: served_def upd_kernel_def Let_def split: prod.splits)
  then show ?case using IH by (simp add: timer_addresses_def Let_def)
qed (simp add: timer_addresses_def)

lemma fold_ticks: "ticks (fst (fold (\<lambda>a x. snd (timer_irq a x)) as x)) = ticks (fst x) + of_nat (length as)"
  by (induction as arbitrary: x) (auto simp: timer_irq_def timer_handle_interrupt_def Let_def split: prod.splits)

text \<open>C10. Hardware interrupts are served completely and are transparent to what they interrupt. Take any sequence of interrupts on the
  sixteen lines, one after the other, on controllers with nothing in service and a keyboard and mouse port with no byte
  waiting. Every one returns with the registers it saved, and to the same place unless the timer makes the scheduler
  switch. At the end both controllers have nothing in service and no byte waits; the keyboard driver has received exactly the
  bytes of line 1 and the mouse driver those of line 12, in order; the clock has advanced by the number of interrupts
  on line 0, and apart from the clock and the scheduler, which has seen only those, files, memory, processes and the
  output are as before.\<close>

theorem irq_sequence_served:
  assumes "\<forall>e \<in> set es. ev_line e < 16" "mports st = idle_hardware"
  shows "\<exists>st' tm s. run_irqs bd gui ret es st = Some st' \<and> mports st' = idle_hardware
    \<and> mkeyboard st' = fold keyboard_handle_interrupt (line_bytes 1 es) (mkeyboard st)
    \<and> mmouse st' = fold mouse_handle_interrupt (line_bytes 12 es) (mmouse st)
    \<and> msys st' = (msys st)\<lparr>sys_kernel := (sys_kernel (msys st))\<lparr>ktimer := tm, ksched := s\<rparr>\<rparr>
    \<and> (tm, s) = fold (\<lambda>a x. snd (timer_irq a x)) (timer_addresses es) (ktimer (sys_kernel (msys st)), ksched (sys_kernel (msys st)))
    \<and> ticks tm = ticks (ktimer (sys_kernel (msys st))) + of_nat (length (timer_addresses es))"
proof -
  let ?x = "(ktimer (sys_kernel (msys st)), ksched (sys_kernel (msys st)))"
  obtain tm s where x: "fold (\<lambda>a x. snd (timer_irq a x)) (timer_addresses es) ?x = (tm, s)" by fastforce
  then have "ticks tm = ticks (fst ?x) + of_nat (length (timer_addresses es))" using fold_ticks [of "timer_addresses es" ?x] by simp
  then show ?thesis using run_irqs_served [OF assms] fold_served [of es st] fold_served_kernel [OF refl, of es st] x assms(2) by simp
qed

definition boot_machine :: "'h \<Rightarrow> (drive, unit, 'h) machine" where
  "boot_machine h = \<lparr>msys = boot_syscalls, mkeyboard = idle_keyboard, mmouse = mouse_static, mports = h, mcolor = 7, mcr2 = 0\<rparr>"

definition irq_event_at :: "nat \<Rightarrow> u8 \<Rightarrow> irq_event" where
  "irq_event_at l b = \<lparr>ev_line = l, ev_byte = b, ev_address = 0x9000, ev_frame = idle_frame\<rparr>"

theorem irq_sequence_served_witness:
  "\<exists>st' tm s. run_irqs (ata_dev drive_ports) (\<lambda>_ g. (0, g)) 0 [irq_event_at 1 0x2A, irq_event_at 12 8, irq_event_at 0 0, irq_event_at 1 0x1E, irq_event_at 0 0]
       (boot_machine idle_hardware) = Some st'
    \<and> mports st' = idle_hardware \<and> mkeyboard st' = keyboard_handle_interrupt 0x1E (keyboard_handle_interrupt 0x2A idle_keyboard)
    \<and> mmouse st' = mouse_handle_interrupt 8 mouse_static \<and> ticks tm = ticks (ktimer (sys_kernel boot_syscalls)) + 2
    \<and> msys st' = boot_syscalls\<lparr>sys_kernel := (sys_kernel boot_syscalls)\<lparr>ktimer := tm, ksched := s\<rparr>\<rparr>"
  using irq_sequence_served [of "[irq_event_at 1 0x2A, irq_event_at 12 8, irq_event_at 0 0, irq_event_at 1 0x1E, irq_event_at 0 0]"
      "boot_machine idle_hardware" "ata_dev drive_ports" "\<lambda>_ g. (0, g)" 0]
  by (auto simp: boot_machine_def irq_event_at_def line_bytes_def timer_addresses_def simp del: run_irqs.simps)

subsection \<open>The panic report\<close>

definition hex_text :: "u32 \<Rightarrow> string" where
  "hex_text v = ''0x'' @ map (\<lambda>i. ''0123456789ABCDEF'' ! (unat v div 16 ^ i mod 16)) [7, 6, 5, 4, 3, 2, 1, 0]"

definition report_line :: "string \<Rightarrow> u32 \<Rightarrow> string" where
  "report_line name v = name @ ''='' @ hex_text v @ [CHR 0x0A]"

definition panic_report :: "interrupt_frame \<Rightarrow> u32 \<Rightarrow> string" where
  "panic_report frame cr2 = [CHR 0x0A] @ ''KERNEL PANIC: CPU exception'' @ [CHR 0x0A]
     @ ''Exception: '' @ (if f_int_no frame < 32 then exception_names ! unat (f_int_no frame) else ''Unknown'') @ [CHR 0x0A]
     @ report_line ''INT'' (f_int_no frame) @ report_line ''ERR'' (f_err_code frame) @ report_line ''EIP'' (f_eip frame)
     @ report_line ''CS'' (f_cs frame) @ report_line ''EFLAGS'' (f_eflags frame)
     @ (if f_int_no frame = 14 then report_line ''CR2'' cr2 else [])
     @ report_line ''EAX'' (f_eax frame) @ report_line ''EBX'' (f_ebx frame) @ report_line ''ECX'' (f_ecx frame)
     @ report_line ''EDX'' (f_edx frame) @ report_line ''ESI'' (f_esi frame) @ report_line ''EDI'' (f_edi frame)
     @ report_line ''EBP'' (f_ebp frame) @ report_line ''ESP'' (f_esp frame)
     @ ''System halted.'' @ [CHR 0x0A]"

lemma hex_digit_text:
  assumes "n < 16" shows "hex_digits ! n = of_nat (of_char (''0123456789ABCDEF'' ! n))" "hex_digits ! n \<noteq> 0"
proof -
  have "n \<in> {0, 1, 2, 3, 4, 5, 6, 7, 8, 9, 10, 11, 12, 13, 14, 15}" using assms unfolding insert_iff empty_iff by presburger
  then show "hex_digits ! n = of_nat (of_char (''0123456789ABCDEF'' ! n))" "hex_digits ! n \<noteq> 0"
    by (elim insertE emptyE; simp add: hex_digits_def)+
qed

lemma cstr_terminated: "0 \<notin> set xs \<Longrightarrow> cstr (xs @ [0]) = xs"
  by (induction xs) (auto simp: cstr_def)

lemma cstr_hex: "cstr (u32_to_hex v) = Diskfs.ascii (hex_text v)"
proof -
  let ?d = "map (\<lambda>i. hex_digits ! unat (drop_bit ((7 - i) * 4) v AND 0xF)) [0..<8]"
  have e: "[0..<8] = [0, 1, 2, 3, 4, 5, 6, 7 :: nat]" by (simp add: upt_rec)
  have d: "?d = Diskfs.ascii (map (\<lambda>i. ''0123456789ABCDEF'' ! (unat v div 16 ^ i mod 16)) [7, 6, 5, 4, 3, 2, 1, 0])"
    unfolding e Diskfs.ascii_def by (simp add: unat_nibble hex_digit_text(1) unat_nibble [of 0, simplified] drop_bit_eq_div unat_div del: nth_Cons_numeral)
  have "0 \<notin> set ?d" using hex_digit_text(2) by (auto simp: unat_nibble)
  then have "0 \<notin> set ([48, 120] @ ?d)" by simp
  then have "cstr (u32_to_hex v) = [48, 120] @ ?d" unfolding u32_to_hex_def append_assoc [symmetric] by (rule cstr_terminated)
  then show ?thesis unfolding d hex_text_def by (simp add: Diskfs.ascii_def)
qed

lemma ascii_append: "Diskfs.ascii (s @ t) = Diskfs.ascii s @ Diskfs.ascii t"
  by (simp add: Diskfs.ascii_def)

lemma char_byte: "unat (of_nat (of_char c) :: u8) = of_char c"
proof -
  have "(of_char c :: nat) < 256"
    using of_char_mod_256 [of c, where ?'a = nat] mod_less_divisor [of 256 "of_char c :: nat"] by (simp only:)
  then show ?thesis unfolding unsigned_of_nat of_nat_id by (intro take_bit_nat_eq_self) simp
qed

lemma cstr_ascii:
  assumes "CHR 0x00 \<notin> set s" shows "cstr (Diskfs.ascii s) = Diskfs.ascii s"
proof -
  have z: "c = CHR 0x00" if "of_char c = (0 :: nat)" for c
    by (rule of_char_eq_iff [where ?'a = nat, THEN iffD1]) (use that in simp)
  have "of_nat (of_char c) \<noteq> (0 :: u8)" if "c \<in> set s" for c
  proof
    assume "of_nat (of_char c) = (0 :: u8)"
    with char_byte [of c] have "of_char c = (0 :: nat)" by (simp only: unat_0)
    then show False using z that assms by blast
  qed
  then show ?thesis unfolding cstr_def Diskfs.ascii_def takeWhile_eq_all_conv by auto
qed

definition emit :: "string \<Rightarrow> ('d, 'g, 'h) machine \<Rightarrow> ('d, 'g, 'h) machine" where
  "emit s st = st\<lparr>msys := (msys st)\<lparr>sys_output := sys_output (msys st) @ Diskfs.ascii s\<rparr>\<rparr>"

lemma emit_emit: "emit t (emit s st) = emit (s @ t) st" "emit [] st = st" "mcr2 (emit s st) = mcr2 st"
  by (simp_all add: emit_def ascii_append Diskfs.ascii_def)

lemma diagnostics_write_ascii: "CHR 0x00 \<notin> set s \<Longrightarrow> diagnostics_write (Diskfs.ascii s) st = emit s st"
  by (simp add: diagnostics_write_def cstr_ascii emit_def)

lemma diagnostics_write_hex_line:
  assumes "CHR 0x00 \<notin> set name"
  shows "diagnostics_write_hex (name @ ''='') v st = emit (report_line name v) st"
proof -
  have "cstr (Diskfs.ascii (name @ ''='')) = Diskfs.ascii (name @ ''='')" using assms by (intro cstr_ascii) simp
  then show ?thesis by (simp add: diagnostics_write_hex_def diagnostics_write_def cstr_hex report_line_def emit_def ascii_append) (simp add: Diskfs.ascii_def cstr_def)
qed

lemmas hex_lines = diagnostics_write_hex_line [of "''INT''", simplified] diagnostics_write_hex_line [of "''ERR''", simplified]
  diagnostics_write_hex_line [of "''EIP''", simplified] diagnostics_write_hex_line [of "''CS''", simplified]
  diagnostics_write_hex_line [of "''EFLAGS''", simplified] diagnostics_write_hex_line [of "''CR2''", simplified]
  diagnostics_write_hex_line [of "''EAX''", simplified] diagnostics_write_hex_line [of "''EBX''", simplified]
  diagnostics_write_hex_line [of "''ECX''", simplified] diagnostics_write_hex_line [of "''EDX''", simplified]
  diagnostics_write_hex_line [of "''ESI''", simplified] diagnostics_write_hex_line [of "''EDI''", simplified]
  diagnostics_write_hex_line [of "''EBP''", simplified] diagnostics_write_hex_line [of "''ESP''", simplified]

lemma exception_name_plain: "n < 32 \<Longrightarrow> CHR 0x00 \<notin> set (exception_names ! n)"
proof -
  have "\<forall>s \<in> set exception_names. CHR 0x00 \<notin> set s" "length exception_names = 32" by (simp_all add: exception_names_def)
  then show "n < 32 \<Longrightarrow> CHR 0x00 \<notin> set (exception_names ! n)" by (metis nth_mem)
qed

lemma ascii_newline: "[10] = Diskfs.ascii [CHR 0x0A]"
  by (simp add: Diskfs.ascii_def)

lemma print_exception_report:
  "print_exception_diagnostics frame st = emit (panic_report frame (mcr2 st)) (st\<lparr>mcolor := 12\<rparr>)"
proof -
  let ?name = "if f_int_no frame < 32 then exception_names ! unat (f_int_no frame) else ''Unknown''"
  have name: "diagnostics_write (Diskfs.ascii ?name) st = emit ?name st" for st :: "('a, 'b, 'c) machine"
    using exception_name_plain [of "unat (f_int_no frame)"] by (intro diagnostics_write_ascii) (simp add: word_less_nat_alt)
  have lit: "diagnostics_write (Diskfs.ascii ([CHR 0x0A] @ ''KERNEL PANIC: CPU exception'' @ [CHR 0x0A])) st = emit ([CHR 0x0A] @ ''KERNEL PANIC: CPU exception'' @ [CHR 0x0A]) st"
    "diagnostics_write (Diskfs.ascii ''Exception: '') st = emit ''Exception: '' st" "diagnostics_write (Diskfs.ascii [CHR 0x0A]) st = emit [CHR 0x0A] st"
    "diagnostics_write (Diskfs.ascii (''System halted.'' @ [CHR 0x0A])) st = emit (''System halted.'' @ [CHR 0x0A]) st" for st :: "('a, 'b, 'c) machine"
    by (intro diagnostics_write_ascii; simp)+
  have c: "(12 OR push_bit 4 0 :: u8) = 12" by simp
  have cr2: "mcr2 (st\<lparr>mcolor := 12\<rparr>) = mcr2 st" by simp
  show ?thesis unfolding print_exception_diagnostics_def Let_def c ascii_newline ascii_append [symmetric] name lit hex_lines panic_report_def
    by (cases "f_int_no frame = 14") (simp_all only: if_True if_False emit_emit append_assoc append_Nil simp_thms cr2)
qed

text \<open>C38. Any other interrupt stops the machine with a full report: exactly the panic report - the exception's name, the interrupt number,
  the error code, EIP, CS and EFLAGS, for a page fault the address in CR2, the eight general registers and the closing
  line, each value as 0x and eight upper-case hexadecimal digits - is appended to the output, the text colour becomes light red on black, and
  nothing else of the machine changes; in particular nothing is acknowledged.\<close>

theorem exception_halts:
  assumes "f_int_no frame < 32 \<or> 47 < f_int_no frame" "f_int_no frame \<noteq> 128"
  shows "interrupt_dispatch bd gui ret P address frame st = Some (Halted
     (st\<lparr>msys := (msys st)\<lparr>sys_output := sys_output (msys st) @ Diskfs.ascii (panic_report frame (mcr2 st))\<rparr>, mcolor := 12\<rparr>))"
proof -
  have "f_int_no frame \<noteq> 32" "f_int_no frame \<noteq> 33" "f_int_no frame \<noteq> 44" "\<not> (32 \<le> f_int_no frame \<and> f_int_no frame \<le> 47)"
    using assms by (auto simp: not_le)
  then show ?thesis using assms(2) by (simp add: interrupt_dispatch_def print_exception_report emit_def)
qed

definition quiet_ports :: "unit ports" where
  "quiet_ports = \<lparr>inb = \<lambda>_ h. (0x1E, h), outb = \<lambda>_ _ h. h, inw = \<lambda>_ h. (0, h), outw = \<lambda>_ _ h. h\<rparr>"

definition fault_frame :: interrupt_frame where
  "fault_frame = \<lparr>f_gs = 0, f_fs = 0, f_es = 0, f_ds = 0, f_edi = 7, f_esi = 6, f_ebp = 5, f_esp = 4, f_ebx = 0xB, f_edx = 0xD, f_ecx = 0xC, f_eax = 0xA,
     f_int_no = 14, f_err_code = 2, f_eip = 0x401234, f_cs = 0x1B, f_eflags = 0x202, f_useresp = 0, f_userss = 0\<rparr>"

lemma fault_report:
  "panic_report fault_frame 0xDEADBEEF = [CHR 0x0A] @ ''KERNEL PANIC: CPU exception'' @ [CHR 0x0A] @ ''Exception: Page Fault'' @ [CHR 0x0A]
     @ ''INT=0x0000000E'' @ [CHR 0x0A] @ ''ERR=0x00000002'' @ [CHR 0x0A] @ ''EIP=0x00401234'' @ [CHR 0x0A] @ ''CS=0x0000001B'' @ [CHR 0x0A]
     @ ''EFLAGS=0x00000202'' @ [CHR 0x0A] @ ''CR2=0xDEADBEEF'' @ [CHR 0x0A] @ ''EAX=0x0000000A'' @ [CHR 0x0A] @ ''EBX=0x0000000B'' @ [CHR 0x0A]
     @ ''ECX=0x0000000C'' @ [CHR 0x0A] @ ''EDX=0x0000000D'' @ [CHR 0x0A] @ ''ESI=0x00000006'' @ [CHR 0x0A] @ ''EDI=0x00000007'' @ [CHR 0x0A]
     @ ''EBP=0x00000005'' @ [CHR 0x0A] @ ''ESP=0x00000004'' @ [CHR 0x0A] @ ''System halted.'' @ [CHR 0x0A]"
  by (simp add: panic_report_def report_line_def hex_text_def exception_names_def fault_frame_def)

theorem exception_halts_witness:
  "interrupt_dispatch (ata_dev drive_ports) (\<lambda>_ g. (0, g)) 0 quiet_ports 0x9000 fault_frame ((boot_machine ())\<lparr>mcr2 := 0xDEADBEEF\<rparr>) = Some (Halted
     ((boot_machine ())\<lparr>mcr2 := 0xDEADBEEF, mcolor := 12, msys := boot_syscalls\<lparr>sys_output := sys_output boot_syscalls @ Diskfs.ascii (
        [CHR 0x0A] @ ''KERNEL PANIC: CPU exception'' @ [CHR 0x0A] @ ''Exception: Page Fault'' @ [CHR 0x0A]
        @ ''INT=0x0000000E'' @ [CHR 0x0A] @ ''ERR=0x00000002'' @ [CHR 0x0A] @ ''EIP=0x00401234'' @ [CHR 0x0A] @ ''CS=0x0000001B'' @ [CHR 0x0A]
        @ ''EFLAGS=0x00000202'' @ [CHR 0x0A] @ ''CR2=0xDEADBEEF'' @ [CHR 0x0A] @ ''EAX=0x0000000A'' @ [CHR 0x0A] @ ''EBX=0x0000000B'' @ [CHR 0x0A]
        @ ''ECX=0x0000000C'' @ [CHR 0x0A] @ ''EDX=0x0000000D'' @ [CHR 0x0A] @ ''ESI=0x00000006'' @ [CHR 0x0A] @ ''EDI=0x00000007'' @ [CHR 0x0A]
        @ ''EBP=0x00000005'' @ [CHR 0x0A] @ ''ESP=0x00000004'' @ [CHR 0x0A] @ ''System halted.'' @ [CHR 0x0A])\<rparr>\<rparr>))"
proof -
  have f: "f_int_no fault_frame < 32 \<or> 47 < f_int_no fault_frame" "f_int_no fault_frame \<noteq> 128" by (simp_all add: fault_frame_def)
  have m: "mcr2 ((boot_machine ())\<lparr>mcr2 := 0xDEADBEEF\<rparr>) = 0xDEADBEEF" "msys ((boot_machine ())\<lparr>mcr2 := 0xDEADBEEF\<rparr>) = boot_syscalls"
    by (simp_all add: boot_machine_def)
  show ?thesis unfolding exception_halts [OF f] m fault_report by (simp only: boot_machine_def machine.simps)
qed

end
