(* ===== verification/Platform.thy ===== *)
theory Platform
  imports Prelude
begin

text \<open>The real-time clock, \<open>src/kernel/drivers/platform/rtc.c\<close>, and the PCI bus scan, \<open>src/kernel/drivers/platform/pci.c\<close>. The hardware
  behind the ports is a parameter of the code's model; the theorems are about a clock chip with index and data port and about
  a configuration space behind its address port.\<close>

section \<open>Real-time clock: model\<close>

abbreviation (input) CMOS_INDEX :: u16 where "CMOS_INDEX \<equiv> 0x70"
abbreviation (input) CMOS_DATA :: u16 where "CMOS_DATA \<equiv> 0x71"

record rtc_datetime =
  year :: u16
  month :: u8
  day :: u8
  hour :: u8
  minute :: u8
  second :: u8

definition cmos_read :: "'h ports \<Rightarrow> u8 \<Rightarrow> 'h \<Rightarrow> u8 \<times> 'h" where
  "cmos_read P reg h = inb P CMOS_DATA (outb P CMOS_INDEX (0x80 OR reg) h)"

definition rtc_update_in_progress :: "'h ports \<Rightarrow> 'h \<Rightarrow> bool \<times> 'h" where
  "rtc_update_in_progress P h = (let (v, h) = cmos_read P 0x0A h in (v AND 0x80 \<noteq> 0, h))"

definition bcd_to_bin :: "u8 \<Rightarrow> u8" where
  "bcd_to_bin value = (value AND 0x0F) + drop_bit 4 value * 10"

definition rtc_initialize :: "bool \<Rightarrow> bool" where
  "rtc_initialize rtc_ready = True"

fun rtc_wait :: "'h ports \<Rightarrow> nat \<Rightarrow> 'h \<Rightarrow> 'h" where
  "rtc_wait P 0 h = h"
| "rtc_wait P (Suc n) h = (let (busy, h) = rtc_update_in_progress P h in if busy then rtc_wait P n h else h)"

text \<open>The conversion of the hour to 24 hours, from the value with the PM bit.\<close>

definition hour_24 :: "u8 \<Rightarrow> u8 \<Rightarrow> u8" where
  "hour_24 status_b h = (if status_b AND 0x02 = 0 \<and> h AND 0x80 \<noteq> 0 then ((h AND 0x7F) + 12) mod 24 else h)"

definition rtc_read_datetime :: "'h ports \<Rightarrow> bool \<Rightarrow> bool \<Rightarrow> 'h \<Rightarrow> rtc_datetime option \<times> 'h" where
  "rtc_read_datetime P rtc_ready out h =
     (if \<not> rtc_ready \<or> \<not> out then (None, h)
      else let h = rtc_wait P 100000 h;
               (s, h) = cmos_read P 0x00 h; (mi, h) = cmos_read P 0x02 h; (hr, h) = cmos_read P 0x04 h; (d, h) = cmos_read P 0x07 h;
               (mo, h) = cmos_read P 0x08 h; (y, h) = cmos_read P 0x09 h; (status_b, h) = cmos_read P 0x0B h;
               (s, mi, hr, d, mo, y) =
                 (if status_b AND 0x04 = 0
                  then (bcd_to_bin s, bcd_to_bin mi, (hr AND 0x80) OR bcd_to_bin (hr AND 0x7F), bcd_to_bin d, bcd_to_bin mo, bcd_to_bin y)
                  else (s, mi, hr, d, mo, y))
           in (Some \<lparr>year = 2000 + ucast y, month = mo, day = d, hour = hour_24 status_b hr, minute = mi, second = s\<rparr>, h))"

section \<open>Real-time clock: properties\<close>

record cmos =
  cindex :: u8
  cregs :: "u8 \<Rightarrow> u8"

definition cmos_ports :: "cmos ports" where
  "cmos_ports = \<lparr>inb = \<lambda>port c. (if port = CMOS_DATA then cregs c (cindex c) else 0xFF, c),
     outb = \<lambda>port v c. if port = CMOS_INDEX then c\<lparr>cindex := v AND 0x7F\<rparr> else c, inw = \<lambda>_ c. (0, c), outw = \<lambda>_ _ c. c\<rparr>"

text \<open>The register value for a number below 100 in the clock's number format.\<close>

definition coded :: "bool \<Rightarrow> nat \<Rightarrow> u8" where
  "coded binary n = (if binary then of_nat n else of_nat (16 * (n div 10) + n mod 10))"

lemma cmos_read_ports: "reg AND 0x80 = 0 \<Longrightarrow> cmos_read cmos_ports reg c = (cregs c reg, c\<lparr>cindex := reg\<rparr>)"
proof -
  assume r: "reg AND 0x80 = 0"
  have "(0x80 OR reg) AND 0x7F = reg AND 0x7F" by (simp add: bit.conj_disj_distrib2)
  also have "\<dots> = reg AND (0x7F OR 0x80)" using r by (simp only: bit.conj_disj_distrib) simp
  also have "(0x7F :: u8) OR 0x80 = - 1" by simp
  finally have "(0x80 OR reg) AND 0x7F = reg" by simp
  then show ?thesis by (simp add: cmos_read_def cmos_ports_def)
qed

lemma bcd_coded: "n < 100 \<Longrightarrow> bcd_to_bin (coded False n) = of_nat n"
proof -
  assume n: "n < 100"
  define q r where "q = n div 10" and "r = n mod 10"
  have b: "q < 10" "r < 10" "n = 10 * q + r" using n by (simp_all add: q_def r_def)
  have "coded False n = of_nat (16 * q + r)" by (simp only: coded_def q_def r_def if_False)
  then have u: "unat (coded False n) = 16 * q + r"
    using b by (simp only: unsigned_of_nat) (simp add: take_bit_nat_eq_self)
  have m: "(0x0F :: u8) = mask 4" by (simp add: mask_eq_exp_minus_1)
  have "coded False n AND 0x0F = take_bit 4 (coded False n)" unfolding m by (rule take_bit_eq_mask [symmetric])
  then have "unat (coded False n AND 0x0F) = take_bit 4 (16 * q + r)" by (simp only: unsigned_take_bit_eq u)
  then have "unat (coded False n AND 0x0F) = r" using b(2) by (simp add: take_bit_eq_mod)
  moreover have "unat (drop_bit 4 (coded False n)) = q"
    using b(1,2) by (simp only: unsigned_drop_bit_eq u) (simp add: take_bit_nat_eq_self drop_bit_eq_div)
  ultimately show ?thesis
    using b by (simp add: bcd_to_bin_def word_unat_eq_iff unat_word_ariths unsigned_of_nat take_bit_nat_eq_self)
qed

definition two_digits :: "rtc_datetime \<Rightarrow> bool" where
  "two_digits t \<longleftrightarrow> 2000 \<le> year t \<and> year t < 2100 \<and> month t < 100 \<and> day t < 100 \<and> hour t < 100 \<and> minute t < 100 \<and> second t < 100"

definition holds_time :: "rtc_datetime \<Rightarrow> cmos \<Rightarrow> bool" where
  "holds_time t c \<longleftrightarrow> (let binary = cregs c 0x0B AND 0x04 \<noteq> 0 in
     cregs c 0x00 = coded binary (unat (second t)) \<and> cregs c 0x02 = coded binary (unat (minute t)) \<and> cregs c 0x04 = coded binary (unat (hour t)) \<and>
     cregs c 0x07 = coded binary (unat (day t)) \<and> cregs c 0x08 = coded binary (unat (month t)) \<and> cregs c 0x09 = coded binary (unat (year t) - 2000))"

lemma rtc_wait_idle: "cregs c 0x0A AND 0x80 = 0 \<Longrightarrow> rtc_wait cmos_ports (Suc n) c = c\<lparr>cindex := 0x0A\<rparr>"
  by (simp add: rtc_update_in_progress_def cmos_read_ports)

lemma read_datetime_registers:
  assumes "cregs c 0x0A AND 0x80 = 0"
  shows "fst (rtc_read_datetime cmos_ports True True c) = Some (
    let r = cregs c; f = (if r 0x0B AND 0x04 = 0 then bcd_to_bin else (\<lambda>v. v));
        hr = (if r 0x0B AND 0x04 = 0 then (r 0x04 AND 0x80) OR bcd_to_bin (r 0x04 AND 0x7F) else r 0x04)
    in \<lparr>year = 2000 + ucast (f (r 0x09)), month = f (r 0x08), day = f (r 0x07), hour = hour_24 (r 0x0B) hr, minute = f (r 0x02), second = f (r 0x00)\<rparr>)"
proof -
  have "rtc_wait cmos_ports 100000 c = c\<lparr>cindex := 0x0A\<rparr>" using rtc_wait_idle [OF assms, of 99999] by (simp only: Suc_numeral add_num_simps)
  then show ?thesis by (simp add: rtc_read_datetime_def cmos_read_ports Let_def)
qed

lemma decoded:
  assumes "n < 100"
  shows "(if binary then (\<lambda>v. v) else bcd_to_bin) (coded binary n) = of_nat n"
  using bcd_coded [OF assms] by (simp add: coded_def)

lemma coded_hour:
  assumes "n < 24"
  shows "(coded False n AND 0x80) OR bcd_to_bin (coded False n AND 0x7F) = of_nat n"
proof -
  have "n \<in> {0..<24}" using assms by simp
  then show ?thesis by (simp add: coded_def bcd_to_bin_def atLeastLessThan_nat_numeral) (elim disjE; simp add: drop_bit_eq_div)
qed

text \<open>Reading the clock returns the date and time its registers hold, in either number format, for a clock in 24-hour mode that is
  not updating.\<close>

theorem rtc_reads_time:
  assumes "holds_time t c" "two_digits t" "hour t < 24" "cregs c 0x0A AND 0x80 = 0" "cregs c 0x0B AND 0x02 \<noteq> 0"
  shows "fst (rtc_read_datetime cmos_ports True True c) = Some t"
proof -
  define binary where "binary \<longleftrightarrow> cregs c 0x0B AND 0x04 \<noteq> 0"
  have h: "unat (hour t) < 24" using assms(3) by (simp add: word_less_nat_alt)
  have b: "unat (second t) < 100" "unat (minute t) < 100" "unat (day t) < 100" "unat (month t) < 100" "unat (year t) - 2000 < 100" "2000 \<le> unat (year t)"
    using assms(2) by (auto simp: two_digits_def word_less_nat_alt word_le_nat_alt)
  have y: "2000 + ucast (of_nat (unat (year t) - 2000) :: u8) = year t"
  proof -
    have "unat (of_nat (unat (year t) - 2000) :: u8) = unat (year t) - 2000" using b(5) by (simp add: unsigned_of_nat take_bit_nat_eq_self)
    then show ?thesis using b(5,6) by (simp add: word_unat_eq_iff unat_word_ariths unsigned_ucast_eq take_bit_nat_eq_self)
  qed
  have r: "cregs c 0x00 = coded binary (unat (second t))" "cregs c 0x02 = coded binary (unat (minute t))" "cregs c 0x04 = coded binary (unat (hour t))"
    "cregs c 0x07 = coded binary (unat (day t))" "cregs c 0x08 = coded binary (unat (month t))" "cregs c 0x09 = coded binary (unat (year t) - 2000)"
    using assms(1) by (simp_all add: holds_time_def Let_def binary_def)
  have hr: "(if cregs c 0x0B AND 0x04 = 0 then (coded binary (unat (hour t)) AND 0x80) OR bcd_to_bin (coded binary (unat (hour t)) AND 0x7F)
      else coded binary (unat (hour t))) = hour t"
    using coded_hour [OF h] by (simp add: coded_def binary_def)
  have f: "(if cregs c 0x0B AND 0x04 = 0 then bcd_to_bin else (\<lambda>v. v)) = (if binary then (\<lambda>v. v) else bcd_to_bin)" by (simp add: binary_def)
  show ?thesis
    unfolding read_datetime_registers [OF assms(4)] Let_def f r hr decoded [OF b(1)] decoded [OF b(2)] decoded [OF b(3)] decoded [OF b(4)] decoded [OF b(5)]
    using assms(5) y by (simp add: hour_24_def)
qed

definition sample_time :: rtc_datetime where
  "sample_time = \<lparr>year = 2026, month = 11, day = 16, hour = 23, minute = 59, second = 8\<rparr>"

definition sample_clock :: cmos where
  "sample_clock = \<lparr>cindex = 0, cregs = (\<lambda>_. 0)(0 := 0x08, 2 := 0x59, 4 := 0x23, 7 := 0x16, 8 := 0x11, 9 := 0x26, 0x0B := 0x02)\<rparr>"

theorem rtc_reads_time_witness: "fst (rtc_read_datetime cmos_ports True True sample_clock) = Some sample_time"
  by (rule rtc_reads_time) (simp_all add: sample_time_def sample_clock_def holds_time_def two_digits_def coded_def)

text \<open>In 12-hour mode twelve o'clock is read wrong: noon, the register value 12 with the PM bit, becomes hour 0, and midnight, 12 without it,
  becomes hour 12.\<close>

theorem rtc_twelve_o_clock:
  assumes "cregs c 0x0A AND 0x80 = 0" "cregs c 0x0B = 0"
  shows "cregs c 0x04 = 0x92 \<Longrightarrow> map_option hour (fst (rtc_read_datetime cmos_ports True True c)) = Some 0"
    "cregs c 0x04 = 0x12 \<Longrightarrow> map_option hour (fst (rtc_read_datetime cmos_ports True True c)) = Some 12"
  using assms by (simp_all add: read_datetime_registers Let_def hour_24_def bcd_to_bin_def drop_bit_eq_div)

section \<open>PCI: model\<close>

abbreviation (input) PCI_CONFIG_ADDRESS :: u16 where "PCI_CONFIG_ADDRESS \<equiv> 0xCF8"
abbreviation (input) PCI_CONFIG_DATA :: u16 where "PCI_CONFIG_DATA \<equiv> 0xCFC"
abbreviation (input) PCI_MAX_DEVICES :: nat where "PCI_MAX_DEVICES \<equiv> 32"

text \<open>The 32-bit port instructions of the driver.\<close>

record 'h long_ports =
  inl :: "u16 \<Rightarrow> 'h \<Rightarrow> u32 \<times> 'h"
  outl :: "u16 \<Rightarrow> u32 \<Rightarrow> 'h \<Rightarrow> 'h"

record pci_device =
  pci_bus :: u8
  pci_slot :: u8
  pci_function :: u8
  pci_class_code :: u8
  pci_subclass :: u8
  pci_vendor :: u16
  pci_id :: u16

text \<open>The table is the list of its used entries; \<open>device_count\<close> is its length.\<close>

definition pci_read32 :: "'h long_ports \<Rightarrow> u8 \<Rightarrow> u8 \<Rightarrow> u8 \<Rightarrow> u8 \<Rightarrow> 'h \<Rightarrow> u32 \<times> 'h" where
  "pci_read32 P bus slot fn offset h =
     (let address = 0x80000000 OR push_bit 16 (ucast bus) OR push_bit 11 (ucast slot) OR push_bit 8 (ucast fn) OR ucast (offset AND 0xFC)
      in inl P PCI_CONFIG_DATA (outl P PCI_CONFIG_ADDRESS address h))"

definition add_device :: "'h long_ports \<Rightarrow> u8 \<Rightarrow> u8 \<Rightarrow> u8 \<Rightarrow> pci_device list \<times> 'h \<Rightarrow> pci_device list \<times> 'h" where
  "add_device P bus slot fn = (\<lambda>(ds, h).
     (if length ds \<ge> PCI_MAX_DEVICES then (ds, h)
      else let (id, h) = pci_read32 P bus slot fn 0x00 h in
        if id AND 0xFFFF = 0xFFFF then (ds, h)
        else let (class_reg, h) = pci_read32 P bus slot fn 0x08 h
          in (ds @ [\<lparr>pci_bus = bus, pci_slot = slot, pci_function = fn, pci_class_code = ucast (drop_bit 24 class_reg), pci_subclass = ucast (drop_bit 16 class_reg),
                pci_vendor = ucast (id AND 0xFFFF), pci_id = ucast (drop_bit 16 id AND 0xFFFF)\<rparr>], h)))"

definition scan_slot :: "'h long_ports \<Rightarrow> u8 \<Rightarrow> u8 \<Rightarrow> pci_device list \<times> 'h \<Rightarrow> pci_device list \<times> 'h" where
  "scan_slot P bus slot = (\<lambda>(ds, h).
     (let (id, h) = pci_read32 P bus slot 0 0x00 h in
      if id AND 0xFFFF = 0xFFFF then (ds, h)
      else let (ds, h) = add_device P bus slot 0 (ds, h);
               (v, h) = pci_read32 P bus slot 0 0x0C h;
               header = (ucast (drop_bit 16 v) :: u8)
        in if header AND 0x80 \<noteq> 0 then fold (\<lambda>fn. add_device P bus slot (of_nat fn)) [1..<8] (ds, h) else (ds, h)))"

definition pci_initialize :: "'h long_ports \<Rightarrow> pci_device list \<times> 'h \<Rightarrow> pci_device list \<times> 'h" where
  "pci_initialize P = (\<lambda>(ds, h). fold (\<lambda>bus. fold (\<lambda>slot. scan_slot P (of_nat bus) (of_nat slot)) [0..<32]) [0..<256] ([], h))"

definition pci_device_count :: "pci_device list \<Rightarrow> u32" where
  "pci_device_count ds = of_nat (length ds)"

definition pci_device_vendor :: "u32 \<Rightarrow> pci_device list \<Rightarrow> u16" where
  "pci_device_vendor index ds = (if index < pci_device_count ds then pci_vendor (ds ! unat index) else 0xFFFF)"

definition pci_device_id :: "u32 \<Rightarrow> pci_device list \<Rightarrow> u16" where
  "pci_device_id index ds = (if index < pci_device_count ds then pci_id (ds ! unat index) else 0xFFFF)"

definition pci_device_bus :: "u32 \<Rightarrow> pci_device list \<Rightarrow> u8" where
  "pci_device_bus index ds = (if index < pci_device_count ds then pci_bus (ds ! unat index) else 0)"

definition pci_device_slot :: "u32 \<Rightarrow> pci_device list \<Rightarrow> u8" where
  "pci_device_slot index ds = (if index < pci_device_count ds then pci_slot (ds ! unat index) else 0)"

definition pci_device_function :: "u32 \<Rightarrow> pci_device list \<Rightarrow> u8" where
  "pci_device_function index ds = (if index < pci_device_count ds then pci_function (ds ! unat index) else 0)"

definition pci_device_class :: "u32 \<Rightarrow> pci_device list \<Rightarrow> u8" where
  "pci_device_class index ds = (if index < pci_device_count ds then pci_class_code (ds ! unat index) else 0)"

definition pci_device_subclass :: "u32 \<Rightarrow> pci_device list \<Rightarrow> u8" where
  "pci_device_subclass index ds = (if index < pci_device_count ds then pci_subclass (ds ! unat index) else 0)"

section \<open>PCI: properties\<close>

text \<open>A configuration space: a register for every configuration address, read through the last address written.\<close>

definition config_ports :: "(u32 \<Rightarrow> u32) \<Rightarrow> u32 long_ports" where
  "config_ports space = \<lparr>inl = \<lambda>port a. (if port = PCI_CONFIG_DATA then space a else - 1, a), outl = \<lambda>port v a. if port = PCI_CONFIG_ADDRESS then v else a\<rparr>"

definition config :: "(u32 \<Rightarrow> u32) \<Rightarrow> nat \<Rightarrow> nat \<Rightarrow> nat \<Rightarrow> u8 \<Rightarrow> u32" where
  "config space bus slot fn offset = space (0x80000000 + of_nat bus * 0x10000 + of_nat slot * 0x800 + of_nat fn * 0x100 + ucast offset)"

definition present_function :: "(u32 \<Rightarrow> u32) \<Rightarrow> nat \<Rightarrow> nat \<Rightarrow> nat \<Rightarrow> bool" where
  "present_function space bus slot fn \<longleftrightarrow> config space bus slot fn 0 AND 0xFFFF \<noteq> 0xFFFF"

definition functions_of :: "(u32 \<Rightarrow> u32) \<Rightarrow> nat \<Rightarrow> nat \<Rightarrow> nat list" where
  "functions_of space bus slot =
     (if \<not> present_function space bus slot 0 then []
      else 0 # (if bit (config space bus slot 0 0x0C) 23 then filter (present_function space bus slot) [1..<8] else []))"

definition all_functions :: "(u32 \<Rightarrow> u32) \<Rightarrow> (nat \<times> nat \<times> nat) list" where
  "all_functions space = concat (map (\<lambda>bus. concat (map (\<lambda>slot. map (\<lambda>fn. (bus, slot, fn)) (functions_of space bus slot)) [0..<32])) [0..<256])"

definition device_of :: "(u32 \<Rightarrow> u32) \<Rightarrow> nat \<times> nat \<times> nat \<Rightarrow> pci_device" where
  "device_of space = (\<lambda>(bus, slot, fn). \<lparr>pci_bus = of_nat bus, pci_slot = of_nat slot, pci_function = of_nat fn,
     pci_class_code = ucast (drop_bit 24 (config space bus slot fn 8)), pci_subclass = ucast (drop_bit 16 (config space bus slot fn 8)),
     pci_vendor = ucast (config space bus slot fn 0 AND 0xFFFF), pci_id = ucast (drop_bit 16 (config space bus slot fn 0) AND 0xFFFF)\<rparr>)"

lemma bit_bound: "unat (x :: u32) < 2 ^ k \<Longrightarrow> bit x n \<Longrightarrow> n < k"
proof (rule ccontr)
  assume x: "unat x < 2 ^ k" "bit x n" and "\<not> n < k"
  then have "unat x < 2 ^ n" by (meson less_le_trans not_less one_le_numeral power_increasing)
  moreover have "bit (unat x) n" using x(2) by (simp add: bit_unsigned_iff)
  ultimately show False by (simp add: bit_iff_odd)
qed

lemma config_address:
  assumes "bus < 256" "slot < 32" "fn < 8" "offset AND 0xFC = offset"
  shows "0x80000000 OR push_bit 16 (ucast (of_nat bus :: u8)) OR push_bit 11 (ucast (of_nat slot :: u8)) OR push_bit 8 (ucast (of_nat fn :: u8)) OR ucast (offset :: u8)
    = (0x80000000 + of_nat bus * 0x10000 + of_nat slot * 0x800 + of_nat fn * 0x100 + ucast offset :: u32)"
proof -
  define b s f where "b = (of_nat bus :: u32)" and "s = (of_nat slot :: u32)" and "f = (of_nat fn :: u32)"
  have u: "ucast (of_nat bus :: u8) = b" "ucast (of_nat slot :: u8) = s" "ucast (of_nat fn :: u8) = f"
    using assms by (simp_all add: b_def s_def f_def word_unat_eq_iff unsigned_ucast_eq unsigned_of_nat take_bit_nat_eq_self)
  have lt: "unat b < 2 ^ 8" "unat s < 2 ^ 5" "unat f < 2 ^ 3"
    using assms by (simp_all add: b_def s_def f_def unsigned_of_nat take_bit_nat_eq_self)
  have bits: "bit b n \<Longrightarrow> n < 8" "bit s n \<Longrightarrow> n < 5" "bit f n \<Longrightarrow> n < 3" for n
    using lt by (blast dest: bit_bound)+
  have ob: "bit offset n \<Longrightarrow> n < 8" for n using bit_imp_le_length [of offset n] by simp
  define A where "A = push_bit 8 f OR ucast offset"
  define B where "B = push_bit 11 s OR A"
  define C where "C = push_bit 16 b OR B"
  have "push_bit 8 f AND ucast offset = 0" by (rule bit_word_eqI) (auto simp: bit_simps dest!: bits ob)
  then have 1: "A = push_bit 8 f + ucast offset" by (simp add: disjunctive_add_eq_or A_def)
  have "push_bit 11 s AND A = 0" unfolding A_def by (rule bit_word_eqI) (auto simp: bit_simps dest!: bits ob)
  then have 2: "B = push_bit 11 s + A" by (simp add: disjunctive_add_eq_or B_def)
  have "push_bit 16 b AND B = 0" unfolding A_def B_def by (rule bit_word_eqI) (auto simp: bit_simps dest!: bits ob)
  then have 3: "C = push_bit 16 b + B" by (simp add: disjunctive_add_eq_or C_def)
  define T where "T = (push_bit 31 1 :: u32)"
  have T: "bit T n \<Longrightarrow> n = 31" for n unfolding T_def bit_push_bit_iff bit_1_iff by auto
  have "T AND C = 0" unfolding A_def B_def C_def by (rule bit_word_eqI) (auto simp: bit_simps dest!: bits ob T)
  then have "T OR C = T + C" by (simp add: disjunctive_add_eq_or)
  moreover have "T = 0x80000000" by (simp add: T_def)
  ultimately have "0x80000000 OR C = 0x80000000 + (push_bit 16 b + (push_bit 11 s + (push_bit 8 f + ucast offset)))" by (simp add: 1 2 3)
  then show ?thesis unfolding u or.assoc A_def [symmetric] B_def [symmetric] C_def [symmetric]
    by (simp add: b_def s_def f_def add.assoc push_bit_eq_mult mult.commute)
qed

lemma pci_read32_config:
  assumes "bus < 256" "slot < 32" "fn < 8" "offset AND 0xFC = offset"
  shows "\<exists>a'. pci_read32 (config_ports space) (of_nat bus) (of_nat slot) (of_nat fn) offset a = (config space bus slot fn offset, a')"
  using config_address [OF assms] assms(4) by (simp add: pci_read32_def config_ports_def config_def Let_def)

lemma add_device_config:
  assumes "bus < 256" "slot < 32" "fn < 8"
  shows "fst (add_device (config_ports space) (of_nat bus) (of_nat slot) (of_nat fn) (ds, a)) =
    (if length ds < PCI_MAX_DEVICES \<and> present_function space bus slot fn then ds @ [device_of space (bus, slot, fn)] else ds)"
proof -
  obtain a1 where 1: "\<And>a. pci_read32 (config_ports space) (of_nat bus) (of_nat slot) (of_nat fn) 0 a = (config space bus slot fn 0, a1 a)"
    using pci_read32_config [OF assms, of 0 space] by (metis and_zero_eq bit.conj_zero_left)
  obtain a2 where 2: "\<And>a. pci_read32 (config_ports space) (of_nat bus) (of_nat slot) (of_nat fn) 8 a = (config space bus slot fn 8, a2 a)"
    using pci_read32_config [OF assms, of 8 space] by (simp, metis)
  show ?thesis by (auto simp: add_device_def 1 2 present_function_def device_of_def Let_def)
qed

lemma fold_add_device:
  assumes "bus < 256" "slot < 32" "\<And>fn. fn \<in> set fns \<Longrightarrow> fn < 8" "ds = take PCI_MAX_DEVICES xs"
  shows "fst (fold (\<lambda>fn. add_device (config_ports space) (of_nat bus) (of_nat slot) (of_nat fn)) fns (ds, a)) =
    take PCI_MAX_DEVICES (xs @ map (\<lambda>fn. device_of space (bus, slot, fn)) (filter (present_function space bus slot) fns))"
  using assms(3,4)
proof (induction fns arbitrary: ds a xs)
  case (Cons fn fns)
  have "fn < 8" using Cons.prems(1) by simp
  obtain ds' a' where e: "add_device (config_ports space) (of_nat bus) (of_nat slot) (of_nat fn) (ds, a) = (ds', a')" by fastforce
  then have "ds' = (if length ds < PCI_MAX_DEVICES \<and> present_function space bus slot fn then ds @ [device_of space (bus, slot, fn)] else ds)"
    using add_device_config [OF assms(1,2) \<open>fn < 8\<close>, of space ds a] by simp
  then have "ds' = take PCI_MAX_DEVICES (xs @ (if present_function space bus slot fn then [device_of space (bus, slot, fn)] else []))"
    using Cons.prems(2) by (auto simp: not_less)
  from Cons.IH [OF _ this, of a'] show ?case using Cons.prems(1) e by (simp del: take_append)
qed simp

text \<open>One slot adds the functions the specification finds there, up to the size of the table.\<close>

lemma scan_slot_config:
  assumes "bus < 256" "slot < 32" "ds = take PCI_MAX_DEVICES xs"
  shows "fst (scan_slot (config_ports space) (of_nat bus) (of_nat slot) (ds, a)) =
    take PCI_MAX_DEVICES (xs @ map (\<lambda>fn. device_of space (bus, slot, fn)) (functions_of space bus slot))"
proof -
  let ?P = "config_ports space"
  have z: "(0 :: u8) AND 0xFC = 0" "(0x0C :: u8) AND 0xFC = 0x0C" by simp_all
  obtain a1 where 1: "pci_read32 ?P (of_nat bus) (of_nat slot) 0 0 a = (config space bus slot 0 0, a1)"
    using pci_read32_config [OF assms(1,2) _ z(1), of 0 space a] by auto
  obtain ds2 a2 where 2: "add_device ?P (of_nat bus) (of_nat slot) 0 (ds, a1) = (ds2, a2)" by fastforce
  obtain a3 where 3: "pci_read32 ?P (of_nat bus) (of_nat slot) 0 0x0C a2 = (config space bus slot 0 0x0C, a3)"
    using pci_read32_config [OF assms(1,2) _ z(2), of 0 space a2] by auto
  have b: "ucast (drop_bit 16 v) AND (0x80 :: u8) \<noteq> 0 \<longleftrightarrow> bit v 23" for v :: u32
    using and_exp_eq_0_iff [of "ucast (drop_bit 16 v) :: u8" 7] by (simp add: bit_simps)
  show ?thesis
  proof (cases "present_function space bus slot 0")
    case True
    have ds2: "ds2 = take PCI_MAX_DEVICES (xs @ [device_of space (bus, slot, 0)])"
      using add_device_config [OF assms(1,2), of 0 space ds a1] 2 True assms(3) by (auto simp: not_less)
    have "scan_slot ?P (of_nat bus) (of_nat slot) (ds, a) = (if bit (config space bus slot 0 0x0C) 23
        then fold (\<lambda>fn. add_device ?P (of_nat bus) (of_nat slot) (of_nat fn)) [1..<8] (ds2, a3) else (ds2, a3))"
      using True by (simp add: scan_slot_def 1 2 3 b present_function_def Let_def del: upt_rec_numeral)
    moreover have "fst (fold (\<lambda>fn. add_device ?P (of_nat bus) (of_nat slot) (of_nat fn)) [1..<8] (ds2, a3)) =
        take PCI_MAX_DEVICES ((xs @ [device_of space (bus, slot, 0)]) @ map (\<lambda>fn. device_of space (bus, slot, fn)) (filter (present_function space bus slot) [1..<8]))"
      by (rule fold_add_device [OF assms(1,2) _ ds2]) (simp del: upt_rec_numeral)
    ultimately show ?thesis using True ds2 by (simp add: functions_of_def del: upt_rec_numeral take_append)
  next
    case False
    then show ?thesis using assms(3) by (simp add: scan_slot_def 1 functions_of_def present_function_def)
  qed
qed

lemma fold_scan:
  assumes step: "\<And>i ds a xs. i \<in> set is \<Longrightarrow> ds = take n xs \<Longrightarrow> fst (f i (ds, a)) = take n (xs @ g i)" and "ds = take n xs"
  shows "fst (fold f is (ds, a)) = take n (xs @ concat (map g is))"
  using assms
proof (induction "is" arbitrary: ds a xs)
  case (Cons i "is")
  obtain ds' a' where e: "f i (ds, a) = (ds', a')" by fastforce
  then have "ds' = take n (xs @ g i)" using Cons.prems(1) [of i ds xs a] Cons.prems(2) by simp
  from Cons.IH [OF _ this, of a'] show ?case using Cons.prems(1) e by (simp del: take_append)
qed simp

text \<open>C39. The bus scan records exactly the functions the configuration space presents, in order of bus, slot and function, up to the
  thirty-two the table holds: function 0 of every occupied slot, and the others when its header says it has several.\<close>

theorem pci_scan_exact: "fst (pci_initialize (config_ports space) (ds, a)) = take PCI_MAX_DEVICES (map (device_of space) (all_functions space))"
proof -
  have row: "fst (fold (\<lambda>slot. scan_slot (config_ports space) (of_nat bus) (of_nat slot)) [0..<32] (ds, a)) =
      take PCI_MAX_DEVICES (xs @ concat (map (\<lambda>slot. map (\<lambda>fn. device_of space (bus, slot, fn)) (functions_of space bus slot)) [0..<32]))"
    if "bus \<in> set [0..<256]" "ds = take PCI_MAX_DEVICES xs" for bus ds a xs
    using that by (intro fold_scan scan_slot_config) (simp_all del: upt_rec_numeral)
  have "fst (fold (\<lambda>bus. fold (\<lambda>slot. scan_slot (config_ports space) (of_nat bus) (of_nat slot)) [0..<32]) [0..<256] ([], a)) =
      take PCI_MAX_DEVICES ([] @ concat (map (\<lambda>bus. concat (map (\<lambda>slot. map (\<lambda>fn. device_of space (bus, slot, fn)) (functions_of space bus slot)) [0..<32])) [0..<256]))"
    by (rule fold_scan, rule row) (simp_all del: upt_rec_numeral)
  then show ?thesis by (simp add: pci_initialize_def all_functions_def map_concat comp_def del: upt_rec_numeral)
qed

end
