(* ===== verification/Gui_Windows.thy ===== *)
theory Gui_Windows
  imports Graphics Diskfs
begin

text \<open>The shared types of the desktop, \<open>src/kernel/gui/core/gui_types.hpp\<close>, and the window manager,
  \<open>src/kernel/gui/wm/window_manager.cpp\<close>. Signed 32-bit coordinates are integers: the code's arithmetic on them is undefined
  where it would leave 32 bits, and \<open>on_desktop\<close>, kept by every operation, bounds them by the screen. Conversions between
  signed and unsigned values are \<open>sint\<close> and \<open>of_int\<close>. The constructors of the source's enumerations that clash with
  others carry the name of their type.\<close>

section \<open>Types\<close>

abbreviation (input) FALLBACK_W :: u32 where "FALLBACK_W \<equiv> 320"
abbreviation (input) FALLBACK_H :: u32 where "FALLBACK_H \<equiv> 200"
abbreviation (input) ICON_X :: int where "ICON_X \<equiv> 10"
abbreviation (input) ICON_Y :: int where "ICON_Y \<equiv> 30"
abbreviation (input) ICON_W :: int where "ICON_W \<equiv> 96"
abbreviation (input) ICON_H :: int where "ICON_H \<equiv> 46"
abbreviation (input) TITLEBAR_H :: int where "TITLEBAR_H \<equiv> 18"
abbreviation (input) WINDOW_MIN_W :: int where "WINDOW_MIN_W \<equiv> 168"
abbreviation (input) WINDOW_MIN_H :: int where "WINDOW_MIN_H \<equiv> 82"
abbreviation (input) START_BUTTON_W :: int where "START_BUTTON_W \<equiv> 58"
abbreviation (input) TASK_BUTTON_X :: int where "TASK_BUTTON_X \<equiv> 70"
abbreviation (input) TASK_BUTTON_W :: int where "TASK_BUTTON_W \<equiv> 92"
abbreviation (input) CLICK_SLOP :: int where "CLICK_SLOP \<equiv> 6"
abbreviation (input) DOUBLE_CLICK_TICKS :: u32 where "DOUBLE_CLICK_TICKS \<equiv> 80"
abbreviation (input) COLOR_DESKTOP_BOTTOM :: u32 where "COLOR_DESKTOP_BOTTOM \<equiv> 0x00163440"
abbreviation (input) COLOR_TASKBAR :: u32 where "COLOR_TASKBAR \<equiv> 0x00202A33"
abbreviation (input) COLOR_TASKBAR_HILITE :: u32 where "COLOR_TASKBAR_HILITE \<equiv> 0x00344550"
abbreviation (input) COLOR_ACCENT :: u32 where "COLOR_ACCENT \<equiv> 0x000078D4"
abbreviation (input) COLOR_ACCENT_DARK :: u32 where "COLOR_ACCENT_DARK \<equiv> 0x00005296"
abbreviation (input) COLOR_WINDOW :: u32 where "COLOR_WINDOW \<equiv> 0x00EEF3F8"
abbreviation (input) COLOR_WINDOW_BORDER :: u32 where "COLOR_WINDOW_BORDER \<equiv> 0x004A5D6E"
abbreviation (input) COLOR_TERMINAL_BG :: u32 where "COLOR_TERMINAL_BG \<equiv> 0x00071116"
abbreviation (input) COLOR_TERMINAL_FG :: u32 where "COLOR_TERMINAL_FG \<equiv> 0x0058D77A"
abbreviation (input) COLOR_TEXT_DARK :: u32 where "COLOR_TEXT_DARK \<equiv> 0x0016212B"

datatype window_mode = Normal | Minimized | Maximized

datatype hit_target = HitNone | Desktop | DesktopIcon | StartButton | StartTerminal | StartShutdown | StartRestart | TaskButton
  | WindowClient | WindowTitlebar | WindowMinimize | WindowMaximize | WindowClose | WindowResize

datatype app_id = AppNone | Terminal | Files | Monitor | About | Notepad

record hit_result =
  target :: hit_target
  happ :: app_id

record rect =
  rx :: int
  ry :: int
  rw :: int
  rh :: int

definition mk_rect :: "int \<Rightarrow> int \<Rightarrow> int \<Rightarrow> int \<Rightarrow> rect" where
  "mk_rect x y w h = \<lparr>rx = x, ry = y, rw = w, rh = h\<rparr>"

definition rect_empty :: "rect \<Rightarrow> bool" where
  "rect_empty r \<longleftrightarrow> rw r \<le> 0 \<or> rh r \<le> 0"

definition rect_contains :: "rect \<Rightarrow> int \<Rightarrow> int \<Rightarrow> bool" where
  "rect_contains r px py \<longleftrightarrow> px \<ge> rx r \<and> px < rx r + rw r \<and> py \<ge> ry r \<and> py < ry r + rh r"

record metrics =
  mwidth :: u32
  mheight :: u32
  taskbar_h :: u32

record window =
  wx :: int
  wy :: int
  ww :: int
  wh :: int
  restore_x :: int
  restore_y :: int
  restore_w :: int
  restore_h :: int
  wopen :: bool
  wfocused :: bool
  wmode :: window_mode
  wz :: u32

definition window_rect :: "window \<Rightarrow> rect" where
  "window_rect w = mk_rect (wx w) (wy w) (ww w) (wh w)"

definition window_visible :: "window \<Rightarrow> bool" where
  "window_visible w \<longleftrightarrow> wopen w \<and> wmode w \<noteq> Minimized"

definition min_i32 :: "int \<Rightarrow> int \<Rightarrow> int" where
  "min_i32 a b = (if a < b then a else b)"

definition max_i32 :: "int \<Rightarrow> int \<Rightarrow> int" where
  "max_i32 a b = (if a > b then a else b)"

text \<open>Parts the three kinds of window share: remembering the geometry, restoring it, and focus.\<close>

definition save_geometry :: "window \<Rightarrow> window" where
  "save_geometry w = w\<lparr>restore_x := wx w, restore_y := wy w, restore_w := ww w, restore_h := wh w\<rparr>"

definition restore_geometry :: "window \<Rightarrow> window" where
  "restore_geometry w = w\<lparr>wx := restore_x w, wy := restore_y w, ww := restore_w w, wh := restore_h w\<rparr>"

definition focus_window :: "u32 \<Rightarrow> window \<Rightarrow> window" where
  "focus_window z w = (if \<not> wopen w then w else w\<lparr>wfocused := True, wz := z\<rparr>)"

definition close_window :: "window \<Rightarrow> window" where
  "close_window w = w\<lparr>wopen := False, wfocused := False, wmode := Normal\<rparr>"

definition minimize_window :: "window \<Rightarrow> window" where
  "minimize_window w = w\<lparr>wmode := Minimized, wfocused := False\<rparr>"

definition maximize_window :: "metrics \<Rightarrow> u32 \<Rightarrow> window \<Rightarrow> window" where
  "maximize_window metrics z w = focus_window z
     (if wmode w = Maximized then restore_geometry (w\<lparr>wmode := Normal\<rparr>)
      else (save_geometry w)\<lparr>wmode := Maximized, wx := 2, wy := 4, ww := sint (mwidth metrics - 4), wh := sint (mheight metrics - taskbar_h metrics - 6)\<rparr>)"

section \<open>Frames\<close>

text \<open>The frame of a window, which the three kinds of application draw alike up to the title.\<close>

definition draw_frame :: "graphics_surface \<Rightarrow> window \<Rightarrow> string \<Rightarrow> mem \<Rightarrow> mem" where
  "draw_frame s w title m =
     (let title_color = (if wfocused w then COLOR_ACCENT else 0x00505E6A);
          m = graphics_fill_rect (Some s) (word_of_int (wx w)) (word_of_int (wy w)) (word_of_int (ww w)) (word_of_int (wh w)) COLOR_WINDOW m;
          m = graphics_draw_rect (Some s) (word_of_int (wx w)) (word_of_int (wy w)) (word_of_int (ww w)) (word_of_int (wh w))
                (if wfocused w then COLOR_ACCENT else COLOR_WINDOW_BORDER) m;
          m = graphics_fill_rect (Some s) (word_of_int (wx w + 1)) (word_of_int (wy w + 1)) (word_of_int (ww w - 2)) (word_of_int TITLEBAR_H) title_color m;
          m = graphics_draw_string (Some s) (word_of_int (wx w + 7)) (word_of_int (wy w + 6)) (Diskfs.ascii title) 15 title_color m;
          m = graphics_fill_rect (Some s) (word_of_int (wx w + ww w - 48)) (word_of_int (wy w + 4)) 13 11 0x006D7781 m;
          m = graphics_draw_string (Some s) (word_of_int (wx w + ww w - 44)) (word_of_int (wy w + 6)) (Diskfs.ascii ''_'') 15 0x006D7781 m;
          m = graphics_fill_rect (Some s) (word_of_int (wx w + ww w - 33)) (word_of_int (wy w + 4)) 13 11 0x006D7781 m;
          m = graphics_draw_string (Some s) (word_of_int (wx w + ww w - 30)) (word_of_int (wy w + 6)) (Diskfs.ascii ''M'') 15 0x006D7781 m;
          m = graphics_fill_rect (Some s) (word_of_int (wx w + ww w - 18)) (word_of_int (wy w + 4)) 13 11 0x00B84A4A m
      in graphics_draw_string (Some s) (word_of_int (wx w + ww w - 14)) (word_of_int (wy w + 6)) (Diskfs.ascii ''X'') 15 0x00B84A4A m)"

section \<open>Window manager\<close>

datatype window_area = AreaNone | Client | Titlebar | Minimize | Maximize | Close | Resize

record window_manager =
  wm_dragging :: bool
  wm_resizing :: bool
  drag_offset_x :: int
  drag_offset_y :: int

definition hit_window :: "window \<Rightarrow> int \<Rightarrow> int \<Rightarrow> window_area" where
  "hit_window window x y =
     (if \<not> window_visible window \<or> \<not> rect_contains (window_rect window) x y then AreaNone
      else if rect_contains (mk_rect (wx window + ww window - 18) (wy window + 4) 13 11) x y then Close
      else if rect_contains (mk_rect (wx window + ww window - 33) (wy window + 4) 13 11) x y then Maximize
      else if rect_contains (mk_rect (wx window + ww window - 48) (wy window + 4) 13 11) x y then Minimize
      else if rect_contains (mk_rect (wx window + ww window - 10) (wy window + wh window - 10) 10 10) x y \<and> wmode window \<noteq> Maximized then Resize
      else if rect_contains (mk_rect (wx window) (wy window) (ww window) (TITLEBAR_H + 2)) x y \<and> wmode window \<noteq> Maximized then Titlebar
      else Client)"

definition begin_drag :: "window \<Rightarrow> int \<Rightarrow> int \<Rightarrow> window_manager \<Rightarrow> window_manager" where
  "begin_drag window x y wm = wm\<lparr>wm_dragging := True, wm_resizing := False, drag_offset_x := x - wx window, drag_offset_y := y - wy window\<rparr>"

definition begin_resize :: "window_manager \<Rightarrow> window_manager" where
  "begin_resize wm = wm\<lparr>wm_resizing := True, wm_dragging := False\<rparr>"

definition end_pointer_action :: "window_manager \<Rightarrow> window_manager" where
  "end_pointer_action wm = wm\<lparr>wm_dragging := False, wm_resizing := False\<rparr>"

definition update_drag :: "window_manager \<Rightarrow> window \<Rightarrow> int \<Rightarrow> int \<Rightarrow> metrics \<Rightarrow> rect \<times> window" where
  "update_drag wm window x y metrics =
     (let before = window_rect window;
          desktop_w = sint (mwidth metrics);
          desktop_h = sint (mheight metrics - taskbar_h metrics);
          window = window\<lparr>wx := x - drag_offset_x wm, wy := y - drag_offset_y wm\<rparr>;
          window = (if wx window < 0 then window\<lparr>wx := 0\<rparr> else window);
          window = (if wy window < 0 then window\<lparr>wy := 0\<rparr> else window);
          window = (if wx window + ww window > desktop_w then window\<lparr>wx := desktop_w - ww window\<rparr> else window);
          window = (if wy window + wh window > desktop_h then window\<lparr>wy := desktop_h - wh window\<rparr> else window)
      in (before, window))"

definition update_resize :: "window \<Rightarrow> int \<Rightarrow> int \<Rightarrow> metrics \<Rightarrow> rect \<times> window" where
  "update_resize window x y metrics =
     (let before = window_rect window;
          desktop_w = sint (mwidth metrics);
          desktop_h = sint (mheight metrics - taskbar_h metrics);
          window = window\<lparr>ww := x - wx window + 1, wh := y - wy window + 1\<rparr>;
          window = (if ww window < WINDOW_MIN_W then window\<lparr>ww := WINDOW_MIN_W\<rparr> else window);
          window = (if wh window < WINDOW_MIN_H then window\<lparr>wh := WINDOW_MIN_H\<rparr> else window);
          window = (if wx window + ww window > desktop_w then window\<lparr>ww := desktop_w - wx window\<rparr> else window);
          window = (if wy window + wh window > desktop_h then window\<lparr>wh := desktop_h - wy window\<rparr> else window)
      in (before, window))"

section \<open>Geometry\<close>

text \<open>A rectangle is on the desktop when it lies on the screen above the task bar and has the least size of a window; a window is
  well placed when it is, and so is the geometry it would be restored to.\<close>

definition on_desktop :: "metrics \<Rightarrow> rect \<Rightarrow> bool" where
  "on_desktop M r \<longleftrightarrow> 0 \<le> rx r \<and> 0 \<le> ry r \<and> rx r + rw r \<le> sint (mwidth M) \<and> ry r + rh r \<le> sint (mheight M - taskbar_h M)
     \<and> WINDOW_MIN_W \<le> rw r \<and> WINDOW_MIN_H \<le> rh r"

definition well_placed :: "metrics \<Rightarrow> window \<Rightarrow> bool" where
  "well_placed M w \<longleftrightarrow> on_desktop M (window_rect w) \<and> on_desktop M (mk_rect (restore_x w) (restore_y w) (restore_w w) (restore_h w))"

text \<open>The screens the desktop is laid out for: at least 342 by 206 pixels with the task bar the code gives them. The
  sizes a boot loader reports have 16 bits.\<close>

definition metrics_ok :: "metrics \<Rightarrow> bool" where
  "metrics_ok M \<longleftrightarrow> 342 \<le> mwidth M \<and> mwidth M < 0x10000 \<and> 206 \<le> mheight M \<and> mheight M < 0x10000
     \<and> taskbar_h M = (if mheight M \<ge> 480 then 30 else 22)"

lemmas placement_defs = on_desktop_def well_placed_def window_rect_def mk_rect_def

lemma sint_eq_uint: "uint w < 0x80000000 \<Longrightarrow> sint w = uint w" for w :: u32
proof -
  assume "uint w < 0x80000000"
  moreover have "- (2 ^ 31) \<le> uint w" by (rule order_trans [OF _ uint_ge_0]) simp
  ultimately show ?thesis using signed_take_bit_int_eq_self [of 31 "uint w"] by (simp add: sint_uint)
qed

lemma uint_minus_le: "uint b \<le> uint a \<Longrightarrow> uint (a - b) = uint a - uint b" for a b :: u32
  by (simp add: uint_sub_if')

lemma uint_of_small: "0 \<le> k \<Longrightarrow> k < 2 ^ 32 \<Longrightarrow> uint (word_of_int k :: u32) = k"
  by (simp add: uint_word_of_int)

text \<open>The sizes of such a screen as integers, and the code's expressions over them.\<close>

abbreviation (input) scr_w :: "metrics \<Rightarrow> int" where "scr_w M \<equiv> uint (mwidth M)"
abbreviation (input) scr_h :: "metrics \<Rightarrow> int" where "scr_h M \<equiv> uint (mheight M)"

lemma screen_bounds:
  assumes "metrics_ok M" shows "342 \<le> scr_w M" "scr_w M < 65536" "206 \<le> scr_h M" "scr_h M < 65536"
  using assms by (simp_all add: metrics_ok_def word_le_def word_less_def)

lemma screen_bar: "metrics_ok M \<Longrightarrow> uint (taskbar_h M) = (if scr_h M \<ge> 480 then 30 else 22)"
  by (simp add: metrics_ok_def word_le_def)

lemma screen_sizes:
  assumes "metrics_ok M"
  shows "sint (mwidth M) = scr_w M" "sint (mheight M) = scr_h M" "sint (taskbar_h M) = uint (taskbar_h M)"
    "uint (mheight M - taskbar_h M) = scr_h M - uint (taskbar_h M)" "sint (mheight M - taskbar_h M) = scr_h M - uint (taskbar_h M)"
  using screen_bounds [OF assms] screen_bar [OF assms] by (simp_all add: sint_eq_uint uint_minus_le)

lemma screen_minus:
  assumes "metrics_ok M" "uint c \<le> 96"
  shows "uint (mwidth M - c) = scr_w M - uint c" "sint (mwidth M - c) = scr_w M - uint c"
    "uint (mheight M - taskbar_h M - c) = scr_h M - uint (taskbar_h M) - uint c"
    "sint (mheight M - taskbar_h M - c) = scr_h M - uint (taskbar_h M) - uint c"
proof -
  note b = screen_bounds [OF assms(1)] screen_bar [OF assms(1)] screen_sizes(4) [OF assms(1)]
  show *: "uint (mwidth M - c) = scr_w M - uint c" "uint (mheight M - taskbar_h M - c) = scr_h M - uint (taskbar_h M) - uint c"
    using b assms(2) by (simp_all add: uint_minus_le)
  show "sint (mwidth M - c) = scr_w M - uint c" "sint (mheight M - taskbar_h M - c) = scr_h M - uint (taskbar_h M) - uint c"
    unfolding * [symmetric] by (rule sint_eq_uint; unfold *; use b uint_ge_0 [of c] uint_ge_0 [of "taskbar_h M"] in linarith)+
qed

lemma screen_centre: "metrics_ok M \<Longrightarrow> 0 \<le> w \<Longrightarrow> w \<le> scr_w M \<Longrightarrow> sint ((mwidth M - word_of_int w) div 2) = (scr_w M - w) div 2"
proof -
  assume M: "metrics_ok M" and w: "0 \<le> w" "w \<le> scr_w M"
  have "uint ((mwidth M - word_of_int w) div 2) = (scr_w M - w) div 2"
    using screen_bounds [OF M] w by (simp add: uint_div uint_minus_le uint_of_small)
  then show ?thesis using screen_bounds [OF M] w by (simp add: sint_eq_uint)
qed

section \<open>Placement is kept\<close>

lemma well_placed_focus [simp]: "well_placed M (focus_window z w) = well_placed M w"
  by (simp add: focus_window_def placement_defs)

lemma well_placed_close [simp]: "well_placed M (close_window w) = well_placed M w"
  by (simp add: close_window_def placement_defs)

lemma well_placed_minimize [simp]: "well_placed M (minimize_window w) = well_placed M w"
  by (simp add: minimize_window_def placement_defs)

lemma well_placed_flags [simp]:
  "well_placed M (w\<lparr>wopen := b\<rparr>) = well_placed M w" "well_placed M (w\<lparr>wfocused := b\<rparr>) = well_placed M w"
  "well_placed M (w\<lparr>wmode := m\<rparr>) = well_placed M w" "well_placed M (w\<lparr>wz := z\<rparr>) = well_placed M w"
  by (simp_all add: placement_defs)

lemma well_placed_save [simp]: "well_placed M (save_geometry w) \<longleftrightarrow> on_desktop M (window_rect w)"
  by (auto simp: save_geometry_def placement_defs)

lemma well_placed_maximize:
  assumes "metrics_ok M" "well_placed M w" shows "well_placed M (maximize_window M z w)"
proof -
  note s = screen_bounds [OF assms(1)] screen_bar [OF assms(1)] screen_sizes [OF assms(1)] screen_minus [OF assms(1)]
  show ?thesis
  proof (cases "wmode w = Maximized")
    case True
    then show ?thesis using assms(2) by (simp add: maximize_window_def focus_window_def restore_geometry_def placement_defs)
  next
    case False
    then show ?thesis using assms(2) s by (simp add: maximize_window_def focus_window_def save_geometry_def placement_defs)
  qed
qed

lemma well_placed_drag: "well_placed M w \<Longrightarrow> well_placed M (snd (update_drag wm w x y M))"
  by (auto simp: update_drag_def placement_defs Let_def)

lemma well_placed_resize: "well_placed M w \<Longrightarrow> well_placed M (snd (update_resize w x y M))"
  by (auto simp: update_resize_def placement_defs Let_def)

section \<open>Hits\<close>

lemma hit_window_inside: "hit_window w x y \<noteq> AreaNone \<longleftrightarrow> window_visible w \<and> rect_contains (window_rect w) x y"
  by (simp add: hit_window_def)

lemma hit_window_hidden: "\<not> window_visible w \<Longrightarrow> hit_window w x y = AreaNone"
  by (simp add: hit_window_def)

end
