(* ===== verification/Assets.thy ===== *)
theory Assets
  imports Graphics_Draw Heap Usermode Gui_Windows
begin

text \<open>Images, \<open>src/kernel/assets/assets.c\<close>: the wallpaper and the two mouse pointers are loaded from files into buffers of the heap, and
  drawn on a surface. The buffers are read from the memory the surface lies in, as the code does. An image buffer keeps
  what a failed read has stored in it until then.\<close>

section \<open>Model\<close>

abbreviation (input) MYIMG_MAGIC :: u32 where "MYIMG_MAGIC \<equiv> 0x4D49594D"
abbreviation (input) MYIMG_RGB565 :: u16 where "MYIMG_RGB565 \<equiv> 1"
abbreviation (input) MYIMG_ARGB32 :: u16 where "MYIMG_ARGB32 \<equiv> 2"
abbreviation (input) sizeof_myimg_header :: u32 where "sizeof_myimg_header \<equiv> 20"

record myimg_header =
  mi_magic :: u32
  mi_width :: u16
  mi_height :: u16
  mi_format :: u16
  mi_hotspot_x :: u16
  mi_hotspot_y :: u16
  mi_payload_size :: u32

definition myimg_header_of :: "u8 list \<Rightarrow> myimg_header" where
  "myimg_header_of bs = \<lparr>mi_magic = dec32 bs 0, mi_width = dec16 bs 4, mi_height = dec16 bs 6, mi_format = dec16 bs 8,
     mi_hotspot_x = dec16 bs 10, mi_hotspot_y = dec16 bs 12, mi_payload_size = dec32 bs 16\<rparr>"

record asset_bitmap =
  as_width :: u16
  as_height :: u16
  as_format :: u16
  as_hotspot_x :: u16
  as_hotspot_y :: u16
  as_payload_size :: u32
  as_pixels :: u32

record assets =
  wallpaper :: asset_bitmap
  pointer :: asset_bitmap
  text_pointer :: asset_bitmap

definition expected_size :: "myimg_header \<Rightarrow> u32" where
  "expected_size h =
     (if mi_format h = MYIMG_RGB565 then ucast (mi_width h) * ucast (mi_height h) * 2
      else if mi_format h = MYIMG_ARGB32 then ucast (mi_width h) * ucast (mi_height h) * 4 else 0)"

text \<open>The result is \<open>None\<close> inside when the load fails and the bitmap stays as it was.\<close>

definition load_myimg :: "'d blockdev \<Rightarrow> string \<Rightarrow> 'd diskfs \<times> heap \<Rightarrow> (asset_bitmap option \<times> 'd diskfs \<times> heap) option" where
  "load_myimg bd path = (\<lambda>(fs, hp).
     case diskfs_find_file (Some (Diskfs.ascii path)) fs of
       None \<Rightarrow> Some (None, fs, hp)
     | Some index \<Rightarrow>
         let (ok, bytes, fs) = diskfs_read_index bd (of_nat index) 0 True sizeof_myimg_header fs; h = myimg_header_of bytes
         in if \<not> ok \<or> length bytes \<noteq> unat sizeof_myimg_header \<or> mi_magic h \<noteq> MYIMG_MAGIC \<or> mi_width h = 0 \<or> mi_height h = 0 \<or> mi_payload_size h = 0
            then Some (None, fs, hp)
            else if expected_size h = 0 \<or> expected_size h \<noteq> mi_payload_size h \<or> diskfs_index_size (of_nat index) fs < sizeof_myimg_header + mi_payload_size h
            then Some (None, fs, hp)
            else do { (pixels, hp) \<leftarrow> kmalloc (mi_payload_size h) hp;
                      if pixels = 0 then Some (None, fs, hp)
                      else let (ok, bytes, fs) = diskfs_read_index bd (of_nat index) sizeof_myimg_header True (mi_payload_size h) fs;
                               hp = hp\<lparr>hmem := store_bytes (unat pixels) bytes (hmem hp)\<rparr>
                           in if \<not> ok \<or> length bytes \<noteq> unat (mi_payload_size h) then do { hp \<leftarrow> kfree pixels hp; Some (None, fs, hp) }
                              else Some (Some \<lparr>as_width = mi_width h, as_height = mi_height h, as_format = mi_format h, as_hotspot_x = mi_hotspot_x h,
                                     as_hotspot_y = mi_hotspot_y h, as_payload_size = mi_payload_size h, as_pixels = pixels\<rparr>, fs, hp) })"

definition assets_initialize :: "'d blockdev \<Rightarrow> assets \<times> 'd diskfs \<times> heap \<Rightarrow> (assets \<times> 'd diskfs \<times> heap) option" where
  "assets_initialize bd = (\<lambda>(a, fs, hp).
     do { (w, fs, hp) \<leftarrow> load_myimg bd ''/assets/wallpaper.myimg'' (fs, hp);
          (p, fs, hp) \<leftarrow> load_myimg bd ''/assets/cursor_pointer.myimg'' (fs, hp);
          (t, fs, hp) \<leftarrow> load_myimg bd ''/assets/cursor_text.myimg'' (fs, hp);
          Some (\<lparr>wallpaper = case w of None \<Rightarrow> wallpaper a | Some b \<Rightarrow> b, pointer = case p of None \<Rightarrow> pointer a | Some b \<Rightarrow> b,
                 text_pointer = case t of None \<Rightarrow> text_pointer a | Some b \<Rightarrow> b\<rparr>, fs, hp) })"

definition rgb565_to_rgb888 :: "u16 \<Rightarrow> u32" where
  "rgb565_to_rgb888 v =
     (let r = ucast (drop_bit 11 v AND 0x1F); g = ucast (drop_bit 5 v AND 0x3F); b = ucast (v AND 0x1F);
          r = push_bit 3 r OR drop_bit 2 r; g = push_bit 2 g OR drop_bit 4 g; b = push_bit 3 b OR drop_bit 2 b
      in push_bit 16 r OR push_bit 8 g OR b)"

definition surface_color_to_rgb888 :: "graphics_surface \<Rightarrow> u32 \<Rightarrow> u32" where
  "surface_color_to_rgb888 s color =
     (if sbpp s = 16 then rgb565_to_rgb888 (ucast color) else if sbpp s = 24 \<or> sbpp s = 32 then color AND 0x00FFFFFF else color)"

definition blend_rgb :: "u32 \<Rightarrow> u32 \<Rightarrow> u32 \<Rightarrow> u32" where
  "blend_rgb dst src alpha =
     (let sr = drop_bit 16 src AND 0xFF; sg = drop_bit 8 src AND 0xFF; sb = src AND 0xFF;
          dr = drop_bit 16 dst AND 0xFF; dg = drop_bit 8 dst AND 0xFF; db = dst AND 0xFF; inv = 255 - alpha
      in push_bit 16 ((sr * alpha + dr * inv) div 255) OR push_bit 8 ((sg * alpha + dg * inv) div 255) OR (sb * alpha + db * inv) div 255)"

text \<open>The point of the wallpaper a point of the surface shows.\<close>

record wallpaper_view =
  vscale :: u32
  vcrop_x :: u32
  vcrop_y :: u32

definition view_of :: "asset_bitmap \<Rightarrow> graphics_surface \<Rightarrow> wallpaper_view" where
  "view_of a s =
     (let scale_x = (swidth s + ucast (as_width a) - 1) div ucast (as_width a); scale_y = (sheight s + ucast (as_height a) - 1) div ucast (as_height a);
          scale = (if scale_x > scale_y then scale_x else scale_y);
          drawn_w = ucast (as_width a) * scale; drawn_h = ucast (as_height a) * scale
      in \<lparr>vscale = scale, vcrop_x = if drawn_w > swidth s then (drawn_w - swidth s) div 2 else 0,
          vcrop_y = if drawn_h > sheight s then (drawn_h - sheight s) div 2 else 0\<rparr>)"

definition source_index :: "asset_bitmap \<Rightarrow> wallpaper_view \<Rightarrow> u32 \<Rightarrow> u32 \<Rightarrow> u32" where
  "source_index a v x y =
     (let sy = (y + vcrop_y v) div vscale v; sy = (if sy \<ge> ucast (as_height a) then ucast (as_height a) - 1 else sy);
          sx = (x + vcrop_x v) div vscale v; sx = (if sx \<ge> ucast (as_width a) then ucast (as_width a) - 1 else sx)
      in sy * ucast (as_width a) + sx)"

definition wallpaper_pixel :: "asset_bitmap \<Rightarrow> graphics_surface \<Rightarrow> u32 \<Rightarrow> u32 \<Rightarrow> mem \<Rightarrow> u32" where
  "wallpaper_pixel a s x y m = rgb565_to_rgb888 (load16 m (unat (as_pixels a + 2 * source_index a (view_of a s) x y)))"

definition assets_draw_wallpaper :: "assets \<Rightarrow> graphics_surface \<Rightarrow> mem \<Rightarrow> bool \<times> mem" where
  "assets_draw_wallpaper as s m =
     (let a = wallpaper as
      in if \<not> surface_valid s \<or> as_pixels a = 0 \<or> as_format a \<noteq> MYIMG_RGB565 then (False, m)
         else (True, fold (\<lambda>y. fold (\<lambda>x m. put_pixel s (of_nat x) (of_nat y) (wallpaper_pixel a s (of_nat x) (of_nat y) m) m) [0..<unat (swidth s)])
                 [0..<unat (sheight s)] m))"

definition active_pointer :: "bool \<Rightarrow> assets \<Rightarrow> asset_bitmap" where
  "active_pointer text_mode as = (if text_mode \<and> as_pixels (text_pointer as) \<noteq> 0 then text_pointer as else pointer as)"

definition cursor_pixel :: "graphics_surface \<Rightarrow> asset_bitmap \<Rightarrow> int \<Rightarrow> int \<Rightarrow> nat \<Rightarrow> nat \<Rightarrow> mem \<Rightarrow> mem" where
  "cursor_pixel s a left upper row col m =
     (let px = left + int col; py = upper + int row
      in if px < 0 \<or> py < 0 \<or> px \<ge> sint (swidth s) \<or> py \<ge> sint (sheight s) then m
         else let argb = load32 m (unat (as_pixels a + 4 * (of_nat row * ucast (as_width a) + of_nat col))); alpha = drop_bit 24 argb
              in if alpha = 0 then m
                 else let color = argb AND 0x00FFFFFF;
                          color = (if alpha < 255 then blend_rgb (surface_color_to_rgb888 s (get_pixel s (word_of_int px) (word_of_int py) m)) color alpha else color)
                      in put_pixel s (word_of_int px) (word_of_int py) color m)"

definition assets_draw_cursor :: "assets \<Rightarrow> graphics_surface \<Rightarrow> int \<Rightarrow> int \<Rightarrow> bool \<Rightarrow> mem \<Rightarrow> bool \<times> mem" where
  "assets_draw_cursor as s x y text_mode m =
     (let a = active_pointer text_mode as
      in if \<not> surface_valid s \<or> as_pixels a = 0 \<or> as_format a \<noteq> MYIMG_ARGB32 then (False, m)
         else let left = x - uint (as_hotspot_x a); upper = y - uint (as_hotspot_y a)
              in (True, fold (\<lambda>row. fold (cursor_pixel s a left upper row) [0..<unat (as_width a)]) [0..<unat (as_height a)] m))"

definition assets_cursor_width :: "bool \<Rightarrow> assets \<Rightarrow> u32" where
  "assets_cursor_width text_mode as = (let a = active_pointer text_mode as in if as_pixels a \<noteq> 0 then ucast (as_width a) else 0)"

definition assets_cursor_height :: "bool \<Rightarrow> assets \<Rightarrow> u32" where
  "assets_cursor_height text_mode as = (let a = active_pointer text_mode as in if as_pixels a \<noteq> 0 then ucast (as_height a) else 0)"

section \<open>Colours\<close>

lemma bit_below: "x AND mask k = x \<Longrightarrow> bit x n \<Longrightarrow> n < k" for x :: u32
  by (metis bit_and_iff bit_mask_iff)

lemma widen_channel:
  fixes r g :: u32
  assumes "r AND mask 5 = r" "g AND mask 6 = g"
  shows "drop_bit 3 (push_bit 3 r OR drop_bit 2 r) = r" "drop_bit 2 (push_bit 2 g OR drop_bit 4 g) = g"
    "(push_bit 3 r OR drop_bit 2 r) AND mask 8 = push_bit 3 r OR drop_bit 2 r" "(push_bit 2 g OR drop_bit 4 g) AND mask 8 = push_bit 2 g OR drop_bit 4 g"
  by (rule bit_word_eqI; auto simp: bit_simps dest: bit_below [OF assms(1)] bit_below [OF assms(2)])+

lemma pack_channels:
  fixes R G B :: u32
  assumes "R AND mask 8 = R" "G AND mask 8 = G" "B AND mask 8 = B"
  shows "drop_bit 16 (push_bit 16 R OR push_bit 8 G OR B) AND mask 8 = R"
    "drop_bit 8 (push_bit 16 R OR push_bit 8 G OR B) AND mask 8 = G" "(push_bit 16 R OR push_bit 8 G OR B) AND mask 8 = B"
  by (rule bit_word_eqI; auto simp: bit_simps dest: bit_below [OF assms(1)] bit_below [OF assms(2)] bit_below [OF assms(3)])+

lemma join_channels:
  "ucast (push_bit 11 (ucast (drop_bit 11 v AND mask 5) :: u32) OR push_bit 5 (ucast (drop_bit 5 v AND mask 6)) OR ucast (v AND mask 5)) = v" for v :: u16
proof (rule bit_word_eqI)
  fix n assume "n < LENGTH(16)"
  then consider "n < 5" | "5 \<le> n" "n < 11" | "11 \<le> n" "n < 16" by fastforce
  then show "bit (ucast (push_bit 11 (ucast (drop_bit 11 v AND mask 5) :: u32) OR push_bit 5 (ucast (drop_bit 5 v AND mask 6)) OR ucast (v AND mask 5)) :: u16) n = bit v n"
    by cases (auto simp: bit_simps)
qed

lemma ucast_mask: "ucast (w AND mask k :: u16) AND mask k = (ucast (w AND mask k) :: u32)"
  by (rule bit_word_eqI) (auto simp: bit_simps)

lemma channel_masks: "(0x1F :: u16) = mask 5" "(0x3F :: u16) = mask 6" "(0xFF :: u32) = mask 8"
  by (simp_all add: mask_eq_exp_minus_1)

text \<open>The three channels of a widened colour give back the channels of the original.\<close>

lemma rgb888_channels:
  assumes "c = rgb565_to_rgb888 v"
  shows "v = ucast (push_bit 11 (drop_bit 3 (drop_bit 16 c AND 0xFF)) OR push_bit 5 (drop_bit 2 (drop_bit 8 c AND 0xFF)) OR drop_bit 3 (c AND 0xFF))"
proof -
  define r g b :: u32 where "r = ucast (drop_bit 11 v AND mask 5)" and "g = ucast (drop_bit 5 v AND mask 6)" and "b = ucast (v AND mask 5)"
  define R G B where "R = push_bit 3 r OR drop_bit 2 r" and "G = push_bit 2 g OR drop_bit 4 g" and "B = push_bit 3 b OR drop_bit 2 b"
  have rgb: "r AND mask 5 = r" "g AND mask 6 = g" "b AND mask 5 = b" unfolding r_def g_def b_def by (rule ucast_mask)+
  have P: "R AND mask 8 = R" "G AND mask 8 = G" "B AND mask 8 = B" and D: "drop_bit 3 R = r" "drop_bit 2 G = g" "drop_bit 3 B = b"
    unfolding R_def G_def B_def using widen_channel rgb by blast+
  have "c = push_bit 16 R OR push_bit 8 G OR B"
    unfolding assms rgb565_to_rgb888_def Let_def channel_masks R_def G_def B_def r_def g_def b_def ..
  then have "drop_bit 16 c AND mask 8 = R" "drop_bit 8 c AND mask 8 = G" "c AND mask 8 = B" using pack_channels [OF P] by simp_all
  then show ?thesis unfolding channel_masks by (simp add: D r_def g_def b_def join_channels)
qed

lemma rgb888_small:
  assumes "rgb565_to_rgb888 v < 16" shows "v < 2"
proof -
  define c b where "c = rgb565_to_rgb888 v" and "b = drop_bit 3 (c AND 0xFF)"
  have c: "unat c < 16" using assms by (simp add: c_def word_less_nat_alt)
  have "unat (drop_bit 16 c) = 0" "unat (drop_bit 8 c) = 0" using c by (simp_all add: drop_bit_eq_div unat_div)
  then have "drop_bit 16 c = 0" "drop_bit 8 c = 0" using unat_eq_zero by blast+
  then have "v = ucast b" using rgb888_channels [OF c_def] by (simp add: b_def)
  moreover have "unat b = unat c mod 256 div 8"
    unfolding b_def channel_masks by (simp add: drop_bit_eq_div unat_div unat_mod take_bit_eq_mod flip: take_bit_eq_mask)
  then have "unat b < 2" using c by simp
  ultimately show ?thesis by (simp add: word_less_nat_alt unsigned_ucast_eq take_bit_nat_eq_self)
qed

text \<open>So a 16-bit surface shows a 16-bit image in its own colours, but for one: the darkest blue widens to the number of a palette
  colour, and is drawn as grey.\<close>

lemma rgb565_roundtrip: "v \<noteq> 1 \<Longrightarrow> color_to_rgb565 (rgb565_to_rgb888 v) = v"
proof -
  define c where "c = rgb565_to_rgb888 v"
  assume v: "v \<noteq> 1"
  have "palette_color c = c"
  proof (cases "c < 16")
    case True
    then have "v < 2" using rgb888_small [of v] by (simp add: c_def)
    then have "v = 0" using v by (auto simp: word_less_nat_alt word_unat_eq_iff)
    then show ?thesis by (simp add: c_def rgb565_to_rgb888_def palette_color_def palette_def)
  qed (simp add: palette_color_def)
  then have "color_to_rgb565 c = v" using rgb888_channels [OF c_def] by (simp add: color_to_rgb565_def Let_def)
  then show ?thesis by (simp add: c_def)
qed

text \<open>The size an image of 46341 by 46341 pixels must have, in 32 bits.\<close>

lemma expected_size_wraps: "mi_width h = 46341 \<Longrightarrow> mi_height h = 46341 \<Longrightarrow> mi_format h = MYIMG_RGB565 \<Longrightarrow> expected_size h = 9266"
  by (simp add: expected_size_def)

lemma dark_blue_grey: "color_to_rgb565 (rgb565_to_rgb888 1) = color_to_rgb565 0x555555"
  by (simp add: rgb565_to_rgb888_def color_to_rgb565_def palette_color_def palette_def)

lemma channel_byte: "x AND mask 8 = x \<longleftrightarrow> unat x < 256" for x :: u32
proof -
  have "x AND mask 8 = x \<longleftrightarrow> take_bit 8 (unat x) = unat x"
    by (simp add: word_unat_eq_iff unsigned_take_bit_eq flip: take_bit_eq_mask)
  then show ?thesis by (simp add: take_bit_nat_eq_self_iff)
qed

text \<open>A channel of a colour, and the mixture of two channels.\<close>

definition channel :: "nat \<Rightarrow> u32 \<Rightarrow> nat" where
  "channel k c = unat (drop_bit k c AND 0xFF)"

definition mix :: "nat \<Rightarrow> nat \<Rightarrow> nat \<Rightarrow> nat" where
  "mix d s a = (s * a + d * (255 - a)) div 255"

lemma channel_less: "channel k c < 256"
proof -
  have "(drop_bit k c AND mask 8) AND mask 8 = drop_bit k c AND mask 8" by (simp add: and.assoc)
  then show ?thesis unfolding channel_def channel_masks channel_byte .
qed

lemma mix_bounds:
  assumes "d < 256" "s < 256" "a \<le> 255" shows "min d s \<le> mix d s a" "mix d s a \<le> max d s"
proof -
  have "min d s * 255 = min d s * a + min d s * (255 - a)" "max d s * 255 = max d s * a + max d s * (255 - a)"
    using assms(3) by (simp_all flip: add_mult_distrib2)
  moreover have "min d s * a + min d s * (255 - a) \<le> s * a + d * (255 - a)" "s * a + d * (255 - a) \<le> max d s * a + max d s * (255 - a)"
    by (intro add_mono mult_right_mono; simp)+
  ultimately have "min d s * 255 \<le> s * a + d * (255 - a)" "s * a + d * (255 - a) \<le> max d s * 255" by linarith+
  from div_le_mono [OF this(1), of 255] div_le_mono [OF this(2), of 255]
  show "min d s \<le> mix d s a" "mix d s a \<le> max d s" by (simp_all add: mix_def)
qed

lemma mix_word:
  fixes s d a :: u32
  assumes "unat s < 256" "unat d < 256" "unat a \<le> 255"
  shows "unat ((s * a + d * (255 - a)) div 255) = mix (unat d) (unat s) (unat a)"
proof -
  have i: "unat (255 - a) = 255 - unat a" using assms(3) by (subst unat_sub) (simp_all add: word_le_nat_alt)
  have b: "unat s * unat a \<le> 255 * 255" "unat d * (255 - unat a) \<le> 255 * 255" using assms by (intro mult_le_mono; simp)+
  then have "unat (s * a) = unat s * unat a" "unat (d * (255 - a)) = unat d * (255 - unat a)" by (simp_all add: unat_word_ariths(2) i)
  then show ?thesis using b by (simp add: unat_div unat_word_ariths(1) mix_def)
qed

text \<open>Blending a half-transparent pixel mixes every channel on its own, in proportion to the opacity, and never leaves the range
  between the two colours.\<close>

lemma blend_channels:
  assumes "unat alpha \<le> 255" "k = 0 \<or> k = 8 \<or> k = 16"
  shows "channel k (blend_rgb dst src alpha) = mix (channel k dst) (channel k src) (unat alpha)"
proof -
  define Q where "Q = (\<lambda>k. ((drop_bit k src AND 0xFF) * alpha + (drop_bit k dst AND 0xFF) * (255 - alpha)) div 255)"
  have q: "unat (Q k) = mix (channel k dst) (channel k src) (unat alpha)" for k
    using mix_word [OF channel_less [of k src, unfolded channel_def] channel_less [of k dst, unfolded channel_def] assms(1)] by (simp add: Q_def channel_def)
  have m: "Q k AND mask 8 = Q k" for k
    unfolding channel_byte q using mix_bounds(2) [OF channel_less channel_less assms(1), of k dst k src] channel_less [of k dst] channel_less [of k src] by linarith
  have "blend_rgb dst src alpha = push_bit 16 (Q 16) OR push_bit 8 (Q 8) OR Q 0" by (simp add: blend_rgb_def Q_def Let_def)
  then have "drop_bit k (blend_rgb dst src alpha) AND mask 8 = Q k" using assms(2) pack_channels [OF m m m, of 16 8 0] by auto
  then show ?thesis using q [of k] by (simp only: channel_def channel_masks)
qed

section \<open>The wallpaper\<close>

definition same_outside :: "graphics_surface \<Rightarrow> mem \<Rightarrow> mem \<Rightarrow> bool" where
  "same_outside s m m' \<longleftrightarrow> (\<forall>i. i \<notin> footprint s \<longrightarrow> m' i = m i)"

lemma painted_outside: "painted s f m m' \<Longrightarrow> same_outside s m0 m \<Longrightarrow> same_outside s m0 m'"
  by (auto simp: painted_def same_outside_def)

text \<open>Painting in steps whose colours are read from memory outside the surface.\<close>

lemma painted_fold_reading:
  assumes "\<And>i m. i \<in> set xs \<Longrightarrow> same_outside s orig m \<Longrightarrow> painted s (shade (A i) f) m (op i m)" "same_outside s orig m"
  shows "painted s (shade (\<lambda>x y. \<exists>i\<in>set xs. A i x y) f) m (fold op xs m)"
  using assms
proof (induction xs arbitrary: m)
  case Nil
  then show ?case using painted_refl by (simp add: shade_def)
next
  case (Cons i xs)
  have p: "painted s (shade (A i) f) m (op i m)" using Cons.prems by simp
  moreover have "painted s (shade (\<lambda>x y. \<exists>i\<in>set xs. A i x y) f) (op i m) (fold op xs (op i m))"
    using Cons painted_outside [OF p Cons.prems(2)] by simp
  ultimately show ?case using painted_shade_trans by fastforce
qed

text \<open>The least whole factor that makes an image cover a surface, and the point of the image under a point of the surface when it is
  enlarged by it and centred.\<close>

definition cover_factor :: "nat \<Rightarrow> nat \<Rightarrow> nat \<Rightarrow> nat \<Rightarrow> nat" where
  "cover_factor sw sh w h = max ((sw + w - 1) div w) ((sh + h - 1) div h)"

definition under :: "nat \<Rightarrow> nat \<Rightarrow> nat \<Rightarrow> nat \<Rightarrow> nat" where
  "under sw w k x = (x + (w * k - sw) div 2) div k"

lemma ceiling_covers: "0 < w \<Longrightarrow> sw \<le> w * ((sw + w - 1) div w)" for w :: nat
proof -
  assume w: "0 < w"
  have "sw + w - 1 < w * ((sw + w - 1) div w) + w" using w by (metis add.commute dividend_less_div_times mult.commute)
  then show ?thesis by linarith
qed

lemma ceiling_le: "0 < w \<Longrightarrow> 0 < sw \<Longrightarrow> (sw + w - 1) div w \<le> sw" for w :: nat
proof -
  assume w: "0 < w" "0 < sw"
  have "sw + w - 1 \<le> sw * w" using w by (cases w; cases sw) auto
  from div_le_mono [OF this, of w] w show ?thesis by simp
qed

lemma under_less: "sw \<le> w * k \<Longrightarrow> x < sw \<Longrightarrow> under sw w k x < w"
proof -
  assume a: "sw \<le> w * k" "x < sw"
  then have "x + (w * k - sw) div 2 < w * k" by linarith
  then show ?thesis by (simp add: under_def less_mult_imp_div_less)
qed

text \<open>Sizes of 16 bits, as surfaces and images have: the code's arithmetic on them does not wrap.\<close>

definition small_surface :: "graphics_surface \<Rightarrow> bool" where
  "small_surface s \<longleftrightarrow> surface_ok s \<and> swidth s < 0x10000 \<and> sheight s < 0x10000"

lemma unat_u16 [simp]: "unat w < 65536" "unat (ucast w :: u32) = unat w" for w :: u16
proof -
  have "unat w < 2 ^ LENGTH(16)" by (rule unsigned_less)
  then show *: "unat w < 65536" by simp
  then show "unat (ucast w :: u32) = unat w" by (simp add: unsigned_ucast_eq take_bit_nat_eq_self)
qed

lemma ceiling_word:
  fixes sw :: u32 and w :: u16
  assumes "unat sw < 65536" "0 < unat w"
  shows "unat ((sw + ucast w - 1) div ucast w) = (unat sw + unat w - 1) div unat w"
proof -
  have s: "unat (sw + ucast w) = unat sw + unat w" using assms(1) unat_u16(1) [of w] by (simp add: unat_word_ariths(1) del: unat_u16(1))
  have "unat (sw + ucast w - 1) = unat sw + unat w - 1" using s assms by (subst unat_sub) (simp_all add: word_le_nat_alt)
  then show ?thesis by (simp add: unat_div)
qed

lemma view_exact:
  assumes "small_surface s" "as_width a \<noteq> 0" "as_height a \<noteq> 0"
  defines "sw \<equiv> unat (swidth s)" and "sh \<equiv> unat (sheight s)" and "w \<equiv> unat (as_width a)" and "h \<equiv> unat (as_height a)"
  defines "k \<equiv> cover_factor sw sh w h"
  shows "unat (vscale (view_of a s)) = k" "unat (vcrop_x (view_of a s)) = (w * k - sw) div 2" "unat (vcrop_y (view_of a s)) = (h * k - sh) div 2"
    "sw \<le> w * k" "sh \<le> h * k" "0 < k" "w * k < 2 ^ 32" "h * k < 2 ^ 32"
proof -
  have b: "0 < w" "0 < h" "w < 65536" "h < 65536" "sw < 65536" "sh < 65536" "0 < sw" "0 < sh"
    using assms surface_okD(1) [of s]
    by (simp_all add: small_surface_def w_def h_def sw_def sh_def word_less_nat_alt surface_valid_def unat_gt_0)
  have u: "unat (ucast (as_width a) :: u32) = w" "unat (ucast (as_height a) :: u32) = h"
    by (simp_all add: w_def h_def)
  have kb: "k \<le> 65535" "(sw + w - 1) div w \<le> k" "(sh + h - 1) div h \<le> k"
    using ceiling_le [of w sw] ceiling_le [of h sh] b by (simp_all add: k_def cover_factor_def)
  show cov: "sw \<le> w * k" "sh \<le> h * k"
    using ceiling_covers [of w sw] ceiling_covers [of h sh] b mult_le_mono2 [OF kb(2), of w] mult_le_mono2 [OF kb(3), of h] by linarith+
  show k0: "0 < k" using cov b by (cases k) auto
  have "w * k \<le> 65535 * 65535" "h * k \<le> 65535 * 65535" using b kb by (intro mult_le_mono; simp)+
  then show kk: "w * k < 2 ^ 32" "h * k < 2 ^ 32" by simp_all
  have sx: "unat ((swidth s + ucast (as_width a) - 1) div ucast (as_width a)) = (sw + w - 1) div w"
    "unat ((sheight s + ucast (as_height a) - 1) div ucast (as_height a)) = (sh + h - 1) div h"
    using ceiling_word [of "swidth s" "as_width a"] ceiling_word [of "sheight s" "as_height a"] b by (simp_all add: sw_def sh_def w_def h_def)
  show vs: "unat (vscale (view_of a s)) = k" using sx by (simp add: view_of_def Let_def k_def cover_factor_def word_less_nat_alt max_def)
  have d: "unat (ucast (as_width a) * vscale (view_of a s)) = w * k" "unat (ucast (as_height a) * vscale (view_of a s)) = h * k"
    using kk by (simp_all add: unat_word_ariths(2) vs flip: w_def h_def)
  have c: "vcrop_x (view_of a s) = (if ucast (as_width a) * vscale (view_of a s) > swidth s then (ucast (as_width a) * vscale (view_of a s) - swidth s) div 2 else 0)"
    "vcrop_y (view_of a s) = (if ucast (as_height a) * vscale (view_of a s) > sheight s then (ucast (as_height a) * vscale (view_of a s) - sheight s) div 2 else 0)"
    by (simp_all add: view_of_def Let_def)
  show "unat (vcrop_x (view_of a s)) = (w * k - sw) div 2" "unat (vcrop_y (view_of a s)) = (h * k - sh) div 2"
    unfolding c using d by (auto simp: word_less_nat_alt unat_div unat_sub word_le_nat_alt sw_def sh_def not_less)
qed

lemma source_exact:
  assumes "small_surface s" "as_width a \<noteq> 0" "as_height a \<noteq> 0" "on_surface s x y"
  defines "w \<equiv> unat (as_width a)" and "h \<equiv> unat (as_height a)"
  defines "k \<equiv> cover_factor (unat (swidth s)) (unat (sheight s)) w h"
  shows "unat (source_index a (view_of a s) (of_nat x) (of_nat y)) = under (unat (sheight s)) h k y * w + under (unat (swidth s)) w k x"
    "under (unat (sheight s)) h k y * w + under (unat (swidth s)) w k x < w * h" "w * h < 2 ^ 32"
proof -
  note v = view_exact [OF assms(1-3), folded w_def h_def, folded k_def]
  have xy: "x < unat (swidth s)" "y < unat (sheight s)" "unat (swidth s) < 65536" "unat (sheight s) < 65536"
    using assms(1,4) by (simp_all add: on_surface_def small_surface_def word_less_nat_alt)
  have u: "unat (ucast (as_width a) :: u32) = w" "unat (ucast (as_height a) :: u32) = h" "w < 65536" "h < 65536"
    by (simp_all add: w_def h_def)
  have "w * h \<le> 65535 * 65535" using u by (intro mult_le_mono) simp_all
  then show wh: "w * h < 2 ^ 32" by simp
  have l: "under (unat (swidth s)) w k x < w" "under (unat (sheight s)) h k y < h" using under_less v(4,5) xy by blast+
  have "under (unat (sheight s)) h k y * w + under (unat (swidth s)) w k x < Suc (under (unat (sheight s)) h k y) * w" using l(1) by simp
  also have "\<dots> \<le> h * w" using l(2) by (intro mult_le_mono1) simp
  finally show lt: "under (unat (sheight s)) h k y * w + under (unat (swidth s)) w k x < w * h" by (simp add: mult.commute)
  have o: "unat (of_nat x :: u32) = x" "unat (of_nat y :: u32) = y" using xy by (simp_all add: unsigned_of_nat take_bit_nat_eq_self)
  have "p + (q - r) div 2 < 4294967296" if "p < 65536" "q < 2 ^ 32" for p q r :: nat using that by simp
  then have "x + (w * k - unat (swidth s)) div 2 < 4294967296" "y + (h * k - unat (sheight s)) div 2 < 4294967296" using v(7,8) xy by simp_all
  then have "unat ((of_nat x + vcrop_x (view_of a s)) div vscale (view_of a s)) = under (unat (swidth s)) w k x"
    "unat ((of_nat y + vcrop_y (view_of a s)) div vscale (view_of a s)) = under (unat (sheight s)) h k y"
    by (simp_all add: unat_div unat_word_ariths(1) o v(1-3) under_def)
  moreover define sx sy where "sx = (of_nat x + vcrop_x (view_of a s)) div vscale (view_of a s)" and "sy = (of_nat y + vcrop_y (view_of a s)) div vscale (view_of a s)"
  ultimately have e: "unat sx = under (unat (swidth s)) w k x" "unat sy = under (unat (sheight s)) h k y" by simp_all
  have "source_index a (view_of a s) (of_nat x) (of_nat y) = sy * ucast (as_width a) + sx"
    unfolding source_index_def Let_def sx_def [symmetric] sy_def [symmetric] using l e u by (simp add: word_le_nat_alt)
  then show "unat (source_index a (view_of a s) (of_nat x) (of_nat y)) = under (unat (sheight s)) h k y * w + under (unat (swidth s)) w k x"
    using lt wh by (simp add: unat_word_ariths(1,2) e flip: w_def)
qed

text \<open>The image in memory: a buffer of its pixels inside the address space, apart from the surface.\<close>

definition image_apart :: "asset_bitmap \<Rightarrow> graphics_surface \<Rightarrow> bool" where
  "image_apart a s \<longleftrightarrow> as_width a \<noteq> 0 \<and> as_height a \<noteq> 0 \<and> as_pixels a \<noteq> 0
     \<and> (let n = 2 * (unat (as_width a) * unat (as_height a)) in unat (as_pixels a) + n \<le> 2 ^ 32 \<and> (\<forall>i < n. unat (as_pixels a) + i \<notin> footprint s))"

definition image_color :: "asset_bitmap \<Rightarrow> nat \<Rightarrow> nat \<Rightarrow> mem \<Rightarrow> u32" where
  "image_color a x y m = rgb565_to_rgb888 (load16 m (unat (as_pixels a) + 2 * (y * unat (as_width a) + x)))"

definition wallpaper_color :: "asset_bitmap \<Rightarrow> graphics_surface \<Rightarrow> mem \<Rightarrow> nat \<Rightarrow> nat \<Rightarrow> u32" where
  "wallpaper_color a s m x y =
     (let k = cover_factor (unat (swidth s)) (unat (sheight s)) (unat (as_width a)) (unat (as_height a))
      in image_color a (under (unat (swidth s)) (unat (as_width a)) k x) (under (unat (sheight s)) (unat (as_height a)) k y) m)"

lemma wallpaper_pixel_color:
  assumes "small_surface s" "image_apart a s" "same_outside s m0 m" "on_surface s x y"
  shows "wallpaper_pixel a s (of_nat x) (of_nat y) m = wallpaper_color a s m0 x y"
proof -
  have nz: "as_width a \<noteq> 0" "as_height a \<noteq> 0" using assms(2) by (simp_all add: image_apart_def)
  define w h where "w = unat (as_width a)" and "h = unat (as_height a)"
  define k where "k = cover_factor (unat (swidth s)) (unat (sheight s)) w h"
  define i where "i = under (unat (sheight s)) h k y * w + under (unat (swidth s)) w k x"
  note e = source_exact [OF assms(1) nz assms(4), folded w_def h_def, folded k_def, folded i_def]
  have p: "unat (as_pixels a) + 2 * (w * h) \<le> 2 ^ 32" "\<And>j. j < 2 * (w * h) \<Longrightarrow> unat (as_pixels a) + j \<notin> footprint s"
    using assms(2) by (simp_all add: image_apart_def w_def h_def Let_def)
  have "unat (2 * source_index a (view_of a s) (of_nat x) (of_nat y)) = 2 * i" using e p(1) by (simp add: unat_word_ariths(2))
  then have a: "unat (as_pixels a + 2 * source_index a (view_of a s) (of_nat x) (of_nat y)) = unat (as_pixels a) + 2 * i"
    using e(2) p(1) by (simp add: unat_word_ariths(1))
  have "m (unat (as_pixels a) + 2 * i) = m0 (unat (as_pixels a) + 2 * i)" "m (unat (as_pixels a) + 2 * i + 1) = m0 (unat (as_pixels a) + 2 * i + 1)"
    using p(2) [of "2 * i"] p(2) [of "2 * i + 1"] e(2) assms(3) by (simp_all add: same_outside_def)
  then have "load16 m (unat (as_pixels a) + 2 * i) = load16 m0 (unat (as_pixels a) + 2 * i)" by (simp add: load16_def)
  then show ?thesis by (simp only: wallpaper_pixel_def a) (simp add: wallpaper_color_def image_color_def i_def k_def w_def h_def Let_def)
qed

lemma painted_wallpaper:
  assumes "small_surface s" "image_apart (wallpaper as) s" "as_format (wallpaper as) = MYIMG_RGB565"
  shows "fst (assets_draw_wallpaper as s m)" "painted s (shade (\<lambda>x y. True) (wallpaper_color (wallpaper as) s m)) m (snd (assets_draw_wallpaper as s m))"
proof -
  define a where "a = wallpaper as"
  have ok: "surface_ok s" "surface_valid s" "as_pixels a \<noteq> 0" "as_format a = MYIMG_RGB565"
    using assms surface_okD(1) by (auto simp: small_surface_def image_apart_def a_def)
  have sz: "unat (swidth s) < 65536" "unat (sheight s) < 65536" using assms(1) by (simp_all add: small_surface_def word_less_nat_alt)
  let ?put = "\<lambda>y x m. put_pixel s (of_nat x) (of_nat y) (wallpaper_pixel a s (of_nat x) (of_nat y) m) m"
  have px: "painted s (shade (\<lambda>x' y'. x' = x \<and> y' = y) (wallpaper_color a s m)) m1 (?put y x m1)"
    if "x < unat (swidth s)" "y < unat (sheight s)" "same_outside s m m1" for x y m1
  proof -
    have o: "unat (of_nat x :: u32) = x" "unat (of_nat y :: u32) = y" using that sz by (simp_all add: unsigned_of_nat take_bit_nat_eq_self)
    have "wallpaper_pixel a s (of_nat x) (of_nat y) m1 = wallpaper_color a s m x y"
      using wallpaper_pixel_color [of s a m m1 x y] assms that by (simp add: a_def on_surface_def)
    then show ?thesis by (intro painted_put_pixel [OF ok(1)]) (simp_all add: o)
  qed
  have row: "painted s (shade (\<lambda>x' y'. \<exists>x\<in>set [0..<unat (swidth s)]. x' = x \<and> y' = y) (wallpaper_color a s m)) m1 (fold (?put y) [0..<unat (swidth s)] m1)"
    if "y < unat (sheight s)" "same_outside s m m1" for y m1
    by (rule painted_fold_reading [where orig = m and A = "\<lambda>x x' y'. x' = x \<and> y' = y"]) (use px that in auto)
  have "painted s (shade (\<lambda>x' y'. \<exists>y\<in>set [0..<unat (sheight s)]. \<exists>x\<in>set [0..<unat (swidth s)]. x' = x \<and> y' = y) (wallpaper_color a s m)) m
      (fold (\<lambda>y. fold (?put y) [0..<unat (swidth s)]) [0..<unat (sheight s)] m)"
    by (rule painted_fold_reading [where orig = m and A = "\<lambda>y x' y'. \<exists>x\<in>set [0..<unat (swidth s)]. x' = x \<and> y' = y"])
       (use row in \<open>auto simp: same_outside_def\<close>)
  then show "painted s (shade (\<lambda>x y. True) (wallpaper_color (wallpaper as) s m)) m (snd (assets_draw_wallpaper as s m))"
    unfolding assets_draw_wallpaper_def Let_def a_def [symmetric] using ok by (auto simp: shade_def on_surface_def elim!: painted_cong)
  show "fst (assets_draw_wallpaper as s m)" using ok by (simp add: assets_draw_wallpaper_def Let_def a_def)
qed

text \<open>What a pixel of an RGB565 image looks like: its 5, 6 and 5 bits widened to bytes by repeating their leading bits,
  in the channel widths of the surface. The image's value 1, the darkest blue, is the exception: it widens to the
  number 8, which is drawn as the standard dark grey.\<close>

definition widen565 :: "u16 \<Rightarrow> nat" where
  "widen565 v = (let n = unat v; r = n div 2048; g = n div 32 mod 64; b = n mod 32
     in (8 * r + r div 4) * 65536 + (4 * g + g div 16) * 256 + 8 * b + b div 4)"

definition shown565 :: "graphics_surface \<Rightarrow> u16 \<Rightarrow> u32" where
  "shown565 s v = (if v = 1 then pixel_value s 8 else rgb_value s (widen565 v))"

definition image_value :: "asset_bitmap \<Rightarrow> nat \<Rightarrow> nat \<Rightarrow> mem \<Rightarrow> u16" where
  "image_value a x y m = load16 m (unat (as_pixels a) + 2 * (y * unat (as_width a) + x))"

definition wallpaper_value :: "asset_bitmap \<Rightarrow> graphics_surface \<Rightarrow> mem \<Rightarrow> nat \<Rightarrow> nat \<Rightarrow> u16" where
  "wallpaper_value a s m x y =
     (let k = cover_factor (unat (swidth s)) (unat (sheight s)) (unat (as_width a)) (unat (as_height a))
      in image_value a (under (unat (swidth s)) (unat (as_width a)) k x) (under (unat (sheight s)) (unat (as_height a)) k y) m)"

lemma field_of: "unat (drop_bit k (v :: u16) AND mask n) = unat v div 2 ^ k mod 2 ^ n"
  by (simp only: take_bit_eq_mask [symmetric] unsigned_take_bit_eq unsigned_drop_bit_eq) (simp add: take_bit_eq_mod drop_bit_eq_div)

lemma widen_sum:
  fixes c :: u32
  assumes "unat c < 2 ^ (8 - k)" "k \<le> 3" "2 \<le> j" "(8 - k) - j \<le> k"
  shows "unat (push_bit k c OR drop_bit j c) = unat c * 2 ^ k + unat c div 2 ^ j"
proof -
  have d: "unat (drop_bit j c) = unat c div 2 ^ j"
    using unsigned_less [of c, where ?'a = nat] by (simp only: unsigned_drop_bit_eq) (simp add: drop_bit_eq_div take_bit_nat_eq_self)
  have "unat c div 2 ^ j < 2 ^ k"
  proof -
    have "8 - k \<le> k + j" using assms(4) by linarith
    then have "(2 :: nat) ^ (8 - k) \<le> 2 ^ (k + j)" by (intro power_increasing) simp_all
    then have "unat c < 2 ^ (k + j)" using assms(1) by linarith
    then show ?thesis by (simp add: less_mult_imp_div_less power_add mult.commute)
  qed
  then have o: "push_bit k c OR drop_bit j c = push_bit k c + drop_bit j c" using or_push_bit [of "drop_bit j c" k c] d by simp
  have "unat c * 2 ^ k < 256"
  proof -
    have "unat c * 2 ^ k < 2 ^ (8 - k) * 2 ^ k" using assms(1) by simp
    also have "\<dots> = 2 ^ 8" using assms(2) by (simp flip: power_add)
    finally show ?thesis by simp
  qed
  moreover have "unat c div 2 ^ j < 256" using \<open>unat c div 2 ^ j < 2 ^ k\<close> power_increasing [of k 8 "2 :: nat"] assms(2) by simp
  moreover have "unat (push_bit k c) = unat c * 2 ^ k"
    using \<open>unat c * 2 ^ k < 256\<close> by (simp only: unsigned_push_bit_eq) (simp add: push_bit_eq_mult take_bit_nat_eq_self)
  ultimately show ?thesis unfolding o using d by (simp add: unat_word_ariths)
qed

lemma unat_rgb888: "unat (rgb565_to_rgb888 v) = widen565 v"
proof -
  define r g b :: u32 where "r = ucast (drop_bit 11 v AND mask 5)" and "g = ucast (drop_bit 5 v AND mask 6)" and "b = ucast (v AND mask 5)"
  define R G B where "R = push_bit 3 r OR drop_bit 2 r" and "G = push_bit 2 g OR drop_bit 4 g" and "B = push_bit 3 b OR drop_bit 2 b"
  have v: "unat v < 65536" using unsigned_less [of v, where ?'a = nat] by simp
  have f: "unat (drop_bit 11 v AND mask 5) = unat v div 2048" "unat (drop_bit 5 v AND mask 6) = unat v div 32 mod 64" "unat (v AND mask 5) = unat v mod 32"
    using field_of [of 11 v 5] field_of [of 5 v 6] field_of [of 0 v 5] v by (simp_all add: less_mult_imp_div_less)
  have small: "n \<le> 65535 \<Longrightarrow> take_bit LENGTH(32) n = n" for n :: nat by (rule take_bit_nat_eq_self) simp
  have c: "unat r = unat v div 2048" "unat g = unat v div 32 mod 64" "unat b = unat v mod 32"
    unfolding r_def g_def b_def unsigned_ucast_eq f using v by - (rule small, linarith)+
  have lt: "unat r < 32" "unat g < 64" "unat b < 32" using c v by (simp_all add: less_mult_imp_div_less)
  have w: "unat R = 8 * unat r + unat r div 4" "unat G = 4 * unat g + unat g div 16" "unat B = 8 * unat b + unat b div 4"
    using widen_sum [of r 3 2] widen_sum [of g 2 4] widen_sum [of b 3 2] lt by (simp_all add: R_def G_def B_def mult.commute)
  have byte: "unat R < 256" "unat G < 256" "unat B < 256" using w lt by linarith+
  have p: "unat (push_bit 16 R) = unat R * 65536" "unat (push_bit 8 G) = unat G * 256" using byte by (simp_all add: push_bit_eq_mult unat_word_ariths)
  have s: "unat (push_bit 8 G + B) = unat G * 256 + unat B" using byte p by (simp add: unat_word_ariths)
  have "push_bit 16 R OR push_bit 8 G OR B = push_bit 16 R + (push_bit 8 G + B)"
    using or_push_bit [of B 8 G] or_push_bit [of "push_bit 8 G + B" 16 R] byte s by simp
  moreover have "rgb565_to_rgb888 v = push_bit 16 R OR push_bit 8 G OR B"
    unfolding rgb565_to_rgb888_def Let_def channel_masks R_def G_def B_def r_def g_def b_def ..
  ultimately have "unat (rgb565_to_rgb888 v) = unat R * 65536 + (unat G * 256 + unat B)" using byte p s by (simp add: unat_word_ariths)
  then show ?thesis by (simp add: w c widen565_def Let_def)
qed

lemma pixel_value_shown: "pixel_value s (rgb565_to_rgb888 v) = shown565 s v"
proof -
  consider "v = 1" | "v = 0" | "v \<noteq> 0" "v \<noteq> 1" by blast
  then show ?thesis
  proof cases
    case 3
    then have "\<not> v < 2" by (auto simp: word_less_nat_alt word_unat_eq_iff)
    then have "\<not> unat (rgb565_to_rgb888 v) < 16" using rgb888_small [of v] by (auto simp: word_less_nat_alt)
    then show ?thesis using 3 by (simp add: pixel_value_def shown565_def unat_rgb888)
  qed (simp_all add: shown565_def rgb565_to_rgb888_def widen565_def pixel_value_def standard_color_def)
qed

lemma wallpaper_color_value: "wallpaper_color a s m x y = rgb565_to_rgb888 (wallpaper_value a s m x y)"
  by (simp add: wallpaper_color_def wallpaper_value_def image_color_def image_value_def Let_def)

text \<open>C17. The wallpaper covers the whole surface. For an RGB565 image in memory apart from the surface, and a surface less than 65536
  pixels wide and high, the wallpaper is drawn and every pixel shows, in the surface's depth, the pixel of the image under
  it when the image is enlarged by the least whole factor that covers the surface and centred: its channels
  widened to bytes, except that the image value 1 shows as dark grey (palette entry 8 on 8-bit surfaces). No other byte changes.\<close>

theorem wallpaper_exact:
  assumes "small_surface s" "image_apart (wallpaper as) s" "as_format (wallpaper as) = MYIMG_RGB565" "assets_draw_wallpaper as s m = (drawn, m')"
  shows "drawn \<and> (\<forall>px py. on_surface s (unat px) (unat py) \<longrightarrow>
      graphics_get_pixel (Some s) px py m' = shown565 s (wallpaper_value (wallpaper as) s m (unat px) (unat py))) \<and> (\<forall>i. i \<notin> footprint s \<longrightarrow> m' i = m i)"
proof -
  have p: "drawn" "painted s (shade (\<lambda>x y. True) (wallpaper_color (wallpaper as) s m)) m m'" using painted_wallpaper [OF assms(1-3), of m] assms(4) by simp_all
  moreover have "surface_ok s" using assms(1) by (simp add: small_surface_def)
  ultimately show ?thesis using painted_get_pixel [OF _ p(2)]
    by (auto simp: shade_def painted_def wallpaper_color_value pixel_value_shown)
qed

definition two_pixels :: assets where
  "two_pixels = (let none = \<lparr>as_width = 0, as_height = 0, as_format = 0, as_hotspot_x = 0, as_hotspot_y = 0, as_payload_size = 0, as_pixels = 0\<rparr>
     in \<lparr>wallpaper = \<lparr>as_width = 2, as_height = 1, as_format = 1, as_hotspot_x = 0, as_hotspot_y = 0, as_payload_size = 4, as_pixels = 0x100000\<rparr>,
         pointer = none, text_pointer = none\<rparr>)"

theorem wallpaper_exact_witness:
  "fst (assets_draw_wallpaper two_pixels (test_surface 0x200000) ((\<lambda>_. 0)(0x100002 := 0x1F)))
   \<and> graphics_get_pixel (Some (test_surface 0x200000)) 63 47 (snd (assets_draw_wallpaper two_pixels (test_surface 0x200000) ((\<lambda>_. 0)(0x100002 := 0x1F)))) = 0x0000FF"
proof -
  let ?s = "test_surface 0x200000" and ?m = "(\<lambda>_. 0)(0x100002 := 0x1F) :: mem"
  have "surface_ok ?s" by (simp add: surface_ok_def surface_valid_def test_surface_def bytes_per_pixel_def)
  then have ok: "small_surface ?s" by (simp add: small_surface_def test_surface_def)
  have "0x100000 + i \<notin> footprint ?s" if "i < 4" for i :: nat using that by (auto simp: footprint_def test_surface_def pix_def on_surface_def)
  then have ap: "image_apart (wallpaper two_pixels) ?s" by (simp add: image_apart_def two_pixels_def Let_def)
  have f: "as_format (wallpaper two_pixels) = MYIMG_RGB565" by (simp add: two_pixels_def Let_def)
  have on: "on_surface ?s (unat (63 :: u32)) (unat (47 :: u32))" by (simp add: on_surface_def test_surface_def)
  have c: "wallpaper_value (wallpaper two_pixels) ?s ?m 63 47 = 0x1F"
    by (simp add: wallpaper_value_def image_value_def two_pixels_def test_surface_def cover_factor_def under_def load16_def Let_def)
  obtain d m' where e: "assets_draw_wallpaper two_pixels ?s ?m = (d, m')" by fastforce
  have "d" "graphics_get_pixel (Some ?s) 63 47 m' = shown565 ?s (wallpaper_value (wallpaper two_pixels) ?s ?m (unat (63 :: u32)) (unat (47 :: u32)))"
    using wallpaper_exact [OF ok ap f e] on by blast+
  moreover have "shown565 ?s 0x1F = 0x0000FF" by (simp add: shown565_def widen565_def rgb_value_def test_surface_def)
  ultimately show ?thesis unfolding e fst_conv snd_conv using c by simp
qed

section \<open>The pointer\<close>

text \<open>Memory that changes only at some pixels of a surface.\<close>

definition kept :: "graphics_surface \<Rightarrow> (nat \<Rightarrow> nat \<Rightarrow> bool) \<Rightarrow> mem \<Rightarrow> mem \<Rightarrow> bool" where
  "kept s A m m' \<longleftrightarrow> (\<forall>x y k. on_surface s x y \<longrightarrow> k < bpp s \<longrightarrow> \<not> A x y \<longrightarrow> m' (pix s x y + k) = m (pix s x y + k)) \<and> same_outside s m m'"

lemma kept_refl: "kept s A m m"
  by (simp add: kept_def same_outside_def)

lemma kept_trans: "kept s A m m' \<Longrightarrow> kept s A m' m'' \<Longrightarrow> kept s A m m''"
  by (auto simp: kept_def same_outside_def)

lemma kept_fold: "(\<And>i m. i \<in> set xs \<Longrightarrow> kept s A m (op i m)) \<Longrightarrow> kept s A m (fold op xs m)"
  by (induction xs arbitrary: m) (auto intro: kept_refl kept_trans)

lemma kept_mono:
  assumes "kept s A m m'" "\<And>x y. A x y \<Longrightarrow> B x y"
  shows "kept s B m m'"
  using assms unfolding kept_def by blast

lemma kept_painted: "painted s (shade A f) m m' \<Longrightarrow> kept s A m m'"
  by (auto simp: painted_def kept_def shade_def same_outside_def split: if_splits)

text \<open>Drawing the pointer touches only the rectangle of its image around its hot spot.\<close>

definition in_pointer :: "asset_bitmap \<Rightarrow> int \<Rightarrow> int \<Rightarrow> nat \<Rightarrow> nat \<Rightarrow> bool" where
  "in_pointer a x y px py \<longleftrightarrow> x - uint (as_hotspot_x a) \<le> int px \<and> int px < x - uint (as_hotspot_x a) + uint (as_width a)
     \<and> y - uint (as_hotspot_y a) \<le> int py \<and> int py < y - uint (as_hotspot_y a) + uint (as_height a)"

lemma kept_put_pixel:
  assumes "surface_ok s" "A (unat x) (unat y)"
  shows "kept s A m (put_pixel s x y color m)"
proof -
  have "painted s (shade (\<lambda>x' y'. x' = unat x \<and> y' = unat y) (\<lambda>_ _. color)) m (put_pixel s x y color m)"
    by (rule painted_put_pixel [OF assms(1)]) simp_all
  then have "kept s (\<lambda>x' y'. x' = unat x \<and> y' = unat y) m (put_pixel s x y color m)" by (rule kept_painted)
  then show ?thesis by (rule kept_mono) (simp add: assms(2))
qed

lemma unat_word_of_int_small:
  assumes "0 \<le> k" "k < 65536"
  shows "unat (word_of_int k :: u32) = nat k"
proof -
  have "uint (word_of_int k :: u32) = k" using assms by (simp add: uint_word_of_int)
  then show ?thesis by (simp only: unat_eq_nat_uint)
qed

lemma kept_cursor_pixel:
  assumes "small_surface s" "A (nat (left + int col)) (nat (upper + int row))"
  shows "kept s A m (cursor_pixel s a left upper row col m)"
proof (cases "left + int col < 0 \<or> upper + int row < 0 \<or> left + int col \<ge> sint (swidth s) \<or> upper + int row \<ge> sint (sheight s)")
  case True
  then show ?thesis unfolding cursor_pixel_def Let_def by (simp only: if_True kept_refl)
next
  case False
  have ok: "surface_ok s" "uint (swidth s) < 65536" "uint (sheight s) < 65536"
    using assms(1) unfolding small_surface_def by (blast, simp_all add: word_less_def)
  then have "sint (swidth s) = uint (swidth s)" "sint (sheight s) = uint (sheight s)" by (simp_all add: sint_eq_uint)
  then have "0 \<le> left + int col" "0 \<le> upper + int row" "left + int col < 65536" "upper + int row < 65536" using False ok by linarith+
  then have u: "unat (word_of_int (left + int col) :: u32) = nat (left + int col)" "unat (word_of_int (upper + int row) :: u32) = nat (upper + int row)" by (simp_all only: unat_word_of_int_small)
  have put: "kept s A m (put_pixel s (word_of_int (left + int col)) (word_of_int (upper + int row)) color m)" for color
    by (rule kept_put_pixel [OF ok(1)]) (simp only: u assms(2))
  show ?thesis unfolding cursor_pixel_def Let_def if_not_P [OF False] by (simp only: put kept_refl simp_thms split: if_split)
qed

lemma kept_draw_cursor:
  assumes "small_surface s"
  shows "kept s (in_pointer (active_pointer text_mode as) x y) m (snd (assets_draw_cursor as s x y text_mode m))"
proof -
  define a where "a = active_pointer text_mode as"
  define left upper where "left = x - uint (as_hotspot_x a)" and "upper = y - uint (as_hotspot_y a)"
  have "kept s (in_pointer a x y) m1 (cursor_pixel s a left upper row col m1)" if "row < unat (as_height a)" "col < unat (as_width a)" for row col m1
  proof (cases "0 \<le> left + int col \<and> 0 \<le> upper + int row")
    case True
    have "int row < int (unat (as_height a))" "int col < int (unat (as_width a))" using that by (simp_all only: of_nat_less_iff)
    then have "int row < uint (as_height a)" "int col < uint (as_width a)" unfolding uint_nat .
    then have "in_pointer a x y (nat (left + int col)) (nat (upper + int row))" using True by (simp add: in_pointer_def left_def upper_def)
    then show ?thesis by (rule kept_cursor_pixel [OF assms])
  next
    case False
    then have "left + int col < 0 \<or> upper + int row < 0 \<or> left + int col \<ge> sint (swidth s) \<or> upper + int row \<ge> sint (sheight s)" by linarith
    then show ?thesis unfolding cursor_pixel_def Let_def by (simp only: if_True kept_refl)
  qed
  then have "kept s (in_pointer a x y) m (fold (\<lambda>row. fold (cursor_pixel s a left upper row) [0..<unat (as_width a)]) [0..<unat (as_height a)] m)"
    by (intro kept_fold) simp
  then show ?thesis unfolding assets_draw_cursor_def Let_def a_def [symmetric] left_def [symmetric] upper_def [symmetric]
    by (simp only: snd_conv kept_refl simp_thms split: if_split)
qed

end
