(* ===== verification/Gui_Desktop.thy ===== *)
theory Gui_Desktop
  imports Assets Gui_Windows Platform Timer
begin

text \<open>The desktop below the windows, \<open>src/kernel/gui/desktop/desktop.cpp\<close>: wallpaper, icons, start menu and task bar with its clock.
  The time comes from the real-time clock, whose ports are a parameter, or from the uptime when there is none.\<close>

section \<open>Model\<close>

definition draw_wallpaper :: "assets \<Rightarrow> graphics_surface \<Rightarrow> metrics \<Rightarrow> mem \<Rightarrow> mem" where
  "draw_wallpaper as s metrics m =
     (case assets_draw_wallpaper as s m of
        (True, m) \<Rightarrow> m
      | (False, m) \<Rightarrow> graphics_fill_rect (Some s) 0 0 (mwidth metrics) (mheight metrics) COLOR_DESKTOP_BOTTOM m)"

definition draw_icon :: "graphics_surface \<Rightarrow> int \<Rightarrow> int \<Rightarrow> string \<Rightarrow> string \<Rightarrow> mem \<Rightarrow> mem" where
  "draw_icon s x y label glyph m =
     (let label_w = int (length label) * 6 + 4;
          label_w = (if label_w < 46 then 46 else label_w);
          label_w = (if label_w > ICON_W - 2 then ICON_W - 2 else label_w);
          icon_x = x + (ICON_W - 30) div 2;
          label_x = x + (ICON_W - label_w) div 2;
          m = graphics_fill_rect (Some s) (word_of_int icon_x) (word_of_int y) 30 24 COLOR_WINDOW m;
          m = graphics_draw_rect (Some s) (word_of_int icon_x) (word_of_int y) 30 24 15 m;
          m = graphics_fill_rect (Some s) (word_of_int (icon_x + 3)) (word_of_int (y + 4)) 24 16 COLOR_TERMINAL_BG m;
          m = graphics_draw_string (Some s) (word_of_int (icon_x + 8)) (word_of_int (y + 8)) (Diskfs.ascii glyph) COLOR_TERMINAL_FG COLOR_TERMINAL_BG m;
          m = graphics_fill_rect (Some s) (word_of_int label_x) (word_of_int (y + 30)) (word_of_int label_w) 11 COLOR_ACCENT_DARK m
      in graphics_draw_string (Some s) (word_of_int (label_x + 2)) (word_of_int (y + 32)) (Diskfs.ascii label) 15 COLOR_ACCENT_DARK m)"

definition start_menu_rect :: "metrics \<Rightarrow> rect" where
  "start_menu_rect metrics =
     (let menu_h = (if mheight metrics \<ge> 480 then 150 else 108); menu_w = (if mwidth metrics \<ge> 640 then 184 else 126)
      in mk_rect 4 (sint (mheight metrics) - sint (taskbar_h metrics) - menu_h - 2) menu_w menu_h)"

definition draw_start_menu :: "graphics_surface \<Rightarrow> metrics \<Rightarrow> bool \<Rightarrow> mem \<Rightarrow> mem" where
  "draw_start_menu s metrics is_open m =
     (if \<not> is_open then m
      else let menu = start_menu_rect metrics;
               x = word_of_int (rx menu); y = ry menu; w = word_of_int (rw menu); h = word_of_int (rh menu);
               item = (\<lambda>dy label. graphics_draw_string (Some s) (word_of_int (rx menu + 28)) (word_of_int (y + dy)) (Diskfs.ascii label) COLOR_TEXT_DARK COLOR_WINDOW);
               m = graphics_fill_rect (Some s) x (word_of_int y) w h COLOR_WINDOW m;
               m = graphics_draw_rect (Some s) x (word_of_int y) w h COLOR_WINDOW_BORDER m;
               m = graphics_fill_rect (Some s) (word_of_int (rx menu + 1)) (word_of_int (y + 1)) 22 (word_of_int (rh menu - 2)) COLOR_ACCENT_DARK m;
               m = item 12 ''TERMINAL'' m;
               m = item 28 ''FILES'' m;
               m = item 44 ''MONITOR'' m;
               m = item 60 ''ABOUT'' m;
               m = graphics_fill_rect (Some s) (word_of_int (rx menu + 26)) (word_of_int (y + 78)) (word_of_int (rw menu - 32)) 1 COLOR_WINDOW_BORDER m;
               m = item 88 ''SHUTDOWN'' m
           in item 104 ''RESTART'' m)"

definition draw_task_button :: "graphics_surface \<Rightarrow> metrics \<Rightarrow> int \<Rightarrow> string \<Rightarrow> bool \<Rightarrow> mem \<Rightarrow> mem" where
  "draw_task_button s metrics x label minimized m =
     (let color = (if minimized then 0x00434B54 else COLOR_ACCENT); y = mheight metrics - taskbar_h metrics + 4;
          m = graphics_fill_rect (Some s) (word_of_int x) y (word_of_int TASK_BUTTON_W) (taskbar_h metrics - 8) color m;
          m = graphics_draw_rect (Some s) (word_of_int x) y (word_of_int TASK_BUTTON_W) (taskbar_h metrics - 8) 15 m
      in graphics_draw_string (Some s) (word_of_int (x + 8)) (mheight metrics - taskbar_h metrics + 7) (Diskfs.ascii label) 15 color m)"

text \<open>The characters of the clock: time, day and year.\<close>

definition clock_digit :: "u32 \<Rightarrow> u8" where
  "clock_digit v = ucast (48 + v)"

definition clock_text :: "rtc_datetime option \<Rightarrow> u32 \<Rightarrow> u8 list" where
  "clock_text rtc seconds =
     (let minutes = (case rtc of Some now \<Rightarrow> ucast (minute now) | None \<Rightarrow> (seconds div 60) mod 60);
          hours = (case rtc of Some now \<Rightarrow> ucast (hour now) | None \<Rightarrow> (seconds div 3600) mod 24);
          d = (case rtc of Some now \<Rightarrow> ucast (day now) | None \<Rightarrow> 25);
          mo = (case rtc of Some now \<Rightarrow> ucast (month now) | None \<Rightarrow> 5);
          y = (case rtc of Some now \<Rightarrow> ucast (year now) | None \<Rightarrow> 2026)
      in [clock_digit (hours div 10), clock_digit (hours mod 10), 58, clock_digit (minutes div 10), clock_digit (minutes mod 10), 32,
          clock_digit (d div 10), clock_digit (d mod 10), 47, clock_digit (mo div 10), clock_digit (mo mod 10), 47,
          clock_digit ((y div 1000) mod 10), clock_digit ((y div 100) mod 10), clock_digit ((y div 10) mod 10), clock_digit (y mod 10), 0])"

text \<open>A window's entry on the task bar: whether it is open and whether it is minimized.\<close>

record task_entry =
  te_open :: bool
  te_minimized :: bool

definition draw_taskbar :: "'h ports \<Rightarrow> bool \<Rightarrow> timer \<Rightarrow> graphics_surface \<Rightarrow> metrics \<Rightarrow> bool \<Rightarrow> task_entry \<Rightarrow> task_entry \<Rightarrow> task_entry \<Rightarrow> mem \<times> 'h \<Rightarrow> mem \<times> 'h" where
  "draw_taskbar P rtc_ready tm s metrics is_open term_te files_te monitor_te = (\<lambda>(m, h).
     let bar = mheight metrics - taskbar_h metrics;
         start_color = (if is_open then COLOR_ACCENT else COLOR_ACCENT_DARK);
         m = graphics_fill_rect (Some s) 0 bar (mwidth metrics) (taskbar_h metrics) COLOR_TASKBAR m;
         m = graphics_fill_rect (Some s) 0 bar (mwidth metrics) 1 COLOR_TASKBAR_HILITE m;
         m = graphics_fill_rect (Some s) 4 (bar + 4) (word_of_int START_BUTTON_W) (taskbar_h metrics - 8) start_color m;
         m = graphics_draw_rect (Some s) 4 (bar + 4) (word_of_int START_BUTTON_W) (taskbar_h metrics - 8) 15 m;
         m = graphics_draw_string (Some s) 11 (bar + 7) (Diskfs.ascii ''START'') 15 start_color m;
         m = (if te_open term_te then draw_task_button s metrics TASK_BUTTON_X ''TERMINAL'' (te_minimized term_te) m else m);
         m = (if te_open files_te then draw_task_button s metrics (TASK_BUTTON_X + TASK_BUTTON_W + 6) ''FILES'' (te_minimized files_te) m else m);
         m = (if te_open monitor_te then draw_task_button s metrics (TASK_BUTTON_X + (TASK_BUTTON_W + 6) * 2) ''MONITOR'' (te_minimized monitor_te) m else m);
         (now, h) = rtc_read_datetime P rtc_ready True h;
         clock = clock_text now (timer_uptime_seconds tm);
         clock_x = (if mwidth metrics > 108 then mwidth metrics - 104 else 216)
     in (graphics_draw_string (Some s) clock_x (bar + 7) clock 15 COLOR_TASKBAR m, h))"

definition desktop_draw :: "'h ports \<Rightarrow> bool \<Rightarrow> timer \<Rightarrow> assets \<Rightarrow> graphics_surface \<Rightarrow> metrics \<Rightarrow> bool \<Rightarrow> task_entry \<Rightarrow> task_entry \<Rightarrow> task_entry \<Rightarrow> mem \<times> 'h \<Rightarrow> mem \<times> 'h" where
  "desktop_draw P rtc_ready tm as s metrics is_open term_te files_te monitor_te = (\<lambda>(m, h).
     let m = draw_wallpaper as s metrics m;
         m = draw_icon s ICON_X ICON_Y ''TERMINAL'' ''>_'' m;
         m = draw_icon s ICON_X (ICON_Y + 56) ''FILE EXPLORER'' ''[]'' m;
         m = draw_icon s ICON_X (ICON_Y + 112) ''SYSTEM MONITOR'' ''##'' m;
         m = draw_icon s ICON_X (ICON_Y + 168) ''ABOUT'' ''i'' m;
         m = draw_start_menu s metrics is_open m
     in draw_taskbar P rtc_ready tm s metrics is_open term_te files_te monitor_te (m, h))"

section \<open>Properties\<close>

text \<open>The clock shows two digits of each part of a valid time and four of the year.\<close>

definition digits_value :: "u8 list \<Rightarrow> nat" where
  "digits_value ds = foldl (\<lambda>n d. 10 * n + (unat d - 48)) 0 ds"

lemma clock_digit_value: "v < 10 \<Longrightarrow> unat (clock_digit v) = 48 + unat v"
proof -
  assume "v < 10"
  then have "unat v < 10" by (simp add: word_less_nat_alt)
  moreover from this have "unat (48 + v) = 48 + unat v" by (simp add: unat_word_ariths)
  ultimately show ?thesis by (simp add: clock_digit_def unsigned_ucast_eq take_bit_nat_eq_self)
qed

lemma clock_two_digits:
  assumes "v < 100" shows "digits_value [clock_digit (v div 10), clock_digit (v mod 10)] = unat v"
proof -
  have "unat v < 100" using assms by (simp add: word_less_nat_alt)
  then have "v div 10 < 10" "v mod 10 < 10" by (simp_all add: word_less_nat_alt unat_div unat_mod)
  then show ?thesis by (simp add: digits_value_def clock_digit_value unat_div unat_mod)
qed

text \<open>The start menu lies on the screen above the task bar, on every screen of at least 206 lines.\<close>

lemma start_menu_on_screen:
  assumes "metrics_ok M"
  shows "0 \<le> rx (start_menu_rect M)" "0 \<le> ry (start_menu_rect M)" "rx (start_menu_rect M) + rw (start_menu_rect M) \<le> scr_w M"
    "ry (start_menu_rect M) + rh (start_menu_rect M) \<le> scr_h M - uint (taskbar_h M)"
  using screen_bounds [OF assms] screen_bar [OF assms] screen_sizes [OF assms]
  by (auto simp: start_menu_rect_def mk_rect_def Let_def word_le_def)

end
