(* ===== verification/Gui_Notepad.thy ===== *)
theory Gui_Notepad
  imports Gui_Windows
begin

text \<open>The notepad, \<open>src/kernel/gui/apps/notepad.cpp\<close>: a window with a text of at most 2048 bytes, a cursor in it, and the path it is
  saved under. Its arrays are lists of their full size; lengths and indices, which stay below 2049, are natural
  numbers. Saving and opening go through the disk file system, whose model gives \<open>None\<close> where a corrupt image would
  make the code read outside its arrays. Progress messages on the serial line are left out.\<close>

section \<open>Model\<close>

abbreviation (input) BUFFER_SIZE :: nat where "BUFFER_SIZE \<equiv> 2048"
abbreviation (input) GUI_KEY_CTRL_S :: u8 where "GUI_KEY_CTRL_S \<equiv> 21"

record notepad_app =
  np_window :: window
  np_path :: "u8 list"
  np_buffer :: "u8 list"
  np_length :: nat
  np_cursor :: nat
  np_dirty :: bool
  np_last_save_ok :: bool

definition notepad_default_geometry :: "metrics \<Rightarrow> window \<Rightarrow> window" where
  "notepad_default_geometry metrics w =
     (let w = w\<lparr>ww := if mwidth metrics \<ge> 640 then 430 else 248, wh := if mheight metrics \<ge> 480 then 300 else 160\<rparr>;
          w = (if ww w > sint (mwidth metrics) - 10 then w\<lparr>ww := sint (mwidth metrics) - 10\<rparr> else w);
          w = (if wh w > sint (mheight metrics) - sint (taskbar_h metrics) - 10 then w\<lparr>wh := sint (mheight metrics) - sint (taskbar_h metrics) - 10\<rparr> else w);
          w = (if ww w < WINDOW_MIN_W then w\<lparr>ww := WINDOW_MIN_W\<rparr> else w);
          w = (if wh w < WINDOW_MIN_H then w\<lparr>wh := WINDOW_MIN_H\<rparr> else w)
      in w\<lparr>wx := sint ((mwidth metrics - word_of_int (ww w)) div 2) + 28, wy := if mheight metrics > 260 then 72 else 24\<rparr>)"

definition notepad_initialize :: "metrics \<Rightarrow> notepad_app \<Rightarrow> notepad_app" where
  "notepad_initialize metrics n =
     n\<lparr>np_window := (save_geometry (notepad_default_geometry metrics (np_window n)))\<lparr>wopen := False, wfocused := False, wmode := Normal, wz := 0\<rparr>,
       np_path := (np_path n)[0 := 0], np_buffer := (np_buffer n)[0 := 0], np_length := 0, np_cursor := 0, np_dirty := False, np_last_save_ok := False\<rparr>"

definition notepad_set_path :: "u8 list \<Rightarrow> notepad_app \<Rightarrow> notepad_app" where
  "notepad_set_path path n = (let p = take 31 (cstr path) in n\<lparr>np_path := p @ 0 # drop (Suc (length p)) (np_path n)\<rparr>)"

definition notepad_focus :: "u32 \<Rightarrow> notepad_app \<Rightarrow> notepad_app" where
  "notepad_focus z n = n\<lparr>np_window := focus_window z (np_window n)\<rparr>"

definition notepad_show :: "u32 \<Rightarrow> notepad_app \<Rightarrow> notepad_app" where
  "notepad_show z n = notepad_focus z (n\<lparr>np_window := (np_window n)\<lparr>wopen := True, wmode := Normal\<rparr>\<rparr>)"

definition notepad_place :: "metrics \<Rightarrow> notepad_app \<Rightarrow> notepad_app" where
  "notepad_place metrics n = n\<lparr>np_window := save_geometry (notepad_default_geometry metrics (np_window n))\<rparr>"

definition notepad_open_file :: "'d blockdev \<Rightarrow> u8 list \<Rightarrow> metrics \<Rightarrow> u32 \<Rightarrow> notepad_app \<times> 'd diskfs \<Rightarrow> bool \<times> notepad_app \<times> 'd diskfs" where
  "notepad_open_file bd path metrics z = (\<lambda>(n, fs).
     case diskfs_read_file bd (Some path) fs of
       (None, fs) \<Rightarrow> (False, n, fs)
     | (Some (data, sz), fs) \<Rightarrow>
         if sz > BUFFER_SIZE then (False, n, fs)
         else let n = notepad_set_path path n;
                  n = n\<lparr>np_buffer := take sz data @ 0 # drop (Suc sz) (np_buffer n), np_length := sz, np_cursor := sz, np_dirty := False, np_last_save_ok := False\<rparr>;
                  n = (if \<not> wopen (np_window n) then notepad_place metrics n else n)
              in (True, notepad_show z n, fs))"

definition notepad_open_window :: "metrics \<Rightarrow> u32 \<Rightarrow> notepad_app \<Rightarrow> notepad_app" where
  "notepad_open_window metrics z n =
     notepad_show z
       (if \<not> wopen (np_window n)
        then (notepad_set_path (Diskfs.ascii ''untitled.txt'') (notepad_place metrics n))\<lparr>np_buffer := (np_buffer n)[0 := 0], np_length := 0, np_cursor := 0,
               np_dirty := False, np_last_save_ok := False\<rparr>
        else n)"

definition notepad_close :: "notepad_app \<Rightarrow> notepad_app" where
  "notepad_close n = n\<lparr>np_window := close_window (np_window n)\<rparr>"

definition notepad_minimize :: "notepad_app \<Rightarrow> notepad_app" where
  "notepad_minimize n = n\<lparr>np_window := minimize_window (np_window n)\<rparr>"

definition notepad_toggle_maximize :: "metrics \<Rightarrow> u32 \<Rightarrow> notepad_app \<Rightarrow> notepad_app" where
  "notepad_toggle_maximize metrics z n = n\<lparr>np_window := maximize_window metrics z (np_window n)\<rparr>"

definition insert_char :: "u8 \<Rightarrow> notepad_app \<Rightarrow> notepad_app" where
  "insert_char c n =
     (if np_length n \<ge> BUFFER_SIZE then n
      else let buffer = fold (\<lambda>i b. b[i := b ! (i - 1)]) (rev [Suc (np_cursor n)..<Suc (np_length n)]) (np_buffer n);
               buffer = buffer[np_cursor n := c];
               n = n\<lparr>np_cursor := np_cursor n + 1, np_length := np_length n + 1\<rparr>
           in n\<lparr>np_buffer := buffer[np_length n := 0], np_dirty := True\<rparr>)"

definition backspace :: "notepad_app \<Rightarrow> notepad_app" where
  "backspace n =
     (if np_cursor n = 0 then n
      else n\<lparr>np_buffer := fold (\<lambda>i b. b[i := b ! (i + 1)]) [np_cursor n - 1..<np_length n] (np_buffer n),
             np_cursor := np_cursor n - 1, np_length := np_length n - 1, np_dirty := True\<rparr>)"

definition notepad_save :: "'d blockdev \<Rightarrow> notepad_app \<times> 'd diskfs \<Rightarrow> (notepad_app \<times> 'd diskfs) option" where
  "notepad_save bd = (\<lambda>(n, fs).
     do { (ok, fs) \<leftarrow> diskfs_write_file bd (Some (np_path n)) (Some (np_buffer n)) (of_nat (np_length n)) fs;
          let n = n\<lparr>np_last_save_ok := ok\<rparr>;
          Some (if ok then n\<lparr>np_dirty := False\<rparr> else n, fs) })"

definition notepad_handle_key :: "'d blockdev \<Rightarrow> u8 \<Rightarrow> notepad_app \<times> 'd diskfs \<Rightarrow> (notepad_app \<times> 'd diskfs) option" where
  "notepad_handle_key bd key = (\<lambda>(n, fs).
     if \<not> wopen (np_window n) \<or> wmode (np_window n) = Minimized \<or> \<not> wfocused (np_window n) then Some (n, fs)
     else if key = GUI_KEY_CTRL_S then notepad_save bd (n, fs)
     else if key = 8 then Some (backspace n, fs)
     else if key = 10 then Some (insert_char 10 n, fs)
     else if key \<ge> 32 \<and> key \<le> 126 then Some (insert_char key n, fs)
     else Some (n, fs))"

section \<open>Drawing\<close>

definition notepad_draw_chrome :: "graphics_surface \<Rightarrow> notepad_app \<Rightarrow> mem \<Rightarrow> mem" where
  "notepad_draw_chrome s n m =
     (let w = np_window n;
          m = draw_frame s w ''NOTEPAD'' m;
          m = graphics_fill_rect (Some s) (word_of_int (wx w + 6)) (word_of_int (wy w + TITLEBAR_H + 5)) (word_of_int (ww w - 12)) (word_of_int (wh w - TITLEBAR_H - 22)) 0x00FFFFFF m
      in graphics_fill_rect (Some s) (word_of_int (wx w + 6)) (word_of_int (wy w + wh w - 15)) (word_of_int (ww w - 12)) 10 0x00EEF3F8 m)"

fun draw_chars :: "graphics_surface \<Rightarrow> window \<Rightarrow> int \<Rightarrow> int \<Rightarrow> u8 list \<Rightarrow> mem \<Rightarrow> mem" where
  "draw_chars s w x y [] m = m"
| "draw_chars s w x y (c # cs) m =
     (if \<not> y < wy w + wh w - 20 then m
      else if c = 10 then draw_chars s w (wx w + 10) (y + 8) cs m
      else let m = graphics_draw_char (Some s) (word_of_int x) (word_of_int y) c COLOR_TEXT_DARK 0x00FFFFFF m
           in if x + 6 + 6 > wx w + ww w - 12 then draw_chars s w (wx w + 10) (y + 8) cs m else draw_chars s w (x + 6) y cs m)"

definition notepad_draw_text :: "graphics_surface \<Rightarrow> notepad_app \<Rightarrow> mem \<Rightarrow> mem" where
  "notepad_draw_text s n m =
     (let w = np_window n;
          m = draw_chars s w (wx w + 10) (wy w + TITLEBAR_H + 10) (take (np_length n) (np_buffer n)) m;
          status = (if np_dirty n then ''MODIFIED  CTRL+S SAVE'' else if np_last_save_ok n then ''SAVED'' else ''CTRL+S SAVE'');
          m = graphics_draw_string (Some s) (word_of_int (wx w + 10)) (word_of_int (wy w + wh w - 13)) (np_path n) COLOR_ACCENT_DARK 0x00EEF3F8 m
      in graphics_draw_string (Some s) (word_of_int (wx w + ww w - 126)) (word_of_int (wy w + wh w - 13)) (Diskfs.ascii status) COLOR_TEXT_DARK 0x00EEF3F8 m)"

definition notepad_draw :: "graphics_surface \<Rightarrow> notepad_app \<Rightarrow> mem \<Rightarrow> mem" where
  "notepad_draw s n m = (if \<not> window_visible (np_window n) then m else notepad_draw_text s n (notepad_draw_chrome s n m))"

section \<open>Editing\<close>

text \<open>The arrays have their sizes, the cursor is inside the text, and the text is terminated.\<close>

definition notepad_ok :: "notepad_app \<Rightarrow> bool" where
  "notepad_ok n \<longleftrightarrow> length (np_buffer n) = BUFFER_SIZE + 1 \<and> np_length n \<le> BUFFER_SIZE \<and> np_cursor n \<le> np_length n \<and> np_buffer n ! np_length n = 0
     \<and> length (np_path n) = 32"

text \<open>The text before the cursor and after it.\<close>

definition halves :: "notepad_app \<Rightarrow> u8 list \<times> u8 list" where
  "halves n = (take (np_cursor n) (np_buffer n), drop (np_cursor n) (take (np_length n) (np_buffer n)))"

fun edit :: "u8 \<Rightarrow> u8 list \<times> u8 list \<Rightarrow> u8 list \<times> u8 list" where
  "edit key (before, after) =
     (if key = 8 then (butlast before, after)
      else if (key = 10 \<or> 32 \<le> key \<and> key \<le> 126) \<and> length before + length after < BUFFER_SIZE then (before @ [key], after)
      else (before, after))"

lemma update_after: "length p = n \<Longrightarrow> (p @ q)[n := v] = p @ q[0 := v]"
  by (auto simp: list_update_append)

lemma nth_after: "length p = n \<Longrightarrow> (p @ q) ! (n + k) = q ! k"
  by (auto simp: nth_append)

lemma shift_up: "c \<le> n \<Longrightarrow> n < length b \<Longrightarrow>
  fold (\<lambda>i b. b[i := b ! (i - 1)]) (rev [Suc c..<Suc n]) b = take (Suc c) b @ drop c (take n b) @ drop (Suc n) b"
proof (induction n arbitrary: b)
  case (Suc n)
  show ?case
  proof (cases "c = Suc n")
    case False
    then have c: "c \<le> n" and u: "[Suc c..<Suc (Suc n)] = [Suc c..<Suc n] @ [Suc n]" using Suc.prems by simp_all
    let ?b = "b[Suc n := b ! n]"
    have "fold (\<lambda>i b. b[i := b ! (i - 1)]) (rev [Suc c..<Suc (Suc n)]) b = take (Suc c) ?b @ drop c (take n ?b) @ drop (Suc n) ?b"
      unfolding u using Suc.IH [of ?b] c Suc.prems by simp
    moreover have "drop (Suc n) ?b = b ! n # drop (Suc (Suc n)) b" using Suc.prems by (simp add: Cons_nth_drop_Suc [symmetric])
    ultimately show ?thesis using c Suc.prems by (simp add: take_Suc_conv_app_nth [of n])
  qed (use Suc.prems in \<open>simp add: append_take_drop_id\<close>)
qed (simp add: take_Suc_conv_app_nth Cons_nth_drop_Suc)

lemma shift_down: "k \<le> n \<Longrightarrow> n < length b \<Longrightarrow>
  fold (\<lambda>i b. b[i := b ! (i + 1)]) [k..<n] b = take k b @ drop (Suc k) (take (Suc n) b) @ drop n b"
proof (induction n)
  case (Suc n)
  show ?case
  proof (cases "k = Suc n")
    case False
    then have k: "k \<le> n" using Suc.prems by simp
    define p where "p = take k b @ drop (Suc k) (take (Suc n) b)"
    have r: "fold (\<lambda>i b. b[i := b ! (i + 1)]) [k..<n] b = p @ drop n b" using Suc.IH k Suc.prems by (simp add: p_def)
    have l: "length p = n" using k Suc.prems by (simp add: p_def)
    have "(p @ drop n b)[n := (p @ drop n b) ! (n + 1)] = p @ (drop n b)[0 := drop n b ! 1]"
      unfolding update_after [OF l] nth_after [OF l] ..
    also have "(drop n b)[0 := drop n b ! 1] = b ! Suc n # drop (Suc n) b"
      using Suc.prems by (simp add: Cons_nth_drop_Suc [symmetric])
    finally show ?thesis using k Suc.prems r by (simp add: take_Suc_conv_app_nth [of "Suc n"] p_def)
  qed simp
qed simp

lemma insert_char_edits:
  assumes "notepad_ok n" "np_length n < BUFFER_SIZE"
  shows "notepad_ok (insert_char c n) \<and> halves (insert_char c n) = (fst (halves n) @ [c], snd (halves n))"
proof -
  define b k l where "b = np_buffer n" and "k = np_cursor n" and "l = np_length n"
  have ok: "length b = 2049" "k \<le> l" "l < 2048" "length (np_path n) = 32" using assms by (simp_all add: notepad_ok_def b_def k_def l_def)
  define b' where "b' = (take k b @ c # drop k (take l b) @ drop (Suc l) b)[Suc l := 0]"
  have "(take (Suc k) b @ drop k (take l b) @ drop (Suc l) b)[k := c] = take k b @ c # drop k (take l b) @ drop (Suc l) b"
    using ok by (simp add: list_update_append take_Suc_conv_app_nth)
  then have i: "insert_char c n = n\<lparr>np_cursor := Suc k, np_length := Suc l, np_buffer := b', np_dirty := True\<rparr>"
    using shift_up [of k l b] ok by (simp add: insert_char_def b'_def b_def k_def l_def Let_def)
  have b': "b' = (take k b @ c # drop k (take l b)) @ (drop (Suc l) b)[0 := 0]"
    using update_after [of "take k b @ c # drop k (take l b)" "Suc l" "drop (Suc l) b" 0] ok by (simp add: b'_def)
  have "length b' = 2049" "b' ! Suc l = 0" "take (Suc k) b' = take k b @ [c]" "drop (Suc k) (take (Suc l) b') = drop k (take l b)"
    using ok unfolding b' by (simp_all add: nth_append Suc_diff_le)
  then show ?thesis using ok by (simp add: i notepad_ok_def halves_def b_def k_def l_def)
qed

lemma backspace_edits:
  assumes "notepad_ok n" shows "notepad_ok (backspace n) \<and> halves (backspace n) = (butlast (fst (halves n)), snd (halves n))"
proof (cases "np_cursor n = 0")
  case False
  define b k l where "b = np_buffer n" and "k = np_cursor n - 1" and "l = np_length n"
  have ok: "length b = 2049" "Suc k \<le> l" "l \<le> 2048" "b ! l = 0" "np_cursor n = Suc k" "length (np_path n) = 32"
    using assms False by (simp_all add: notepad_ok_def b_def k_def l_def)
  define b' where "b' = take k b @ drop (Suc k) (take (Suc l) b) @ drop l b"
  have i: "backspace n = n\<lparr>np_buffer := b', np_cursor := k, np_length := l - 1, np_dirty := True\<rparr>"
    using shift_down [of k l b] ok by (simp add: backspace_def b'_def b_def l_def)
  have "b' = take k b @ drop (Suc k) (take l b) @ b ! l # drop l b"
    using ok by (simp add: b'_def take_Suc_conv_app_nth)
  moreover have "length (take k b @ drop (Suc k) (take l b)) = l - 1" using ok by simp
  ultimately have "b' ! (l - 1) = 0" "length b' = 2049" "take k b' = take k b" "drop k (take (l - 1) b') = drop (Suc k) (take l b)"
    using ok nth_after [of "take k b @ drop (Suc k) (take l b)" "l - 1" "b ! l # drop l b" 0] by simp_all
  moreover have "k \<le> l - 1" "l - 1 \<le> 2048" using ok by arith+
  ultimately show ?thesis using ok by (simp add: i notepad_ok_def halves_def b_def l_def take_Suc_conv_app_nth butlast_take)
qed (use assms in \<open>simp add: backspace_def halves_def\<close>)

lemma handle_key_edits:
  assumes "notepad_ok n" "window_visible (np_window n)" "wfocused (np_window n)" "key \<noteq> GUI_KEY_CTRL_S"
  shows "\<exists>n'. notepad_handle_key bd key (n, fs) = Some (n', fs) \<and> notepad_ok n' \<and> halves n' = edit key (halves n) \<and> np_window n' = np_window n \<and> np_path n' = np_path n"
proof -
  have l: "length (fst (halves n)) + length (snd (halves n)) = np_length n" using assms(1) by (simp add: halves_def notepad_ok_def)
  have w: "np_window (insert_char c n) = np_window n" "np_path (insert_char c n) = np_path n" "np_window (backspace n) = np_window n"
      "np_path (backspace n) = np_path n" for c
    by (simp_all add: insert_char_def backspace_def Let_def)
  have full: "insert_char c n = n" if "\<not> np_length n < BUFFER_SIZE" for c using that by (simp add: insert_char_def)
  obtain b a where h: "halves n = (b, a)" by fastforce
  show ?thesis
    using assms insert_char_edits [OF assms(1)] backspace_edits [OF assms(1)] w full l h
    by (cases "np_length n < BUFFER_SIZE") (auto simp: notepad_handle_key_def window_visible_def)
qed

text \<open>C18. Typing edits the text as a text with a cursor is edited: whatever keys a focused notepad receives, other than the one that
  saves, the text before the cursor grows by the printable characters and line ends typed, up to 2048 bytes in all,
  shrinks by backspace, the text after it stays, and the buffer remains terminated and within its bounds; the file
  system is not touched.\<close>

theorem notepad_typing:
  assumes "notepad_ok n" "window_visible (np_window n)" "wfocused (np_window n)" "GUI_KEY_CTRL_S \<notin> set ks"
  shows "\<exists>n'. foldl (\<lambda>s key. s \<bind> notepad_handle_key bd key) (Some (n, fs)) ks = Some (n', fs) \<and> notepad_ok n' \<and> halves n' = fold edit ks (halves n)"
  using assms
proof (induction ks arbitrary: n)
  case (Cons key ks)
  then obtain n' where "notepad_handle_key bd key (n, fs) = Some (n', fs)" "notepad_ok n'" "halves n' = edit key (halves n)" "np_window n' = np_window n"
    using handle_key_edits [of n key bd fs] by auto
  then show ?case using Cons.IH [of n'] Cons.prems by simp
qed simp

definition blank_notepad :: notepad_app where
  "blank_notepad = notepad_show 1 \<lparr>np_window = \<lparr>wx = 0, wy = 0, ww = 248, wh = 160, restore_x = 0, restore_y = 0, restore_w = 248, restore_h = 160,
     wopen = False, wfocused = False, wmode = Normal, wz = 0\<rparr>,
     np_path = replicate 32 0, np_buffer = replicate 2049 0, np_length = 0, np_cursor = 0, np_dirty = False, np_last_save_ok = False\<rparr>"

theorem notepad_typing_witness:
  "\<forall>bd fs. \<exists>n'. foldl (\<lambda>s key. s \<bind> notepad_handle_key bd key) (Some (blank_notepad, fs)) [72, 106, 8, 105, 10, 200] = Some (n', fs)
     \<and> notepad_ok n' \<and> halves n' = ([72, 105, 10], [])"
proof (intro allI)
  fix bd :: "'a blockdev" and fs
  have ok: "notepad_ok blank_notepad" "window_visible (np_window blank_notepad)" "wfocused (np_window blank_notepad)" "GUI_KEY_CTRL_S \<notin> set [72, 106, 8, 105, 10, 200]"
    by (simp_all add: blank_notepad_def notepad_show_def notepad_focus_def focus_window_def notepad_ok_def window_visible_def)
  have "fold edit [72, 106, 8, 105, 10, 200] (halves blank_notepad) = ([72, 105, 10], [])"
    by (simp add: blank_notepad_def notepad_show_def notepad_focus_def halves_def)
  then show "\<exists>n'. foldl (\<lambda>s key. s \<bind> notepad_handle_key bd key) (Some (blank_notepad, fs)) [72, 106, 8, 105, 10, 200] = Some (n', fs)
     \<and> notepad_ok n' \<and> halves n' = ([72, 105, 10], [])"
    using notepad_typing [OF ok, of bd fs] by simp
qed

section \<open>Saving, opening and the window\<close>

text \<open>Saving hands the file system exactly the text, and marks it saved only when that succeeds.\<close>

lemma notepad_save_result:
  "notepad_save bd (n, fs) = Some (n', fs') \<longleftrightarrow>
     (\<exists>ok. diskfs_write_file bd (Some (np_path n)) (Some (np_buffer n)) (of_nat (np_length n)) fs = Some (ok, fs')
        \<and> n' = n\<lparr>np_last_save_ok := ok, np_dirty := np_dirty n \<and> \<not> ok\<rparr>)"
  by (auto simp: notepad_save_def Let_def split: bind_splits)

text \<open>Opening a file shows its content with the cursor at the end, in a focused window.\<close>

lemma notepad_open_file_text:
  assumes "notepad_ok n" "diskfs_read_file bd (Some path) fs = (Some (data, sz), fs')" "sz \<le> BUFFER_SIZE" "sz \<le> length data"
  shows "\<exists>n'. notepad_open_file bd path M z (n, fs) = (True, n', fs') \<and> notepad_ok n' \<and> halves n' = (take sz data, []) \<and> window_visible (np_window n')
    \<and> wfocused (np_window n') \<and> wz (np_window n') = z \<and> \<not> np_dirty n'"
  using assms
  by (auto simp: notepad_open_file_def notepad_show_def notepad_focus_def focus_window_def notepad_place_def notepad_set_path_def notepad_ok_def halves_def
      window_visible_def Let_def nth_append min_def)

lemma notepad_default_on_desktop: "metrics_ok M \<Longrightarrow> on_desktop M (window_rect (notepad_default_geometry M w))"
proof -
  assume M: "metrics_ok M"
  note s = screen_bounds [OF M] screen_bar [OF M] screen_sizes [OF M] screen_centre [OF M]
  have [simp]: "640 \<le> mwidth M \<longleftrightarrow> 640 \<le> scr_w M" "480 \<le> mheight M \<longleftrightarrow> 480 \<le> scr_h M" "260 < mheight M \<longleftrightarrow> 260 < scr_h M"
    by (simp_all add: word_le_def word_less_def)
  show ?thesis
    by (cases "640 \<le> scr_w M"; cases "480 \<le> scr_h M"; cases "260 < scr_h M")
       (use s in \<open>simp_all add: notepad_default_geometry_def placement_defs Let_def\<close>)
qed

end
