(* ===== verification/Gui_Utilities.thy ===== *)
theory Gui_Utilities
  imports Gui_Windows Usermode Heap
begin

text \<open>The file explorer, the system monitor and the about box, \<open>src/kernel/gui/apps/utility_apps.cpp\<close>: three kinds of one window class.
  The monitor shows counters of the kernel, which drawing reads from the state of the components.\<close>

section \<open>Model\<close>

datatype utility_kind = KindFiles | KindMonitor | KindAbout

record utility_app =
  ut_kind :: utility_kind
  ut_window :: window

definition utility_title :: "utility_app \<Rightarrow> string" where
  "utility_title u = (if ut_kind u = KindFiles then ''FILE EXPLORER'' else if ut_kind u = KindMonitor then ''SYSTEM MONITOR'' else ''ABOUT MYOS'')"

definition utility_default_geometry :: "metrics \<Rightarrow> utility_kind \<Rightarrow> window \<Rightarrow> window" where
  "utility_default_geometry metrics kind w =
     (let w = w\<lparr>ww := if mwidth metrics \<ge> 640 then 360 else 230, wh := if mheight metrics \<ge> 480 then 260 else 150\<rparr>;
          w = (if ww w > sint (mwidth metrics) - 12 then w\<lparr>ww := sint (mwidth metrics) - 12\<rparr> else w);
          w = (if wh w > sint (mheight metrics) - sint (taskbar_h metrics) - 12 then w\<lparr>wh := sint (mheight metrics) - sint (taskbar_h metrics) - 12\<rparr> else w);
          w = (if ww w < WINDOW_MIN_W then w\<lparr>ww := WINDOW_MIN_W\<rparr> else w);
          w = (if wh w < WINDOW_MIN_H then w\<lparr>wh := WINDOW_MIN_H\<rparr> else w);
          offset = (if kind = KindFiles then - 36 else if kind = KindMonitor then 16 else 56);
          w = w\<lparr>wx := sint ((mwidth metrics - word_of_int (ww w)) div 2) + offset,
                wy := if mheight metrics > 260 then 58 + offset div 4 else 30\<rparr>;
          w = (if wx w < 4 then w\<lparr>wx := 4\<rparr> else w)
      in if wy w < 4 then w\<lparr>wy := 4\<rparr> else w)"

definition utility_initialize :: "utility_kind \<Rightarrow> metrics \<Rightarrow> utility_app \<Rightarrow> utility_app" where
  "utility_initialize kind metrics u =
     u\<lparr>ut_kind := kind, ut_window := (save_geometry (utility_default_geometry metrics kind (ut_window u)))
         \<lparr>wopen := False, wfocused := False, wmode := Normal, wz := 0\<rparr>\<rparr>"

definition utility_focus :: "u32 \<Rightarrow> utility_app \<Rightarrow> utility_app" where
  "utility_focus z u = u\<lparr>ut_window := focus_window z (ut_window u)\<rparr>"

definition utility_open_window :: "metrics \<Rightarrow> u32 \<Rightarrow> utility_app \<Rightarrow> utility_app" where
  "utility_open_window metrics z u =
     utility_focus z
       (if \<not> wopen (ut_window u)
        then u\<lparr>ut_window := save_geometry (utility_default_geometry metrics (ut_kind u) ((ut_window u)\<lparr>wopen := True, wmode := Normal\<rparr>))\<rparr>
        else u)"

definition utility_close :: "utility_app \<Rightarrow> utility_app" where
  "utility_close u = u\<lparr>ut_window := close_window (ut_window u)\<rparr>"

definition utility_minimize :: "utility_app \<Rightarrow> utility_app" where
  "utility_minimize u = u\<lparr>ut_window := minimize_window (ut_window u)\<rparr>"

definition utility_toggle_maximize :: "metrics \<Rightarrow> u32 \<Rightarrow> utility_app \<Rightarrow> utility_app" where
  "utility_toggle_maximize metrics z u = u\<lparr>ut_window := maximize_window metrics z (ut_window u)\<rparr>"

section \<open>Drawing\<close>

definition utility_draw_chrome :: "graphics_surface \<Rightarrow> utility_app \<Rightarrow> mem \<Rightarrow> mem" where
  "utility_draw_chrome s u m =
     (let w = ut_window u
      in graphics_fill_rect (Some s) (word_of_int (wx w + 6)) (word_of_int (wy w + TITLEBAR_H + 5)) (word_of_int (ww w - 12)) (word_of_int (wh w - TITLEBAR_H - 12)) 0x00FFFFFF
           (draw_frame s w (utility_title u) m))"

definition draw_u32 :: "graphics_surface \<Rightarrow> int \<Rightarrow> int \<Rightarrow> string \<Rightarrow> u32 \<Rightarrow> mem \<Rightarrow> mem" where
  "draw_u32 s x y label v m =
     graphics_draw_string (Some s) (word_of_int (x + 108)) (word_of_int y) (u32_to_dec v 16) COLOR_ACCENT_DARK 0x00FFFFFF
       (graphics_draw_string (Some s) (word_of_int x) (word_of_int y) (Diskfs.ascii label) COLOR_TEXT_DARK 0x00FFFFFF m)"

definition has_suffix :: "u8 list \<Rightarrow> u8 list \<Rightarrow> bool" where
  "has_suffix name suffix =
     (let name = cstr name; suffix = cstr suffix
      in if length suffix > length name then False
         else list_all (\<lambda>i. name ! (length name - length suffix + i) = suffix ! i) [0..<length suffix])"

definition file_icon_label :: "u8 list \<Rightarrow> string" where
  "file_icon_label name =
     (if has_suffix name (Diskfs.ascii ''.elf'') then ''ELF''
      else if has_suffix name (Diskfs.ascii ''.mx'') then ''MX''
      else if has_suffix name (Diskfs.ascii ''.myimg'') then ''MYIMG''
      else if has_suffix name (Diskfs.ascii ''.txt'') \<or> has_suffix name (Diskfs.ascii ''/motd'') then ''TXT''
      else ''FILE'')"

fun draw_file_rows :: "graphics_surface \<Rightarrow> window \<Rightarrow> 'd diskfs \<Rightarrow> nat \<Rightarrow> nat \<Rightarrow> int \<Rightarrow> mem \<Rightarrow> mem" where
  "draw_file_rows s w fs i 0 y m = m"
| "draw_file_rows s w fs i (Suc n) y m =
     (if \<not> y < wy w + wh w - 12 then m
      else let x = wx w + 14; name = diskfs_file_name i fs; bg = (if i mod 2 = 0 then 0x00EEF3F8 else 0x00FFFFFF);
               m = graphics_fill_rect (Some s) (word_of_int (x - 4)) (word_of_int (y - 2)) (word_of_int (ww w - 28)) 11 bg m;
               m = graphics_draw_string (Some s) (word_of_int x) (word_of_int y) (Diskfs.ascii (file_icon_label name)) COLOR_ACCENT_DARK bg m;
               m = graphics_draw_string (Some s) (word_of_int (x + 38)) (word_of_int y) name COLOR_TEXT_DARK bg m
           in draw_file_rows s w fs (Suc i) n (y + 12) m)"

definition utility_draw_files :: "graphics_surface \<Rightarrow> utility_app \<Rightarrow> 'd diskfs \<Rightarrow> mem \<Rightarrow> mem" where
  "utility_draw_files s u fs m =
     (let w = ut_window u; x = wx w + 14; y = wy w + TITLEBAR_H + 14;
          m = graphics_draw_string (Some s) (word_of_int x) (word_of_int y) (Diskfs.ascii ''DISKFS FILES'') COLOR_ACCENT_DARK 0x00FFFFFF m
      in draw_file_rows s w fs 0 (diskfs_file_count fs) (y + 14) m)"

definition file_row :: "window \<Rightarrow> nat \<Rightarrow> rect" where
  "file_row w i = mk_rect (wx w + 10) (wy w + TITLEBAR_H + 26 + int i * 12) (ww w - 28) 11"

definition file_index_at :: "int \<Rightarrow> int \<Rightarrow> 'd diskfs \<Rightarrow> utility_app \<Rightarrow> nat option" where
  "file_index_at x y fs u =
     (if ut_kind u \<noteq> KindFiles \<or> \<not> window_visible (ut_window u) then None
      else find (\<lambda>i. rect_contains (file_row (ut_window u) i) x y) [0..<diskfs_file_count fs])"

definition utility_draw_monitor :: "graphics_surface \<Rightarrow> utility_app \<Rightarrow> heap \<Rightarrow> ('d, 'x) kernel_scheme \<Rightarrow> mem \<Rightarrow> mem option" where
  "utility_draw_monitor s u h k m =
     (let w = ut_window u; x = wx w + 14; y = wy w + TITLEBAR_H + 16;
          m = draw_u32 s x y ''UPTIME'' (timer_uptime_seconds (ktimer k)) m;
          m = draw_u32 s x (y + 14) ''TICKS'' (ticks (ktimer k)) m;
          m = draw_u32 s x (y + 28) ''FREE PAGES'' (pmm_free_pages (ppmm (kpaging k))) m;
          m = draw_u32 s x (y + 42) ''HEAP FREE'' (heap_free_bytes h) m;
          m = draw_u32 s x (y + 56) ''SWITCHES'' (switches (ksched k)) m;
          m = draw_u32 s x (y + 70) ''PROCESSES'' (user_process_count k) m
      in do { (errs, _) \<leftarrow> diskfs_fsck True 48 (kfs k); Some (draw_u32 s x (y + 84) ''FSCK ERR'' errs m) })"

definition utility_draw_about :: "graphics_surface \<Rightarrow> utility_app \<Rightarrow> mem \<Rightarrow> mem" where
  "utility_draw_about s u m =
     (let x = word_of_int (wx (ut_window u) + 14); y = wy (ut_window u) + TITLEBAR_H + 16;
          m = graphics_draw_string (Some s) x (word_of_int y) (Diskfs.ascii ''MYOS DESKTOP'') COLOR_ACCENT_DARK 0x00FFFFFF m;
          m = graphics_draw_string (Some s) x (word_of_int (y + 16)) (Diskfs.ascii ''FREESTANDING C++ GUI'') COLOR_TEXT_DARK 0x00FFFFFF m;
          m = graphics_draw_string (Some s) x (word_of_int (y + 28)) (Diskfs.ascii ''WINDOW MANAGER + APPS'') COLOR_TEXT_DARK 0x00FFFFFF m
      in graphics_draw_string (Some s) x (word_of_int (y + 40)) (Diskfs.ascii ''DISKFS, MONITOR, TERMINAL'') COLOR_TEXT_DARK 0x00FFFFFF m)"

definition utility_draw :: "graphics_surface \<Rightarrow> utility_app \<Rightarrow> heap \<Rightarrow> ('d, 'x) kernel_scheme \<Rightarrow> mem \<Rightarrow> mem option" where
  "utility_draw s u h k m =
     (if \<not> window_visible (ut_window u) then Some m
      else let m = utility_draw_chrome s u m
           in case ut_kind u of
                KindFiles \<Rightarrow> Some (utility_draw_files s u (kfs k) m)
              | KindMonitor \<Rightarrow> utility_draw_monitor s u h k m
              | KindAbout \<Rightarrow> Some (utility_draw_about s u m))"

section \<open>Properties\<close>

lemma has_suffix_iff: "has_suffix name suffix \<longleftrightarrow> (\<exists>p. cstr name = p @ cstr suffix)"
proof -
  have "list_all (\<lambda>i. n ! (length n - length s + i) = s ! i) [0..<length s] \<longleftrightarrow> (\<exists>p. n = p @ s)" if "length s \<le> length n" for n s :: "u8 list"
  proof
    assume *: "list_all (\<lambda>i. n ! (length n - length s + i) = s ! i) [0..<length s]"
    have "drop (length n - length s) n = s" using * that by (intro nth_equalityI) (auto simp: list_all_iff)
    then show "\<exists>p. n = p @ s" by (metis append_take_drop_id)
  qed (auto simp: list_all_iff nth_append)
  then show ?thesis by (auto simp: has_suffix_def Let_def not_less)
qed

lemma find_unique:
  fixes n :: nat
  assumes "\<And>i j. P i \<Longrightarrow> P j \<Longrightarrow> i = j" shows "find P [0..<n] = Some i \<longleftrightarrow> i < n \<and> P i"
proof
  assume i: "i < n \<and> P i"
  have "\<not> P j" if "j < i" for j using assms [of j i] i that by blast
  then show "find P [0..<n] = Some i" unfolding find_Some_iff using i by (intro exI [of _ i]) simp
qed (auto simp: find_Some_iff)

text \<open>The explorer's rows are disjoint, so a point selects the file whose row it is on.\<close>

lemma file_index_at_row:
  assumes "ut_kind u = KindFiles" "window_visible (ut_window u)"
  shows "file_index_at x y fs u = Some i \<longleftrightarrow> i < diskfs_file_count fs \<and> rect_contains (file_row (ut_window u) i) x y"
proof -
  have "i = j" if "rect_contains (file_row (ut_window u) i) x y" "rect_contains (file_row (ut_window u) j) x y" for i j
    using that by (simp add: rect_contains_def file_row_def mk_rect_def)
  from find_unique [OF this] show ?thesis using assms by (simp add: file_index_at_def)
qed

lemma utility_default_on_desktop: "metrics_ok M \<Longrightarrow> on_desktop M (window_rect (utility_default_geometry M kind w))"
proof -
  assume M: "metrics_ok M"
  note b = screen_bounds [OF M] and s = screen_sizes [OF M] screen_bar [OF M]
  define W H w0 h0 k where "W = scr_w M" and "H = scr_h M" and "w0 = (if 640 \<le> W then 360 else 230 :: int)" and "h0 = (if 480 \<le> H then 260 else 150 :: int)"
    and "k = (if kind = KindFiles then - 36 else if kind = KindMonitor then 16 else 56 :: int)"
  have c: "640 \<le> mwidth M \<longleftrightarrow> 640 \<le> W" "480 \<le> mheight M \<longleftrightarrow> 480 \<le> H" "260 < mheight M \<longleftrightarrow> 260 < H"
    by (simp_all add: word_le_def word_less_def W_def H_def)
  have d: "w0 \<le> W - 12" "168 \<le> w0" "h0 \<le> H - uint (taskbar_h M) - 12" "82 \<le> h0" using b s by (auto simp: W_def H_def w0_def h0_def)
  define q X Y where "q = (W - w0) div 2" and "X = (if q + k < 4 then 4 else q + k)"
    and "Y = (let y = if 260 < H then 58 + k div 4 else 30 in if y < 4 then 4 else y)"
  have q: "sint ((mwidth M - word_of_int w0) div 2) = q" using screen_centre [OF M, of w0] d by (simp add: W_def q_def)
  have n: "\<not> w0 > W - 12" "\<not> w0 < 168" "\<not> h0 > H - uint (taskbar_h M) - 12" "\<not> h0 < 82" using d by simp_all
  have e: "sint (mwidth M) = W" "sint (mheight M) = H" "sint (taskbar_h M) = uint (taskbar_h M)" using s by (simp_all add: W_def H_def)
  have "window_rect (utility_default_geometry M kind w) = mk_rect X Y w0 h0"
    unfolding utility_default_geometry_def c e Let_def w0_def [symmetric] h0_def [symmetric] k_def [symmetric]
    by (simp add: n q window_rect_def X_def Y_def)
  moreover have k: "- 36 \<le> k" "k \<le> 56" "- 9 \<le> k div 4" "k div 4 \<le> 14" by (simp_all add: k_def)
  moreover have l: "w0 + 112 \<le> W" "(if 260 < H then 72 else 30) + h0 \<le> H - uint (taskbar_h M)" using b s by (auto simp: W_def H_def w0_def h0_def)
  moreover have "56 \<le> q" "2 * q \<le> W - w0" using l(1) by (simp_all add: q_def)
  then have "0 \<le> X" "X + w0 \<le> W" using k(1,2) by (simp_all add: X_def)
  moreover have "0 \<le> Y" "Y + h0 \<le> H - uint (taskbar_h M)" using k(3,4) l(2) by (simp_all add: Y_def split: if_splits)
  ultimately show ?thesis using d s by (simp add: on_desktop_def mk_rect_def W_def H_def)
qed

end
