(* ===== verification/Gui_Terminal.thy ===== *)
theory Gui_Terminal
  imports Gui_Windows
begin

text \<open>The terminal window, \<open>src/kernel/gui/apps/terminal.cpp\<close>: a scroll-back of 96 lines of 160 characters, a line being typed, and the
  last eight commands. The characters are a function of the line and the column, since every access of the code is inside
  the array; line and column numbers are natural numbers. The commands, which call on the rest of the kernel, are
  not modelled.\<close>

section \<open>Model\<close>

abbreviation (input) COLS :: nat where "COLS \<equiv> 160"
abbreviation (input) HISTORY_ROWS :: nat where "HISTORY_ROWS \<equiv> 96"
abbreviation (input) COMMAND_SIZE :: nat where "COMMAND_SIZE \<equiv> 96"
abbreviation (input) COMMAND_HISTORY :: nat where "COMMAND_HISTORY \<equiv> 8"

record terminal_app =
  tm_window :: window
  tm_lines :: "nat \<Rightarrow> nat \<Rightarrow> u8"
  line_count :: nat
  tm_col :: nat
  tm_scroll :: nat
  command_line :: "u8 list"
  command_len :: nat
  command_history :: "u8 list list"
  command_history_count :: u32
  command_history_index :: int

definition text_cols :: "terminal_app \<Rightarrow> nat" where
  "text_cols t =
     (if ww (tm_window t) \<le> 18 then 1
      else let cols = nat ((ww (tm_window t) - 16) div 6); cols = (if cols > COLS then COLS else cols)
           in if cols = 0 then 1 else cols)"

definition visible_rows :: "terminal_app \<Rightarrow> nat" where
  "visible_rows t =
     (if wh (tm_window t) < TITLEBAR_H + 18 then 1
      else let rows = nat ((wh (tm_window t) - TITLEBAR_H - 12) div 8) in if rows = 0 then 1 else rows)"

definition clear_buffer :: "terminal_app \<Rightarrow> terminal_app" where
  "clear_buffer t =
     t\<lparr>tm_lines := (\<lambda>y x. if y < HISTORY_ROWS \<and> x < COLS then 32 else if y < HISTORY_ROWS \<and> x = COLS then 0 else tm_lines t y x),
       line_count := 1, tm_col := 0, tm_scroll := 0\<rparr>"

definition newline :: "terminal_app \<Rightarrow> terminal_app" where
  "newline t =
     (let t = t\<lparr>tm_col := 0\<rparr>
      in if line_count t < HISTORY_ROWS
         then t\<lparr>line_count := line_count t + 1,
                tm_lines := (\<lambda>y x. if y = line_count t \<and> x < COLS then 32 else tm_lines t y x)\<rparr>
         else t\<lparr>tm_lines := (\<lambda>y x. if x < COLS \<and> y < HISTORY_ROWS - 1 then tm_lines t (y + 1) x
                               else if x < COLS \<and> y = HISTORY_ROWS - 1 then 32 else tm_lines t y x)\<rparr>)"

definition set_char :: "nat \<Rightarrow> nat \<Rightarrow> u8 \<Rightarrow> terminal_app \<Rightarrow> terminal_app" where
  "set_char row col c t = t\<lparr>tm_lines := (tm_lines t)(row := (tm_lines t row)(col := c))\<rparr>"

definition write_char :: "u8 \<Rightarrow> terminal_app \<Rightarrow> terminal_app" where
  "write_char c t =
     (if c = 10 then newline t
      else if c = 8 then
        if tm_col t > 0 then let t = t\<lparr>tm_col := tm_col t - 1\<rparr> in set_char (line_count t - 1) (tm_col t) 32 t else t
      else if c < 32 \<or> c > 126 then t
      else let cols = text_cols t;
               t = (if tm_col t \<ge> cols then newline t else t);
               t = set_char (line_count t - 1) (tm_col t) c t;
               t = t\<lparr>tm_col := tm_col t + 1\<rparr>
           in if tm_col t \<ge> cols then newline t else t)"

definition tm_write :: "u8 list \<Rightarrow> terminal_app \<Rightarrow> terminal_app" where
  "tm_write data t =
     (let t = (if line_count t = 0 then t\<lparr>line_count := 1\<rparr> else t) in (fold write_char (cstr data) t)\<lparr>tm_scroll := 0\<rparr>)"

definition push_history :: "u8 list \<Rightarrow> terminal_app \<Rightarrow> terminal_app" where
  "push_history line t =
     (let data = take (COMMAND_SIZE - 1) (cstr line); slot = unat (command_history_count t mod of_nat COMMAND_HISTORY)
      in if data = [] then t
         else t\<lparr>command_history := (command_history t)[slot := data @ 0 # drop (Suc (length data)) (command_history t ! slot)],
                command_history_count := command_history_count t + 1, command_history_index := - 1\<rparr>)"

definition terminal_default_geometry :: "metrics \<Rightarrow> window \<Rightarrow> window" where
  "terminal_default_geometry metrics w =
     (let w = w\<lparr>ww := if mwidth metrics > 96 then sint (mwidth metrics - 96) else 244,
                wh := if mheight metrics > 140 then sint (mheight metrics - taskbar_h metrics - 74) else 134\<rparr>;
          w = (if ww w > 640 then w\<lparr>ww := 640\<rparr> else w);
          w = (if wh w > 360 then w\<lparr>wh := 360\<rparr> else w);
          w = (if ww w < WINDOW_MIN_W then w\<lparr>ww := WINDOW_MIN_W\<rparr> else w);
          w = (if wh w < 134 then w\<lparr>wh := 134\<rparr> else w);
          w = (if word_of_int (ww w) > mwidth metrics - 8 then w\<lparr>ww := sint (mwidth metrics) - 8\<rparr> else w);
          w = (if word_of_int (wh w) > mheight metrics - taskbar_h metrics - 8 then w\<lparr>wh := sint (mheight metrics - taskbar_h metrics - 8)\<rparr> else w)
      in w\<lparr>wx := sint ((mwidth metrics - word_of_int (ww w)) div 2), wy := if mheight metrics > 260 then 42 else 26\<rparr>)"

definition terminal_app_initialize :: "metrics \<Rightarrow> terminal_app \<Rightarrow> terminal_app" where
  "terminal_app_initialize metrics t =
     clear_buffer (t\<lparr>tm_window := (save_geometry (terminal_default_geometry metrics (tm_window t)))
         \<lparr>wopen := False, wfocused := False, wmode := Normal, wz := 0\<rparr>,
       command_len := 0, command_history_count := 0, command_history_index := - 1\<rparr>)"

definition terminal_focus :: "u32 \<Rightarrow> terminal_app \<Rightarrow> terminal_app" where
  "terminal_focus z t = t\<lparr>tm_window := focus_window z (tm_window t)\<rparr>"

definition banner :: "u8 list list" where
  "banner = [Diskfs.ascii ''MyOS GUI terminal'' @ [10], Diskfs.ascii ''Commands are framebuffer-rendered.'' @ [10],
     Diskfs.ascii ''Drag title, resize corner, use _ M X.'' @ [10], Diskfs.ascii ''myos> '']"

definition terminal_open_window :: "metrics \<Rightarrow> u32 \<Rightarrow> terminal_app \<Rightarrow> terminal_app" where
  "terminal_open_window metrics z t =
     (if \<not> wopen (tm_window t)
      then let w = (tm_window t)\<lparr>wopen := True, wfocused := True, wmode := Normal\<rparr>;
               w = (save_geometry (terminal_default_geometry metrics w))\<lparr>wz := z\<rparr>
           in fold tm_write banner (clear_buffer (t\<lparr>tm_window := w, command_len := 0, command_history_index := - 1\<rparr>))
      else terminal_focus z (if wmode (tm_window t) = Minimized then t\<lparr>tm_window := (tm_window t)\<lparr>wmode := Normal\<rparr>\<rparr> else t))"

definition terminal_minimize :: "terminal_app \<Rightarrow> terminal_app" where
  "terminal_minimize t = t\<lparr>tm_window := minimize_window (tm_window t)\<rparr>"

definition terminal_toggle_maximize :: "metrics \<Rightarrow> u32 \<Rightarrow> terminal_app \<Rightarrow> terminal_app" where
  "terminal_toggle_maximize metrics z t = t\<lparr>tm_window := maximize_window metrics z (tm_window t)\<rparr>"

definition terminal_close :: "terminal_app \<Rightarrow> terminal_app" where
  "terminal_close t = t\<lparr>tm_window := close_window (tm_window t), command_len := 0\<rparr>"

definition terminal_scroll_by :: "int \<Rightarrow> terminal_app \<Rightarrow> terminal_app" where
  "terminal_scroll_by delta t =
     (if delta > 0 then
        if tm_scroll t + nat delta < line_count t then t\<lparr>tm_scroll := tm_scroll t + nat delta\<rparr>
        else t\<lparr>tm_scroll := if line_count t > 0 then line_count t - 1 else 0\<rparr>
      else if delta < 0 then
        let amount = nat (- delta) in t\<lparr>tm_scroll := if amount > tm_scroll t then 0 else tm_scroll t - amount\<rparr>
      else t)"

definition terminal_hit :: "int \<Rightarrow> int \<Rightarrow> terminal_app \<Rightarrow> bool" where
  "terminal_hit x y t \<longleftrightarrow> window_visible (tm_window t) \<and> rect_contains (window_rect (tm_window t)) x y"

text \<open>One character typed or recalled into the command line.\<close>

definition type_char :: "u8 \<Rightarrow> terminal_app \<Rightarrow> terminal_app" where
  "type_char c t = tm_write [c] (t\<lparr>command_line := (command_line t)[command_len t := c], command_len := command_len t + 1\<rparr>)"

definition erase_char :: "terminal_app \<Rightarrow> terminal_app" where
  "erase_char t = (if command_len t > 0 then tm_write [8] (t\<lparr>command_len := command_len t - 1\<rparr>) else t)"

definition recall_history :: "int \<Rightarrow> terminal_app \<Rightarrow> terminal_app" where
  "recall_history delta t =
     (if command_history_count t = 0 then t
      else let kept = (if command_history_count t < of_nat COMMAND_HISTORY then uint (command_history_count t) else int COMMAND_HISTORY);
               index = (if command_history_index t < 0 then kept - 1 else command_history_index t + delta);
               most = kept - 1;
               index = (if index < 0 then 0 else index);
               index = (if index > most then most else index);
               t = (erase_char ^^ command_len t) (t\<lparr>command_history_index := index\<rparr>);
               slot = unat ((command_history_count t - 1 - word_of_int (most - index)) mod of_nat COMMAND_HISTORY)
           in fold type_char (take (COMMAND_SIZE - 1) (cstr (command_history t ! slot))) t)"

section \<open>Drawing\<close>

fun draw_term_row :: "graphics_surface \<Rightarrow> window \<Rightarrow> nat \<Rightarrow> (nat \<Rightarrow> u8) \<Rightarrow> nat \<Rightarrow> mem \<Rightarrow> mem" where
  "draw_term_row s w row chars 0 m = m"
| "draw_term_row s w row chars (Suc n) m =
     graphics_draw_char (Some s) (word_of_int (wx w) + 8 + of_nat n * 6) (word_of_int (wy w) + word_of_int TITLEBAR_H + 6 + of_nat row * 8)
       (chars n) COLOR_TERMINAL_FG COLOR_TERMINAL_BG (draw_term_row s w row chars n m)"

fun draw_term_rows :: "graphics_surface \<Rightarrow> terminal_app \<Rightarrow> nat \<Rightarrow> nat \<Rightarrow> nat \<Rightarrow> mem \<Rightarrow> mem" where
  "draw_term_rows s t start row 0 m = m"
| "draw_term_rows s t start row (Suc n) m =
     (if start + row \<ge> line_count t then m
      else draw_term_rows s t start (Suc row) n (draw_term_row s (tm_window t) row (tm_lines t (start + row)) (text_cols t) m))"

definition terminal_draw :: "graphics_surface \<Rightarrow> u32 \<Rightarrow> terminal_app \<Rightarrow> mem \<Rightarrow> mem" where
  "terminal_draw s timer_ticks t m =
     (if \<not> window_visible (tm_window t) then m
      else let win = tm_window t; x = word_of_int (wx win); y = word_of_int (wy win); w = word_of_int (ww win); h = word_of_int (wh win);
               m = draw_frame s win ''MYOS TERMINAL'' m;
               m = graphics_fill_rect (Some s) (x + 4) (y + word_of_int TITLEBAR_H + 3) (w - 8) (h - word_of_int TITLEBAR_H - 8) COLOR_TERMINAL_BG m;
               rows = visible_rows t;
               cols = text_cols t;
               max_start = (if line_count t > rows then line_count t - rows else 0);
               start = (if max_start > tm_scroll t then max_start - tm_scroll t else 0);
               m = draw_term_rows s t start 0 rows m;
               m = (if wfocused win \<and> (timer_ticks div 40) mod 2 = 0 \<and> tm_scroll t = 0
                    then let cursor_row = (if line_count t < rows then line_count t - 1 else rows - 1);
                             cursor_col = (if tm_col t < cols then tm_col t else cols - 1)
                         in graphics_fill_rect (Some s) (x + 8 + of_nat cursor_col * 6) (y + word_of_int TITLEBAR_H + 6 + of_nat cursor_row * 8 + 7) 5 1 COLOR_TERMINAL_FG m
                    else m);
               m = graphics_fill_rect (Some s) (x + w - 8) (y + h - 8) 7 7 0x00898F98 m
           in graphics_draw_string (Some s) (x + w - 8) (y + h - 9) (Diskfs.ascii ''/'') COLOR_TEXT_DARK 0x00898F98 m)"

section \<open>The scroll-back is the end of a transcript\<close>

definition blank_row :: "u8 list" where
  "blank_row = replicate COLS 32"

text \<open>The specification: every line ever written, and a column in the last one, with lines broken at \<open>cols\<close> characters.\<close>

fun term_put :: "nat \<Rightarrow> u8 \<Rightarrow> u8 list list \<times> nat \<Rightarrow> u8 list list \<times> nat" where
  "term_put cols c (ls, col) =
     (if c = 10 then (ls @ [blank_row], 0)
      else if c = 8 then if col > 0 then (butlast ls @ [(last ls)[col - 1 := 32]], col - 1) else (ls, col)
      else if c < 32 \<or> c > 126 then (ls, col)
      else let (ls, col) = (if col \<ge> cols then (ls @ [blank_row], 0) else (ls, col)); ls = butlast ls @ [(last ls)[col := c]]
           in if col + 1 \<ge> cols then (ls @ [blank_row], 0) else (ls, col + 1))"

definition scrollback :: "terminal_app \<Rightarrow> u8 list list" where
  "scrollback t = map (\<lambda>y. map (tm_lines t y) [0..<COLS]) [0..<line_count t]"

definition recent :: "'a list \<Rightarrow> 'a list" where
  "recent ls = drop (length ls - HISTORY_ROWS) ls"

fun shows_lines :: "terminal_app \<Rightarrow> u8 list list \<times> nat \<Rightarrow> bool" where
  "shows_lines t (ls, col) \<longleftrightarrow> ls \<noteq> [] \<and> scrollback t = recent ls \<and> tm_col t = col \<and> col < COLS \<and> 0 < line_count t \<and> line_count t \<le> HISTORY_ROWS"

lemma recent_snoc: "recent (ls @ [l]) = (if length (recent ls) < HISTORY_ROWS then recent ls else tl (recent ls)) @ [l]"
proof (cases "length ls < HISTORY_ROWS")
  case False
  then have "Suc (length ls) - HISTORY_ROWS = Suc (length ls - HISTORY_ROWS)" by simp
  then show ?thesis using False by (simp add: recent_def drop_Suc tl_drop)
qed (simp add: recent_def)

lemma recent_butlast: "ls \<noteq> [] \<Longrightarrow> recent (butlast ls @ [l]) = butlast (recent ls) @ [l]"
  by (simp add: recent_def butlast_drop [symmetric] Suc_diff_le flip: butlast_drop)

lemma recent_last: "ls \<noteq> [] \<Longrightarrow> recent ls \<noteq> [] \<and> last (recent ls) = last ls"
proof -
  assume "ls \<noteq> []"
  then have "length ls - HISTORY_ROWS < length ls" by (cases ls) auto
  then show ?thesis by (simp add: recent_def)
qed

lemma length_scrollback [simp]: "length (scrollback t) = line_count t"
  by (simp add: scrollback_def)

lemma blank_row_map: "map (\<lambda>x. if x < COLS then 32 else f x) [0..<COLS] = blank_row"
  by (rule nth_equalityI) (simp_all add: blank_row_def del: upt_rec_numeral)

lemma scrollback_newline:
  assumes "0 < line_count t" "line_count t \<le> HISTORY_ROWS"
  shows "scrollback (newline t) = (if line_count t < HISTORY_ROWS then scrollback t else tl (scrollback t)) @ [blank_row]"
proof (cases "line_count t < HISTORY_ROWS")
  case True
  then show ?thesis by (auto simp: scrollback_def newline_def Let_def blank_row_map simp del: upt_rec_numeral)
next
  case False
  then have c: "line_count t = HISTORY_ROWS" using assms by simp
  then have "scrollback (newline t) = map (\<lambda>y. map (tm_lines t (Suc y)) [0..<COLS]) [0..<95] @ [blank_row]"
    using blank_row_map by (simp add: scrollback_def newline_def Let_def upt_Suc_append [of 0 95, simplified] del: upt_rec_numeral)
  moreover have "tl (scrollback t) = map (\<lambda>y. map (tm_lines t (Suc y)) [0..<COLS]) [0..<95]"
    using c by (intro nth_equalityI) (simp_all add: scrollback_def nth_tl del: upt_rec_numeral)
  ultimately show ?thesis using c by simp
qed

lemma scrollback_set_char:
  assumes "0 < line_count t" "col < COLS"
  shows "scrollback (set_char (line_count t - 1) col c t) = butlast (scrollback t) @ [(last (scrollback t))[col := c]]"
proof -
  obtain n where n: "line_count t = Suc n" using assms by (cases "line_count t") auto
  have "map ((tm_lines t n)(col := c)) [0..<COLS] = (map (tm_lines t n) [0..<COLS])[col := c]"
    using assms(2) by (intro nth_equalityI) (auto simp: nth_list_update simp del: upt_rec_numeral)
  moreover have "map (\<lambda>y. map (((tm_lines t)(n := (tm_lines t n)(col := c))) y) [0..<COLS]) [0..<n] = map (\<lambda>y. map (tm_lines t y) [0..<COLS]) [0..<n]"
    by (simp del: upt_rec_numeral)
  ultimately show ?thesis using n by (simp add: scrollback_def set_char_def del: upt_rec_numeral)
qed

lemma newline_fields [simp]: "tm_col (newline t) = 0" "tm_window (newline t) = tm_window t"
    "0 < line_count (newline t)" "line_count t \<le> HISTORY_ROWS \<Longrightarrow> line_count (newline t) \<le> HISTORY_ROWS"
  by (auto simp: newline_def Let_def)

lemma set_char_fields [simp]: "tm_col (set_char y x c t) = tm_col t" "tm_window (set_char y x c t) = tm_window t" "line_count (set_char y x c t) = line_count t"
  by (simp_all add: set_char_def)

lemma scrollback_cong [simp]: "scrollback (t\<lparr>tm_col := c\<rparr>) = scrollback t" "scrollback (t\<lparr>tm_scroll := n\<rparr>) = scrollback t"
  by (simp_all add: scrollback_def)

lemma shows_newline: "shows_lines t (ls, col) \<Longrightarrow> shows_lines (newline t) (ls @ [blank_row], 0)"
  by (auto simp: scrollback_newline recent_snoc simp flip: length_scrollback)

lemma shows_set_char:
  assumes "shows_lines t (ls, col)" "x < COLS"
  shows "shows_lines (set_char (line_count t - 1) x c t) (butlast ls @ [(last ls)[x := c]], col)"
  using assms recent_last [of ls] scrollback_set_char [of t x c] by (auto simp: recent_butlast)

lemma write_char_window [simp]: "tm_window (write_char c t) = tm_window t"
  by (simp add: write_char_def Let_def)

lemma text_cols_bounds: "0 < text_cols t" "text_cols t \<le> COLS"
  by (auto simp: text_cols_def Let_def)

lemma text_cols_window: "tm_window t = tm_window t' \<Longrightarrow> text_cols t = text_cols t'"
  by (simp add: text_cols_def)

lemma shows_col: "shows_lines t (ls, col) \<Longrightarrow> x < COLS \<Longrightarrow> shows_lines (t\<lparr>tm_col := x\<rparr>) (ls, x)"
  by auto

lemma shows_write_char:
  assumes "shows_lines t T" shows "shows_lines (write_char c t) (term_put (text_cols t) c T)"
proof -
  obtain ls col where T: "T = (ls, col)" by fastforce
  have s: "shows_lines t (ls, col)" and col: "tm_col t = col" "col < COLS" using assms T by auto
  consider "c = 10" | "c = 8" | "c \<noteq> 10" "c \<noteq> 8" "c < 32 \<or> c > 126" | (put) "c \<noteq> 10" "c \<noteq> 8" "\<not> (c < 32 \<or> c > 126)" by blast
  then show ?thesis
  proof cases
    case put
    define t1 ls1 x where "t1 = (if tm_col t \<ge> text_cols t then newline t else t)" and "ls1 = (if col \<ge> text_cols t then ls @ [blank_row] else ls)"
      and "x = (if col \<ge> text_cols t then 0 else col)"
    have s1: "shows_lines t1 (ls1, x)" using s shows_newline [OF s] col by (auto simp: t1_def ls1_def x_def)
    have x: "x < text_cols t" "tm_col t1 = x" using col text_cols_bounds [of t] by (auto simp: t1_def x_def)
    then have "x < COLS" using text_cols_bounds(2) [of t] by linarith
    from shows_set_char [OF s1 this, of c]
    have s2: "shows_lines (set_char (line_count t1 - 1) x c t1) (butlast ls1 @ [(last ls1)[x := c]], x)" .
    show ?thesis
    proof (cases "x + 1 \<ge> text_cols t")
      case True
      have "shows_lines (newline (set_char (line_count t1 - 1) x c t1)) ((butlast ls1 @ [(last ls1)[x := c]]) @ [blank_row], 0)" by (rule shows_newline [OF s2])
      moreover have "newline ((set_char (line_count t1 - 1) x c t1)\<lparr>tm_col := x + 1\<rparr>) = newline (set_char (line_count t1 - 1) x c t1)" by (simp add: newline_def)
      moreover have "write_char c t = newline ((set_char (line_count t1 - 1) x c t1)\<lparr>tm_col := x + 1\<rparr>)"
        using put x True by (simp add: write_char_def Let_def t1_def)
      moreover have "term_put (text_cols t) c T = ((butlast ls1 @ [(last ls1)[x := c]]) @ [blank_row], 0)"
        using put True by (auto simp: T ls1_def x_def)
      ultimately show ?thesis by simp
    next
      case False
      then have "x + 1 < COLS" using text_cols_bounds(2) [of t] by linarith
      from shows_col [OF s2 this] have "shows_lines ((set_char (line_count t1 - 1) x c t1)\<lparr>tm_col := x + 1\<rparr>) (butlast ls1 @ [(last ls1)[x := c]], x + 1)" .
      moreover have "write_char c t = (set_char (line_count t1 - 1) x c t1)\<lparr>tm_col := x + 1\<rparr>"
        using put x False by (simp add: write_char_def Let_def t1_def)
      moreover have "term_put (text_cols t) c T = (butlast ls1 @ [(last ls1)[x := c]], x + 1)"
        using put False by (auto simp: T ls1_def x_def)
      ultimately show ?thesis by simp
    qed
  next
    case 2
    have "shows_lines (set_char (line_count t - 1) (col - 1) 32 (t\<lparr>tm_col := col - 1\<rparr>)) (butlast ls @ [(last ls)[col - 1 := 32]], col - 1)"
      using shows_set_char [OF shows_col [OF s, of "col - 1"], of "col - 1" 32] col by simp
    then show ?thesis using 2 s col by (simp add: write_char_def T Let_def)
  qed (use s shows_newline [OF s] in \<open>simp_all add: write_char_def T\<close>)
qed

lemma shows_scroll [simp]: "shows_lines (t\<lparr>tm_scroll := n\<rparr>) T = shows_lines t T"
  by (cases T) simp

lemma shows_write_chars: "shows_lines t T \<Longrightarrow> shows_lines (fold write_char cs t) (fold (term_put (text_cols t)) cs T) \<and> tm_window (fold write_char cs t) = tm_window t"
proof (induction cs arbitrary: t T)
  case (Cons c cs)
  then show ?case using Cons.IH [OF shows_write_char [OF Cons.prems, of c]] by (simp add: text_cols_window [of "write_char c t" t])
qed simp

lemma shows_tm_write:
  assumes "shows_lines t T" shows "shows_lines (tm_write s t) (fold (term_put (text_cols t)) (cstr s) T) \<and> tm_window (tm_write s t) = tm_window t"
  using shows_write_chars [OF assms, of "cstr s"] assms by (cases T) (simp add: tm_write_def)

text \<open>C21. The scroll-back of the terminal window is the end of a transcript: after any sequence of writes since it was cleared its lines
  are the last 96 of all the lines those texts make when they are broken at the width of the window, with backspace and
  line ends, and its column is the transcript's.\<close>

theorem terminal_scrollback:
  "scrollback (fold tm_write texts (clear_buffer t)) = recent (fst (fold (term_put (text_cols t)) (concat (map cstr texts)) ([blank_row], 0)))
   \<and> tm_col (fold tm_write texts (clear_buffer t)) = snd (fold (term_put (text_cols t)) (concat (map cstr texts)) ([blank_row], 0))"
proof -
  have clear: "shows_lines (clear_buffer t) ([blank_row], 0)"
    by (simp add: clear_buffer_def scrollback_def recent_def del: upt_rec_numeral) (rule nth_equalityI, simp_all add: blank_row_def del: upt_rec_numeral)
  have "shows_lines (fold tm_write texts u) (fold (term_put (text_cols u)) (concat (map cstr texts)) T)" if "shows_lines u T" for u T
    using that
  proof (induction texts arbitrary: u T)
    case (Cons s texts)
    have w: "shows_lines (tm_write s u) (fold (term_put (text_cols u)) (cstr s) T)" "text_cols (tm_write s u) = text_cols u"
      using shows_tm_write [OF Cons.prems, of s] text_cols_window by blast+
    show ?case using Cons.IH [OF w(1)] by (simp add: w(2))
  qed simp
  moreover have "text_cols (clear_buffer t) = text_cols t" by (rule text_cols_window) (simp add: clear_buffer_def)
  ultimately have "shows_lines (fold tm_write texts (clear_buffer t)) (fold (term_put (text_cols t)) (concat (map cstr texts)) ([blank_row], 0))"
    using clear by metis
  then show ?thesis by (cases "fold (term_put (text_cols t)) (concat (map cstr texts)) ([blank_row], 0)") simp
qed

section \<open>Command history\<close>

definition typed :: "terminal_app \<Rightarrow> u8 list" where
  "typed t = take (command_len t) (command_line t)"

definition command_ok :: "terminal_app \<Rightarrow> bool" where
  "command_ok t \<longleftrightarrow> length (command_line t) = COMMAND_SIZE \<and> command_len t < COMMAND_SIZE \<and> length (command_history t) = COMMAND_HISTORY"

abbreviation (input) same_history :: "terminal_app \<Rightarrow> terminal_app \<Rightarrow> bool" where
  "same_history t t' \<equiv> command_history t' = command_history t \<and> command_history_count t' = command_history_count t \<and> command_history_index t' = command_history_index t"

lemma write_char_command [simp]:
  "command_line (write_char c t) = command_line t" "command_len (write_char c t) = command_len t" "command_history (write_char c t) = command_history t"
  "command_history_count (write_char c t) = command_history_count t" "command_history_index (write_char c t) = command_history_index t"
  by (simp_all add: write_char_def newline_def set_char_def Let_def)

lemma write_chars_command:
  "command_line (fold write_char cs t) = command_line t \<and> command_len (fold write_char cs t) = command_len t \<and> same_history t (fold write_char cs t)
   \<and> tm_window (fold write_char cs t) = tm_window t"
  by (induction cs arbitrary: t) simp_all

lemma tm_write_command [simp]:
  "command_line (tm_write s t) = command_line t" "command_len (tm_write s t) = command_len t" "command_history (tm_write s t) = command_history t"
  "command_history_count (tm_write s t) = command_history_count t" "command_history_index (tm_write s t) = command_history_index t"
  "tm_window (tm_write s t) = tm_window t"
  by (simp_all add: tm_write_def write_chars_command)

lemma type_chars:
  "length (command_line t) = COMMAND_SIZE \<Longrightarrow> command_len t + length cs < COMMAND_SIZE \<Longrightarrow>
   typed (fold type_char cs t) = typed t @ cs \<and> command_len (fold type_char cs t) = command_len t + length cs
   \<and> length (command_line (fold type_char cs t)) = COMMAND_SIZE \<and> same_history t (fold type_char cs t)"
proof (induction cs arbitrary: t)
  case (Cons c cs)
  have "typed (type_char c t) = typed t @ [c]" using Cons.prems by (simp add: typed_def type_char_def take_Suc_conv_app_nth)
  then show ?case using Cons.IH [of "type_char c t"] Cons.prems by (simp add: type_char_def)
qed simp

lemma erase_chars:
  "k \<le> command_len t \<Longrightarrow> command_len ((erase_char ^^ k) t) = command_len t - k \<and> command_line ((erase_char ^^ k) t) = command_line t
   \<and> same_history t ((erase_char ^^ k) t)"
  by (induction k) (simp_all add: erase_char_def)

text \<open>The history holds the last eight of the commands entered.\<close>

definition holds_commands :: "u8 list list \<Rightarrow> terminal_app \<Rightarrow> bool" where
  "holds_commands cmds t \<longleftrightarrow> command_ok t \<and> command_history_count t = of_nat (length cmds)
     \<and> (\<forall>i < length cmds. length cmds \<le> i + COMMAND_HISTORY \<longrightarrow> cstr (command_history t ! (i mod COMMAND_HISTORY)) = cmds ! i)"

definition command :: "u8 list \<Rightarrow> bool" where
  "command cmd \<longleftrightarrow> cmd \<noteq> [] \<and> 0 \<notin> set cmd \<and> length cmd < COMMAND_SIZE"

lemma cstr_command: "0 \<notin> set cmd \<Longrightarrow> cstr (cmd @ 0 # xs) = cmd" "0 \<notin> set cmd \<Longrightarrow> cstr cmd = cmd"
  by (induction cmd) (auto simp: cstr_def)

lemma holds_push:
  assumes "holds_commands cmds t" "command cmd" "length cmds < 2 ^ 32"
  shows "holds_commands (cmds @ [cmd]) (push_history cmd t) \<and> command_history_index (push_history cmd t) = - 1"
proof -
  define n where "n = length cmds"
  have slot: "unat (command_history_count t mod of_nat COMMAND_HISTORY) = n mod COMMAND_HISTORY"
    using assms(1,3) by (simp add: holds_commands_def n_def unat_mod unsigned_of_nat take_bit_nat_eq_self)
  have c: "take (COMMAND_SIZE - 1) (cstr cmd) = cmd" "cmd \<noteq> []" using assms(2) by (simp_all add: command_def cstr_command)
  have p: "push_history cmd t = t\<lparr>command_history := (command_history t)[n mod COMMAND_HISTORY := cmd @ 0 # drop (Suc (length cmd)) (command_history t ! (n mod COMMAND_HISTORY))],
      command_history_count := command_history_count t + 1, command_history_index := - 1\<rparr>"
    using c slot by (simp add: push_history_def Let_def)
  have "cstr ((command_history t)[n mod COMMAND_HISTORY := cmd @ 0 # drop (Suc (length cmd)) (command_history t ! (n mod COMMAND_HISTORY))] ! (i mod COMMAND_HISTORY)) = (cmds @ [cmd]) ! i"
    if "i < Suc n" "Suc n \<le> i + COMMAND_HISTORY" for i
  proof (cases "i = n")
    case True
    then show ?thesis using assms by (simp add: holds_commands_def command_ok_def command_def cstr_command n_def)
  next
    case False
    then have i: "i < n" "n < i + 8" using that by auto
    then have "\<not> 8 dvd n - i" by (intro nat_dvd_not_less) auto
    then have "n mod 8 \<noteq> i mod 8" using mod_eq_dvd_iff_nat [of i n 8] i by auto
    then show ?thesis using assms(1) i by (simp add: holds_commands_def n_def nth_append)
  qed
  then show ?thesis using assms(1) unfolding p by (simp add: holds_commands_def command_ok_def n_def)
qed

lemma holds_pushes:
  assumes "\<forall>c \<in> set cmds. command c" "length (done @ cmds) < 2 ^ 32" "holds_commands done t" "command_history_index t = - 1"
  shows "holds_commands (done @ cmds) (fold push_history cmds t) \<and> command_history_index (fold push_history cmds t) = - 1"
  using assms
proof (induction cmds arbitrary: "done" t)
  case (Cons c cmds)
  then have "holds_commands (done @ [c]) (push_history c t) \<and> command_history_index (push_history c t) = - 1"
    using holds_push [of "done" t c] by simp
  then show ?case using Cons.IH [of "done @ [c]" "push_history c t"] Cons.prems by simp
qed simp

text \<open>The \<open>k\<close>-th step back in the history, counted from the last command entered.\<close>

definition recalled :: "u8 list list \<Rightarrow> nat \<Rightarrow> terminal_app \<Rightarrow> bool" where
  "recalled cmds k t \<longleftrightarrow> holds_commands cmds t \<and> command_history_index t = (if k = 0 then - 1 else int (min (length cmds) COMMAND_HISTORY) - int k)
     \<and> (0 < k \<longrightarrow> typed t = cmds ! (length cmds - k))"

lemma recall_slot:
  assumes "k < n" "n < 2 ^ 32" shows "unat ((of_nat n - 1 - of_nat k :: u32) mod of_nat COMMAND_HISTORY) = (n - Suc k) mod COMMAND_HISTORY"
proof -
  have "of_nat n - 1 - of_nat k = (of_nat (n - Suc k) :: u32)" using assms by (simp add: of_nat_diff)
  moreover have "unat (of_nat (n - Suc k) :: u32) = n - Suc k" using assms by (simp only: unsigned_of_nat) (simp add: take_bit_nat_eq_self)
  ultimately show ?thesis by (simp only: unat_mod) simp
qed

lemma recall_step:
  assumes "recalled cmds k t" "k < min (length cmds) COMMAND_HISTORY" "length cmds < 2 ^ 32" "\<forall>c \<in> set cmds. command c"
  shows "recalled cmds (Suc k) (recall_history (- 1) t)"
proof -
  define n m where "n = length cmds" and "m = min n COMMAND_HISTORY"
  have h: "holds_commands cmds t" and idx: "command_history_index t = (if k = 0 then - 1 else int m - int k)"
    using assms(1) by (simp_all add: recalled_def n_def m_def)
  have cnt: "command_history_count t = of_nat n" and ok: "command_ok t" using h by (simp_all add: holds_commands_def n_def)
  have n: "0 < n" "n < 2 ^ 32" "k < m" "m \<le> n" using assms(2,3) by (auto simp: n_def m_def)
  have un: "unat (of_nat n :: u32) = n" "uint (of_nat n :: u32) = int n" using n by (simp_all add: unsigned_of_nat take_bit_nat_eq_self)
  have kept: "(if command_history_count t < of_nat COMMAND_HISTORY then uint (command_history_count t) else int COMMAND_HISTORY) = int m"
    using un by (auto simp: cnt m_def word_less_def)
  have nz: "command_history_count t \<noteq> 0" using un n by (auto simp: cnt)
  define index where "index = int m - 1 - int k"
  define e where "e = (erase_char ^^ command_len t) (t\<lparr>command_history_index := index\<rparr>)"
  have e: "command_len e = 0" "command_line e = command_line t" "command_history e = command_history t" "command_history_count e = command_history_count t"
      "command_history_index e = index"
    using erase_chars [of "command_len t" "t\<lparr>command_history_index := index\<rparr>"] by (simp_all add: e_def)
  have slot: "unat ((command_history_count t - 1 - word_of_int (int m - 1 - index)) mod of_nat COMMAND_HISTORY) = (n - Suc k) mod COMMAND_HISTORY"
    using recall_slot [of k n] n by (simp add: cnt index_def)
  define c where "c = cmds ! (n - Suc k)"
  have c: "cstr (command_history t ! ((n - Suc k) mod COMMAND_HISTORY)) = c" using h n by (auto simp: holds_commands_def n_def m_def c_def)
  have "c \<in> set cmds" using n by (simp add: c_def n_def)
  then have len: "length c < COMMAND_SIZE" "take (COMMAND_SIZE - 1) c = c" using assms(4) by (auto simp: command_def)
  have "recall_history (- 1) t = fold type_char c e"
  proof -
    have i: "(if command_history_index t < 0 then int m - 1 else command_history_index t + - 1) = index" "(if index < 0 then 0 else index) = index"
        "(if index > int m - 1 then int m - 1 else index) = index"
      using idx n by (auto simp: index_def)
    show ?thesis unfolding recall_history_def kept Let_def i e_def [symmetric] e(3,4) slot c len(2) using nz by simp
  qed
  moreover have "typed (fold type_char c e) = c" "command_len (fold type_char c e) = length c" "length (command_line (fold type_char c e)) = COMMAND_SIZE"
      "same_history e (fold type_char c e)"
    using type_chars [of e c] e ok len(1) by (auto simp: command_ok_def typed_def)
  ultimately show ?thesis using h e len(1) n
    by (auto simp: recalled_def holds_commands_def command_ok_def n_def m_def index_def c_def)
qed

text \<open>C22. The up arrow recalls commands from the last one back: after any commands have been entered, pressing it \<open>k\<close> times, for \<open>k\<close> up
  to the eight kept, leaves the \<open>k\<close>-th last command in the command line, whatever was typed there before.\<close>

theorem history_recall:
  assumes "\<forall>c \<in> set cmds. command c" "length cmds < 2 ^ 32" "holds_commands [] t" "command_history_index t = - 1"
    "0 < k" "k \<le> length cmds" "k \<le> COMMAND_HISTORY"
  shows "typed ((recall_history (- 1) ^^ k) (fold push_history cmds t)) = cmds ! (length cmds - k)"
proof -
  have start: "recalled cmds 0 (fold push_history cmds t)"
    using holds_pushes [of cmds "[]" t] assms(1-4) by (simp add: recalled_def)
  have "j \<le> k \<Longrightarrow> recalled cmds j ((recall_history (- 1) ^^ j) (fold push_history cmds t))" for j
  proof (induction j)
    case (Suc j)
    then show ?case using recall_step [of cmds j] assms by simp
  qed (simp add: start)
  then show ?thesis using assms(5) by (auto simp: recalled_def)
qed

definition idle_terminal :: terminal_app where
  "idle_terminal = \<lparr>tm_window = \<lparr>wx = 0, wy = 0, ww = 248, wh = 160, restore_x = 0, restore_y = 0, restore_w = 248, restore_h = 160,
     wopen = True, wfocused = True, wmode = Normal, wz = 0\<rparr>, tm_lines = (\<lambda>_ _. 32), line_count = 1, tm_col = 0, tm_scroll = 0,
     command_line = replicate 96 0, command_len = 3, command_history = replicate 8 (replicate 96 0), command_history_count = 0, command_history_index = - 1\<rparr>"

theorem history_recall_witness:
  "typed ((recall_history (- 1) ^^ 2) (fold push_history [[108, 115], [104, 101, 108, 112], [109, 101, 109]] idle_terminal)) = [104, 101, 108, 112]"
proof -
  have "holds_commands [] idle_terminal" "command_history_index idle_terminal = - 1"
    by (simp_all add: holds_commands_def command_ok_def idle_terminal_def)
  then show ?thesis using history_recall [of "[[108, 115], [104, 101, 108, 112], [109, 101, 109]]" idle_terminal 2] by (simp add: command_def)
qed

section \<open>The window\<close>

lemma clear_window [simp]: "tm_window (clear_buffer t) = tm_window t"
  by (simp add: clear_buffer_def)

lemma write_window [simp]: "tm_window (fold tm_write texts t) = tm_window t"
  by (induction texts arbitrary: t) simp_all

lemma type_window [simp]: "tm_window (fold type_char cs t) = tm_window t"
  by (induction cs arbitrary: t) (simp_all add: type_char_def)

lemma erase_window [simp]: "tm_window ((erase_char ^^ k) t) = tm_window t"
  by (induction k) (simp_all add: erase_char_def)

lemma recall_window [simp]: "tm_window (recall_history d t) = tm_window t"
  by (simp add: recall_history_def Let_def)

lemma push_window [simp]: "tm_window (push_history line t) = tm_window t"
  by (simp add: push_history_def Let_def)

lemma scroll_window [simp]: "tm_window (terminal_scroll_by d t) = tm_window t"
  by (simp add: terminal_scroll_by_def Let_def)

lemma terminal_default_on_desktop: "metrics_ok M \<Longrightarrow> on_desktop M (window_rect (terminal_default_geometry M w))"
proof -
  assume M: "metrics_ok M"
  note b = screen_bounds [OF M] and s = screen_sizes [OF M] screen_bar [OF M]
  define W D w0 h0 where "W = scr_w M" and "D = scr_h M - uint (taskbar_h M)" and "w0 = max (min (W - 96) 640) 168" and "h0 = max (min (D - 74) 360) 134"
  have k: "mwidth M > 96 \<longleftrightarrow> True" "mheight M > 140 \<longleftrightarrow> True" "260 < mheight M \<longleftrightarrow> 260 < scr_h M" using b by (simp_all add: word_less_def)
  have e: "sint (mwidth M - 96) = W - 96" "sint (mheight M - taskbar_h M - 74) = D - 74" "uint (mwidth M - 8) = W - 8"
      "uint (mheight M - taskbar_h M - 8) = D - 8"
    using screen_minus [OF M] by (simp_all add: W_def D_def)
  have d: "168 \<le> w0" "w0 \<le> W - 8" "134 \<le> h0" "h0 \<le> D - 8" "(if 260 < scr_h M then 42 else 26) + h0 \<le> D" "w0 < 65536" "h0 < 65536"
    using b s by (auto simp: W_def D_def w0_def h0_def)
  have n: "word_of_int w0 > mwidth M - 8 \<longleftrightarrow> False" "word_of_int h0 > mheight M - taskbar_h M - 8 \<longleftrightarrow> False"
    using d e by (simp_all add: word_less_def uint_of_small)
  have c: "(if ww v > K then v\<lparr>ww := K\<rparr> else v) = v\<lparr>ww := min (ww v) K\<rparr>" "(if wh v > K then v\<lparr>wh := K\<rparr> else v) = v\<lparr>wh := min (wh v) K\<rparr>"
      "(if ww v < K then v\<lparr>ww := K\<rparr> else v) = v\<lparr>ww := max (ww v) K\<rparr>" "(if wh v < K then v\<lparr>wh := K\<rparr> else v) = v\<lparr>wh := max (wh v) K\<rparr>" for v :: window and K
    by (simp_all add: min_def max_def)
  have "sint ((mwidth M - word_of_int w0) div 2) = (W - w0) div 2" using screen_centre [OF M, of w0] d by (simp add: W_def)
  then have "window_rect (terminal_default_geometry M w) = mk_rect ((W - w0) div 2) (if 260 < scr_h M then 42 else 26) w0 h0"
    unfolding terminal_default_geometry_def k e Let_def c if_True
    by (cases w) (simp only: window_rect_def window.simps n if_False flip: w0_def h0_def)
  moreover have "0 \<le> (W - w0) div 2" "(W - w0) div 2 + w0 \<le> W" using d by simp_all
  ultimately show ?thesis using d s by (simp add: on_desktop_def mk_rect_def W_def D_def)
qed

end
