(* ===== verification/Gui_System.thy ===== *)
theory Gui_System
  imports Gui_Desktop Gui_Notepad Gui_Utilities Gui_Terminal
begin

text \<open>The state of the desktop and the operations on it that touch nothing else, \<open>src/kernel/gui/core/gui.cpp\<close>: which part of
  the screen to redraw, what a pointer position hits, and opening, focusing, hiding and closing windows, with pressing the
  button and dragging. The handlers of key presses and button releases, which start programs, and the event loop with its drawing
  are not modelled. The windows are shown to stay on the desktop with at most one in focus, a position to hit the topmost
  window, and no part of the screen marked for redrawing to be forgotten.\<close>

section \<open>Model\<close>

abbreviation (input) MYOS_GUI_APP_TERMINAL :: u32 where "MYOS_GUI_APP_TERMINAL \<equiv> 1"
abbreviation (input) MYOS_GUI_APP_FILES :: u32 where "MYOS_GUI_APP_FILES \<equiv> 2"
abbreviation (input) MYOS_GUI_APP_MONITOR :: u32 where "MYOS_GUI_APP_MONITOR \<equiv> 3"
abbreviation (input) MYOS_GUI_APP_ABOUT :: u32 where "MYOS_GUI_APP_ABOUT \<equiv> 4"
abbreviation (input) MYOS_GUI_APP_NOTEPAD :: u32 where "MYOS_GUI_APP_NOTEPAD \<equiv> 5"

record gui_system =
  gmetrics :: metrics
  backbuffer_pixels :: u32
  backbuffer :: graphics_surface
  gwm :: window_manager
  g_terminal :: terminal_app
  g_files :: utility_app
  g_monitor :: utility_app
  g_about :: utility_app
  g_notepad :: notepad_app
  start_menu_open :: bool
  g_dirty :: bool
  full_repaint :: bool
  dirty_rect :: rect
  mouse_press_x :: int
  mouse_press_y :: int
  mouse_press_hit :: hit_result
  z_counter :: u32
  last_icon_click_tick :: u32
  last_icon_click_x :: int
  last_icon_click_y :: int
  last_files_click_index :: int
  last_files_click_tick :: u32
  input_events_since_report :: u32
  cursor_text_until_tick :: u32
  cursor_overlay_saved :: bool
  cursor_overlay_text_mode :: bool
  cursor_overlay_rect :: rect
  cursor_overlay_background :: "nat \<Rightarrow> u8"

definition mark_dirty :: "gui_system \<Rightarrow> gui_system" where
  "mark_dirty g = g\<lparr>g_dirty := True, full_repaint := True\<rparr>"

text \<open>The part of a rectangle on the screen, with the code's early returns as \<open>None\<close>.\<close>

definition clip_rect :: "metrics \<Rightarrow> rect \<Rightarrow> rect option" where
  "clip_rect metrics r =
     (let r = (if rx r < 0 then r\<lparr>rw := rw r + rx r, rx := 0\<rparr> else r);
          r = (if ry r < 0 then r\<lparr>rh := rh r + ry r, ry := 0\<rparr> else r)
      in if rx r \<ge> sint (mwidth metrics) \<or> ry r \<ge> sint (mheight metrics) then None
         else let r = (if rx r + rw r > sint (mwidth metrics) then r\<lparr>rw := sint (mwidth metrics) - rx r\<rparr> else r);
                  r = (if ry r + rh r > sint (mheight metrics) then r\<lparr>rh := sint (mheight metrics) - ry r\<rparr> else r)
              in Some r)"

definition invalidate_rect :: "rect \<Rightarrow> gui_system \<Rightarrow> gui_system" where
  "invalidate_rect r g =
     (if rect_empty r then g
      else case clip_rect (gmetrics g) r of
             None \<Rightarrow> g
           | Some r \<Rightarrow>
               if rect_empty r then g
               else let d = dirty_rect g;
                        d = (if \<not> g_dirty g \<or> full_repaint g \<or> rect_empty d then r
                             else let x1 = min_i32 (rx d) (rx r); y1 = min_i32 (ry d) (ry r);
                                      x2 = max_i32 (rx d + rw d) (rx r + rw r); y2 = max_i32 (ry d + rh d) (ry r + rh r)
                                  in mk_rect x1 y1 (x2 - x1) (y2 - y1))
                    in g\<lparr>dirty_rect := d, g_dirty := True\<rparr>)"

definition invalidate_window :: "window \<Rightarrow> gui_system \<Rightarrow> gui_system" where
  "invalidate_window w g = invalidate_rect (window_rect w) g"

section \<open>Windows\<close>

definition window_for_app :: "app_id \<Rightarrow> gui_system \<Rightarrow> window option" where
  "window_for_app app g =
     (case app of
        Terminal \<Rightarrow> Some (tm_window (g_terminal g)) | Notepad \<Rightarrow> Some (np_window (g_notepad g)) | Files \<Rightarrow> Some (ut_window (g_files g))
      | Monitor \<Rightarrow> Some (ut_window (g_monitor g)) | About \<Rightarrow> Some (ut_window (g_about g)) | AppNone \<Rightarrow> None)"

text \<open>Writing through the pointer \<open>window_for_app\<close> returns.\<close>

definition upd_window :: "app_id \<Rightarrow> (window \<Rightarrow> window) \<Rightarrow> gui_system \<Rightarrow> gui_system" where
  "upd_window app f g =
     (case app of
        Terminal \<Rightarrow> g\<lparr>g_terminal := (g_terminal g)\<lparr>tm_window := f (tm_window (g_terminal g))\<rparr>\<rparr>
      | Notepad \<Rightarrow> g\<lparr>g_notepad := (g_notepad g)\<lparr>np_window := f (np_window (g_notepad g))\<rparr>\<rparr>
      | Files \<Rightarrow> g\<lparr>g_files := (g_files g)\<lparr>ut_window := f (ut_window (g_files g))\<rparr>\<rparr>
      | Monitor \<Rightarrow> g\<lparr>g_monitor := (g_monitor g)\<lparr>ut_window := f (ut_window (g_monitor g))\<rparr>\<rparr>
      | About \<Rightarrow> g\<lparr>g_about := (g_about g)\<lparr>ut_window := f (ut_window (g_about g))\<rparr>\<rparr>
      | AppNone \<Rightarrow> g)"

definition target_from_window_area :: "window_area \<Rightarrow> hit_target" where
  "target_from_window_area area =
     (if area = Close then WindowClose else if area = Maximize then WindowMaximize else if area = Minimize then WindowMinimize
      else if area = Resize then WindowResize else if area = Titlebar then WindowTitlebar else if area = Client then WindowClient else HitNone)"

text \<open>The loop over the five windows keeps the best order, area and application so far.\<close>

definition window_list :: "gui_system \<Rightarrow> (window \<times> app_id) list" where
  "window_list g = [(tm_window (g_terminal g), Terminal), (ut_window (g_files g), Files), (ut_window (g_monitor g), Monitor),
     (ut_window (g_about g), About), (np_window (g_notepad g), Notepad)]"

definition hit_windows :: "int \<Rightarrow> int \<Rightarrow> (window \<times> app_id) list \<Rightarrow> int \<times> window_area \<times> app_id" where
  "hit_windows x y ws = fold (\<lambda>(w, app) (best, best_area, best_app).
     let area = hit_window w x y
     in if area \<noteq> AreaNone \<and> sint (wz w) > best then (sint (wz w), area, app) else (best, best_area, best_app)) ws (- 1, AreaNone, AppNone)"

definition hit_start_menu :: "int \<Rightarrow> int \<Rightarrow> rect \<Rightarrow> hit_result option" where
  "hit_start_menu x y menu =
     (let row = (\<lambda>dy. rect_contains (mk_rect (rx menu + 28) (ry menu + dy) (rw menu - 32) 18) x y)
      in if row 8 then Some \<lparr>target = StartTerminal, happ = Terminal\<rparr>
         else if row 24 then Some \<lparr>target = StartTerminal, happ = Files\<rparr>
         else if row 40 then Some \<lparr>target = StartTerminal, happ = Monitor\<rparr>
         else if row 56 then Some \<lparr>target = StartTerminal, happ = About\<rparr>
         else if row 84 then Some \<lparr>target = StartShutdown, happ = AppNone\<rparr>
         else if row 100 then Some \<lparr>target = StartRestart, happ = AppNone\<rparr>
         else None)"

definition hit_icons :: "int \<Rightarrow> int \<Rightarrow> hit_result" where
  "hit_icons x y =
     (let icon = (\<lambda>dy. rect_contains (mk_rect ICON_X (ICON_Y + dy) ICON_W ICON_H) x y)
      in if icon 0 then \<lparr>target = DesktopIcon, happ = Terminal\<rparr>
         else if icon 56 then \<lparr>target = DesktopIcon, happ = Files\<rparr>
         else if icon 112 then \<lparr>target = DesktopIcon, happ = Monitor\<rparr>
         else if icon 168 then \<lparr>target = DesktopIcon, happ = About\<rparr>
         else \<lparr>target = Desktop, happ = AppNone\<rparr>)"

definition hit_test :: "int \<Rightarrow> int \<Rightarrow> gui_system \<Rightarrow> hit_result" where
  "hit_test x y g =
     (let (best, best_area, best_app) = hit_windows x y (window_list g);
          M = gmetrics g; bar_y = sint (mheight M) - sint (taskbar_h M) + 4; bar_h = sint (taskbar_h M) - 8
      in if best_app \<noteq> AppNone then \<lparr>target = target_from_window_area best_area, happ = best_app\<rparr>
         else if rect_contains (mk_rect 4 bar_y START_BUTTON_W bar_h) x y then \<lparr>target = StartButton, happ = AppNone\<rparr>
         else if wopen (tm_window (g_terminal g)) \<and> rect_contains (mk_rect TASK_BUTTON_X bar_y TASK_BUTTON_W bar_h) x y
           then \<lparr>target = TaskButton, happ = Terminal\<rparr>
         else if wopen (ut_window (g_files g)) \<and> rect_contains (mk_rect (TASK_BUTTON_X + TASK_BUTTON_W + 6) bar_y TASK_BUTTON_W bar_h) x y
           then \<lparr>target = TaskButton, happ = Files\<rparr>
         else if wopen (ut_window (g_monitor g)) \<and> rect_contains (mk_rect (TASK_BUTTON_X + (TASK_BUTTON_W + 6) * 2) bar_y TASK_BUTTON_W bar_h) x y
           then \<lparr>target = TaskButton, happ = Monitor\<rparr>
         else case (if start_menu_open g then hit_start_menu x y (start_menu_rect M) else None) of
                Some r \<Rightarrow> r
              | None \<Rightarrow> hit_icons x y)"

definition click_matches_press :: "int \<Rightarrow> int \<Rightarrow> gui_system \<Rightarrow> bool" where
  "click_matches_press x y g \<longleftrightarrow> x \<ge> mouse_press_x g - CLICK_SLOP \<and> x \<le> mouse_press_x g + CLICK_SLOP
     \<and> y \<ge> mouse_press_y g - CLICK_SLOP \<and> y \<le> mouse_press_y g + CLICK_SLOP"

section \<open>Focus, opening and closing\<close>

definition unfocus_all :: "gui_system \<Rightarrow> gui_system" where
  "unfocus_all g = fold (\<lambda>app. upd_window app (\<lambda>w. w\<lparr>wfocused := False\<rparr>)) [Terminal, Files, Monitor, About, Notepad] g"

definition next_z :: "gui_system \<Rightarrow> gui_system" where
  "next_z g = g\<lparr>z_counter := z_counter g + 1\<rparr>"

definition focus_app :: "app_id \<Rightarrow> gui_system \<Rightarrow> gui_system" where
  "focus_app app g =
     (let g = unfocus_all g
      in case app of
           Terminal \<Rightarrow> let g = next_z g in g\<lparr>g_terminal := terminal_focus (z_counter g) (g_terminal g)\<rparr>
         | Files \<Rightarrow> let g = next_z g in g\<lparr>g_files := utility_focus (z_counter g) (g_files g)\<rparr>
         | Monitor \<Rightarrow> let g = next_z g in g\<lparr>g_monitor := utility_focus (z_counter g) (g_monitor g)\<rparr>
         | About \<Rightarrow> let g = next_z g in g\<lparr>g_about := utility_focus (z_counter g) (g_about g)\<rparr>
         | Notepad \<Rightarrow> let g = next_z g in g\<lparr>g_notepad := notepad_focus (z_counter g) (g_notepad g)\<rparr>
         | AppNone \<Rightarrow> g)"

definition show_app :: "app_id \<Rightarrow> gui_system \<Rightarrow> gui_system" where
  "show_app app g =
     (case app of
        Terminal \<Rightarrow> let g = next_z g in g\<lparr>g_terminal := terminal_open_window (gmetrics g) (z_counter g) (g_terminal g)\<rparr>
      | Notepad \<Rightarrow> let g = next_z g in g\<lparr>g_notepad := notepad_open_window (gmetrics g) (z_counter g) (g_notepad g)\<rparr>
      | Files \<Rightarrow> let g = next_z g in g\<lparr>g_files := utility_open_window (gmetrics g) (z_counter g) (g_files g)\<rparr>
      | Monitor \<Rightarrow> let g = next_z g in g\<lparr>g_monitor := utility_open_window (gmetrics g) (z_counter g) (g_monitor g)\<rparr>
      | About \<Rightarrow> let g = next_z g in g\<lparr>g_about := utility_open_window (gmetrics g) (z_counter g) (g_about g)\<rparr>
      | AppNone \<Rightarrow> g)"

definition open_app :: "app_id \<Rightarrow> gui_system \<Rightarrow> gui_system" where
  "open_app app g = mark_dirty ((focus_app app (show_app app g))\<lparr>start_menu_open := False\<rparr>)"

definition open_user_app :: "u32 \<Rightarrow> gui_system \<Rightarrow> int \<times> gui_system" where
  "open_user_app app_id g =
     (if app_id = MYOS_GUI_APP_TERMINAL then (0, open_app Terminal g)
      else if app_id = MYOS_GUI_APP_FILES then (0, open_app Files g)
      else if app_id = MYOS_GUI_APP_MONITOR then (0, open_app Monitor g)
      else if app_id = MYOS_GUI_APP_ABOUT then (0, open_app About g)
      else if app_id = MYOS_GUI_APP_NOTEPAD then (0, open_app Notepad g)
      else (- 1, g))"

definition minimize_app :: "app_id \<Rightarrow> gui_system \<Rightarrow> gui_system" where
  "minimize_app app g = mark_dirty
     (case app of
        Terminal \<Rightarrow> g\<lparr>g_terminal := terminal_minimize (g_terminal g)\<rparr>
      | Files \<Rightarrow> g\<lparr>g_files := utility_minimize (g_files g)\<rparr>
      | Monitor \<Rightarrow> g\<lparr>g_monitor := utility_minimize (g_monitor g)\<rparr>
      | About \<Rightarrow> g\<lparr>g_about := utility_minimize (g_about g)\<rparr>
      | Notepad \<Rightarrow> g\<lparr>g_notepad := notepad_minimize (g_notepad g)\<rparr>
      | AppNone \<Rightarrow> g)"

definition close_app :: "app_id \<Rightarrow> gui_system \<Rightarrow> gui_system" where
  "close_app app g =
     (let g = (case app of
           Terminal \<Rightarrow> g\<lparr>g_terminal := terminal_close (g_terminal g)\<rparr>
         | Files \<Rightarrow> g\<lparr>g_files := utility_close (g_files g)\<rparr>
         | Monitor \<Rightarrow> g\<lparr>g_monitor := utility_close (g_monitor g)\<rparr>
         | About \<Rightarrow> g\<lparr>g_about := utility_close (g_about g)\<rparr>
         | Notepad \<Rightarrow> g\<lparr>g_notepad := notepad_close (g_notepad g)\<rparr>
         | AppNone \<Rightarrow> g)
      in mark_dirty (g\<lparr>gwm := end_pointer_action (gwm g)\<rparr>))"

definition resize_app :: "app_id \<Rightarrow> gui_system \<Rightarrow> gui_system" where
  "resize_app app g =
     (case app of
        Terminal \<Rightarrow> let g = next_z g in g\<lparr>g_terminal := terminal_toggle_maximize (gmetrics g) (z_counter g) (g_terminal g)\<rparr>
      | Files \<Rightarrow> let g = next_z g in g\<lparr>g_files := utility_toggle_maximize (gmetrics g) (z_counter g) (g_files g)\<rparr>
      | Monitor \<Rightarrow> let g = next_z g in g\<lparr>g_monitor := utility_toggle_maximize (gmetrics g) (z_counter g) (g_monitor g)\<rparr>
      | About \<Rightarrow> let g = next_z g in g\<lparr>g_about := utility_toggle_maximize (gmetrics g) (z_counter g) (g_about g)\<rparr>
      | Notepad \<Rightarrow> let g = next_z g in g\<lparr>g_notepad := notepad_toggle_maximize (gmetrics g) (z_counter g) (g_notepad g)\<rparr>
      | AppNone \<Rightarrow> g)"

definition toggle_maximize_app :: "app_id \<Rightarrow> gui_system \<Rightarrow> gui_system" where
  "toggle_maximize_app app g = mark_dirty (focus_app app (resize_app app g))"

definition terminal_gui_write :: "u8 list \<Rightarrow> gui_system \<Rightarrow> gui_system" where
  "terminal_gui_write data g = mark_dirty (g\<lparr>g_terminal := tm_write data (g_terminal g)\<rparr>)"

section \<open>Pointer\<close>

definition handle_left_press :: "int \<Rightarrow> int \<Rightarrow> gui_system \<Rightarrow> gui_system" where
  "handle_left_press x y g =
     (let hit = hit_test x y g;
          g = g\<lparr>mouse_press_x := x, mouse_press_y := y, mouse_press_hit := hit\<rparr>
      in case window_for_app (happ hit) g of
           None \<Rightarrow> g
         | Some _ \<Rightarrow>
             let g = (if target hit \<noteq> HitNone then mark_dirty ((focus_app (happ hit) g)\<lparr>start_menu_open := False\<rparr>) else g)
             in if target hit = WindowResize then g\<lparr>gwm := begin_resize (gwm g)\<rparr>
                else if target hit = WindowTitlebar
                then (case window_for_app (happ hit) g of Some w \<Rightarrow> g\<lparr>gwm := begin_drag w x y (gwm g)\<rparr> | None \<Rightarrow> g)
                else g)"

text \<open>Moving or resizing the pressed window, with its old and new place marked for redrawing.\<close>

definition move_window :: "app_id \<Rightarrow> (window \<Rightarrow> rect \<times> window) \<Rightarrow> gui_system \<Rightarrow> gui_system" where
  "move_window app f g = (case window_for_app app g of
     None \<Rightarrow> g
   | Some w \<Rightarrow> let (before, w') = f w; g = invalidate_rect before (upd_window app (\<lambda>_. w') g) in invalidate_window w' g)"

definition handle_mouse_drag :: "int \<Rightarrow> int \<Rightarrow> gui_system \<Rightarrow> gui_system" where
  "handle_mouse_drag x y g =
     (let app = happ (mouse_press_hit g);
          g = (if wm_dragging (gwm g) then move_window app (\<lambda>w. update_drag (gwm g) w x y (gmetrics g)) g else g)
      in if wm_resizing (gwm g) then move_window app (\<lambda>w. update_resize w x y (gmetrics g)) g else g)"

section \<open>Windows by application\<close>

abbreviation (input) win :: "app_id \<Rightarrow> gui_system \<Rightarrow> window" where "win a g \<equiv> the (window_for_app a g)"

lemma window_for_app_iff: "window_for_app a g = None \<longleftrightarrow> a = AppNone"
  by (cases a) (simp_all add: window_for_app_def)

lemma window_for_app_Some: "window_for_app a g = Some w \<longleftrightarrow> a \<noteq> AppNone \<and> w = win a g"
  by (cases a) (auto simp: window_for_app_def)

lemma win_upd: "a \<noteq> AppNone \<Longrightarrow> win a (upd_window b f g) = (if a = b then f (win a g) else win a g)"
  by (cases a; cases b) (simp_all add: window_for_app_def upd_window_def)

lemma win_unfocus: "a \<noteq> AppNone \<Longrightarrow> win a (unfocus_all g) = (win a g)\<lparr>wfocused := False\<rparr>"
  by (cases a) (simp_all add: unfocus_all_def win_upd)

lemma metrics_upd [simp]: "gmetrics (upd_window a f g) = gmetrics g" "gmetrics (unfocus_all g) = gmetrics g" "gmetrics (next_z g) = gmetrics g"
    "gmetrics (mark_dirty g) = gmetrics g" "gmetrics (invalidate_rect r g) = gmetrics g" "gmetrics (invalidate_window w g) = gmetrics g"
  by (cases a; simp add: upd_window_def unfocus_all_def next_z_def mark_dirty_def invalidate_rect_def invalidate_window_def Let_def split: option.split)+

lemma metrics_focus [simp]: "gmetrics (focus_app a g) = gmetrics g"
  by (cases a) (simp_all add: focus_app_def Let_def)

lemma win_frame [simp]: "window_for_app a (mark_dirty g) = window_for_app a g" "window_for_app a (next_z g) = window_for_app a g"
    "window_for_app a (g\<lparr>start_menu_open := b\<rparr>) = window_for_app a g" "window_for_app a (g\<lparr>gwm := wm\<rparr>) = window_for_app a g"
    "window_for_app a (g\<lparr>mouse_press_hit := h\<rparr>) = window_for_app a g" "window_for_app a (g\<lparr>mouse_press_x := x\<rparr>) = window_for_app a g"
    "window_for_app a (g\<lparr>mouse_press_y := x\<rparr>) = window_for_app a g" "window_for_app a (g\<lparr>dirty_rect := r\<rparr>) = window_for_app a g"
    "window_for_app a (g\<lparr>g_dirty := b\<rparr>) = window_for_app a g"
  by (cases a; simp add: window_for_app_def mark_dirty_def next_z_def)+

lemma win_invalidate [simp]: "window_for_app a (invalidate_rect r g) = window_for_app a g" "window_for_app a (invalidate_window w g) = window_for_app a g"
  by (simp_all add: invalidate_window_def invalidate_rect_def Let_def split: option.split)

lemma focus_app_upd:
  "app \<noteq> AppNone \<Longrightarrow> focus_app app g = upd_window app (focus_window (z_counter (unfocus_all g) + 1)) (next_z (unfocus_all g))"
  by (cases app) (simp_all add: focus_app_def Let_def upd_window_def next_z_def terminal_focus_def utility_focus_def notepad_focus_def)

lemma win_focus:
  assumes "a \<noteq> AppNone" "app \<noteq> AppNone"
  shows "win a (focus_app app g) = (let w = (win a g)\<lparr>wfocused := False\<rparr> in if a = app then focus_window (z_counter (unfocus_all g) + 1) w else w)"
  unfolding focus_app_upd [OF assms(2)] win_upd [OF assms(1)] win_frame win_unfocus [OF assms(1)] Let_def by (rule refl)

text \<open>Opening, minimizing, closing and maximizing change the window of the application as these functions do.\<close>

definition opened :: "app_id \<Rightarrow> metrics \<Rightarrow> u32 \<Rightarrow> utility_kind \<Rightarrow> window \<Rightarrow> window" where
  "opened app M z kind w =
     (case app of
        Terminal \<Rightarrow>
          if \<not> wopen w then (save_geometry (terminal_default_geometry M (w\<lparr>wopen := True, wfocused := True, wmode := Normal\<rparr>)))\<lparr>wz := z\<rparr>
          else focus_window z (if wmode w = Minimized then w\<lparr>wmode := Normal\<rparr> else w)
      | Notepad \<Rightarrow> focus_window z ((if \<not> wopen w then save_geometry (notepad_default_geometry M w) else w)\<lparr>wopen := True, wmode := Normal\<rparr>)
      | _ \<Rightarrow> focus_window z (if \<not> wopen w then save_geometry (utility_default_geometry M kind (w\<lparr>wopen := True, wmode := Normal\<rparr>)) else w))"

definition kind_of :: "app_id \<Rightarrow> gui_system \<Rightarrow> utility_kind" where
  "kind_of app g = (case app of Files \<Rightarrow> ut_kind (g_files g) | Monitor \<Rightarrow> ut_kind (g_monitor g) | _ \<Rightarrow> ut_kind (g_about g))"

lemma terminal_open_tm_window: "tm_window (terminal_open_window M z t) = opened Terminal M z k (tm_window t)"
  by (simp add: terminal_open_window_def opened_def terminal_focus_def Let_def)

lemma notepad_open_np_window: "np_window (notepad_open_window M z n) = opened Notepad M z k (np_window n)"
  by (simp add: notepad_open_window_def opened_def notepad_show_def notepad_focus_def notepad_set_path_def notepad_place_def Let_def)

lemma utility_open_ut_window: "ut_window (utility_open_window M z u) = opened Files M z (ut_kind u) (ut_window u)"
  by (simp add: utility_open_window_def opened_def utility_focus_def)

lemma opened_utilities: "opened Monitor = opened Files" "opened About = opened Files"
  by (intro ext, simp add: opened_def)+

lemma win_show: "a \<noteq> AppNone \<Longrightarrow> win a (show_app app g) = (if a = app then opened app (gmetrics g) (z_counter g + 1) (kind_of app g) (win a g) else win a g)"
  by (cases a; cases app) (simp_all add: show_app_def Let_def window_for_app_def next_z_def kind_of_def terminal_open_tm_window [where k = "ut_kind (g_about g)"] notepad_open_np_window [where k = "ut_kind (g_about g)"] utility_open_ut_window opened_utilities)

lemma win_resize: "a \<noteq> AppNone \<Longrightarrow> win a (resize_app app g) = (if a = app then maximize_window (gmetrics g) (z_counter g + 1) (win a g) else win a g)"
  by (cases a; cases app) (simp_all add: resize_app_def Let_def window_for_app_def next_z_def terminal_toggle_maximize_def utility_toggle_maximize_def notepad_toggle_maximize_def)

lemma metrics_show [simp]: "gmetrics (show_app app g) = gmetrics g" "gmetrics (resize_app app g) = gmetrics g"
  by (cases app; simp add: show_app_def resize_app_def Let_def next_z_def)+

lemma metrics_open [simp]: "gmetrics (open_app app g) = gmetrics g"
  by (simp add: open_app_def)

lemma win_minimize: "a \<noteq> AppNone \<Longrightarrow> win a (minimize_app app g) = (if a = app then minimize_window (win a g) else win a g)"
  by (cases a; cases app) (simp_all add: minimize_app_def window_for_app_def mark_dirty_def terminal_minimize_def utility_minimize_def notepad_minimize_def)

lemma win_close: "a \<noteq> AppNone \<Longrightarrow> win a (close_app app g) = (if a = app then close_window (win a g) else win a g)"
  by (cases a; cases app) (simp_all add: close_app_def Let_def window_for_app_def mark_dirty_def terminal_close_def utility_close_def notepad_close_def)

lemma metrics_ops [simp]: "gmetrics (minimize_app app g) = gmetrics g" "gmetrics (close_app app g) = gmetrics g" "gmetrics (toggle_maximize_app app g) = gmetrics g"
  by (cases app; simp add: minimize_app_def close_app_def toggle_maximize_app_def Let_def mark_dirty_def)+

section \<open>Placement and focus\<close>

text \<open>Every window is well placed; at most one has the focus, and it is open.\<close>

definition placed :: "gui_system \<Rightarrow> bool" where
  "placed g \<longleftrightarrow> metrics_ok (gmetrics g) \<and> (\<forall>a. a \<noteq> AppNone \<longrightarrow> well_placed (gmetrics g) (win a g))"

definition one_focus :: "gui_system \<Rightarrow> bool" where
  "one_focus g \<longleftrightarrow> (\<forall>a b. a \<noteq> AppNone \<longrightarrow> b \<noteq> AppNone \<longrightarrow> wfocused (win a g) \<longrightarrow> wfocused (win b g) \<longrightarrow> a = b)
     \<and> (\<forall>a. a \<noteq> AppNone \<longrightarrow> wfocused (win a g) \<longrightarrow> wopen (win a g))"

definition desktop_ok :: "gui_system \<Rightarrow> bool" where
  "desktop_ok g \<longleftrightarrow> placed g \<and> one_focus g"

lemma placed_cong: "gmetrics g' = gmetrics g \<Longrightarrow> (\<And>a. a \<noteq> AppNone \<Longrightarrow> win a g' = win a g) \<Longrightarrow> placed g' = placed g"
  by (simp add: placed_def)

lemma one_focus_cong: "(\<And>a. a \<noteq> AppNone \<Longrightarrow> win a g' = win a g) \<Longrightarrow> one_focus g' = one_focus g"
  by (simp add: one_focus_def)

lemma desktop_ok_cong: "gmetrics g' = gmetrics g \<Longrightarrow> (\<And>a. a \<noteq> AppNone \<Longrightarrow> win a g' = win a g) \<Longrightarrow> desktop_ok g' = desktop_ok g"
  using placed_cong one_focus_cong unfolding desktop_ok_def by blast

lemma focus_window_flags [simp]: "wopen (focus_window z w) = wopen w" "wmode (focus_window z w) = wmode w"
    "wfocused (focus_window z w) \<longleftrightarrow> wfocused w \<or> wopen w"
  by (simp_all add: focus_window_def)

lemma well_placed_opened:
  assumes "metrics_ok M" "well_placed M w" shows "well_placed M (opened app M z k w)"
  using assms by (simp add: opened_def terminal_default_on_desktop notepad_default_on_desktop utility_default_on_desktop split: app_id.split)

lemma focus_none: "focus_app AppNone g = unfocus_all g"
  by (simp add: focus_app_def)

lemma placed_focus: "placed g \<Longrightarrow> placed (focus_app app g)"
  by (cases "app = AppNone") (simp_all add: placed_def win_focus Let_def focus_none win_unfocus)

lemma one_focus_focus: "one_focus (focus_app app g)"
  by (cases "app = AppNone") (simp_all add: one_focus_def win_focus Let_def focus_none win_unfocus)

lemma placed_show: "placed g \<Longrightarrow> placed (show_app app g)" and placed_resize: "placed g \<Longrightarrow> placed (resize_app app g)"
  by (simp_all add: placed_def win_show win_resize well_placed_opened well_placed_maximize)

lemma desktop_ok_open: "placed g \<Longrightarrow> desktop_ok (open_app app g)"
proof -
  assume "placed g"
  then have "placed (focus_app app (show_app app g))" by (intro placed_focus placed_show)
  then show ?thesis using one_focus_focus [of app "show_app app g"]
    by (subst desktop_ok_cong [of _ "focus_app app (show_app app g)"]) (simp_all add: open_app_def desktop_ok_def)
qed

lemma desktop_ok_toggle: "placed g \<Longrightarrow> desktop_ok (toggle_maximize_app app g)"
proof -
  assume "placed g"
  then have "placed (focus_app app (resize_app app g))" by (intro placed_focus placed_resize)
  then show ?thesis using one_focus_focus [of app "resize_app app g"]
    by (subst desktop_ok_cong [of _ "focus_app app (resize_app app g)"]) (simp_all add: toggle_maximize_app_def desktop_ok_def)
qed

lemma desktop_ok_minimize: "desktop_ok g \<Longrightarrow> desktop_ok (minimize_app app g)"
  unfolding desktop_ok_def placed_def one_focus_def by (simp add: win_minimize) (simp add: minimize_window_def)

lemma desktop_ok_close: "desktop_ok g \<Longrightarrow> desktop_ok (close_app app g)"
  unfolding desktop_ok_def placed_def one_focus_def by (simp add: win_close) (simp add: close_window_def)

lemma desktop_ok_unfocus: "placed g \<Longrightarrow> desktop_ok (unfocus_all g)"
  by (simp add: desktop_ok_def placed_def one_focus_def win_unfocus)

lemma desktop_ok_open_user: "desktop_ok g \<Longrightarrow> desktop_ok (snd (open_user_app app g))"
  using desktop_ok_open [of g] by (simp add: open_user_app_def desktop_ok_def)

lemma desktop_ok_press: "desktop_ok g \<Longrightarrow> desktop_ok (handle_left_press x y g)"
proof -
  assume g: "desktop_ok g"
  define hit where "hit = hit_test x y g"
  define g1 where "g1 = g\<lparr>mouse_press_x := x, mouse_press_y := y, mouse_press_hit := hit\<rparr>"
  have g1: "desktop_ok g1" using g by (subst desktop_ok_cong [of g1 g]) (simp_all add: g1_def)
  define g2 where "g2 = (if target hit \<noteq> HitNone then mark_dirty ((focus_app (happ hit) g1)\<lparr>start_menu_open := False\<rparr>) else g1)"
  have "desktop_ok (focus_app (happ hit) g1)" using g1 placed_focus one_focus_focus by (simp add: desktop_ok_def)
  then have "desktop_ok (mark_dirty ((focus_app (happ hit) g1)\<lparr>start_menu_open := False\<rparr>))"
    by (subst desktop_ok_cong [of _ "focus_app (happ hit) g1"]) simp_all
  then have g2: "desktop_ok g2" using g1 by (simp add: g2_def)
  have wm: "desktop_ok (g2\<lparr>gwm := wm\<rparr>)" for wm using g2 by (subst desktop_ok_cong [of _ g2]) simp_all
  show ?thesis unfolding handle_left_press_def Let_def hit_def [symmetric] g1_def [symmetric] g2_def [symmetric]
    using g1 g2 wm by (simp split: option.split)
qed

lemma update_flags [simp]: "wopen (snd (update_drag wm w x y M)) = wopen w" "wfocused (snd (update_drag wm w x y M)) = wfocused w" "wmode (snd (update_drag wm w x y M)) = wmode w"
    "wopen (snd (update_resize w x y M)) = wopen w" "wfocused (snd (update_resize w x y M)) = wfocused w" "wmode (snd (update_resize w x y M)) = wmode w"
  by (simp_all add: update_drag_def update_resize_def Let_def)

lemma desktop_ok_upd:
  assumes "desktop_ok g" "well_placed (gmetrics g) w" "wopen w = wopen (win a g)" "wfocused w = wfocused (win a g)"
  shows "desktop_ok (upd_window a (\<lambda>_. w) g)"
  using assms unfolding desktop_ok_def placed_def one_focus_def by (simp add: win_upd) blast

lemma desktop_ok_move:
  assumes "desktop_ok g" "\<And>w. well_placed (gmetrics g) w \<Longrightarrow> well_placed (gmetrics g) (snd (f w))" "\<And>w. wopen (snd (f w)) = wopen w" "\<And>w. wfocused (snd (f w)) = wfocused w"
  shows "desktop_ok (move_window app f g)"
proof (cases "app = AppNone")
  case True
  then show ?thesis using assms(1) by (simp add: move_window_def window_for_app_def)
next
  case False
  then obtain w where w: "window_for_app app g = Some w" using window_for_app_iff by blast
  have "well_placed (gmetrics g) w" using assms(1) False w by (auto simp: desktop_ok_def placed_def)
  then have "desktop_ok (upd_window app (\<lambda>_. snd (f w)) g)" using assms w by (intro desktop_ok_upd) simp_all
  then show ?thesis unfolding move_window_def w option.case case_prod_beta Let_def
    by (subst desktop_ok_cong [of _ "upd_window app (\<lambda>_. snd (f w)) g"]) simp_all
qed

lemma metrics_move [simp]: "gmetrics (move_window app f g) = gmetrics g"
  by (simp add: move_window_def case_prod_beta Let_def split: option.split)

lemma desktop_ok_drag: "desktop_ok g \<Longrightarrow> desktop_ok (handle_mouse_drag x y g)"
  unfolding handle_mouse_drag_def Let_def
  by (simp add: desktop_ok_move well_placed_drag well_placed_resize)

section \<open>What a position hits\<close>

lemma hit_windows_snoc:
  "hit_windows x y (ws @ [(w, app)]) = (let (best, best_area, best_app) = hit_windows x y ws
     in if hit_window w x y \<noteq> AreaNone \<and> sint (wz w) > best then (sint (wz w), hit_window w x y, app) else (best, best_area, best_app))"
  by (simp add: hit_windows_def Let_def)

text \<open>The loop finds the highest of the windows under the position.\<close>

definition highest_hit :: "int \<Rightarrow> int \<Rightarrow> (window \<times> app_id) list \<Rightarrow> int \<times> window_area \<times> app_id \<Rightarrow> bool" where
  "highest_hit x y ws r \<longleftrightarrow> (let (best, area, app) = r in
     (\<forall>(w, a) \<in> set ws. hit_window w x y \<noteq> AreaNone \<longrightarrow> sint (wz w) \<le> best)
     \<and> (if app = AppNone then best = - 1 else \<exists>w. (w, app) \<in> set ws \<and> hit_window w x y \<noteq> AreaNone \<and> area = hit_window w x y \<and> best = sint (wz w)))"

lemma hit_windows_highest:
  assumes "\<forall>(w, a) \<in> set ws. a \<noteq> AppNone" shows "highest_hit x y ws (hit_windows x y ws)"
  using assms
proof (induction ws rule: rev_induct)
  case Nil
  then show ?case by (simp add: highest_hit_def hit_windows_def)
next
  case (snoc p ws)
  obtain w app where p: "p = (w, app)" by fastforce
  obtain best area a where h: "hit_windows x y ws = (best, area, a)" by (metis prod_cases3)
  have ih: "\<And>v b. (v, b) \<in> set ws \<Longrightarrow> hit_window v x y \<noteq> AreaNone \<Longrightarrow> sint (wz v) \<le> best"
    "if a = AppNone then best = - 1 else \<exists>v. (v, a) \<in> set ws \<and> hit_window v x y \<noteq> AreaNone \<and> area = hit_window v x y \<and> best = sint (wz v)"
    using snoc h unfolding highest_hit_def by auto
  have app: "app \<noteq> AppNone" using snoc.prems p by simp
  show ?case
  proof (cases "hit_window w x y \<noteq> AreaNone \<and> sint (wz w) > best")
    case True
    then have r: "hit_windows x y (ws @ [p]) = (sint (wz w), hit_window w x y, app)" by (simp add: p hit_windows_snoc h)
    have "sint (wz v) \<le> sint (wz w)" if "(v, b) \<in> set ws" "hit_window v x y \<noteq> AreaNone" for v b using ih(1) [OF that] True by linarith
    then show ?thesis using app True unfolding r unfolding highest_hit_def p by auto
  next
    case False
    then have r: "hit_windows x y (ws @ [p]) = (best, area, a)" unfolding p hit_windows_snoc h Let_def prod.case by (rule if_not_P)
    have "hit_window w x y \<noteq> AreaNone \<Longrightarrow> sint (wz w) \<le> best" using False by linarith
    then show ?thesis using ih unfolding r unfolding highest_hit_def p by (auto split: if_splits)
  qed
qed

lemma window_list_iff: "(w, a) \<in> set (window_list g) \<longleftrightarrow> window_for_app a g = Some w"
  by (cases a) (auto simp: window_list_def window_for_app_def)

lemma hit_test_windows: "\<exists>best area app. highest_hit x y (window_list g) (best, area, app)
    \<and> (app \<noteq> AppNone \<longrightarrow> hit_test x y g = \<lparr>target = target_from_window_area area, happ = app\<rparr>)
    \<and> (app = AppNone \<longrightarrow> target (hit_test x y g) \<notin> {WindowClient, WindowTitlebar, WindowMinimize, WindowMaximize, WindowClose, WindowResize})"
proof -
  obtain best area app where h: "hit_windows x y (window_list g) = (best, area, app)" by (metis prod_cases3)
  have "highest_hit x y (window_list g) (best, area, app)" unfolding h [symmetric] by (rule hit_windows_highest) (simp add: window_list_def)
  moreover have "app \<noteq> AppNone \<longrightarrow> hit_test x y g = \<lparr>target = target_from_window_area area, happ = app\<rparr>" by (simp add: hit_test_def h)
  moreover have "app = AppNone \<longrightarrow> target (hit_test x y g) \<notin> {WindowClient, WindowTitlebar, WindowMinimize, WindowMaximize, WindowClose, WindowResize}"
    by (simp add: hit_test_def h Let_def hit_start_menu_def hit_icons_def split: option.split)
  ultimately show ?thesis by blast
qed

text \<open>C20. A pointer position inside open windows hits the highest of them, in the part of that window the window manager reports; a position
  inside no window never acts on one.\<close>

theorem hit_test_topmost:
  assumes "\<forall>a w. window_for_app a g = Some w \<longrightarrow> wz w < 0x80000000"
  shows "if \<exists>a w. window_for_app a g = Some w \<and> window_visible w \<and> rect_contains (window_rect w) x y
         then \<exists>w. window_for_app (happ (hit_test x y g)) g = Some w \<and> window_visible w \<and> rect_contains (window_rect w) x y
                \<and> target (hit_test x y g) = target_from_window_area (hit_window w x y)
                \<and> (\<forall>a v. window_for_app a g = Some v \<and> window_visible v \<and> rect_contains (window_rect v) x y \<longrightarrow> wz v \<le> wz w)
         else target (hit_test x y g) \<notin> {WindowClient, WindowTitlebar, WindowMinimize, WindowMaximize, WindowClose, WindowResize}"
proof -
  obtain best area app where h: "highest_hit x y (window_list g) (best, area, app)"
    "app \<noteq> AppNone \<longrightarrow> hit_test x y g = \<lparr>target = target_from_window_area area, happ = app\<rparr>"
    "app = AppNone \<longrightarrow> target (hit_test x y g) \<notin> {WindowClient, WindowTitlebar, WindowMinimize, WindowMaximize, WindowClose, WindowResize}"
    using hit_test_windows [of x y g] by blast
  have z: "sint (wz w) = uint (wz w)" if "window_for_app a g = Some w" for a w
    using assms that by (intro sint_eq_uint) (simp add: word_less_def)
  have le: "sint (wz v) \<le> best" if "window_for_app a g = Some v" "window_visible v" "rect_contains (window_rect v) x y" for a v
    using h(1) that hit_window_inside [of v x y] window_list_iff [of v a g] unfolding highest_hit_def Let_def prod.case by blast
  show ?thesis
  proof (cases "app = AppNone")
    case True
    have "best = - 1" using h(1) True by (simp add: highest_hit_def)
    have none: "\<not> (\<exists>a w. window_for_app a g = Some w \<and> window_visible w \<and> rect_contains (window_rect w) x y)"
    proof
      assume "\<exists>a w. window_for_app a g = Some w \<and> window_visible w \<and> rect_contains (window_rect w) x y"
      then obtain a w where w: "window_for_app a g = Some w" "window_visible w" "rect_contains (window_rect w) x y" by blast
      show False using le [OF w] z [OF w(1)] uint_ge_0 [of "wz w"] \<open>best = - 1\<close> by linarith
    qed
    show ?thesis unfolding if_not_P [OF none] using h(3) True by blast
  next
    case False
    then obtain w where w: "window_for_app app g = Some w" "hit_window w x y \<noteq> AreaNone" "area = hit_window w x y" "best = sint (wz w)"
      using h(1) unfolding highest_hit_def Let_def prod.case if_not_P [OF False] window_list_iff by blast
    have "wz v \<le> wz w" if "window_for_app a g = Some v" "window_visible v" "rect_contains (window_rect v) x y" for a v
      using le [OF that] z [OF that(1)] z [OF w(1)] w(4) by (simp add: word_le_def)
    moreover have vis: "window_visible w" "rect_contains (window_rect w) x y" using w(2) hit_window_inside [of w x y] by simp_all
    moreover have ex: "\<exists>a w. window_for_app a g = Some w \<and> window_visible w \<and> rect_contains (window_rect w) x y" using w(1) vis by blast
    moreover have "hit_test x y g = \<lparr>target = target_from_window_area (hit_window w x y), happ = app\<rparr>" using h(2) False w(3) by simp
    ultimately show ?thesis unfolding if_P [OF ex] using w(1) by (intro exI [of _ w]) (simp, blast)
  qed
qed

text \<open>A desktop of 640 by 480 pixels with the terminal open and the file explorer open above it.\<close>

definition sample_window :: "int \<Rightarrow> int \<Rightarrow> u32 \<Rightarrow> bool \<Rightarrow> bool \<Rightarrow> window" where
  "sample_window x y z is_open is_focused = \<lparr>wx = x, wy = y, ww = 300, wh = 200, restore_x = x, restore_y = y, restore_w = 300, restore_h = 200,
     wopen = is_open, wfocused = is_focused, wmode = Normal, wz = z\<rparr>"

definition sample_gui :: gui_system where
  "sample_gui = \<lparr>gmetrics = \<lparr>mwidth = 640, mheight = 480, taskbar_h = 30\<rparr>, backbuffer_pixels = 0, backbuffer = test_surface 0,
     gwm = \<lparr>wm_dragging = False, wm_resizing = False, drag_offset_x = 0, drag_offset_y = 0\<rparr>,
     g_terminal = idle_terminal\<lparr>tm_window := sample_window 100 100 2 True False\<rparr>,
     g_files = \<lparr>ut_kind = KindFiles, ut_window = sample_window 200 150 3 True True\<rparr>,
     g_monitor = \<lparr>ut_kind = KindMonitor, ut_window = sample_window 20 20 0 False False\<rparr>,
     g_about = \<lparr>ut_kind = KindAbout, ut_window = sample_window 40 40 0 False False\<rparr>,
     g_notepad = blank_notepad\<lparr>np_window := sample_window 60 60 0 False False\<rparr>,
     start_menu_open = False, g_dirty = False, full_repaint = False, dirty_rect = mk_rect 0 0 0 0, mouse_press_x = 0, mouse_press_y = 0,
     mouse_press_hit = \<lparr>target = HitNone, happ = AppNone\<rparr>, z_counter = 3, last_icon_click_tick = 0, last_icon_click_x = - 1000,
     last_icon_click_y = - 1000, last_files_click_index = - 1, last_files_click_tick = 0, input_events_since_report = 0, cursor_text_until_tick = 0,
     cursor_overlay_saved = False, cursor_overlay_text_mode = False, cursor_overlay_rect = mk_rect 0 0 0 0, cursor_overlay_background = \<lambda>_. 0\<rparr>"

lemma sample_windows:
  "window_for_app Terminal sample_gui = Some (sample_window 100 100 2 True False)" "window_for_app Files sample_gui = Some (sample_window 200 150 3 True True)"
  "window_for_app Monitor sample_gui = Some (sample_window 20 20 0 False False)" "window_for_app About sample_gui = Some (sample_window 40 40 0 False False)"
  "window_for_app Notepad sample_gui = Some (sample_window 60 60 0 False False)" "window_for_app AppNone sample_gui = None"
  by (simp_all add: window_for_app_def sample_gui_def)

theorem hit_test_topmost_witness:
  "\<exists>w. window_for_app (happ (hit_test 250 200 sample_gui)) sample_gui = Some w \<and> window_visible w \<and> 3 \<le> wz w"
proof -
  have "wz w < 0x80000000" if "window_for_app a sample_gui = Some w" for a w
    using that by (cases a) (auto simp: sample_windows sample_window_def)
  then have "\<forall>a w. window_for_app a sample_gui = Some w \<longrightarrow> wz w < 0x80000000" by blast
  note top = hit_test_topmost [OF this, where x = 250 and y = 200]
  have f: "window_visible (sample_window 200 150 3 True True)" "rect_contains (window_rect (sample_window 200 150 3 True True)) 250 200" "wz (sample_window 200 150 3 True True) = 3"
    by (simp_all add: window_visible_def rect_contains_def window_rect_def mk_rect_def sample_window_def)
  then have ex: "\<exists>a w. window_for_app a sample_gui = Some w \<and> window_visible w \<and> rect_contains (window_rect w) 250 200"
    using sample_windows(2) by blast
  then obtain w where "window_for_app (happ (hit_test 250 200 sample_gui)) sample_gui = Some w" "window_visible w"
    "\<forall>a v. window_for_app a sample_gui = Some v \<and> window_visible v \<and> rect_contains (window_rect v) 250 200 \<longrightarrow> wz v \<le> wz w"
    using top [unfolded if_P [OF ex]] by blast
  moreover from this(3) have "wz (sample_window 200 150 3 True True) \<le> wz w" using sample_windows(2) f(1,2) by blast
  ultimately show ?thesis unfolding f(3) by blast
qed

section \<open>What is redrawn\<close>

text \<open>The next redraw updates a position of the screen when the whole screen or a rectangle with the position is marked.\<close>

definition redraws :: "gui_system \<Rightarrow> int \<Rightarrow> int \<Rightarrow> bool" where
  "redraws g x y \<longleftrightarrow> g_dirty g \<and> (full_repaint g \<or> rect_empty (dirty_rect g) \<or> rect_contains (dirty_rect g) x y)"

definition on_screen :: "metrics \<Rightarrow> int \<Rightarrow> int \<Rightarrow> bool" where
  "on_screen M x y \<longleftrightarrow> 0 \<le> x \<and> x < sint (mwidth M) \<and> 0 \<le> y \<and> y < sint (mheight M)"

definition marks_ok :: "gui_system \<Rightarrow> bool" where
  "marks_ok g \<longleftrightarrow> (g_dirty g \<and> \<not> full_repaint g \<longrightarrow> \<not> rect_empty (dirty_rect g))"

lemma clip_rect_contains:
  assumes "on_screen M x y" "rect_contains r x y"
  shows "\<exists>r'. clip_rect M r = Some r' \<and> rect_contains r' x y"
  using assms by (auto simp: clip_rect_def on_screen_def rect_contains_def Let_def)

text \<open>Marking a rectangle for redrawing covers every position of the screen inside it and keeps every position that was marked
  before, whatever was marked.\<close>

theorem invalidate_covers:
  assumes "marks_ok g" "on_screen (gmetrics g) x y" "rect_contains r x y \<or> redraws g x y"
  shows "redraws (invalidate_rect r g) x y \<and> marks_ok (invalidate_rect r g)"
proof (cases "rect_empty r \<or> clip_rect (gmetrics g) r = None \<or> rect_empty (the (clip_rect (gmetrics g) r))")
  case True
  have "\<not> rect_contains r x y"
  proof
    assume r: "rect_contains r x y"
    then obtain r' where "clip_rect (gmetrics g) r = Some r'" "rect_contains r' x y" using clip_rect_contains [OF assms(2)] by blast
    then show False using True r by (auto simp: rect_empty_def rect_contains_def)
  qed
  moreover have "invalidate_rect r g = g" using True by (auto simp: invalidate_rect_def split: option.split)
  ultimately show ?thesis using assms(1,3) by simp
next
  case False
  then obtain r' where r': "clip_rect (gmetrics g) r = Some r'" "\<not> rect_empty r'" "\<not> rect_empty r" by auto
  have c: "rect_contains r' x y" if "rect_contains r x y" using clip_rect_contains [OF assms(2) that] r'(1) by auto
  show ?thesis
  proof (cases "\<not> g_dirty g \<or> full_repaint g \<or> rect_empty (dirty_rect g)")
    case True
    then have "invalidate_rect r g = g\<lparr>dirty_rect := r', g_dirty := True\<rparr>" using r' by (simp add: invalidate_rect_def)
    then show ?thesis using assms c r' True by (auto simp: redraws_def marks_ok_def)
  next
    case False
    then show ?thesis using assms c r'
      by (simp add: invalidate_rect_def Let_def redraws_def marks_ok_def rect_empty_def rect_contains_def mk_rect_def min_i32_def max_i32_def) linarith
  qed
qed

theorem invalidate_covers_witness:
  "redraws (invalidate_rect (mk_rect (- 10) 5 40 40) (sample_gui\<lparr>g_dirty := True, dirty_rect := mk_rect 100 100 10 10\<rparr>)) 105 105"
proof -
  let ?g = "sample_gui\<lparr>g_dirty := True, dirty_rect := mk_rect 100 100 10 10\<rparr>"
  have "marks_ok ?g" by (simp add: marks_ok_def rect_empty_def mk_rect_def)
  moreover have "on_screen (gmetrics ?g) 105 105" by (simp add: on_screen_def sample_gui_def)
  moreover have "redraws ?g 105 105" by (simp add: redraws_def rect_contains_def mk_rect_def)
  ultimately show ?thesis using invalidate_covers [of ?g 105 105] by blast
qed

section \<open>Every state of the desktop\<close>

text \<open>The operations on windows, in any order.\<close>

inductive desktop_step :: "gui_system \<Rightarrow> gui_system \<Rightarrow> bool" where
  step_open: "desktop_step g (open_app app g)"
| step_open_user: "desktop_step g (snd (open_user_app n g))"
| step_minimize: "desktop_step g (minimize_app app g)"
| step_close: "desktop_step g (close_app app g)"
| step_maximize: "desktop_step g (toggle_maximize_app app g)"
| step_press: "desktop_step g (handle_left_press x y g)"
| step_drag: "desktop_step g (handle_mouse_drag x y g)"

inductive_cases desktop_stepE: "desktop_step g g'"

lemma desktop_step_ok:
  assumes "desktop_step g g'" "desktop_ok g" shows "desktop_ok g'"
proof -
  have p: "placed g" using assms(2) by (simp add: desktop_ok_def)
  from assms(1) show ?thesis
    by (rule desktop_stepE) (simp_all only: desktop_ok_open [OF p] desktop_ok_toggle [OF p] desktop_ok_open_user [OF assms(2)]
        desktop_ok_minimize [OF assms(2)] desktop_ok_close [OF assms(2)] desktop_ok_press [OF assms(2)] desktop_ok_drag [OF assms(2)])
qed

text \<open>C19. The windows stay usable. Whatever sequence of opening, closing, minimizing, maximizing, pressing and dragging follows a state in which, on a screen of
  at least 342 by 206 pixels, every window is on the desktop and at most one open window has the focus, this is so again afterwards: each
  of the five windows, and the place it is restored to, lies inside the screen and above the task bar, at least as large as
  the smallest window, and at most one of them, an open one, has the focus.\<close>

theorem desktop_windows_stay:
  assumes "desktop_ok g" "desktop_step\<^sup>*\<^sup>* g g'"
  shows "(\<forall>a w. window_for_app a g' = Some w \<longrightarrow> well_placed (gmetrics g') w)
    \<and> (\<forall>a b w v. window_for_app a g' = Some w \<and> window_for_app b g' = Some v \<and> wfocused w \<and> wfocused v \<longrightarrow> a = b \<and> wopen w)"
proof -
  have ok: "desktop_ok g'" using assms(2,1) by (induction rule: rtranclp_induct) (auto intro: desktop_step_ok)
  have w: "a \<noteq> AppNone \<and> w = win a g'" if "window_for_app a g' = Some w" for a w using that by (cases a) (auto simp: window_for_app_def)
  have p: "well_placed (gmetrics g') (win a g')" if "a \<noteq> AppNone" for a using ok that by (simp add: desktop_ok_def placed_def)
  have o: "a = b \<and> wopen (win a g')" if "a \<noteq> AppNone" "b \<noteq> AppNone" "wfocused (win a g')" "wfocused (win b g')" for a b
    using ok that unfolding desktop_ok_def one_focus_def by meson
  show ?thesis
  proof (intro conjI allI impI)
    show "well_placed (gmetrics g') v" if "window_for_app a g' = Some v" for a v using w [OF that] p by simp
    show "a = b" "wopen v" if "window_for_app a g' = Some v \<and> window_for_app b g' = Some u \<and> wfocused v \<and> wfocused u" for a b v u
      using that w [of a v] w [of b u] o [of a b] by simp_all
  qed
qed

lemma sample_desktop_ok: "desktop_ok sample_gui"
proof -
  have m: "gmetrics sample_gui = \<lparr>mwidth = 640, mheight = 480, taskbar_h = 30\<rparr>" by (simp add: sample_gui_def)
  have "well_placed (gmetrics sample_gui) (sample_window x y z i f)" if "0 \<le> x" "x \<le> 200" "0 \<le> y" "y \<le> 200" for x y z i f
    using that by (simp add: m placement_defs sample_window_def)
  then have "well_placed (gmetrics sample_gui) (win a sample_gui)" if "a \<noteq> AppNone" for a
    using that by (cases a) (simp_all add: sample_windows)
  then have "placed sample_gui" by (simp add: placed_def m metrics_ok_def)
  moreover have f: "wfocused (win a sample_gui) \<longleftrightarrow> a = Files" if "a \<noteq> AppNone" for a
    using that by (cases a) (simp_all add: sample_windows sample_window_def)
  have "wopen (win Files sample_gui)" by (simp add: sample_windows sample_window_def)
  then have "one_focus sample_gui" unfolding one_focus_def using f by blast
  ultimately show ?thesis by (simp add: desktop_ok_def)
qed

theorem desktop_windows_stay_witness:
  "let g = handle_mouse_drag 900 (- 50) (handle_left_press 250 155 (open_app Monitor sample_gui))
   in \<forall>a w. window_for_app a g = Some w \<longrightarrow> well_placed (gmetrics g) w"
proof -
  have "desktop_step\<^sup>*\<^sup>* sample_gui (handle_mouse_drag 900 (- 50) (handle_left_press 250 155 (open_app Monitor sample_gui)))"
    by (rule rtranclp.rtrancl_into_rtrancl [OF rtranclp.rtrancl_into_rtrancl [OF r_into_rtranclp [of desktop_step, OF step_open] step_press] step_drag])
  from desktop_windows_stay [OF sample_desktop_ok this] show ?thesis unfolding Let_def by blast
qed

end
