(* ===== verification/Spec2Isabelle.thy ===== *)
theory Spec2Isabelle
  imports Heap_Alloc Runtime Diskfs_Alloc Input Paging_Boot Usermode_Elf Usermode_Table Graphics_Copy Console Interrupts Platform Gui_System
begin

text \<open>Verification of the myos kernel and desktop.\<close>

end
